(* ===== verification/Prelude.thy ===== *)
theory Prelude
  imports Main "HOL-Library.Word"
begin

text \<open>
  Prelude of the nugget development: the machine integer types of the code, the collections of
  simplification rules the component theories fill, and the generic facts about words, lists and
  bounded loops that several components share.

  \<^item> \<open>uint8_t\<close>, \<open>uint16_t\<close>, \<open>uint32_t\<close> and \<open>uint64_t\<close> are words of that width; arithmetic on them wraps.
  \<^item> A byte buffer is a list of \<open>u8\<close>; a store out of its range is written out where the code can
    make one.
  \<^item> Counters the code keeps in a wide integer but bounds by a constant are natural numbers; each
    theory that uses one states the bound.
\<close>

unbundle bit_operations_syntax

type_synonym u8 = "8 word"
type_synonym u16 = "16 word"
type_synonym u32 = "32 word"
type_synonym u64 = "64 word"
type_synonym bytes = "u8 list"

named_theorems u_simps "reading the bit operations of a word as arithmetic on its value"
named_theorems frame_simps "reading back what an operation stored"
named_theorems step_simps "one step of a state machine"
named_theorems walk_simps "walking a linked chain of blocks"

section \<open>Words as numbers\<close>

lemma unat_drop_bit [u_simps]:
  fixes w :: "'a::len word"
  shows "unat (drop_bit n w) = unat w div 2 ^ n"
proof -
  have "unat (drop_bit n w) = drop_bit n (take_bit LENGTH('a) (unat w))"
    by (simp only: unsigned_drop_bit_eq)
  also have "take_bit LENGTH('a) (unat w) = unat w"
    by (simp add: take_bit_nat_eq_self_iff)
  finally show ?thesis by (simp add: drop_bit_eq_div)
qed

lemma unat_take_bit [u_simps]:
  fixes w :: "'a::len word"
  shows "unat (take_bit n w) = unat w mod 2 ^ n"
  by (simp only: unsigned_take_bit_eq) (simp only: take_bit_eq_mod)

lemma and_mask_take:
  fixes w :: "'a::len word"
  shows "w AND mask n = take_bit n w"
  by (simp add: take_bit_eq_mask)

lemma and_0xff: "(w :: u32) AND 0xff = take_bit 8 w"
  by (simp add: take_bit_eq_mask mask_eq_exp_minus_1)

lemma and_0xffff: "(w :: u32) AND 0xffff = take_bit 16 w"
  by (simp add: take_bit_eq_mask mask_eq_exp_minus_1)

lemma and_3: "(w :: u32) AND 3 = take_bit 2 w"
  by (simp add: take_bit_eq_mask mask_eq_exp_minus_1)

lemma unat_and_masks [u_simps]:
  "unat ((w :: u32) AND 0xff) = unat w mod 256"
  "unat (w AND 0xffff) = unat w mod 65536"
  "unat (w AND 3) = unat w mod 4"
  by (simp_all add: and_0xff and_0xffff and_3 unat_take_bit)

lemma unat_u8_less [simp]: "unat (x :: u8) < 256"
  using unsigned_less [of x] by simp

lemma unat_u16_less [simp]: "unat (x :: u16) < 65536"
  using unsigned_less [of x] by simp

lemma unat_u32_less [simp]: "unat (x :: u32) < 4294967296"
  using unsigned_less [of x] by simp

lemma bit_word_high [simp]:
  "8 \<le> n \<Longrightarrow> \<not> bit (x :: u8) n" "16 \<le> n \<Longrightarrow> \<not> bit (y :: u16) n" "32 \<le> n \<Longrightarrow> \<not> bit (z :: u32) n"
  by (auto dest: bit_imp_le_length)

lemma unat_of_nat_u32: "n < 4294967296 \<Longrightarrow> unat (of_nat n :: u32) = n"
  by (simp add: unsigned_of_nat take_bit_nat_eq_self_iff)

lemma unat_plus_small:
  fixes a b :: "'a::len word"
  assumes "unat a + unat b < 2 ^ LENGTH('a)"
  shows "unat (a + b) = unat a + unat b"
  using assms by (simp add: unat_word_ariths)

lemma unat_ucast_up [u_simps]:
  "unat (ucast (x :: u8) :: u32) = unat x"
  "unat (ucast (x :: u8) :: u16) = unat x"
  "unat (ucast (y :: u16) :: u32) = unat y"
  by (simp_all add: unsigned_ucast_eq take_bit_nat_eq_self_iff order_less_trans [OF unat_u8_less] order_less_trans [OF unat_u16_less])

lemma unat_ucast_down [u_simps]:
  "unat (ucast (x :: u32) :: u8) = unat x mod 256"
  "unat (ucast (y :: u16) :: u8) = unat y mod 256"
  "unat (ucast (x :: u32) :: u16) = unat x mod 65536"
  by (simp_all add: unsigned_ucast_eq take_bit_eq_mod)

section \<open>An interface: values that survive being stored\<close>

text \<open>
  Several components store a value in another representation and read it back: block addresses as
  minutes, seconds and frames, numbers as BCD digits or as little-endian bytes. The contract is that
  reading back what was stored gives the value, for the values the representation has room for.
\<close>

locale codec =
  fixes enc :: "'a \<Rightarrow> 'b" and dec :: "'b \<Rightarrow> 'a" and valid :: "'a \<Rightarrow> bool"
  assumes dec_enc: "valid x \<Longrightarrow> dec (enc x) = x"
begin

lemma enc_inj: "valid x \<Longrightarrow> valid y \<Longrightarrow> enc x = enc y \<longleftrightarrow> x = y"
  by (metis dec_enc)

lemma map_dec_enc: "list_all valid xs \<Longrightarrow> map dec (map enc xs) = xs"
  by (induction xs) (simp_all add: dec_enc)

lemma enc_in_image: "valid x \<Longrightarrow> y \<in> enc ` {x. valid x} \<Longrightarrow> enc (dec y) = y"
  by (auto simp: dec_enc)

end

end
