(* ===== verification/Adler32.thy ===== *)
theory Adler32
  imports Prelude
begin

text \<open>
  The checksum of \<open>psyqo/src/adler32.cpp\<close>: a byte loop, a word loop and the front end that splits a
  buffer of any alignment over the two. The code keeps both sums unreduced in 32 bits over blocks of
  3800 bytes (950 words), folds the high halves back with \<open>65536 = 15 (mod 65521)\<close> between blocks and
  reduces once at the end. The theorems show that no 32-bit addition ever wraps and that all three
  functions compute the Adler-32 of the byte sequence, so buffers can be chunked and re-aligned at will.
\<close>

section \<open>The code\<close>

definition MOD_ADLER :: u32 where
  "MOD_ADLER = 65521"

text \<open>The two sums packed in \<open>sum\<close>, and how they are folded and packed again.\<close>

definition sum_a :: "u32 \<Rightarrow> u32" where
  "sum_a acc = acc AND 0xffff"

definition sum_b :: "u32 \<Rightarrow> u32" where
  "sum_b acc = drop_bit 16 acc"

definition fold16 :: "u32 \<Rightarrow> u32" where
  "fold16 x = 15 * drop_bit 16 x + (x AND 0xffff)"

definition pack :: "u32 \<times> u32 \<Rightarrow> u32" where
  "pack ab = (let a = fst ab mod MOD_ADLER; b = snd ab mod MOD_ADLER in push_bit 16 b OR a)"

text \<open>The inner loop over one block: \<open>a += buffer[i++]; b += a\<close>.\<close>

fun bytes_block :: "u32 \<Rightarrow> u32 \<Rightarrow> bytes \<Rightarrow> u32 \<times> u32" where
  "bytes_block a b [] = (a, b)"
| "bytes_block a b (x # xs) = (let a = a + ucast x; b = b + a in bytes_block a b xs)"

text \<open>The outer loop: \<open>min(length - i, 3800)\<close> bytes, then the fold of both sums.\<close>

function bytes_loop :: "u32 \<Rightarrow> u32 \<Rightarrow> bytes \<Rightarrow> u32 \<times> u32" where
  "bytes_loop a b buffer =
     (if buffer = [] then (a, b)
      else let (a, b) = bytes_block a b (take 3800 buffer)
           in bytes_loop (fold16 a) (fold16 b) (drop 3800 buffer))"
  by pat_completeness auto
termination by (relation "measure (\<lambda>(a, b, buffer). length buffer)") auto

declare bytes_loop.simps [simp del]

definition adler32_bytes :: "bytes \<Rightarrow> u32 \<Rightarrow> u32" where
  "adler32_bytes buffer acc = pack (bytes_loop (sum_a acc) (sum_b acc) buffer)"

text \<open>One word of the word loop: its four bytes, lowest first, each shifted down by 8.\<close>

definition word_step :: "u32 \<Rightarrow> u32 \<Rightarrow> u32 \<Rightarrow> u32 \<times> u32" where
  "word_step a b w =
     (let a = a + (w AND 0xff); b = b + a; w = drop_bit 8 w;
          a = a + (w AND 0xff); b = b + a; w = drop_bit 8 w;
          a = a + (w AND 0xff); b = b + a; w = drop_bit 8 w;
          a = a + (w AND 0xff); b = b + a
      in (a, b))"

fun words_block :: "u32 \<Rightarrow> u32 \<Rightarrow> u32 list \<Rightarrow> u32 \<times> u32" where
  "words_block a b [] = (a, b)"
| "words_block a b (w # ws) = (let (a, b) = word_step a b w in words_block a b ws)"

function words_loop :: "u32 \<Rightarrow> u32 \<Rightarrow> u32 list \<Rightarrow> u32 \<times> u32" where
  "words_loop a b buffer =
     (if buffer = [] then (a, b)
      else let (a, b) = words_block a b (take 950 buffer)
           in words_loop (fold16 a) (fold16 b) (drop 950 buffer))"
  by pat_completeness auto
termination by (relation "measure (\<lambda>(a, b, buffer). length buffer)") auto

declare words_loop.simps [simp del]

definition adler32_words :: "u32 list \<Rightarrow> u32 \<Rightarrow> u32" where
  "adler32_words buffer acc = pack (words_loop (sum_a acc) (sum_b acc) buffer)"

text \<open>
  \<open>reinterpret_cast<uint32_t*>\<close> on the little-endian target: the words the aligned part of the buffer
  holds, lowest byte first. Trailing bytes that do not fill a word are not read.
\<close>

fun as_words :: "bytes \<Rightarrow> u32 list" where
  "as_words (x0 # x1 # x2 # x3 # xs) =
     (ucast x0 OR push_bit 8 (ucast x1) OR push_bit 16 (ucast x2) OR push_bit 24 (ucast x3)) # as_words xs"
| "as_words _ = []"

text \<open>
  The front end: \<open>addr\<close> is the address of the buffer, of which only the two low bits matter.
\<close>

definition adler32 :: "u32 \<Rightarrow> bytes \<Rightarrow> u32 \<Rightarrow> u32" where
  "adler32 addr buffer acc =
     (if length buffer < 8 then adler32_bytes buffer acc
      else
        let align = addr AND 3;
            skip = (if align \<noteq> 0 then unat (4 - align) else 0);
            acc = (if align \<noteq> 0 then adler32_bytes (take skip buffer) acc else acc);
            buffer = drop skip buffer;
            words = length buffer div 4;
            acc = adler32_words (as_words (take (4 * words) buffer)) acc
        in adler32_bytes (drop (4 * words) buffer) acc)"

section \<open>The specification\<close>

text \<open>Adler-32 as it is defined: both sums reduced modulo 65521 after every byte.\<close>

definition adler_step :: "nat \<times> nat \<Rightarrow> u8 \<Rightarrow> nat \<times> nat" where
  "adler_step ab x = (let a = (fst ab + unat x) mod 65521 in (a, (snd ab + a) mod 65521))"

definition adler_spec :: "nat \<times> nat \<Rightarrow> bytes \<Rightarrow> nat \<times> nat" where
  "adler_spec ab xs = foldl adler_step ab xs"

definition spec_init :: "u32 \<Rightarrow> nat \<times> nat" where
  "spec_init acc = (unat acc mod 65536 mod 65521, unat acc div 65536 mod 65521)"

definition spec_pack :: "nat \<times> nat \<Rightarrow> u32" where
  "spec_pack ab = of_nat (snd ab * 65536 + fst ab)"

section \<open>No addition wraps, and the blocks compute the specification\<close>


lemma unat_fold16: "unat (fold16 x) = 15 * (unat x div 65536) + unat x mod 65536"
proof -
  have q: "unat x div 65536 < 65536" using unat_u32_less [of x] by linarith
  then have "unat (15 * drop_bit 16 x) = 15 * (unat x div 65536)"
    by (simp add: unat_word_ariths unat_drop_bit)
  moreover have "unat x mod 65536 < 65536" by simp
  ultimately show ?thesis
    using q by (simp add: fold16_def unat_plus_small unat_and_masks)
qed

lemma fold16_mod: "unat (fold16 x) mod 65521 = unat x mod 65521"
proof -
  have "unat x = 65521 * (unat x div 65536) + unat (fold16 x)"
    unfolding unat_fold16 by simp
  then show ?thesis by (metis mod_mult_self4)
qed

lemma fold16_le: "unat (fold16 x) \<le> 1048560"
proof -
  have "unat x div 65536 < 65536" using unat_u32_less [of x] by linarith
  then show ?thesis unfolding unat_fold16 by simp
qed

lemma fold16_le_a:
  assumes "unat x \<le> 1034760"
  shows "unat (fold16 x) \<le> 65760"
proof -
  have "unat x div 65536 \<le> 15" using assms by linarith
  moreover have "unat x mod 65536 \<le> 65535" by simp
  ultimately show ?thesis unfolding unat_fold16 by linarith
qed

lemma adler_step_mod:
  "adler_step (a mod 65521, b mod 65521) x = ((a + unat x) mod 65521, (b + (a + unat x)) mod 65521)"
  by (simp add: adler_step_def mod_simps)

lemma bytes_block_spec:
  assumes "unat b + length xs * (unat a + 255 * length xs) < 4294967296"
    and "unat a + 255 * length xs < 4294967296"
  shows "unat (fst (bytes_block a b xs)) \<le> unat a + 255 * length xs"
    and "(unat (fst (bytes_block a b xs)) mod 65521, unat (snd (bytes_block a b xs)) mod 65521) =
         adler_spec (unat a mod 65521, unat b mod 65521) xs"
proof -
  have "unat (fst (bytes_block a b xs)) \<le> unat a + 255 * length xs \<and>
        (unat (fst (bytes_block a b xs)) mod 65521, unat (snd (bytes_block a b xs)) mod 65521) =
         adler_spec (unat a mod 65521, unat b mod 65521) xs"
    using assms
  proof (induction xs arbitrary: a b)
    case Nil
    then show ?case by (simp add: adler_spec_def)
  next
    case (Cons x xs)
    let ?a = "a + ucast x" and ?n = "length xs"
    have x: "unat x \<le> 255" using unat_u8_less [of x] by linarith
    have a: "unat ?a = unat a + unat x"
      using Cons.prems x by (subst unat_plus_small) (simp_all add: unat_ucast_up)
    define k where "k = unat a + 255 * Suc ?n"
    have "?n * (unat a + unat x + 255 * ?n) \<le> ?n * k"
      using x by (intro mult_le_mono2) (simp add: k_def)
    moreover have "unat a + unat x \<le> k" using x by (simp add: k_def)
    moreover have "unat b + (k + ?n * k) < 4294967296" using Cons.prems(1) by (simp add: k_def)
    ultimately have small: "unat b + (unat a + unat x) + ?n * (unat a + unat x + 255 * ?n) < 4294967296"
      by linarith
    then have b: "unat (b + ?a) = unat b + (unat a + unat x)"
      by (subst unat_plus_small) (simp_all add: a)
    have "unat (b + ?a) + ?n * (unat ?a + 255 * ?n) < 4294967296"
      using small by (simp add: a b)
    moreover have "unat ?a + 255 * ?n < 4294967296" using Cons.prems(2) x by (simp add: a)
    ultimately have "unat (fst (bytes_block ?a (b + ?a) xs)) \<le> unat ?a + 255 * ?n \<and>
        (unat (fst (bytes_block ?a (b + ?a) xs)) mod 65521,
         unat (snd (bytes_block ?a (b + ?a) xs)) mod 65521) =
        adler_spec (unat ?a mod 65521, unat (b + ?a) mod 65521) xs"
      by (rule Cons.IH)
    then show ?case
      using x by (auto simp: Let_def a b adler_spec_def adler_step_mod)
  qed
  then show "unat (fst (bytes_block a b xs)) \<le> unat a + 255 * length xs"
    and "(unat (fst (bytes_block a b xs)) mod 65521, unat (snd (bytes_block a b xs)) mod 65521) =
         adler_spec (unat a mod 65521, unat b mod 65521) xs" by auto
qed

lemma adler_spec_append: "adler_spec ab (xs @ ys) = adler_spec (adler_spec ab xs) ys"
  by (simp add: adler_spec_def)

lemma bytes_loop_spec:
  assumes "unat a \<le> 65760" and "unat b \<le> 1048560"
  shows "(unat (fst (bytes_loop a b xs)) mod 65521, unat (snd (bytes_loop a b xs)) mod 65521) =
         adler_spec (unat a mod 65521, unat b mod 65521) xs"
  using assms
proof (induction a b xs rule: bytes_loop.induct)
  case (1 a b xs)
  show ?case
  proof (cases "xs = []")
    case True
    then show ?thesis by (simp add: bytes_loop.simps adler_spec_def)
  next
    case False
    obtain a' b' where ab: "bytes_block a b (take 3800 xs) = (a', b')" by force
    define n where "n = length (take 3800 xs)"
    have n: "n \<le> 3800" by (simp add: n_def)
    then have "n * (unat a + 255 * n) \<le> 3800 * (65760 + 255 * 3800)"
      using "1.prems"(1) by (intro mult_le_mono add_mono) auto
    then have "unat b + n * (unat a + 255 * n) < 4294967296" using "1.prems"(2) by simp
    moreover have "unat a + 255 * n < 4294967296" using "1.prems"(1) n by linarith
    ultimately have blk: "unat a' \<le> unat a + 255 * n"
      "(unat a' mod 65521, unat b' mod 65521) = adler_spec (unat a mod 65521, unat b mod 65521) (take 3800 xs)"
      using bytes_block_spec [of b "take 3800 xs" a] unfolding ab n_def by auto
    then have "unat (fold16 a') \<le> 65760" using "1.prems"(1) n by (intro fold16_le_a) linarith
    then have "(unat (fst (bytes_loop (fold16 a') (fold16 b') (drop 3800 xs))) mod 65521,
        unat (snd (bytes_loop (fold16 a') (fold16 b') (drop 3800 xs))) mod 65521) =
        adler_spec (unat (fold16 a') mod 65521, unat (fold16 b') mod 65521) (drop 3800 xs)"
      using "1.IH" [OF False ab [symmetric] refl] fold16_le by blast
    also have "\<dots> = adler_spec (unat a mod 65521, unat b mod 65521) (take 3800 xs @ drop 3800 xs)"
      by (simp only: fold16_mod blk(2) adler_spec_append)
    finally show ?thesis using False ab by (simp add: bytes_loop.simps [of a b xs])
  qed
qed

lemma pack_spec: "pack ab = spec_pack (unat (fst ab) mod 65521, unat (snd ab) mod 65521)"
proof -
  let ?a = "fst ab mod 65521" and ?b = "snd ab mod 65521"
  have "unat ?a < 65536"
    by (simp add: unat_mod)
  then have "unat (take_bit 16 ?a) = unat ?a" by (simp only: unat_take_bit) simp
  then have a: "take_bit 16 ?a = ?a" by (simp only: word_unat_eq_iff)
  have "push_bit 16 ?b AND take_bit 16 ?a = 0" by (rule bit_word_eqI) (auto simp: bit_simps)
  then have "push_bit 16 ?b OR ?a = push_bit 16 ?b + ?a"
    unfolding a by (rule disjunctive_add_eq_or [symmetric])
  also have "\<dots> = of_nat (unat ?b * 65536 + unat ?a)"
    by (simp add: push_bit_eq_mult mult.commute)
  finally show ?thesis
    by (simp add: pack_def spec_pack_def MOD_ADLER_def Let_def unat_mod)
qed

lemma sum_ab:
  "unat (sum_a acc) = unat acc mod 65536" "unat (sum_b acc) = unat acc div 65536"
  by (simp_all add: sum_a_def sum_b_def u_simps)

lemma adler32_bytes_spec: "adler32_bytes xs acc = spec_pack (adler_spec (spec_init acc) xs)"
proof -
  have "unat (sum_a acc) \<le> 65760" "unat (sum_b acc) \<le> 1048560"
    using unat_u32_less [of acc] unfolding sum_ab by (simp_all, linarith+)
  then show ?thesis
    using bytes_loop_spec [of "sum_a acc" "sum_b acc" xs]
    by (simp add: adler32_bytes_def pack_spec spec_init_def sum_ab)
qed

definition word_bytes :: "u32 \<Rightarrow> bytes" where
  "word_bytes w = [ucast w, ucast (drop_bit 8 w), ucast (drop_bit 16 w), ucast (drop_bit 24 w)]"

lemma ucast_low8: "(ucast (ucast (w :: u32) :: u8) :: u32) = w AND 0xff"
  unfolding and_0xff by (rule bit_word_eqI) (auto simp: bit_simps)

lemma length_word_bytes: "length (word_bytes w) = 4"
  by (simp add: word_bytes_def)

lemma word_bytes_not_Nil [simp]: "word_bytes w \<noteq> []"
  by (simp add: word_bytes_def)

lemma word_step_bytes: "word_step a b w = bytes_block a b (word_bytes w)"
  by (simp add: word_step_def Let_def ucast_low8 word_bytes_def drop_bit_drop_bit)

lemma bytes_block_append:
  "bytes_block a b (xs @ ys) = (let (a, b) = bytes_block a b xs in bytes_block a b ys)"
  by (induction xs arbitrary: a b) (simp_all add: Let_def)

lemma words_block_bytes: "words_block a b ws = bytes_block a b (concat (map word_bytes ws))"
  by (induction ws arbitrary: a b)
    (simp_all add: word_step_bytes bytes_block_append)

lemma concat_word_bytes_take:
  "concat (map word_bytes (take n ws)) = take (4 * n) (concat (map word_bytes ws))"
proof (induction ws arbitrary: n)
  case (Cons w ws)
  then show ?case by (cases n) (simp_all add: length_word_bytes)
qed simp

lemma concat_word_bytes_drop:
  "concat (map word_bytes (drop n ws)) = drop (4 * n) (concat (map word_bytes ws))"
proof (induction ws arbitrary: n)
  case (Cons w ws)
  then show ?case by (cases n) (simp_all add: length_word_bytes)
qed simp

lemma words_loop_bytes: "words_loop a b ws = bytes_loop a b (concat (map word_bytes ws))"
proof (induction a b ws rule: words_loop.induct)
  case (1 a b ws)
  show ?case
  proof (cases "ws = []")
    case True
    then show ?thesis by (simp add: words_loop.simps bytes_loop.simps)
  next
    case False
    obtain a' b' where ab: "words_block a b (take 950 ws) = (a', b')" by force
    then have "bytes_block a b (take 3800 (concat (map word_bytes ws))) = (a', b')"
      using concat_word_bytes_take [of 950 ws] by (simp add: words_block_bytes)
    moreover have "concat (map word_bytes (drop 950 ws)) = drop 3800 (concat (map word_bytes ws))"
      using concat_word_bytes_drop [of 950 ws] by simp
    ultimately show ?thesis
      using "1.IH" [OF False ab [symmetric] refl] False ab
      by (simp add: words_loop.simps [of a b ws] bytes_loop.simps [of a b "concat _"])
  qed
qed

lemma word_bytes_of_bytes:
  "word_bytes (ucast x0 OR push_bit 8 (ucast x1) OR push_bit 16 (ucast x2) OR push_bit 24 (ucast x3))
   = [x0, x1, x2, x3]"
  unfolding word_bytes_def
  by (auto intro!: bit_word_eqI simp: bit_simps dest: bit_imp_le_length)

lemma as_words_bytes:
  "length xs mod 4 = 0 \<Longrightarrow> concat (map word_bytes (as_words xs)) = xs"
  by (induction xs rule: as_words.induct) (simp_all add: word_bytes_of_bytes)


lemma adler32_words_bytes:
  "adler32_words ws acc = adler32_bytes (concat (map word_bytes ws)) acc"
  by (simp add: adler32_words_def adler32_bytes_def words_loop_bytes)

lemma adler_step_less: "fst (adler_step ab x) < 65521" "snd (adler_step ab x) < 65521"
  by (simp_all add: adler_step_def Let_def)

lemma adler_spec_less:
  assumes "fst ab < 65521" and "snd ab < 65521"
  shows "fst (adler_spec ab xs) < 65521 \<and> snd (adler_spec ab xs) < 65521"
  using assms unfolding adler_spec_def
  by (induction xs arbitrary: ab) (simp_all add: adler_step_less)

lemma spec_init_pack:
  assumes "a < 65521" and "b < 65521"
  shows "spec_init (spec_pack (a, b)) = (a, b)"
proof -
  have "unat (spec_pack (a, b)) = b * 65536 + a"
    using assms by (simp add: spec_pack_def unat_of_nat del: of_nat_add of_nat_mult)
  then show ?thesis using assms by (simp add: spec_init_def)
qed

lemma spec_init_less: "fst (spec_init acc) < 65521" "snd (spec_init acc) < 65521"
  by (simp_all add: spec_init_def)

lemma adler32_bytes_append:
  "adler32_bytes (xs @ ys) acc = adler32_bytes ys (adler32_bytes xs acc)"
proof -
  let ?ab = "adler_spec (spec_init acc) xs"
  have "spec_init (spec_pack ?ab) = ?ab"
    using adler_spec_less [OF spec_init_less, of acc xs] spec_init_pack [of "fst ?ab" "snd ?ab"]
    by simp
  then show ?thesis by (simp add: adler32_bytes_spec adler_spec_append)
qed

lemma adler32_eq_bytes: "adler32 addr xs acc = adler32_bytes xs acc"
proof (cases "length xs < 8")
  case True
  then show ?thesis by (simp add: adler32_def)
next
  case False
  define k where "k = (if addr AND 3 \<noteq> 0 then unat (4 - (addr AND 3)) else 0)"
  define n where "n = length (drop k xs) div 4"
  let ?ys = "drop k xs"
  have "adler32 addr xs acc = adler32_bytes (drop (4 * n) ?ys)
      (adler32_words (as_words (take (4 * n) ?ys)) (if addr AND 3 \<noteq> 0 then adler32_bytes (take k xs) acc else acc))"
    using False unfolding adler32_def k_def n_def Let_def by simp
  also have "\<dots> = adler32_bytes (take (4 * n) ?ys @ drop (4 * n) ?ys)
      (if addr AND 3 \<noteq> 0 then adler32_bytes (take k xs) acc else acc)"
    by (simp only: adler32_words_bytes adler32_bytes_append) (simp add: as_words_bytes n_def)
  also have "\<dots> = adler32_bytes xs acc"
  proof (cases "addr AND 3 = 0")
    case True
    then show ?thesis by (simp add: k_def)
  next
    case False
    then show ?thesis by (simp flip: adler32_bytes_append del: drop_drop)
  qed
  finally show ?thesis .
qed


section \<open>Properties\<close>

text \<open>C7: For every buffer, every alignment of it and every starting sum, \<open>adler32\<close> returns the Adler-32
  of the bytes: although it only reduces modulo 65521 at the end, delays the fold to once per 3800 bytes
  and reads the aligned part as words, no 32-bit sum wraps and no byte is skipped or read twice.\<close>

theorem adler32_correct: "adler32 addr xs acc = spec_pack (adler_spec (spec_init acc) xs)"
  by (simp add: adler32_eq_bytes adler32_bytes_spec)

text \<open>A buffer can be checksummed in chunks at any addresses by passing the sum of one chunk to the
  next, as the header of the function promises.\<close>

theorem adler32_chunked: "adler32 addr (xs @ ys) acc = adler32 addr' ys (adler32 addr'' xs acc)"
  by (simp add: adler32_eq_bytes adler32_bytes_append)

end
