(* ===== verification/Msf.thy ===== *)
theory Msf
  imports Prelude
begin

text \<open>
  Minutes, seconds and frames of a CD position (\<open>psyqo/msf.hh\<close>, \<open>psyqo/src/msf.cpp\<close>): BCD conversion,
  conversion to and from a logical block address, increment and order. The fields are 8-bit; the
  arithmetic on them is promoted to \<open>int\<close> or \<open>uint32_t\<close> and narrowed when stored.
\<close>

definition btoi :: "u8 \<Rightarrow> u8" where
  "btoi b = (b div 16) * 10 + (b mod 16)"

definition itob :: "u8 \<Rightarrow> u8" where
  "itob i = (i div 10) * 16 + (i mod 10)"

record msf =
  m :: u8
  s :: u8
  f :: u8

text \<open>The constructor from a block address: each quotient is narrowed to 8 bits as it is stored.\<close>

definition msf_of_lba :: "u32 \<Rightarrow> msf" where
  "msf_of_lba lba =
     (let mm = ucast (lba div 75 div 60) :: u8;
          lba = lba - ucast mm * 75 * 60;
          ss = ucast (lba div 75) :: u8;
          lba = lba - ucast ss * 75;
          ff = ucast lba :: u8
      in \<lparr>m = mm, s = ss, f = ff\<rparr>)"

definition toLBA :: "msf \<Rightarrow> u32" where
  "toLBA x = (ucast (m x) * 60 + ucast (s x)) * 75 + ucast (f x)"

text \<open>The three-way comparison, as the sign of the first field that differs.\<close>

definition cmp_u8 :: "u8 \<Rightarrow> u8 \<Rightarrow> int" where
  "cmp_u8 a b = (if a < b then -1 else if a = b then 0 else 1)"

definition msf_cmp :: "msf \<Rightarrow> msf \<Rightarrow> int" where
  "msf_cmp x y = (if m x \<noteq> m y then cmp_u8 (m x) (m y)
                  else if s x \<noteq> s y then cmp_u8 (s x) (s y) else cmp_u8 (f x) (f y))"

definition msf_eq :: "msf \<Rightarrow> msf \<Rightarrow> bool" where
  "msf_eq x y \<longleftrightarrow> m x = m y \<and> s x = s y \<and> f x = f y"

definition msf_inc :: "msf \<Rightarrow> msf" where
  "msf_inc x =
     (let x = x\<lparr>f := f x + 1\<rparr>
      in if f x \<ge> 75
         then let x = x\<lparr>f := 0, s := s x + 1\<rparr>
              in if s x \<ge> 60 then x\<lparr>s := 0, m := m x + 1\<rparr> else x
         else x)"

definition toBCD :: "msf \<Rightarrow> bytes" where
  "toBCD x = [itob (m x), itob (s x), itob (f x)]"

definition fromBCD :: "bytes \<Rightarrow> msf" where
  "fromBCD src = \<lparr>m = btoi (src ! 0), s = btoi (src ! 1), f = btoi (src ! 2)\<rparr>"

definition msf_reset :: "msf" where
  "msf_reset = \<lparr>m = 0, s = 0, f = 0\<rparr>"

text \<open>A position as the drive writes it: seconds below 60, frames below 75.\<close>

definition msf_wf :: "msf \<Rightarrow> bool" where
  "msf_wf x \<longleftrightarrow> unat (s x) < 60 \<and> unat (f x) < 75"

lemmas msf_simps = msf_of_lba_def toLBA_def msf_cmp_def msf_inc_def msf_wf_def cmp_u8_def Let_def

section \<open>Reading the fields as numbers\<close>


lemma unat_btoi: "unat (btoi b) = (unat b div 16 * 10 + unat b mod 16) mod 256"
  by (simp add: btoi_def unat_word_ariths unat_div unat_mod mod_simps)

lemma unat_itob: "unat (itob i) = (unat i div 10 * 16 + unat i mod 10) mod 256"
  by (simp add: itob_def unat_word_ariths unat_div unat_mod mod_simps)

lemma btoi_itob:
  assumes "i < 100"
  shows "btoi (itob i) = i"
proof -
  have i: "unat i < 100" using assms by (simp add: word_less_nat_alt)
  then have "unat i div 10 * 16 + unat i mod 10 < 256" by linarith
  then show ?thesis
    using i by (simp add: word_unat_eq_iff unat_btoi unat_itob)
qed

definition lba_nat :: "msf \<Rightarrow> nat" where
  "lba_nat x = unat (m x) * 4500 + unat (s x) * 75 + unat (f x)"

lemma lba_nat_less: "lba_nat x < 1172000"
  using unat_u8_less [of "m x"] unat_u8_less [of "s x"] unat_u8_less [of "f x"]
  unfolding lba_nat_def by linarith

lemma unat_toLBA: "unat (toLBA x) = lba_nat x"
proof -
  have "toLBA x = of_nat (lba_nat x)"
    by (simp add: toLBA_def lba_nat_def unsigned_of_nat algebra_simps)
  then show ?thesis using lba_nat_less [of x] by (simp add: unat_of_nat)
qed

lemma unat_minus_le: "unat b \<le> unat a \<Longrightarrow> unat (a - b) = unat a - unat b" for a b :: "'a::len word"
  by (rule unat_sub) (simp add: word_le_nat_alt)

lemma msf_of_lba_fields:
  assumes "unat lba < 1152000"
  shows "unat (m (msf_of_lba lba)) = unat lba div 4500"
    and "unat (s (msf_of_lba lba)) = unat lba mod 4500 div 75"
    and "unat (f (msf_of_lba lba)) = unat lba mod 75"
proof -
  define mm :: u8 where "mm = ucast (lba div 75 div 60)"
  define l1 where "l1 = lba - ucast mm * 75 * 60"
  define ss :: u8 where "ss = ucast (l1 div 75)"
  define l2 where "l2 = l1 - ucast ss * 75"
  have res: "msf_of_lba lba = \<lparr>m = mm, s = ss, f = ucast l2\<rparr>"
    by (simp add: msf_of_lba_def mm_def l1_def ss_def l2_def Let_def)
  have mm: "unat mm = unat lba div 4500"
    using assms by (simp add: mm_def unat_ucast_down unat_div div_mult2_eq [symmetric])
  have "unat (ucast mm * 75 * 60 :: u32) = 4500 * (unat lba div 4500)"
    using assms by (simp add: unat_word_ariths unat_ucast_up mm)
  then have l1: "unat l1 = unat lba mod 4500"
    unfolding l1_def by (subst unat_minus_le) (simp_all add: minus_mult_div_eq_mod)
  have "unat lba mod 4500 < 4500" by simp
  then have "unat lba mod 4500 div 75 < 60" by linarith
  then have ss: "unat ss = unat lba mod 4500 div 75"
    by (simp add: ss_def unat_ucast_down unat_div l1)
  have "unat (ucast ss * 75 :: u32) = 75 * (unat lba mod 4500 div 75)"
    using \<open>unat lba mod 4500 div 75 < 60\<close> by (simp add: unat_word_ariths unat_ucast_up ss)
  then have "unat l2 = unat lba mod 4500 mod 75"
    unfolding l2_def l1 by (subst unat_minus_le) (simp_all add: l1 minus_mult_div_eq_mod)
  then have l2: "unat l2 = unat lba mod 75" by (simp add: mod_mod_cancel)
  then have "unat (ucast l2 :: u8) = unat lba mod 75"
    by (simp add: unat_ucast_down order_less_trans [of _ 75])
  with mm ss res show "unat (m (msf_of_lba lba)) = unat lba div 4500"
    "unat (s (msf_of_lba lba)) = unat lba mod 4500 div 75"
    "unat (f (msf_of_lba lba)) = unat lba mod 75" by simp_all
qed

lemma toLBA_msf_of_lba:
  assumes "unat lba < 1152000"
  shows "toLBA (msf_of_lba lba) = lba" and "msf_wf (msf_of_lba lba)"
proof -
  have "unat lba mod 4500 mod 75 = unat lba mod 75" by (simp add: mod_mod_cancel)
  then have "lba_nat (msf_of_lba lba) = unat lba"
    unfolding lba_nat_def msf_of_lba_fields [OF assms]
    using div_mult_mod_eq [of "unat lba" 4500] div_mult_mod_eq [of "unat lba mod 4500" 75] by linarith
  then show "toLBA (msf_of_lba lba) = lba" by (simp add: word_unat_eq_iff unat_toLBA)
  have "unat lba mod 4500 < 4500" by simp
  then have "unat lba mod 4500 div 75 < 60" by linarith
  then show "msf_wf (msf_of_lba lba)" by (simp add: msf_wf_def msf_of_lba_fields [OF assms])
qed

lemma lba_nat_inj:
  assumes "msf_wf x" and "msf_wf y" and "lba_nat x = lba_nat y"
  shows "x = y"
proof -
  have "unat (m x) = lba_nat x div 4500 \<and> unat (s x) = lba_nat x mod 4500 div 75 \<and> unat (f x) = lba_nat x mod 75"
    if "msf_wf x" for x
  proof -
    let ?r = "unat (s x) * 75 + unat (f x)"
    have "?r < 4500" using that by (auto simp: msf_wf_def)
    moreover have "lba_nat x = ?r + unat (m x) * 4500" by (simp add: lba_nat_def)
    ultimately have "lba_nat x div 4500 = unat (m x)" "lba_nat x mod 4500 = ?r" by simp_all
    moreover have "lba_nat x mod 75 = unat (f x)"
    proof -
      have "lba_nat x = unat (f x) + (unat (m x) * 60 + unat (s x)) * 75"
        by (simp add: lba_nat_def algebra_simps)
      then have "lba_nat x mod 75 = unat (f x) mod 75" by (simp only: mod_mult_self1)
      then show ?thesis using that by (simp add: msf_wf_def)
    qed
    ultimately show ?thesis using that by (auto simp: msf_wf_def)
  qed
  with assms have "m x = m y" "s x = s y" "f x = f y" by (auto simp: word_unat_eq_iff)
  then show ?thesis by simp
qed

lemma unat_u8_inc: "unat x < 255 \<Longrightarrow> unat (x + 1 :: u8) = unat x + 1"
  by (subst unat_plus_small) simp_all

lemma msf_inc_lba:
  assumes "msf_wf x" and "lba_nat x < 1151999"
  shows "msf_wf (msf_inc x) \<and> lba_nat (msf_inc x) = lba_nat x + 1"
proof -
  have f: "unat (f x + 1) = unat (f x) + 1" and s: "unat (s x + 1) = unat (s x) + 1"
    using assms(1) by (auto simp: msf_wf_def unat_u8_inc)
  have m: "unat (m x + 1) = unat (m x) + 1" if "unat (s x) = 59" "unat (f x) = 74"
    using assms(2) that by (intro unat_u8_inc) (simp add: lba_nat_def)
  show ?thesis
    using assms(1) m by (auto simp: msf_inc_def Let_def word_le_nat_alt f s msf_wf_def lba_nat_def)
qed

lemma msf_cmp_lba:
  assumes "msf_wf x" and "msf_wf y"
  shows "msf_cmp x y = (if lba_nat x < lba_nat y then -1 else if lba_nat x = lba_nat y then 0 else 1)"
proof -
  have cmp: "cmp_u8 a b = (if unat a < unat b then -1 else if unat a = unat b then 0 else 1)" for a b
    by (simp add: cmp_u8_def word_less_nat_alt word_unat_eq_iff)
  show ?thesis
    using assms unfolding msf_cmp_def cmp word_unat_eq_iff msf_wf_def lba_nat_def by auto
qed


section \<open>The two stored forms\<close>

interpretation bcd: codec itob btoi "\<lambda>i. i < 100"
  by unfold_locales (rule btoi_itob)

interpretation lba: codec msf_of_lba toLBA "\<lambda>l. unat l < 1152000"
  by unfold_locales (rule toLBA_msf_of_lba)

lemma fromBCD_toBCD: "m x < 100 \<Longrightarrow> s x < 100 \<Longrightarrow> f x < 100 \<Longrightarrow> fromBCD (toBCD x) = x"
  by (simp add: fromBCD_def toBCD_def bcd.dec_enc)

section \<open>Properties\<close>

text \<open>Positions and block addresses are in bijection: converting a block address below 256 minutes to
  minutes, seconds and frames and back gives it again, distinct addresses give distinct positions, and a
  position the drive can send survives the BCD bytes it is sent in.\<close>

theorem msf_roundtrip:
  assumes "unat lba < 1152000" and "unat lba' < 1152000"
    and "m x < 100" and "s x < 100" and "f x < 100"
  shows "toLBA (msf_of_lba lba) = lba \<and> msf_wf (msf_of_lba lba) \<and>
         (msf_of_lba lba = msf_of_lba lba' \<longleftrightarrow> lba = lba') \<and> fromBCD (toBCD x) = x"
  using assms by (simp add: toLBA_msf_of_lba lba.enc_inj fromBCD_toBCD)

theorem msf_roundtrip_witness:
  "toLBA (msf_of_lba 123456) = 123456 \<and> msf_wf (msf_of_lba 123456) \<and>
   (msf_of_lba 123456 = msf_of_lba 7 \<longleftrightarrow> (123456 :: u32) = 7) \<and>
   fromBCD (toBCD \<lparr>m = 74, s = 59, f = 12\<rparr>) = \<lparr>m = 74, s = 59, f = 12\<rparr>"
  by (rule msf_roundtrip) simp_all

text \<open>Incrementing a well-formed position advances its block address by exactly one, carries frames
  into seconds and seconds into minutes and keeps it well-formed; and the three-way comparison of two
  well-formed positions orders them as their block addresses.\<close>

theorem msf_inc_cmp:
  assumes "msf_wf x" and "msf_wf y" and "unat (toLBA x) < 1151999"
  shows "msf_wf (msf_inc x) \<and> toLBA (msf_inc x) = toLBA x + 1 \<and> msf_cmp x (msf_inc x) = -1 \<and>
         msf_cmp x y = (if toLBA x < toLBA y then -1 else if msf_eq x y then 0 else 1)"
proof -
  have inc: "msf_wf (msf_inc x)" "lba_nat (msf_inc x) = lba_nat x + 1"
    using msf_inc_lba [OF assms(1)] assms(3) by (simp_all add: unat_toLBA)
  have "unat (toLBA x + 1) = lba_nat x + 1"
    using assms(3) by (subst unat_plus_small) (simp_all add: unat_toLBA)
  then have "toLBA (msf_inc x) = toLBA x + 1" by (simp add: word_unat_eq_iff unat_toLBA inc)
  moreover have "msf_eq x y \<longleftrightarrow> lba_nat x = lba_nat y"
    using lba_nat_inj [OF assms(1,2)] by (auto simp: msf_eq_def lba_nat_def)
  ultimately show ?thesis
    by (simp add: inc msf_cmp_lba assms word_less_nat_alt unat_toLBA)
qed

theorem msf_inc_cmp_witness:
  "let x = \<lparr>m = 3, s = 59, f = 74\<rparr>; y = \<lparr>m = 4, s = 0, f = 0\<rparr>
   in msf_wf (msf_inc x) \<and> toLBA (msf_inc x) = toLBA x + 1 \<and> msf_cmp x (msf_inc x) = -1 \<and>
      msf_cmp x y = (if toLBA x < toLBA y then -1 else if msf_eq x y then 0 else 1)"
  unfolding Let_def by (rule msf_inc_cmp) (simp_all add: msf_wf_def toLBA_def)

end
