(* ===== verification/Card_Types.thy ===== *)
theory Card_Types
  imports Prelude
begin

text \<open>
  What the memory card driver and the card filesystem share: the error codes, the ports and the geometry
  of \<open>psyqo/memory-card.hh\<close>, the classification of the errors a retry can cure, and the contract of the
  retry loops, stated once for every transport as a locale.
\<close>

section \<open>Errors, ports, geometry\<close>

datatype error =
    OK | NoCard | NotFormatted | BadChecksum | BadSector | Timeout | Unconnected | ProtocolError
  | DirectoryFull | OutOfSpace | FileNotFound | FileExists | NameTooLong | FileTooLarge
  | SerializeOverflow | BadData | BadPort

datatype port = Port0 | Port1

definition c_sectorSize :: nat where "c_sectorSize = 128"
definition c_sectorCount :: nat where "c_sectorCount = 1024"
definition c_blockSize :: nat where "c_blockSize = 8192"
definition c_blockCount :: nat where "c_blockCount = 16"
definition c_sectorsPerBlock :: nat where "c_sectorsPerBlock = 64"

lemmas geometry = c_sectorSize_def c_sectorCount_def c_blockSize_def c_blockCount_def c_sectorsPerBlock_def

fun errorMessage :: "error \<Rightarrow> string" where
  "errorMessage OK = ''OK''"
| "errorMessage NoCard = ''no memory card present''"
| "errorMessage NotFormatted = ''memory card is not formatted''"
| "errorMessage BadChecksum = ''bad checksum''"
| "errorMessage BadSector = ''bad sector''"
| "errorMessage Timeout = ''memory card timed out''"
| "errorMessage Unconnected = ''port not connected''"
| "errorMessage ProtocolError = ''memory card protocol error''"
| "errorMessage DirectoryFull = ''memory card directory is full''"
| "errorMessage OutOfSpace = ''not enough free blocks on the card''"
| "errorMessage FileNotFound = ''file not found''"
| "errorMessage FileExists = ''file already exists''"
| "errorMessage NameTooLong = ''filename too long''"
| "errorMessage FileTooLarge = ''file too large for a memory card''"
| "errorMessage SerializeOverflow = ''serialized data too large''"
| "errorMessage BadData = ''corrupt save data''"
| "errorMessage BadPort = ''invalid port''"

definition isTransient :: "error \<Rightarrow> bool" where
  "isTransient e = (case e of
     NoCard \<Rightarrow> True
   | Timeout \<Rightarrow> True
   | BadChecksum \<Rightarrow> True
   | ProtocolError \<Rightarrow> True
   | _ \<Rightarrow> False)"

text \<open>How many times a whole-sector transient failure is retried.\<close>

definition c_maxAttempts :: nat where "c_maxAttempts = 3"

lemma isTransient_OK [simp]: "\<not> isTransient OK"
  by (simp add: isTransient_def)

section \<open>The contract of a retried transfer\<close>

text \<open>
  Both directions of a sector transfer are retried by the same loop: run one attempt, return at once on
  success or on an error no retry can cure, else try again, three attempts at most. Each attempt draws on
  the outside world, so each gets its own environment; an attempt that never returns is \<open>None\<close>.
\<close>

fun retried ::
  "('env \<Rightarrow> 'st \<Rightarrow> (error \<times> 'st) option) \<Rightarrow> nat \<Rightarrow> (nat \<Rightarrow> 'env) \<Rightarrow> error \<Rightarrow> nat \<Rightarrow> 'st \<Rightarrow> (error \<times> 'st) option"
where
  "retried single 0 envs err attempt st = Some (err, st)"
| "retried single (Suc n) envs err attempt st =
     (case single (envs attempt) st of
        None \<Rightarrow> None
      | Some (err, st) \<Rightarrow>
          if err = OK \<or> \<not> isTransient err then Some (err, st)
          else retried single n envs err (Suc attempt) st)"

text \<open>
  The loop is a client of the single attempt. All it relies on is that an attempt keeps an invariant of
  the device state and, where its environment is fair, returns.
\<close>

locale single_attempt =
  fixes single :: "'env \<Rightarrow> 'st \<Rightarrow> (error \<times> 'st) option"
    and inv :: "'st \<Rightarrow> bool" and fair :: "'env \<Rightarrow> 'st \<Rightarrow> bool"
  assumes keeps: "inv st \<Longrightarrow> single env st = Some (e, st') \<Longrightarrow> inv st'"
    and returns: "inv st \<Longrightarrow> fair env st \<Longrightarrow> single env st \<noteq> None"
begin

lemma retried_keeps: "inv st \<Longrightarrow> retried single n envs err k st = Some (e, st') \<Longrightarrow> inv st'"
proof (induction n arbitrary: err k st)
  case (Suc n)
  then show ?case
    using keeps by (fastforce split: option.splits prod.splits if_splits)
qed simp

lemma retried_returns:
  assumes "inv st" and "\<And>i st. inv st \<Longrightarrow> fair (envs i) st"
  shows "retried single n envs err k st \<noteq> None"
  using assms(1)
proof (induction n arbitrary: err k st)
  case (Suc n)
  then obtain e st' where one: "single (envs k) st = Some (e, st')"
    using returns [OF Suc.prems assms(2)] by (metis not_None_eq surj_pair)
  with Suc show ?case using keeps [OF Suc.prems one] by auto
qed simp

text \<open>
  The result of the loop is the outcome of one of the attempts, and it is a transient failure only when
  every attempt was made.
\<close>

lemma retried_result:
  assumes "inv st" and "retried single (Suc n) envs err k st = Some (e, st')"
  shows "\<exists>i \<le> n. \<exists>s. inv s \<and> single (envs (k + i)) s = Some (e, st') \<and> (isTransient e \<longrightarrow> i = n)"
  using assms
proof (induction n arbitrary: err k st)
  case 0
  then show ?case by (auto split: option.splits prod.splits if_splits)
next
  case (Suc n)
  obtain e1 st1 where one: "single (envs k) st = Some (e1, st1)"
    using Suc.prems(2) by (auto split: option.splits)
  show ?case
  proof (cases "isTransient e1")
    case True
    then have "e1 \<noteq> OK" by auto
    with True have "retried single (Suc n) envs e1 (Suc k) st1 = Some (e, st')"
      using Suc.prems(2) one by (simp del: retried.simps(2) add: retried.simps(2) [of _ "Suc n"])
    from Suc.IH [OF keeps [OF Suc.prems(1) one] this] obtain i s where
      "i \<le> n" "inv s" "single (envs (Suc k + i)) s = Some (e, st')" "isTransient e \<longrightarrow> i = n" by blast
    then show ?thesis by (intro exI [of _ "Suc i"]) auto
  next
    case False
    then have "e = e1 \<and> st' = st1" using Suc.prems(2) one by simp
    then show ?thesis using one False Suc.prems(1) by (intro exI [of _ 0]) auto
  qed
qed

end

text \<open>
  Where the outcome of an attempt is fixed by its environment, the loop's result is that of one attempt:
  the first that needs no other, or the last allowed.
\<close>

fun decisive :: "(nat \<Rightarrow> error) \<Rightarrow> nat \<Rightarrow> nat \<Rightarrow> nat" where
  "decisive r k 0 = k"
| "decisive r k (Suc n) = (if isTransient (r k) then decisive r (Suc k) n else k)"

lemma decisive_bounds: "k \<le> decisive r k n \<and> decisive r k n \<le> k + n"
  by (induction n arbitrary: k) (auto, (metis Suc_leD), (metis add_Suc))

lemma decisive_before: "k \<le> i \<Longrightarrow> i < decisive r k n \<Longrightarrow> isTransient (r i)"
proof (induction n arbitrary: k)
  case (Suc n)
  then show ?case using Suc.IH [of "Suc k"] by (cases "i = k") (auto split: if_splits)
qed simp

lemma decisive_transient: "isTransient (r (decisive r k n)) \<Longrightarrow> decisive r k n = k + n"
proof (induction n arbitrary: k)
  case (Suc n)
  then show ?case using Suc.IH [of "Suc k"] by (auto split: if_splits)
qed simp

locale decided_attempt = single_attempt +
  fixes outcome :: "'a \<Rightarrow> error" and rel :: "'b \<Rightarrow> error \<Rightarrow> 'b \<Rightarrow> bool" and post :: "'a \<Rightarrow> 'b \<Rightarrow> bool"
  assumes decided: "inv st \<Longrightarrow> fair env st \<Longrightarrow>
      \<exists>st'. single env st = Some (outcome env, st') \<and> rel st (outcome env) st' \<and> post env st'"
    and rel_trans: "rel a e b \<Longrightarrow> rel b e' c \<Longrightarrow> rel a e' c"
begin

lemma retried_decided:
  assumes "inv st" and "\<And>i st. inv st \<Longrightarrow> fair (envs i) st"
    and "i = decisive (\<lambda>i. outcome (envs i)) k n"
  shows "\<exists>st'. retried single (Suc n) envs err k st = Some (outcome (envs i), st') \<and>
    rel st (outcome (envs i)) st' \<and> post (envs i) st' \<and> inv st'"
  using assms(1,3)
proof (induction n arbitrary: err k st i)
  case 0
  then show ?case using decided [OF 0(1) assms(2) [OF 0(1), of k]] keeps by fastforce
next
  case (Suc n)
  obtain st1 where one: "single (envs k) st = Some (outcome (envs k), st1)" "rel st (outcome (envs k)) st1"
      "post (envs k) st1"
    using decided [OF Suc.prems(1) assms(2) [OF Suc.prems(1), of k]] by blast
  note inv1 = keeps [OF Suc.prems(1) one(1)]
  show ?case
  proof (cases "isTransient (outcome (envs k))")
    case True
    then have "outcome (envs k) \<noteq> OK" by auto
    then have eq: "retried single (Suc (Suc n)) envs err k st = retried single (Suc n) envs (outcome (envs k)) (Suc k) st1"
      using True one(1) by (subst retried.simps) (simp del: retried.simps)
    have "i = decisive (\<lambda>i. outcome (envs i)) (Suc k) n" using Suc.prems(2) True by simp
    from Suc.IH [OF inv1 this, of "outcome (envs k)"] show ?thesis
      unfolding eq using rel_trans [OF one(2)] by blast
  next
    case False
    then have "retried single (Suc (Suc n)) envs err k st = Some (outcome (envs k), st1)"
      using one(1) by (subst retried.simps) (simp del: retried.simps)
    then show ?thesis using one inv1 False Suc.prems(2) by simp
  qed
qed

end

end
