(* ===== verification/Card_Driver.thy ===== *)
theory Card_Driver
  imports Card_Types
begin

text \<open>
  The interrupt-driven transport of \<open>psyqo::MemoryCard\<close> (\<open>psyqo/src/memory-card.cpp\<close>): the state of the
  driver object, the byte-by-byte read and write machines that run on the acknowledge interrupts, the
  start and the end of a transfer, the recovery window between transfers, the blocking wait with its
  watchdog, and the asynchronous path with its queued callbacks and retries.

  The outside world is an argument of each operation: the byte the data register returns (\<open>rx\<close>), the
  byte read after the unacknowledged end of a sector (\<open>endb\<close>), the poll at which the first acknowledge
  is seen (\<open>ack\<close>, \<open>None\<close> for never), and readings of the frame and hblank counters. Everything the driver
  sends is logged in \<open>tx\<close>. The pointers to the caller's buffers are the buffers' contents. Pure delays
  (\<open>busyLoop\<close>), write-queue flushes and fences have no effect on this state, and discarding unread bytes
  (\<open>flushRxBuffer\<close>) only changes what \<open>rx\<close> the first exchange sees, which no step looks at.
\<close>

section \<open>State\<close>

datatype action = NoAction | Read | Write

datatype step_result = Continue | Done

text \<open>What the driver puts on the kernel's callback queue.\<close>

datatype call =
    Recheck action port u16 bytes bytes \<comment> \<open>try \<open>startAsyncWhenRecovered\<close> again\<close>
  | AttemptDone error             \<comment> \<open>the per-attempt handler, with the result\<close>
  | UserCall error                \<comment> \<open>the user's callback, with the result\<close>

type_synonym clock = "u32 \<times> u16"  \<comment> \<open>frame counter, hblank counter\<close>

record mc =
  m_action :: action
  m_step :: nat
  m_port :: port
  m_sector :: u16
  m_readBuffer :: bytes
  m_writeBuffer :: bytes
  m_runningChecksum :: u8
  m_cardChecksum :: u8
  m_done :: bool
  m_result :: error
  m_blocking :: bool
  m_callback :: bool            \<comment> \<open>whether a per-attempt handler is set\<close>
  m_userCallback :: bool        \<comment> \<open>whether the user's callback is held\<close>
  m_retryAction :: action
  m_attempt :: nat
  m_deselectFrame :: u32
  m_deselectHblank :: u16
  m_deselectStamped :: bool
  ctrl :: u16                   \<comment> \<open>\<open>SIO::Ctrl\<close>\<close>
  baud :: u16                   \<comment> \<open>\<open>SIO::Baud\<close>\<close>
  mode :: u16                   \<comment> \<open>\<open>SIO::Mode\<close>\<close>
  imask :: bool                 \<comment> \<open>controller bit of the interrupt mask\<close>
  ireg :: bool                  \<comment> \<open>controller bit of the interrupt register\<close>
  tx :: bytes                   \<comment> \<open>bytes clocked out, oldest first\<close>
  queued :: "call list"         \<comment> \<open>this driver's entries of the kernel's callback queue\<close>
  delivered :: "error list"     \<comment> \<open>results handed to the user's callbacks\<close>

text \<open>The driver as it is constructed, the card deselected.\<close>

definition fresh :: mc where
  "fresh = \<lparr>m_action = NoAction, m_step = 0, m_port = Port0, m_sector = 0, m_readBuffer = [],
     m_writeBuffer = [], m_runningChecksum = 0, m_cardChecksum = 0, m_done = False, m_result = OK,
     m_blocking = False, m_callback = False, m_userCallback = False, m_retryAction = NoAction,
     m_attempt = 0, m_deselectFrame = 0, m_deselectHblank = 0, m_deselectStamped = False,
     ctrl = 0, baud = 0, mode = 0, imask = False, ireg = False, tx = [], queued = [], delivered = []\<rparr>"

definition CTRL_TXEN :: u16 where "CTRL_TXEN = 0x0001"
definition CTRL_DTR :: u16 where "CTRL_DTR = 0x0002"
definition CTRL_ERRRES :: u16 where "CTRL_ERRRES = 0x0010"
definition CTRL_IR :: u16 where "CTRL_IR = 0x0040"
definition CTRL_ACKIRQEN :: u16 where "CTRL_ACKIRQEN = 0x1000"
definition CTRL_PORTSEL :: u16 where "CTRL_PORTSEL = 0x2000"

definition c_ackTimeoutShort :: nat where "c_ackTimeoutShort = 0x4000"
definition c_ackTimeoutLong :: nat where "c_ackTimeoutLong = 0x40000"
definition c_recoveryHblanks :: u16 where "c_recoveryHblanks = 263"

definition portMask :: "port \<Rightarrow> u16" where
  "portMask p = (if p = Port1 then CTRL_PORTSEL else 0)"

section \<open>Set-up\<close>

definition installIrqHandler :: "mc \<Rightarrow> mc" where
  "installIrqHandler d = d\<lparr>imask := False\<rparr>"

definition prepare :: "mc \<Rightarrow> mc" where
  "prepare d = installIrqHandler (d\<lparr>ctrl := 0, baud := 0x88, mode := 0xd\<rparr>)"

section \<open>The recovery window\<close>

text \<open>
  \<open>readHblankCounter\<close> on the raw readings of the root counter: pairs of reads until two agree.
\<close>

fun readHblankCounter :: "u16 list \<Rightarrow> (u16 \<times> u16 list) option" where
  "readHblankCounter (a # b # rest) = (if a = b then Some (a, rest) else readHblankCounter rest)"
| "readHblankCounter _ = None"

definition stampDeselect :: "clock \<Rightarrow> mc \<Rightarrow> mc" where
  "stampDeselect now d =
     d\<lparr>m_deselectHblank := snd now, m_deselectFrame := fst now, m_deselectStamped := True\<rparr>"

definition recovered :: "clock \<Rightarrow> mc \<Rightarrow> bool" where
  "recovered now d =
     (if \<not> m_deselectStamped d then False
      else if fst now - m_deselectFrame d \<ge> 3 then True
      else snd now - m_deselectHblank d \<ge> c_recoveryHblanks)"

text \<open>
  \<open>while (!recovered());\<close> over a list of counter readings: \<open>None\<close> when the list ends first, the loop
  still spinning.
\<close>

fun spin_recovered :: "mc \<Rightarrow> clock list \<Rightarrow> clock list option" where
  "spin_recovered d [] = None"
| "spin_recovered d (now # later) = (if recovered now d then Some later else spin_recovered d later)"

definition recoverBeforeSelect :: "clock list \<Rightarrow> mc \<Rightarrow> mc option" where
  "recoverBeforeSelect nows d =
     (let d = d\<lparr>ctrl := 0\<rparr> in
      if \<not> m_deselectStamped d
      then (case nows of [] \<Rightarrow> None
            | now # later \<Rightarrow>
                let d = stampDeselect now d in map_option (\<lambda>_. d) (spin_recovered d later))
      else map_option (\<lambda>_. d) (spin_recovered d nows))"

section \<open>The byte machines\<close>

definition exchangeByte :: "u8 \<Rightarrow> u8 \<Rightarrow> mc \<Rightarrow> u8 \<times> mc" where
  "exchangeByte out rx d =
     (rx, d\<lparr>tx := tx d @ [out], ctrl := ctrl d OR CTRL_ERRRES, ireg := False\<rparr>)"

text \<open>\<open>exchangeByte(out); return Continue;\<close>\<close>

definition send :: "u8 \<Rightarrow> u8 \<Rightarrow> mc \<Rightarrow> step_result \<times> mc" where
  "send out rx d = (Continue, snd (exchangeByte out rx d))"

text \<open>\<open>if (exchangeByte(out) != want) { m_result = err; return Done; } return Continue;\<close>\<close>

definition expect :: "u8 \<Rightarrow> u8 \<Rightarrow> error \<Rightarrow> u8 \<Rightarrow> mc \<Rightarrow> step_result \<times> mc" where
  "expect out want err rx d =
     (let (ret, d) = exchangeByte out rx d
      in if ret \<noteq> want then (Done, d\<lparr>m_result := err\<rparr>) else (Continue, d))"

definition msb :: "u16 \<Rightarrow> u8" where "msb sector = ucast (drop_bit 8 sector)"
definition lsb :: "u16 \<Rightarrow> u8" where "lsb sector = ucast (sector AND 0xff)"

definition readStep :: "u8 \<Rightarrow> u8 \<Rightarrow> mc \<Rightarrow> step_result \<times> mc" where
  "readStep rx endb d =
     (let hi = msb (m_sector d); lo = lsb (m_sector d); n = m_step d in
      if n = 1 then send 0x81 rx d
      else if n = 2 then send 0x52 rx d
      else if n = 3 then send 0x00 rx d
      else if n = 4 then expect 0x00 0x5a ProtocolError rx d
      else if n = 5 then expect hi 0x5d ProtocolError rx d
      else if n = 6 then send lo rx d
      else if n = 7 then send 0x00 rx d
      else if n = 8 then expect 0x00 0x5c ProtocolError rx d
      else if n = 9 then expect 0x00 0x5d ProtocolError rx d
      else if n = 10 then
        (case expect 0x00 hi BadSector rx d of
           (Done, d) \<Rightarrow> (Done, d)
         | (Continue, d) \<Rightarrow> (Continue, d\<lparr>m_runningChecksum := hi XOR lo\<rparr>))
      else if n = 11 then expect 0x00 lo BadSector rx d
      else if 12 \<le> n \<and> n \<le> 139 then
        (let (b, d) = exchangeByte 0x00 rx d
         in (Continue, d\<lparr>m_readBuffer := (m_readBuffer d)[n - 12 := b],
                         m_runningChecksum := m_runningChecksum d XOR b\<rparr>))
      else if n = 140 then
        (let (b, d) = exchangeByte 0x00 rx d; d = d\<lparr>m_cardChecksum := b\<rparr>
         in (Done, d\<lparr>m_result := (if m_cardChecksum d \<noteq> m_runningChecksum d then BadChecksum
                                  else if endb \<noteq> 0x47 then ProtocolError else OK)\<rparr>))
      else (Done, d\<lparr>m_result := ProtocolError\<rparr>))"

definition write_result :: "u8 \<Rightarrow> error" where
  "write_result endb =
     (if endb = 0x47 then OK else if endb = 0x4e then BadChecksum
      else if endb = 0xff then BadSector else ProtocolError)"

definition writeStep :: "u8 \<Rightarrow> u8 \<Rightarrow> mc \<Rightarrow> step_result \<times> mc" where
  "writeStep rx endb d =
     (let hi = msb (m_sector d); lo = lsb (m_sector d); n = m_step d in
      if n = 1 then send 0x81 rx d
      else if n = 2 then send 0x57 rx d
      else if n = 3 then send 0x00 rx d
      else if n = 4 then expect 0x00 0x5a ProtocolError rx d
      else if n = 5 then
        (case expect hi 0x5d ProtocolError rx d of
           (Done, d) \<Rightarrow> (Done, d)
         | (Continue, d) \<Rightarrow> (Continue, d\<lparr>m_runningChecksum := hi\<rparr>))
      else if n = 6 then
        (let (r, d) = send lo rx d
         in (r, d\<lparr>m_runningChecksum := m_runningChecksum d XOR lo\<rparr>))
      else if 7 \<le> n \<and> n \<le> 134 then
        (let b = m_writeBuffer d ! (n - 7); (r, d) = send b rx d
         in (r, d\<lparr>m_runningChecksum := m_runningChecksum d XOR b\<rparr>))
      else if n = 135 then send (m_runningChecksum d) rx d
      else if n = 136 then send 0x00 rx d
      else if n = 137 then expect 0x00 0x5c ProtocolError rx d
      else if n = 138 then
        (case expect 0x00 0x5d ProtocolError rx d of
           (Done, d) \<Rightarrow> (Done, d)
         | (Continue, d) \<Rightarrow> (Done, d\<lparr>m_result := write_result endb\<rparr>))
      else (Done, d\<lparr>m_result := ProtocolError\<rparr>))"

definition machine_step :: "u8 \<Rightarrow> u8 \<Rightarrow> mc \<Rightarrow> step_result \<times> mc" where
  "machine_step rx endb d = (if m_action d = Read then readStep rx endb d else writeStep rx endb d)"

section \<open>A transfer: start, interrupts, end\<close>

definition finishTransfer :: "clock \<Rightarrow> error \<Rightarrow> mc \<Rightarrow> mc" where
  "finishTransfer now err d =
     (let d = stampDeselect now (d\<lparr>ctrl := 0\<rparr>);
          d = d\<lparr>imask := False, m_action := NoAction, m_result := err\<rparr>;
          d = (if \<not> m_blocking d \<and> m_callback d
               then d\<lparr>m_callback := False, queued := queued d @ [AttemptDone err]\<rparr> else d)
      in d\<lparr>m_done := True\<rparr>)"

text \<open>
  The bounded wait for the first acknowledge: \<open>spins\<close> when the loop leaves. \<open>ack = Some k\<close> means the
  interrupt register shows the acknowledge from the check after \<open>k\<close> increments on.
\<close>

definition ack_seen :: "nat option \<Rightarrow> nat \<Rightarrow> bool" where
  "ack_seen ack spins = (case ack of None \<Rightarrow> False | Some k \<Rightarrow> k \<le> spins)"

function poll_ack :: "nat option \<Rightarrow> nat \<Rightarrow> nat \<Rightarrow> nat" where
  "poll_ack ack timeout spins =
     (if ack_seen ack spins then spins
      else if Suc spins < timeout then poll_ack ack timeout (Suc spins) else Suc spins)"
  by pat_completeness auto
termination by (relation "measure (\<lambda>(ack, timeout, spins). timeout - spins)") auto

declare poll_ack.simps [simp del]

text \<open>One attempt's view of the outside world.\<close>

record attempt_env =
  nows :: "clock list"          \<comment> \<open>counter readings of the recovery wait\<close>
  rx1 :: u8                     \<comment> \<open>what the first exchange reads\<close>
  ack :: "nat option"
  irqs :: "(u8 \<times> u8) list"      \<comment> \<open>\<open>rx\<close> and \<open>endb\<close> of each interrupt\<close>
  fin :: clock                  \<comment> \<open>counters when the transfer ends\<close>

definition startTransfer :: "attempt_env \<Rightarrow> action \<Rightarrow> port \<Rightarrow> u16 \<Rightarrow> bytes \<Rightarrow> bytes \<Rightarrow> mc \<Rightarrow> mc option" where
  "startTransfer env act prt sector readBuf writeBuf d =
     (let d = d\<lparr>m_action := act, m_port := prt, m_sector := sector, m_readBuffer := readBuf,
                m_writeBuffer := writeBuf, m_runningChecksum := 0, m_cardChecksum := 0,
                m_result := OK, m_done := False, m_step := 1\<rparr>
      in map_option
        (\<lambda>d. let d = d\<lparr>ctrl := portMask prt OR CTRL_DTR\<rparr>;
                 d = d\<lparr>baud := 0x88\<rparr>;
                 d = d\<lparr>ctrl := ctrl d OR (CTRL_TXEN OR CTRL_ACKIRQEN)\<rparr>;
                 d = d\<lparr>ireg := False\<rparr>;
                 d = snd (machine_step (rx1 env) 0 d)
             in if poll_ack (ack env) c_ackTimeoutShort 0 \<ge> c_ackTimeoutShort
                then finishTransfer (fin env) NoCard d
                else d\<lparr>ireg := True, imask := True\<rparr>)
        (recoverBeforeSelect (nows env) d))"

text \<open>The interrupt handler; the callback installed for it clears the register first.\<close>

definition irq :: "clock \<Rightarrow> u8 \<Rightarrow> u8 \<Rightarrow> mc \<Rightarrow> mc" where
  "irq now rx endb d =
     (if m_action d = NoAction then d
      else
        let d = d\<lparr>ctrl := ctrl d OR (portMask (m_port d) OR CTRL_ERRRES OR CTRL_DTR)\<rparr>;
            d = d\<lparr>m_step := m_step d + 1\<rparr>;
            (r, d) = machine_step rx endb d
        in if r = Done then finishTransfer now (m_result d) d else d)"

fun irq_run :: "clock \<Rightarrow> mc \<Rightarrow> (u8 \<times> u8) list \<Rightarrow> mc" where
  "irq_run now d [] = d"
| "irq_run now d ((rx, endb) # later) = irq_run now (irq now rx endb (d\<lparr>ireg := False\<rparr>)) later"

section \<open>The blocking transfer\<close>

text \<open>
  The wait is left when the machine is done, or when the watchdog counts out: \<open>irqs env\<close> are the
  interrupts served until then.
\<close>

definition irqTransferBlocking ::
    "action \<Rightarrow> port \<Rightarrow> u16 \<Rightarrow> bytes \<Rightarrow> bytes \<Rightarrow> attempt_env \<Rightarrow> mc \<Rightarrow> (error \<times> mc) option" where
  "irqTransferBlocking act prt sector readBuf writeBuf env d =
     map_option
       (\<lambda>d. let d = irq_run (fin env) d (irqs env);
                d = (if m_done d then d
                     else finishTransfer (fin env) (if m_step d \<le> 1 then NoCard else Timeout) d);
                d = d\<lparr>m_blocking := False\<rparr>
            in (m_result d, d))
       (startTransfer env act prt sector readBuf writeBuf (d\<lparr>m_blocking := True, m_callback := False\<rparr>))"

text \<open>
  A read leaves its data in the caller's buffer, the second component; the pointer the driver keeps to it
  is only changed by a transfer that starts.
\<close>

definition singleSectorRead :: "port \<Rightarrow> u16 \<Rightarrow> attempt_env \<Rightarrow> mc \<times> bytes \<Rightarrow> (error \<times> mc \<times> bytes) option" where
  "singleSectorRead prt sector env st =
     (if unat sector \<ge> c_sectorCount then Some (BadSector, st)
      else map_option (\<lambda>(e, d). (e, d, m_readBuffer d))
             (irqTransferBlocking Read prt sector (snd st) [] env (fst st)))"

definition singleSectorWrite :: "port \<Rightarrow> u16 \<Rightarrow> bytes \<Rightarrow> attempt_env \<Rightarrow> mc \<Rightarrow> (error \<times> mc) option" where
  "singleSectorWrite prt sector buf env d =
     (if unat sector \<ge> c_sectorCount then Some (BadSector, d)
      else irqTransferBlocking Write prt sector [] buf env d)"

definition readSectorRetried ::
    "port \<Rightarrow> u16 \<Rightarrow> (nat \<Rightarrow> attempt_env) \<Rightarrow> mc \<times> bytes \<Rightarrow> (error \<times> mc \<times> bytes) option" where
  "readSectorRetried prt sector envs st =
     retried (singleSectorRead prt sector) c_maxAttempts envs NoCard 0 st"

definition writeSectorRetried ::
    "port \<Rightarrow> u16 \<Rightarrow> bytes \<Rightarrow> (nat \<Rightarrow> attempt_env) \<Rightarrow> mc \<Rightarrow> (error \<times> mc) option" where
  "writeSectorRetried prt sector buf envs d =
     retried (singleSectorWrite prt sector buf) c_maxAttempts envs NoCard 0 d"

definition readSectorBlocking ::
    "port \<Rightarrow> u16 \<Rightarrow> (nat \<Rightarrow> attempt_env) \<Rightarrow> mc \<times> bytes \<Rightarrow> (error \<times> mc \<times> bytes) option" where
  "readSectorBlocking prt sector envs st = readSectorRetried prt sector envs st"

definition writeSectorBlocking ::
    "port \<Rightarrow> u16 \<Rightarrow> bytes \<Rightarrow> (nat \<Rightarrow> attempt_env) \<Rightarrow> mc \<Rightarrow> (error \<times> mc) option" where
  "writeSectorBlocking prt sector buf envs d = writeSectorRetried prt sector buf envs d"

text \<open>The probe reads sector 0 into a buffer of its own, whose first contents do not matter.\<close>

definition probeBlocking :: "port \<Rightarrow> (nat \<Rightarrow> attempt_env) \<Rightarrow> bytes \<Rightarrow> mc \<Rightarrow> (error \<times> mc) option" where
  "probeBlocking prt envs scratch d =
     map_option
       (\<lambda>(e, d, _). (if e = BadChecksum \<or> e = ProtocolError \<or> e = NotFormatted then OK else e, d))
       (readSectorRetried prt 0 envs (d, scratch))"

section \<open>The asynchronous transfer\<close>

definition startAsyncWhenRecovered ::
    "clock \<Rightarrow> attempt_env \<Rightarrow> action \<Rightarrow> port \<Rightarrow> u16 \<Rightarrow> bytes \<Rightarrow> bytes \<Rightarrow> mc \<Rightarrow> mc option" where
  "startAsyncWhenRecovered now env act prt sector readBuf writeBuf d =
     (let d = (if \<not> m_deselectStamped d then stampDeselect now (d\<lparr>ctrl := 0\<rparr>) else d)
      in if recovered now d then startTransfer env act prt sector readBuf writeBuf d
         else Some (d\<lparr>queued := queued d @ [Recheck act prt sector readBuf writeBuf]\<rparr>))"

definition startAsyncAttempt ::
    "clock \<Rightarrow> attempt_env \<Rightarrow> action \<Rightarrow> port \<Rightarrow> u16 \<Rightarrow> bytes \<Rightarrow> bytes \<Rightarrow> mc \<Rightarrow> mc option" where
  "startAsyncAttempt now env act prt sector readBuf writeBuf d =
     startAsyncWhenRecovered now env act prt sector readBuf writeBuf
       (d\<lparr>m_retryAction := act, m_callback := True\<rparr>)"

definition onAsyncAttemptDone :: "clock \<Rightarrow> attempt_env \<Rightarrow> error \<Rightarrow> mc \<Rightarrow> mc option" where
  "onAsyncAttemptDone now env res d =
     (let d = (if res \<noteq> OK \<and> isTransient res then d\<lparr>m_attempt := m_attempt d + 1\<rparr> else d)
      in if res \<noteq> OK \<and> isTransient res \<and> m_attempt d < c_maxAttempts
         then startAsyncAttempt now env (m_retryAction d) (m_port d) (m_sector d) (m_readBuffer d)
                (m_writeBuffer d) d
         else
           let cb = m_userCallback d; d = d\<lparr>m_userCallback := False\<rparr>
           in Some (if cb then d\<lparr>delivered := delivered d @ [res]\<rparr> else d))"

definition readSector :: "clock \<Rightarrow> attempt_env \<Rightarrow> port \<Rightarrow> u16 \<Rightarrow> bytes \<Rightarrow> mc \<Rightarrow> mc option" where
  "readSector now env prt sector buf d =
     (if unat sector \<ge> c_sectorCount then Some (d\<lparr>queued := queued d @ [UserCall BadSector]\<rparr>)
      else startAsyncAttempt now env Read prt sector buf []
             (d\<lparr>m_blocking := False, m_attempt := 0, m_userCallback := True\<rparr>))"

definition writeSector :: "clock \<Rightarrow> attempt_env \<Rightarrow> port \<Rightarrow> u16 \<Rightarrow> bytes \<Rightarrow> mc \<Rightarrow> mc option" where
  "writeSector now env prt sector buf d =
     (if unat sector \<ge> c_sectorCount then Some (d\<lparr>queued := queued d @ [UserCall BadSector]\<rparr>)
      else startAsyncAttempt now env Write prt sector [] buf
             (d\<lparr>m_blocking := False, m_attempt := 0, m_userCallback := True\<rparr>))"

text \<open>What the kernel does with an entry of its callback queue.\<close>

fun run_call :: "clock \<Rightarrow> attempt_env \<Rightarrow> call \<Rightarrow> mc \<Rightarrow> mc option" where
  "run_call now env (Recheck act prt sector readBuf writeBuf) d =
     startAsyncWhenRecovered now env act prt sector readBuf writeBuf d"
| "run_call now env (AttemptDone e) d = onAsyncAttemptDone now env e d"
| "run_call now env (UserCall e) d = Some (d\<lparr>delivered := delivered d @ [e]\<rparr>)"

text \<open>
  The events an asynchronous transfer sees: acknowledge interrupts, and pumps of the kernel's callback
  queue, each of which takes the oldest entry off before it runs it.
\<close>

inductive async_step :: "mc \<Rightarrow> mc \<Rightarrow> bool" where
  interrupt: "async_step d (irq now rx endb (d\<lparr>ireg := False\<rparr>))"
| pump: "queued d = c # cs \<Longrightarrow> run_call now env c (d\<lparr>queued := cs\<rparr>) = Some d' \<Longrightarrow> async_step d d'"

inductive_cases async_stepE: "async_step d d'"

inductive async_reach :: "mc \<Rightarrow> mc \<Rightarrow> bool" where
  reach_start: "async_reach d d"
| reach_more: "async_reach d d' \<Longrightarrow> async_step d' d'' \<Longrightarrow> async_reach d d''"

section \<open>What a byte machine is for\<close>

text \<open>
  The declarative account of a transfer: the machine serves \<open>len\<close> exchanges, the reply to exchange \<open>n\<close>
  must pass \<open>ok n\<close> (else the transfer ends with \<open>err n\<close>), and the last exchange is judged as a whole by
  \<open>final\<close>, which also sees the byte at the end of the sector. \<open>None\<close> while the replies have not decided.
\<close>

fun verdict ::
  "nat \<Rightarrow> (nat \<Rightarrow> u8 \<Rightarrow> bool) \<Rightarrow> (nat \<Rightarrow> error) \<Rightarrow> (bytes \<Rightarrow> u8 \<Rightarrow> error) \<Rightarrow> bytes \<Rightarrow> (u8 \<times> u8) list \<Rightarrow> error option"
where
  "verdict len ok err final rs [] = None"
| "verdict len ok err final rs ((rx, endb) # xs) =
     (if Suc (length rs) < len
      then (if ok (length rs) rx then verdict len ok err final (rs @ [rx]) xs else Some (err (length rs)))
      else Some (final (rs @ [rx]) endb))"

lemma verdict_OK_iff:
  assumes "\<And>n. err n \<noteq> OK" and "length rs < len"
  shows "verdict len ok err final rs xs = Some OK \<longleftrightarrow>
     len \<le> length rs + length xs \<and>
     (\<forall>n. length rs \<le> n \<and> Suc n < len \<longrightarrow> ok n ((rs @ map fst xs) ! n)) \<and>
     final (take len (rs @ map fst xs)) (snd (xs ! (len - 1 - length rs))) = OK"
  using assms(2)
proof (induction xs arbitrary: rs)
  case (Cons x xs)
  obtain rx endb where x: "x = (rx, endb)" by force
  show ?case
  proof (cases "Suc (length rs) < len")
    case True
    have idx: "len - 1 - length rs = Suc (len - 1 - Suc (length rs))" using True by simp
    have split: "(\<forall>n. length rs \<le> n \<and> Suc n < len \<longrightarrow> ok n ((rs @ map fst (x # xs)) ! n)) \<longleftrightarrow>
        ok (length rs) rx \<and>
        (\<forall>n. length (rs @ [rx]) \<le> n \<and> Suc n < len \<longrightarrow> ok n (((rs @ [rx]) @ map fst xs) ! n))"
      (is "?l \<longleftrightarrow> _ \<and> ?r")
    proof
      assume l: ?l
      have "ok (length rs) rx" using l [rule_format, of "length rs"] True x by simp
      moreover have ?r using l x by simp
      ultimately show "ok (length rs) rx \<and> ?r" ..
    next
      assume r: "ok (length rs) rx \<and> ?r"
      show ?l
      proof (intro allI impI)
        fix n assume n: "length rs \<le> n \<and> Suc n < len"
        show "ok n ((rs @ map fst (x # xs)) ! n)"
          using r n x by (cases "n = length rs") auto
      qed
    qed
    show ?thesis
      using Cons.IH [of "rs @ [rx]"] True assms(1) x idx split by auto
  next
    case False
    then have "len = Suc (length rs)" using Cons.prems by simp
    then show ?thesis using x by auto
  qed
qed simp

text \<open>
  An interrupt runs the machine on a state whose acknowledge was cleared, whose control register was
  written and whose step was advanced; none of it is the machine's concern.
\<close>

abbreviation ticked :: "bool \<Rightarrow> u16 \<Rightarrow> mc \<Rightarrow> mc" where
  "ticked i c d \<equiv> d\<lparr>ireg := i, ctrl := c, m_step := m_step d + 1\<rparr>"

definition idle :: "mc \<Rightarrow> bool" where
  "idle d \<longleftrightarrow> m_done d \<and> m_action d = NoAction \<and> ctrl d = 0 \<and> \<not> imask d \<and> m_deselectStamped d"

lemma finishTransfer_simps [frame_simps]:
  "m_result (finishTransfer now e d) = e"
  "m_done (finishTransfer now e d)"
  "m_action (finishTransfer now e d) = NoAction"
  "ctrl (finishTransfer now e d) = 0"
  "\<not> imask (finishTransfer now e d)"
  "m_deselectStamped (finishTransfer now e d)"
  "m_deselectFrame (finishTransfer now e d) = fst now"
  "m_deselectHblank (finishTransfer now e d) = snd now"
  "tx (finishTransfer now e d) = tx d"
  "m_readBuffer (finishTransfer now e d) = m_readBuffer d"
  "m_blocking (finishTransfer now e d) = m_blocking d"
  "delivered (finishTransfer now e d) = delivered d"
  "m_userCallback (finishTransfer now e d) = m_userCallback d"
  "m_attempt (finishTransfer now e d) = m_attempt d"
  by (simp_all add: finishTransfer_def stampDeselect_def Let_def)

lemma finishTransfer_idle [simp]: "idle (finishTransfer now e d)"
  by (simp add: idle_def frame_simps)

lemma irq_run_idle:
  "m_action d = NoAction \<Longrightarrow> irq_run now d xs = (if xs = [] then d else d\<lparr>ireg := False\<rparr>)"
  by (induction now d xs rule: irq_run.induct) (auto simp: irq_def)

section \<open>What a transfer leaves alone\<close>

text \<open>The fields of the driver that belong to the request, not to the transfer that serves it.\<close>

definition same_session :: "mc \<Rightarrow> mc \<Rightarrow> bool" where
  "same_session d d' \<longleftrightarrow> m_blocking d' = m_blocking d \<and> queued d' = queued d \<and> delivered d' = delivered d \<and>
     m_userCallback d' = m_userCallback d \<and> m_callback d' = m_callback d \<and> m_attempt d' = m_attempt d \<and>
     m_retryAction d' = m_retryAction d"

lemma same_session_refl [simp]: "same_session d d"
  by (simp add: same_session_def)

lemma same_session_trans: "same_session a b \<Longrightarrow> same_session b c \<Longrightarrow> same_session a c"
  by (simp add: same_session_def)

text \<open>One exchange touches the transfer's own fields only.\<close>

definition same_transfer :: "mc \<Rightarrow> mc \<Rightarrow> bool" where
  "same_transfer d d' \<longleftrightarrow> m_action d' = m_action d \<and> m_done d' = m_done d \<and> m_step d' = m_step d \<and>
     m_port d' = m_port d \<and> m_sector d' = m_sector d \<and> same_session d d'"

lemma exchange_same:
  "same_transfer d (snd (send out rx d))" "same_transfer d (snd (expect out want err rx d))"
  "same_transfer d (snd (exchangeByte out rx d))"
  by (simp_all add: send_def expect_def exchangeByte_def same_transfer_def same_session_def Let_def)

lemma same_transfer_upd:
  assumes "same_transfer d d'"
  shows "same_transfer d (d'\<lparr>m_runningChecksum := c\<rparr>)" "same_transfer d (d'\<lparr>m_result := e\<rparr>)"
    "same_transfer d (d'\<lparr>m_cardChecksum := c\<rparr>)" "same_transfer d (d'\<lparr>m_readBuffer := r\<rparr>)"
  using assms by (simp_all add: same_transfer_def same_session_def)

lemma same_transfer_refl [simp]: "same_transfer d d"
  by (simp add: same_transfer_def)

lemma readStep_same: "same_transfer d (snd (readStep rx endb d))"
  unfolding readStep_def Let_def
  by (auto simp: exchange_same same_transfer_upd split_beta split: step_result.splits)

lemma writeStep_same: "same_transfer d (snd (writeStep rx endb d))"
  unfolding writeStep_def Let_def
  by (auto simp: exchange_same same_transfer_upd split_beta split: step_result.splits)

lemma machine_step_same: "same_transfer d (snd (machine_step rx endb d))"
  by (simp add: machine_step_def readStep_same writeStep_same)

lemma machine_step_session: "same_session d (snd (machine_step rx endb d))"
  using machine_step_same [of d rx endb] by (simp add: same_transfer_def)

lemma finishTransfer_blocking_session:
  "m_blocking d \<Longrightarrow> same_session d (finishTransfer now e d)"
  by (simp add: finishTransfer_def stampDeselect_def Let_def same_session_def)

lemma irq_blocking_session: "m_blocking d \<Longrightarrow> same_session d (irq now rx endb (d\<lparr>ireg := i\<rparr>))"
proof -
  assume b: "m_blocking d"
  define e where "e = d\<lparr>ireg := i, ctrl := ctrl d OR (portMask (m_port d) OR CTRL_ERRRES OR CTRL_DTR),
      m_step := m_step d + 1\<rparr>"
  have 1: "same_session d e" by (simp add: e_def same_session_def)
  have 2: "same_session e (snd (machine_step rx endb e))" by (rule machine_step_session)
  have b': "m_blocking (snd (machine_step rx endb e))" using 1 2 b by (simp add: same_session_def)
  have 3: "same_session d (d\<lparr>ireg := i\<rparr>)" by (simp add: same_session_def)
  have "irq now rx endb (d\<lparr>ireg := i\<rparr>) = (if m_action d = NoAction then d\<lparr>ireg := i\<rparr>
      else let (r, d') = machine_step rx endb e in if r = Done then finishTransfer now (m_result d') d' else d')"
    by (simp add: irq_def Let_def e_def)
  then show ?thesis
    using 1 2 3 finishTransfer_blocking_session [OF b'] same_session_trans
    by (auto simp: split_beta Let_def)
qed

lemma irq_run_blocking_session: "m_blocking d \<Longrightarrow> same_session d (irq_run now d xs)"
proof (induction now d xs rule: irq_run.induct)
  case (2 now d rx endb later)
  have 1: "same_session d (irq now rx endb (d\<lparr>ireg := False\<rparr>))"
    using 2(2) by (rule irq_blocking_session)
  moreover have "m_blocking (irq now rx endb (d\<lparr>ireg := False\<rparr>))"
    using 1 2(2) by (simp add: same_session_def)
  ultimately show ?case using 2(1) same_session_trans by (simp only: irq_run.simps)
qed simp

section \<open>The contract of a byte machine\<close>

locale byte_machine =
  fixes inv :: "'j \<Rightarrow> bytes \<Rightarrow> mc \<Rightarrow> bool" and len :: nat
    and ok :: "'j \<Rightarrow> nat \<Rightarrow> u8 \<Rightarrow> bool" and err :: "nat \<Rightarrow> error"
    and final :: "'j \<Rightarrow> bytes \<Rightarrow> u8 \<Rightarrow> error" and post :: "'j \<Rightarrow> bytes \<Rightarrow> mc \<Rightarrow> bool"
  assumes active:
      "inv j rs d \<Longrightarrow> m_action d \<noteq> NoAction \<and> \<not> m_done d \<and> m_step d = length rs \<and> length rs < len"
    and accept: "inv j rs d \<Longrightarrow> Suc (length rs) < len \<Longrightarrow> ok j (length rs) rx \<Longrightarrow>
      \<exists>d'. machine_step rx endb (ticked i c d) = (Continue, d') \<and> inv j (rs @ [rx]) d'"
    and reject: "inv j rs d \<Longrightarrow> Suc (length rs) < len \<Longrightarrow> \<not> ok j (length rs) rx \<Longrightarrow>
      \<exists>d'. machine_step rx endb (ticked i c d) = (Done, d') \<and> m_result d' = err (length rs)"
    and last: "inv j rs d \<Longrightarrow> Suc (length rs) = len \<Longrightarrow>
      \<exists>d'. machine_step rx endb (ticked i c d) = (Done, d') \<and> m_result d' = final j (rs @ [rx]) endb \<and>
           post j (rs @ [rx]) d'"
    and post_finish: "post j rs d \<Longrightarrow> post j rs (finishTransfer now e d)"
    and post_ireg: "post j rs d \<Longrightarrow> post j rs (d\<lparr>ireg := i\<rparr>)"
begin

lemma irq_active:
  assumes "inv j rs d"
  shows "\<exists>c. irq now rx endb (d\<lparr>ireg := False\<rparr>) =
    (case machine_step rx endb (ticked False c d) of
       (r, d') \<Rightarrow> if r = Done then finishTransfer now (m_result d') d' else d')"
  using active [OF assms]
  by (intro exI [of _ "ctrl d OR (portMask (m_port d) OR CTRL_ERRRES OR CTRL_DTR)"])
     (simp add: irq_def Let_def split: prod.splits)

text \<open>Every interrupt is one exchange of the declarative account.\<close>

lemma run:
  assumes "inv j rs d"
  shows "case verdict len (ok j) err (final j) rs xs of
      None \<Rightarrow> inv j (rs @ map fst xs) (irq_run now d xs)
    | Some e \<Rightarrow> idle (irq_run now d xs) \<and> m_result (irq_run now d xs) = e"
  using assms
proof (induction xs arbitrary: rs d)
  case (Cons x xs)
  obtain rx endb where x: "x = (rx, endb)" by force
  obtain c where irq: "irq now rx endb (d\<lparr>ireg := False\<rparr>) =
      (case machine_step rx endb (ticked False c d) of
         (r, d') \<Rightarrow> if r = Done then finishTransfer now (m_result d') d' else d')"
    using irq_active [OF Cons.prems] by blast
  consider (accept) "Suc (length rs) < len" "ok j (length rs) rx"
    | (reject) "Suc (length rs) < len" "\<not> ok j (length rs) rx"
    | (last) "Suc (length rs) = len"
    using active [OF Cons.prems] by linarith
  then show ?case
  proof cases
    case accept
    obtain d' where one: "machine_step rx endb (ticked False c d) = (Continue, d')"
        and "inv j (rs @ [rx]) d'"
      using byte_machine.accept [OF byte_machine_axioms Cons.prems accept] by blast
    with Cons.IH [of "rs @ [rx]" d'] accept x irq show ?thesis by (simp split: option.splits)
  next
    case reject
    obtain d' where "machine_step rx endb (ticked False c d) = (Done, d')" "m_result d' = err (length rs)"
      using byte_machine.reject [OF byte_machine_axioms Cons.prems reject] by blast
    with reject x irq show ?thesis
      by (auto simp: irq_run_idle frame_simps idle_def)
  next
    case last
    obtain d' where "machine_step rx endb (ticked False c d) = (Done, d')"
        "m_result d' = final j (rs @ [rx]) endb"
      using byte_machine.last [OF byte_machine_axioms Cons.prems last] by blast
    with last x irq show ?thesis
      by (auto simp: irq_run_idle frame_simps idle_def)
  qed
qed simp

text \<open>When all replies were accepted, what the machine promises of its buffers holds.\<close>

lemma run_post:
  assumes "inv j rs d" and "len \<le> length rs + length xs"
    and "\<And>n. length rs \<le> n \<Longrightarrow> Suc n < len \<Longrightarrow> ok j n ((rs @ map fst xs) ! n)"
  shows "post j (take len (rs @ map fst xs)) (irq_run now d xs)"
  using assms
proof (induction xs arbitrary: rs d)
  case Nil
  then show ?case using active by fastforce
next
  case (Cons x xs)
  obtain rx endb where x: "x = (rx, endb)" by force
  obtain c where irq: "irq now rx endb (d\<lparr>ireg := False\<rparr>) =
      (case machine_step rx endb (ticked False c d) of
         (r, d') \<Rightarrow> if r = Done then finishTransfer now (m_result d') d' else d')"
    using irq_active [OF Cons.prems(1)] by blast
  show ?case
  proof (cases "Suc (length rs) < len")
    case True
    have "ok j (length rs) rx" using Cons.prems(3) [of "length rs"] True x by simp
    then obtain d' where "machine_step rx endb (ticked False c d) = (Continue, d')" "inv j (rs @ [rx]) d'"
      using accept [OF Cons.prems(1) True] by blast
    with Cons.IH [of "rs @ [rx]" d'] Cons.prems(2,3) x irq show ?thesis by simp
  next
    case False
    then have eq: "Suc (length rs) = len" using active [OF Cons.prems(1)] by linarith
    obtain d' where "machine_step rx endb (ticked False c d) = (Done, d')" "post j (rs @ [rx]) d'"
      using last [OF Cons.prems(1) eq] by blast
    with eq x irq show ?thesis
      by (auto simp: irq_run_idle frame_simps post_finish post_ireg)
  qed
qed

end

end
