(* ===== verification/Card_Transfer.thy ===== *)
theory Card_Transfer
  imports Card_Driver
begin

text \<open>
  The read and the write machine of the driver as instances of the byte-machine contract, and what a
  blocking transfer does on every reply sequence: the commands it clocks out, when it succeeds, what it
  leaves in the caller's buffer, and the state it leaves the port in.
\<close>

section \<open>The protocol\<close>

text \<open>A transfer: the sector, the caller's buffer, and what was clocked out before it.\<close>

type_synonym job = "u16 \<times> bytes \<times> bytes"

definition xor_bytes :: "u8 \<Rightarrow> bytes \<Rightarrow> u8" where
  "xor_bytes c bs = foldl (XOR) c bs"

lemma xor_bytes_simps [simp]:
  "xor_bytes c [] = c" "xor_bytes c (bs @ [b]) = xor_bytes c bs XOR b"
  by (simp_all add: xor_bytes_def)

definition read_script :: "u16 \<Rightarrow> bytes" where
  "read_script sector =
     [0x81, 0x52, 0, 0, msb sector, lsb sector] @ replicate 134 0"

definition read_len :: nat where "read_len = 140"

definition read_ok :: "u16 \<Rightarrow> nat \<Rightarrow> u8 \<Rightarrow> bool" where
  "read_ok sector n b =
     (if n = 3 then b = 0x5a else if n = 4 then b = 0x5d
      else if n = 7 then b = 0x5c else if n = 8 then b = 0x5d
      else if n = 9 then b = msb sector else if n = 10 then b = lsb sector else True)"

definition read_err :: "nat \<Rightarrow> error" where
  "read_err n = (if n = 9 \<or> n = 10 then BadSector else ProtocolError)"

definition read_data :: "bytes \<Rightarrow> bytes" where
  "read_data rs = take 128 (drop 11 rs)"

definition read_final :: "u16 \<Rightarrow> bytes \<Rightarrow> u8 \<Rightarrow> error" where
  "read_final sector rs endb =
     (if rs ! 139 \<noteq> xor_bytes (msb sector XOR lsb sector) (read_data rs) then BadChecksum
      else if endb \<noteq> 0x47 then ProtocolError else OK)"

definition write_checksum :: "u16 \<Rightarrow> bytes \<Rightarrow> u8" where
  "write_checksum sector bs = xor_bytes (msb sector XOR lsb sector) bs"

definition write_script :: "u16 \<Rightarrow> bytes \<Rightarrow> bytes" where
  "write_script sector bs =
     [0x81, 0x57, 0, 0, msb sector, lsb sector] @ bs @ [write_checksum sector bs, 0, 0, 0]"

definition write_len :: nat where "write_len = 138"

definition write_ok :: "nat \<Rightarrow> u8 \<Rightarrow> bool" where
  "write_ok n b =
     (if n = 3 then b = 0x5a else if n = 4 then b = 0x5d else if n = 136 then b = 0x5c else True)"

definition write_final :: "bytes \<Rightarrow> u8 \<Rightarrow> error" where
  "write_final rs endb = (if rs ! 137 \<noteq> 0x5d then ProtocolError else write_result endb)"

section \<open>The read machine\<close>

fun read_inv :: "job \<Rightarrow> bytes \<Rightarrow> mc \<Rightarrow> bool" where
  "read_inv (sector, buf, tx0) rs d \<longleftrightarrow>
     m_action d = Read \<and> \<not> m_done d \<and> m_sector d = sector \<and> m_step d = length rs \<and>
     1 \<le> length rs \<and> length rs < 140 \<and> length buf = 128 \<and>
     tx d = tx0 @ take (length rs) (read_script sector) \<and>
     m_readBuffer d = drop 11 rs @ drop (length rs - 11) buf \<and>
     (10 \<le> length rs \<longrightarrow>
        m_runningChecksum d = xor_bytes (msb sector XOR lsb sector) (drop 11 rs))"

fun read_post :: "job \<Rightarrow> bytes \<Rightarrow> mc \<Rightarrow> bool" where
  "read_post (sector, buf, tx0) rs d \<longleftrightarrow>
     tx d = tx0 @ read_script sector \<and> m_readBuffer d = read_data rs"

lemmas exchange_defs = send_def expect_def exchangeByte_def Let_def

lemma read_script_nth:
  "11 \<le> n \<Longrightarrow> n < 140 \<Longrightarrow> read_script s ! n = 0"
  by (simp add: read_script_def nth_append)

lemma read_script_head:
  "read_script s ! Suc 0 = 0x52" "read_script s ! 2 = 0" "read_script s ! 3 = 0"
  "read_script s ! 4 = msb s" "read_script s ! 5 = lsb s" "read_script s ! 6 = 0"
  "read_script s ! 7 = 0" "read_script s ! 8 = 0" "read_script s ! 9 = 0" "read_script s ! 10 = 0"
  by (simp_all add: read_script_def)

lemma length_read_script [simp]: "length (read_script s) = 140"
  by (simp add: read_script_def)

lemma take_Suc_script:
  "n < length xs \<Longrightarrow> take (Suc n) xs = take n xs @ [xs ! n]"
  by (rule take_Suc_conv_app_nth)

lemma small_step_cases:
  assumes "1 \<le> (i::nat)" "i \<le> 10"
  obtains "i = 10" | "i = 9" | "i = 8" | "i = 7" | "i = 6" | "i = 5" | "i = 4" | "i = 3" | "i = 2" | "i = 1"
proof -
  have "i \<in> {10, 9, 8, 7, 6, 5, 4, 3, 2, 1}" using assms by (simp only: insert_iff empty_iff) presburger
  with that show thesis by blast
qed

lemma fill_next:
  "length xs = i \<Longrightarrow> i < length buf \<Longrightarrow> (xs @ drop i buf)[i := b] = (xs @ [b]) @ drop (Suc i) buf"
  by (simp add: list_update_append Cons_nth_drop_Suc [symmetric])

lemma read_accept_head:
  assumes inv: "read_inv (sector, buf, tx0) rs d" and n: "length rs \<le> 10"
    and ok: "read_ok sector (length rs) rx"
  shows "\<exists>d'. machine_step rx endb (ticked i c d) = (Continue, d') \<and> read_inv (sector, buf, tx0) (rs @ [rx]) d'"
proof -
  have t: "take (Suc (length rs)) (read_script sector) =
      take (length rs) (read_script sector) @ [read_script sector ! length rs]"
    using n by (intro take_Suc_script) simp
  have "1 \<le> length rs" using inv by simp
  then show ?thesis
    using n
  proof (cases rule: small_step_cases)
  qed (use inv ok t in \<open>simp_all add: machine_step_def readStep_def exchange_defs read_ok_def read_script_head\<close>)
qed

lemma read_accept_data:
  assumes inv: "read_inv (sector, buf, tx0) rs d" and n: "11 \<le> length rs" "length rs < 139"
  shows "\<exists>d'. machine_step rx endb (ticked i c d) = (Continue, d') \<and> read_inv (sector, buf, tx0) (rs @ [rx]) d'"
proof -
  have upd: "(drop 11 rs @ drop (length rs - 11) buf)[length rs - 11 := rx] =
      (drop 11 rs @ [rx]) @ drop (Suc (length rs) - 11) buf"
    using fill_next [of "drop 11 rs" "length rs - 11" buf rx] inv n by (simp add: Suc_diff_le [symmetric])
  have "rs \<noteq> []" using n by auto
  then show ?thesis
    using inv n upd
    by (simp add: machine_step_def readStep_def exchange_defs take_Suc_script read_script_nth)
qed

lemma read_reject:
  assumes inv: "read_inv (sector, buf, tx0) rs d" and no: "\<not> read_ok sector (length rs) rx"
  shows "\<exists>d'. machine_step rx endb (ticked i c d) = (Done, d') \<and> m_result d' = read_err (length rs)"
proof -
  from no consider "length rs = 3" | "length rs = 4" | "length rs = 7" | "length rs = 8" | "length rs = 9" | "length rs = 10"
    by (auto simp: read_ok_def split: if_splits)
  then show ?thesis
    by cases (use inv no in \<open>simp_all add: read_ok_def read_err_def machine_step_def readStep_def exchange_defs\<close>)
qed

lemma read_last:
  assumes inv: "read_inv (sector, buf, tx0) rs d" and n: "length rs = 139"
  shows "\<exists>d'. machine_step rx endb (ticked i c d) = (Done, d') \<and>
    m_result d' = read_final sector (rs @ [rx]) endb \<and> read_post (sector, buf, tx0) (rs @ [rx]) d'"
proof -
  have d: "read_data (rs @ [rx]) = drop 11 rs" using n by (simp add: read_data_def)
  have s: "read_script sector = take 139 (read_script sector) @ [0]"
    using take_Suc_script [of 139 "read_script sector"] by (simp add: read_script_nth)
  have z: "(rs @ [rx]) ! 139 = rx" using n nth_append_length [of rs rx] by simp
  show ?thesis
    using inv n d s z
    by (simp add: machine_step_def readStep_def exchange_defs read_final_def)
qed

interpretation rd: byte_machine read_inv read_len "\<lambda>j. read_ok (fst j)" read_err
    "\<lambda>j. read_final (fst j)" read_post
proof unfold_locales
  fix j :: job and rs rx endb d i c
  obtain sector buf tx0 where j: "j = (sector, buf, tx0)" by (cases j)
  { assume "read_inv j rs d"
    then show "m_action d \<noteq> NoAction \<and> \<not> m_done d \<and> m_step d = length rs \<and> length rs < read_len"
      by (simp add: j read_len_def) }
  { assume inv: "read_inv j rs d" and n: "Suc (length rs) < read_len" and ok: "read_ok (fst j) (length rs) rx"
    show "\<exists>d'. machine_step rx endb (ticked i c d) = (Continue, d') \<and> read_inv j (rs @ [rx]) d'"
    proof (cases "length rs \<le> 10")
      case True
      then show ?thesis
        using read_accept_head [of sector buf tx0 rs d rx endb c i] inv ok by (simp only: j fst_conv)
    next
      case False
      then show ?thesis
        using read_accept_data [of sector buf tx0 rs d rx endb c i] inv n by (simp add: j read_len_def del: read_inv.simps)
    qed }
  { assume "read_inv j rs d" "\<not> read_ok (fst j) (length rs) rx"
    then show "\<exists>d'. machine_step rx endb (ticked i c d) = (Done, d') \<and> m_result d' = read_err (length rs)"
      using read_reject unfolding j fst_conv by blast }
  { assume "read_inv j rs d" "Suc (length rs) = read_len"
    then show "\<exists>d'. machine_step rx endb (ticked i c d) = (Done, d') \<and>
        m_result d' = read_final (fst j) (rs @ [rx]) endb \<and> read_post j (rs @ [rx]) d'"
      using read_last [of sector buf tx0 rs d rx endb c i]
      by (simp add: j read_len_def del: read_inv.simps read_post.simps) }
  { fix now e assume "read_post j rs d" then show "read_post j rs (finishTransfer now e d)"
      by (simp add: j frame_simps) }
  { assume "read_post j rs d" then show "read_post j rs (d\<lparr>ireg := i\<rparr>)" by (simp add: j) }
qed

section \<open>The write machine\<close>

fun write_inv :: "job \<Rightarrow> bytes \<Rightarrow> mc \<Rightarrow> bool" where
  "write_inv (sector, buf, tx0) rs d \<longleftrightarrow>
     m_action d = Write \<and> \<not> m_done d \<and> m_sector d = sector \<and> m_step d = length rs \<and>
     1 \<le> length rs \<and> length rs < 138 \<and> length buf = 128 \<and> m_writeBuffer d = buf \<and>
     tx d = tx0 @ take (length rs) (write_script sector buf) \<and>
     (length rs = 5 \<longrightarrow> m_runningChecksum d = msb sector) \<and>
     (6 \<le> length rs \<longrightarrow>
        m_runningChecksum d = xor_bytes (msb sector XOR lsb sector) (take (length rs - 6) buf))"

fun write_post :: "job \<Rightarrow> bytes \<Rightarrow> mc \<Rightarrow> bool" where
  "write_post (sector, buf, tx0) rs d \<longleftrightarrow> tx d = tx0 @ write_script sector buf"

lemma length_write_script [simp]: "length (write_script s buf) = 10 + length buf"
  by (simp add: write_script_def)

lemma write_script_head:
  "write_script s buf ! Suc 0 = 0x57" "write_script s buf ! 2 = 0" "write_script s buf ! 3 = 0"
  "write_script s buf ! 4 = msb s" "write_script s buf ! 5 = lsb s"
  by (simp_all add: write_script_def)

lemma write_script_data:
  "6 \<le> n \<Longrightarrow> n < 6 + length buf \<Longrightarrow> write_script s buf ! n = buf ! (n - 6)"
proof -
  assume n: "6 \<le> n" "n < 6 + length buf"
  have "length [0x81, 0x57, 0, 0, msb s, lsb s] = 6" by simp
  moreover have "n - 6 < length buf" using n by simp
  ultimately show ?thesis using n unfolding write_script_def by (simp only: nth_append) simp
qed

lemma write_script_tail:
  assumes "length buf = 128"
  shows "write_script s buf ! 134 = write_checksum s buf" "write_script s buf ! 135 = 0"
    "write_script s buf ! 136 = 0" "write_script s buf ! 137 = 0"
  using assms by (simp_all add: write_script_def nth_append)

lemma write_accept:
  assumes inv: "write_inv (sector, buf, tx0) rs d" and n: "length rs < 137"
    and ok: "write_ok (length rs) rx"
  shows "\<exists>d'. machine_step rx endb (ticked i c d) = (Continue, d') \<and> write_inv (sector, buf, tx0) (rs @ [rx]) d'"
proof -
  have t: "take (Suc (length rs)) (write_script sector buf) =
      take (length rs) (write_script sector buf) @ [write_script sector buf ! length rs]"
    using n inv by (intro take_Suc_script) simp
  have len: "1 \<le> length rs" using inv by simp
  consider (head) "length rs \<le> 5" | (data) "6 \<le> length rs" "length rs \<le> 133"
    | (sent) "length rs = 134" | (ack1) "length rs = 135" | (ack2) "length rs = 136"
    using n by linarith
  then show ?thesis
  proof cases
    case head
    with len consider "length rs = 1" | "length rs = 2" | "length rs = 3" | "length rs = 4" | "length rs = 5"
      by linarith
    then show ?thesis
      by cases (use inv ok t in \<open>simp_all add: machine_step_def writeStep_def exchange_defs write_ok_def write_script_head\<close>)
  next
    case data
    have idx: "length rs - 6 < length buf" using data inv by simp
    have "take (Suc (length rs) - 6) buf = take (length rs - 6) buf @ [buf ! (length rs - 6)]"
    proof -
      have "Suc (length rs) - 6 = Suc (length rs - 6)" using data by simp
      then show ?thesis by (simp only: take_Suc_conv_app_nth [OF idx])
    qed
    moreover have "rs \<noteq> []" using data by auto
    ultimately show ?thesis
      using inv t data
      by (simp add: machine_step_def writeStep_def exchange_defs write_script_data)
  qed (use inv ok t in \<open>simp_all add: machine_step_def writeStep_def exchange_defs write_ok_def
         write_script_tail write_checksum_def\<close>)
qed

lemma write_reject:
  assumes inv: "write_inv (sector, buf, tx0) rs d" and no: "\<not> write_ok (length rs) rx"
  shows "\<exists>d'. machine_step rx endb (ticked i c d) = (Done, d') \<and> m_result d' = ProtocolError"
proof -
  from no consider "length rs = 3" | "length rs = 4" | "length rs = 136"
    by (auto simp: write_ok_def split: if_splits)
  then show ?thesis
    by cases (use inv no in \<open>simp_all add: write_ok_def machine_step_def writeStep_def exchange_defs\<close>)
qed

lemma write_last:
  assumes inv: "write_inv (sector, buf, tx0) rs d" and n: "length rs = 137"
  shows "\<exists>d'. machine_step rx endb (ticked i c d) = (Done, d') \<and>
    m_result d' = write_final (rs @ [rx]) endb \<and> write_post (sector, buf, tx0) (rs @ [rx]) d'"
proof -
  have s: "write_script sector buf = take 137 (write_script sector buf) @ [0]"
    using take_Suc_script [of 137 "write_script sector buf"] inv by (simp add: write_script_tail)
  have z: "(rs @ [rx]) ! 137 = rx" using n nth_append_length [of rs rx] by simp
  show ?thesis
    using inv n s z
    by (simp add: machine_step_def writeStep_def exchange_defs write_final_def)
qed

interpretation wr: byte_machine write_inv write_len "\<lambda>j. write_ok" "\<lambda>n. ProtocolError"
    "\<lambda>j. write_final" write_post
proof unfold_locales
  fix j :: job and rs rx endb d i c
  obtain sector buf tx0 where j: "j = (sector, buf, tx0)" by (cases j)
  { assume "write_inv j rs d"
    then show "m_action d \<noteq> NoAction \<and> \<not> m_done d \<and> m_step d = length rs \<and> length rs < write_len"
      by (simp add: j write_len_def) }
  { assume inv: "write_inv j rs d" and n: "Suc (length rs) < write_len" and ok: "write_ok (length rs) rx"
    show "\<exists>d'. machine_step rx endb (ticked i c d) = (Continue, d') \<and> write_inv j (rs @ [rx]) d'"
      using write_accept [of sector buf tx0 rs d rx endb c i] inv n ok
      by (simp add: j write_len_def del: write_inv.simps) }
  { assume "write_inv j rs d" "\<not> write_ok (length rs) rx"
    then show "\<exists>d'. machine_step rx endb (ticked i c d) = (Done, d') \<and> m_result d' = ProtocolError"
      using write_reject unfolding j by blast }
  { assume "write_inv j rs d" "Suc (length rs) = write_len"
    then show "\<exists>d'. machine_step rx endb (ticked i c d) = (Done, d') \<and>
        m_result d' = write_final (rs @ [rx]) endb \<and> write_post j (rs @ [rx]) d'"
      using write_last [of sector buf tx0 rs d rx endb c i]
      by (simp add: j write_len_def del: write_inv.simps write_post.simps) }
  { fix now e assume "write_post j rs d" then show "write_post j rs (finishTransfer now e d)"
      by (simp add: j frame_simps) }
  { assume "write_post j rs d" then show "write_post j rs (d\<lparr>ireg := i\<rparr>)" by (simp add: j) }
qed

section \<open>Starting\<close>

lemma poll_ack_result:
  "poll_ack a t k < t \<longleftrightarrow> (\<exists>n. a = Some n \<and> max n k < t)"
proof (induction a t k rule: poll_ack.induct)
  case (1 a t k)
  show ?case
  proof (cases "ack_seen a k")
    case True
    then show ?thesis by (subst poll_ack.simps) (auto simp: ack_seen_def split: option.splits)
  next
    case False
    show ?thesis
    proof (cases "Suc k < t")
      case True
      have "poll_ack a t k = poll_ack a t (Suc k)" using False True by (subst poll_ack.simps) simp
      then show ?thesis using 1 False True by (auto simp: ack_seen_def split: option.splits)
    next
      case no: False
      then show ?thesis using False by (subst poll_ack.simps) (auto simp: ack_seen_def split: option.splits)
    qed
  qed
qed

definition acked :: "attempt_env \<Rightarrow> bool" where
  "acked env \<longleftrightarrow> (case ack env of None \<Rightarrow> False | Some k \<Rightarrow> k < c_ackTimeoutShort)"

lemma poll_ack_acked: "poll_ack (ack env) c_ackTimeoutShort 0 < c_ackTimeoutShort \<longleftrightarrow> acked env"
  unfolding poll_ack_result acked_def by (auto split: option.splits)

definition waited :: "attempt_env \<Rightarrow> mc \<Rightarrow> bool" where
  "waited env d \<longleftrightarrow> recoverBeforeSelect (nows env) d \<noteq> None"

lemma recoverBeforeSelect_frame:
  assumes "recoverBeforeSelect ns d = Some d'"
  shows "\<exists>f h. d' = d\<lparr>ctrl := 0, m_deselectHblank := h, m_deselectFrame := f, m_deselectStamped := True\<rparr>"
proof (cases "m_deselectStamped d")
  case True
  then have "d' = d\<lparr>ctrl := 0\<rparr>" using assms by (auto simp: recoverBeforeSelect_def Let_def)
  then have "d' = d\<lparr>ctrl := 0, m_deselectHblank := m_deselectHblank d, m_deselectFrame := m_deselectFrame d,
      m_deselectStamped := True\<rparr>" using True by simp
  then show ?thesis by blast
next
  case False
  then show ?thesis using assms
    by (auto simp: recoverBeforeSelect_def stampDeselect_def Let_def split: list.splits)
qed

lemma spin_recovered_cong:
  assumes "m_deselectStamped d' = m_deselectStamped d" "m_deselectFrame d' = m_deselectFrame d"
    "m_deselectHblank d' = m_deselectHblank d"
  shows "spin_recovered d' l = spin_recovered d l"
  by (induction l) (simp_all add: recovered_def assms)

lemma recoverBeforeSelect_cong:
  assumes "m_deselectStamped d' = m_deselectStamped d" "m_deselectFrame d' = m_deselectFrame d"
    "m_deselectHblank d' = m_deselectHblank d"
  shows "recoverBeforeSelect l d' = None \<longleftrightarrow> recoverBeforeSelect l d = None"
proof -
  have "spin_recovered (d'\<lparr>ctrl := 0\<rparr>) l = spin_recovered (d\<lparr>ctrl := 0\<rparr>) l" for l
    by (rule spin_recovered_cong) (simp_all add: assms)
  moreover have "spin_recovered (stampDeselect now (d'\<lparr>ctrl := 0\<rparr>)) l =
      spin_recovered (stampDeselect now (d\<lparr>ctrl := 0\<rparr>)) l" for l now
    by (rule spin_recovered_cong) (simp_all add: stampDeselect_def)
  ultimately show ?thesis
    by (simp add: recoverBeforeSelect_def Let_def assms split: list.splits)
qed

definition start_state :: "action \<Rightarrow> port \<Rightarrow> u16 \<Rightarrow> bytes \<Rightarrow> bytes \<Rightarrow> mc \<Rightarrow> mc" where
  "start_state act prt sector readBuf writeBuf d =
     d\<lparr>m_action := act, m_port := prt, m_sector := sector, m_readBuffer := readBuf,
       m_writeBuffer := writeBuf, m_runningChecksum := 0, m_cardChecksum := 0,
       m_result := OK, m_done := False, m_step := 1\<rparr>"

text \<open>The driver when the first byte has been exchanged.\<close>

definition selected :: "attempt_env \<Rightarrow> port \<Rightarrow> mc \<Rightarrow> mc" where
  "selected env prt d =
     snd (machine_step (rx1 env) 0
       (d\<lparr>baud := 0x88, ctrl := (portMask prt OR CTRL_DTR) OR (CTRL_TXEN OR CTRL_ACKIRQEN), ireg := False\<rparr>))"

lemma startTransfer_eq:
  assumes "recoverBeforeSelect (nows env) (start_state act prt sector readBuf writeBuf d) = Some d1"
  shows "startTransfer env act prt sector readBuf writeBuf d =
    Some (if acked env then (selected env prt d1)\<lparr>ireg := True, imask := True\<rparr>
          else finishTransfer (fin env) NoCard (selected env prt d1))"
  using assms poll_ack_acked [of env]
  by (simp add: startTransfer_def Let_def start_state_def selected_def not_less [symmetric])

text \<open>
  Once the recovery wait is over the first byte goes out; the card answers it with an acknowledge, and
  the transfer is under way, or it does not, and the transfer is over.
\<close>

lemma startTransfer_cases:
  assumes act: "act \<noteq> NoAction" and w: "waited env d"
  obtains d' where "same_session d d'" "m_action d' = act" "\<not> m_done d'" "m_step d' = 1" "m_port d' = prt"
    "m_sector d' = sector" "m_readBuffer d' = readBuf" "m_writeBuffer d' = writeBuf"
    "tx d' = tx d @ [0x81]"
    "acked env \<Longrightarrow> startTransfer env act prt sector readBuf writeBuf d = Some d'"
    "\<not> acked env \<Longrightarrow> startTransfer env act prt sector readBuf writeBuf d = Some (finishTransfer (fin env) NoCard d')"
proof -
  obtain d1 where d1: "recoverBeforeSelect (nows env) (start_state act prt sector readBuf writeBuf d) = Some d1"
    using w recoverBeforeSelect_cong [of "start_state act prt sector readBuf writeBuf d" d "nows env"]
    by (auto simp: waited_def start_state_def)
  from recoverBeforeSelect_frame [OF d1] obtain h f where
    f: "d1 = (start_state act prt sector readBuf writeBuf d)
        \<lparr>ctrl := 0, m_deselectHblank := h, m_deselectFrame := f, m_deselectStamped := True\<rparr>" by blast
  define d2 where "d2 = selected env prt d1"
  have st: "startTransfer env act prt sector readBuf writeBuf d =
      Some (if acked env then d2\<lparr>ireg := True, imask := True\<rparr> else finishTransfer (fin env) NoCard d2)"
    unfolding d2_def by (rule startTransfer_eq [OF d1])
  have d2: "same_session d d2" "m_action d2 = act" "\<not> m_done d2" "m_step d2 = 1" "m_port d2 = prt"
    "m_sector d2 = sector" "m_readBuffer d2 = readBuf" "m_writeBuffer d2 = writeBuf" "tx d2 = tx d @ [0x81]"
    using act
    by (simp_all add: d2_def selected_def f start_state_def machine_step_def readStep_def writeStep_def exchange_defs
          same_session_def)
  define d3 where "d3 = (if acked env then d2\<lparr>ireg := True, imask := True\<rparr> else d2)"
  show ?thesis
    using st d2 by (intro that [of d3]) (auto simp: d3_def same_session_def)
qed

lemma startTransfer_None:
  "\<not> waited env d \<Longrightarrow> startTransfer env act prt sector readBuf writeBuf d = None"
  using recoverBeforeSelect_cong [of "start_state act prt sector readBuf writeBuf d" d "nows env"]
  by (simp add: startTransfer_def start_state_def waited_def)

section \<open>The blocking transfers\<close>

text \<open>The replies of an attempt, the first exchange's included.\<close>

definition replies :: "attempt_env \<Rightarrow> bytes" where
  "replies env = rx1 env # map fst (irqs env)"

text \<open>The byte read at the end of the sector, by the interrupt of the last exchange.\<close>

definition end_byte :: "nat \<Rightarrow> attempt_env \<Rightarrow> u8" where
  "end_byte len env = snd (irqs env ! (len - 2))"

text \<open>The result of an attempt, given the verdict on its replies.\<close>

definition attempt_result :: "attempt_env \<Rightarrow> error option \<Rightarrow> error" where
  "attempt_result env v =
     (if \<not> acked env then NoCard
      else case v of Some e \<Rightarrow> e | None \<Rightarrow> if irqs env = [] then NoCard else Timeout)"

definition read_result :: "u16 \<Rightarrow> attempt_env \<Rightarrow> error" where
  "read_result sector env =
     attempt_result env (verdict read_len (read_ok sector) read_err (read_final sector) [rx1 env] (irqs env))"

definition write_attempt_result :: "attempt_env \<Rightarrow> error" where
  "write_attempt_result env =
     attempt_result env (verdict write_len write_ok (\<lambda>n. ProtocolError) write_final [rx1 env] (irqs env))"

text \<open>What holds of the driver after any blocking transfer.\<close>

definition after_blocking :: "mc \<Rightarrow> error \<Rightarrow> mc \<Rightarrow> bool" where
  "after_blocking d e d' \<longleftrightarrow> m_result d' = e \<and> idle d' \<and> \<not> m_blocking d' \<and> \<not> m_callback d' \<and>
     queued d' = queued d \<and> delivered d' = delivered d \<and> m_userCallback d' = m_userCallback d"

lemma irqTransferBlocking_eq:
  assumes s: "startTransfer env act prt sector readBuf writeBuf (d\<lparr>m_blocking := True, m_callback := False\<rparr>) = Some d1"
    and d2: "d2 = irq_run (fin env) d1 (irqs env)"
    and d3: "d3 = (if m_done d2 then d2
      else finishTransfer (fin env) (if m_step d2 \<le> 1 then NoCard else Timeout) d2)"
  shows "irqTransferBlocking act prt sector readBuf writeBuf env d =
    Some (m_result d3, d3\<lparr>m_blocking := False\<rparr>)"
  by (simp add: irqTransferBlocking_def s d3 d2 Let_def)

lemma after_blockingI:
  assumes "same_session (d\<lparr>m_blocking := True, m_callback := False\<rparr>) d3" "idle d3" "m_result d3 = e"
  shows "after_blocking d e (d3\<lparr>m_blocking := False\<rparr>)"
  using assms by (simp add: after_blocking_def same_session_def idle_def)

lemma waited_session:
  "waited env (d\<lparr>m_blocking := b, m_callback := c\<rparr>) \<longleftrightarrow> waited env d"
  using recoverBeforeSelect_cong [of "d\<lparr>m_blocking := b, m_callback := c\<rparr>" d "nows env"]
  by (simp add: waited_def)

text \<open>Both directions at once: what a machine of the contract does in a blocking transfer.\<close>

lemma blocking_run:
  assumes machine: "byte_machine I len ok err final post" and act: "act \<noteq> NoAction" and w: "waited env d"
    and start: "\<And>d1. m_action d1 = act \<Longrightarrow> \<not> m_done d1 \<Longrightarrow> m_step d1 = 1 \<Longrightarrow> m_sector d1 = sector \<Longrightarrow>
        m_readBuffer d1 = readBuf \<Longrightarrow> m_writeBuffer d1 = writeBuf \<Longrightarrow> tx d1 = tx d @ [0x81] \<Longrightarrow> I j [rx1 env] d1"
    and e: "e = attempt_result env (verdict len (ok j) err (final j) [rx1 env] (irqs env))"
    and len: "2 \<le> len" and errs: "\<And>n. err n \<noteq> OK"
    and stable: "\<And>d. post j (take len (replies env)) d \<Longrightarrow> post j (take len (replies env)) (d\<lparr>m_blocking := False\<rparr>)"
  shows "\<exists>d'. irqTransferBlocking act prt sector readBuf writeBuf env d = Some (e, d') \<and>
    after_blocking d e d' \<and> (e = OK \<longrightarrow> post j (take len (replies env)) d')"
proof -
  define d0 where "d0 = d\<lparr>m_blocking := True, m_callback := False\<rparr>"
  have w0: "waited env d0" using w by (simp add: d0_def waited_session)
  obtain d1 where d1: "same_session d0 d1" "m_action d1 = act" "\<not> m_done d1" "m_step d1 = 1"
      "m_sector d1 = sector" "m_readBuffer d1 = readBuf" "m_writeBuffer d1 = writeBuf" "tx d1 = tx d0 @ [0x81]"
    and yes: "acked env \<Longrightarrow> startTransfer env act prt sector readBuf writeBuf d0 = Some d1"
    and no: "\<not> acked env \<Longrightarrow>
      startTransfer env act prt sector readBuf writeBuf d0 = Some (finishTransfer (fin env) NoCard d1)"
    using startTransfer_cases [OF act w0] by metis
  have inv: "I j [rx1 env] d1" using start d1 by (simp add: d0_def)
  have b1: "m_blocking d1" using d1(1) by (simp add: same_session_def d0_def)
  show ?thesis
  proof (cases "acked env")
    case False
    define d3 where "d3 = irq_run (fin env) (finishTransfer (fin env) NoCard d1) (irqs env)"
    have d3: "d3 = (if irqs env = [] then finishTransfer (fin env) NoCard d1
        else (finishTransfer (fin env) NoCard d1)\<lparr>ireg := False\<rparr>)"
      by (simp add: d3_def irq_run_idle frame_simps)
    have "m_done d3" "m_result d3 = NoCard" "idle d3" by (simp_all add: d3 frame_simps idle_def)
    moreover have "same_session d0 d3"
      using d1(1) finishTransfer_blocking_session [OF b1] by (auto simp: d3 same_session_def)
    moreover have "e = NoCard" using False e by (simp add: attempt_result_def)
    moreover have "irqTransferBlocking act prt sector readBuf writeBuf env d =
        Some (m_result d3, d3\<lparr>m_blocking := False\<rparr>)"
      by (rule irqTransferBlocking_eq [OF no [OF False, unfolded d0_def] d3_def]) (simp add: \<open>m_done d3\<close>)
    ultimately show ?thesis
      using after_blockingI [of d d3 NoCard] by (simp add: d0_def)
  next
    case True
    define d2 where "d2 = irq_run (fin env) d1 (irqs env)"
    define v where "v = verdict len (ok j) err (final j) [rx1 env] (irqs env)"
    define d3 where "d3 = (if m_done d2 then d2
      else finishTransfer (fin env) (if m_step d2 \<le> 1 then NoCard else Timeout) d2)"
    have ses2: "same_session d1 d2" unfolding d2_def by (rule irq_run_blocking_session [OF b1])
    then have b2: "m_blocking d2" using b1 by (simp add: same_session_def)
    have run: "case v of None \<Rightarrow> I j ([rx1 env] @ map fst (irqs env)) d2
        | Some e \<Rightarrow> idle d2 \<and> m_result d2 = e"
      unfolding v_def d2_def by (rule byte_machine.run [OF machine inv])
    have res: "m_result d3 = e \<and> idle d3 \<and> (v = None \<longrightarrow> \<not> m_done d2)"
    proof (cases v)
      case None
      then have "m_step d2 = Suc (length (irqs env))" "\<not> m_done d2"
        using run byte_machine.active [OF machine] by fastforce+
      then show ?thesis using None True e v_def by (simp add: d3_def frame_simps attempt_result_def)
    next
      case (Some r)
      then show ?thesis using run True e v_def by (simp add: d3_def idle_def attempt_result_def)
    qed
    have ses3: "same_session d0 d3"
      using d1(1) ses2 finishTransfer_blocking_session [OF b2] same_session_trans
      by (auto simp: d3_def)
    have pst: "post j (take len (replies env)) d3" if "e = OK"
    proof -
      have ok: "v = Some OK"
        using that True e v_def by (auto simp: attempt_result_def split: option.splits if_splits)
      then have vOK: "len \<le> length [rx1 env] + length (irqs env)"
        "\<And>n. length [rx1 env] \<le> n \<Longrightarrow> Suc n < len \<Longrightarrow> ok j n (([rx1 env] @ map fst (irqs env)) ! n)"
        using verdict_OK_iff [of err "[rx1 env]" len "ok j" "final j" "irqs env"] errs len v_def by auto
      have "post j (take len ([rx1 env] @ map fst (irqs env))) d2"
        unfolding d2_def by (rule byte_machine.run_post [OF machine inv vOK])
      moreover have "d3 = d2" using ok run by (simp add: d3_def idle_def)
      ultimately show ?thesis by (simp add: replies_def)
    qed
    show ?thesis
      using irqTransferBlocking_eq [OF yes [OF True, unfolded d0_def] d2_def d3_def] res
        after_blockingI [of d d3 e] ses3 pst stable by (auto simp: d0_def)
  qed
qed

lemma read_blocking:
  assumes "waited env d" and "length readBuf = 128"
  shows "\<exists>d'. irqTransferBlocking Read prt sector readBuf writeBuf env d = Some (read_result sector env, d') \<and>
    after_blocking d (read_result sector env) d' \<and>
    (read_result sector env = OK \<longrightarrow> m_readBuffer d' = read_data (replies env) \<and> tx d' = tx d @ read_script sector)"
proof -
  have "\<exists>d'. irqTransferBlocking Read prt sector readBuf writeBuf env d = Some (read_result sector env, d') \<and>
    after_blocking d (read_result sector env) d' \<and>
    (read_result sector env = OK \<longrightarrow> read_post (sector, readBuf, tx d) (take read_len (replies env)) d')"
    by (rule blocking_run [OF rd.byte_machine_axioms, where sector = sector])
       (use assms in \<open>auto simp: read_result_def read_len_def read_err_def read_script_def\<close>)
  moreover have "read_data (take read_len (replies env)) = read_data (replies env)"
    by (simp add: read_data_def read_len_def drop_take)
  ultimately show ?thesis by auto
qed

lemma write_blocking:
  assumes "waited env d" and "length writeBuf = 128"
  shows "\<exists>d'. irqTransferBlocking Write prt sector readBuf writeBuf env d = Some (write_attempt_result env, d') \<and>
    after_blocking d (write_attempt_result env) d' \<and>
    (write_attempt_result env = OK \<longrightarrow> tx d' = tx d @ write_script sector writeBuf)"
proof -
  have "\<exists>d'. irqTransferBlocking Write prt sector readBuf writeBuf env d = Some (write_attempt_result env, d') \<and>
    after_blocking d (write_attempt_result env) d' \<and>
    (write_attempt_result env = OK \<longrightarrow> write_post (sector, writeBuf, tx d) (take write_len (replies env)) d')"
    by (rule blocking_run [OF wr.byte_machine_axioms, where sector = sector])
       (use assms in \<open>auto simp: write_attempt_result_def write_len_def write_script_def\<close>)
  then show ?thesis by auto
qed

section \<open>Success and failure of one attempt\<close>

definition good_read_reply :: "u16 \<Rightarrow> attempt_env \<Rightarrow> bool" where
  "good_read_reply sector env \<longleftrightarrow>
     (let rs = replies env
      in 140 \<le> length rs \<and> rs ! 3 = 0x5a \<and> rs ! 4 = 0x5d \<and> rs ! 7 = 0x5c \<and> rs ! 8 = 0x5d \<and>
         rs ! 9 = msb sector \<and> rs ! 10 = lsb sector \<and>
         rs ! 139 = xor_bytes (msb sector XOR lsb sector) (read_data rs) \<and> end_byte 140 env = 0x47)"

definition good_write_reply :: "attempt_env \<Rightarrow> bool" where
  "good_write_reply env \<longleftrightarrow>
     (let rs = replies env
      in 138 \<le> length rs \<and> rs ! 3 = 0x5a \<and> rs ! 4 = 0x5d \<and> rs ! 136 = 0x5c \<and> rs ! 137 = 0x5d \<and>
         end_byte 138 env = 0x47)"

lemma all_read_ok:
  "(\<forall>n. Suc 0 \<le> n \<and> Suc n < 140 \<longrightarrow> read_ok sector n (f n)) \<longleftrightarrow>
     f 3 = 0x5a \<and> f 4 = 0x5d \<and> f 7 = 0x5c \<and> f 8 = 0x5d \<and> f 9 = msb sector \<and> f 10 = lsb sector"
  (is "?l \<longleftrightarrow> ?r")
proof
  assume l: ?l
  have "read_ok sector 3 (f 3)" "read_ok sector 4 (f 4)" "read_ok sector 7 (f 7)" "read_ok sector 8 (f 8)"
    "read_ok sector 9 (f 9)" "read_ok sector 10 (f 10)"
    by (rule l [rule_format], simp)+
  then show ?r by (simp add: read_ok_def)
qed (simp add: read_ok_def)

lemma all_write_ok:
  "(\<forall>n. Suc 0 \<le> n \<and> Suc n < 138 \<longrightarrow> write_ok n (f n)) \<longleftrightarrow> f 3 = 0x5a \<and> f 4 = 0x5d \<and> f 136 = 0x5c"
  (is "?l \<longleftrightarrow> ?r")
proof
  assume l: ?l
  have "write_ok 3 (f 3)" "write_ok 4 (f 4)" "write_ok 136 (f 136)"
    by (rule l [rule_format], simp)+
  then show ?r by (simp add: write_ok_def)
qed (simp add: write_ok_def)

lemma attempt_result_OK:
  "attempt_result env v = OK \<longleftrightarrow> acked env \<and> v = Some OK"
  by (auto simp: attempt_result_def split: option.splits)

lemma read_result_OK: "read_result sector env = OK \<longleftrightarrow> acked env \<and> good_read_reply sector env"
proof -
  have "verdict read_len (read_ok sector) read_err (read_final sector) [rx1 env] (irqs env) = Some OK \<longleftrightarrow>
      140 \<le> length (replies env) \<and>
      (\<forall>n. Suc 0 \<le> n \<and> Suc n < 140 \<longrightarrow> read_ok sector n (replies env ! n)) \<and>
      read_final sector (take 140 (replies env)) (end_byte 140 env) = OK"
    by (subst verdict_OK_iff) (auto simp: read_len_def read_err_def replies_def end_byte_def)
  also have "\<dots> \<longleftrightarrow> good_read_reply sector env"
    unfolding all_read_ok good_read_reply_def
    by (auto simp: Let_def read_final_def read_data_def drop_take)
  finally show ?thesis by (simp add: read_result_def attempt_result_OK)
qed

lemma write_result_OK: "write_result b = OK \<longleftrightarrow> b = 0x47"
  by (simp add: write_result_def)

lemma write_attempt_result_OK: "write_attempt_result env = OK \<longleftrightarrow> acked env \<and> good_write_reply env"
proof -
  have "verdict write_len write_ok (\<lambda>n. ProtocolError) write_final [rx1 env] (irqs env) = Some OK \<longleftrightarrow>
      138 \<le> length (replies env) \<and>
      (\<forall>n. Suc 0 \<le> n \<and> Suc n < 138 \<longrightarrow> write_ok n (replies env ! n)) \<and>
      write_final (take 138 (replies env)) (end_byte 138 env) = OK"
    by (subst verdict_OK_iff) (auto simp: write_len_def replies_def end_byte_def)
  also have "\<dots> \<longleftrightarrow> good_write_reply env"
    unfolding all_write_ok good_write_reply_def
    by (auto simp: Let_def write_final_def write_result_OK)
  finally show ?thesis by (simp add: write_attempt_result_def attempt_result_OK)
qed

text \<open>A card in slot 0 whose sector 5 holds 128 bytes 7, four frames after the driver was constructed.\<close>

definition example_read_env :: attempt_env where
  "example_read_env = \<lparr>nows = [(0, 0), (4, 1052)], rx1 = 0xff, ack = Some 12,
     irqs = map (\<lambda>b. (b, 0x47)) ([0x08, 0x00, 0x5a, 0x5d, 0, 5, 0x5c, 0x5d, 0, 5] @ replicate 128 7 @ [5]),
     fin = (6, 1600)\<rparr>"

definition example_write_env :: attempt_env where
  "example_write_env = \<lparr>nows = [(0, 0), (4, 1052)], rx1 = 0xff, ack = Some 12,
     irqs = map (\<lambda>b. (b, 0x47)) ([0x08, 0x00, 0x5a, 0x5d, 0, 5] @ replicate 128 0 @ [0, 0x5c, 0x5d]),
     fin = (6, 1600)\<rparr>"

text \<open>
  C1: One blocking read attempt. Whatever the card answers, the attempt returns and leaves the port
  deselected, its interrupt masked, the deselect stamped and no handler installed. It reports OK exactly
  when the card acknowledged the first byte in time and then gave a complete reply whose identification,
  acknowledge, address and end bytes are right and whose checksum covers the address and the data; and then
  the caller's buffer holds the 128 data bytes and the bytes clocked out are the read command.
\<close>

theorem read_attempt_correct:
  assumes "waited env d" and "length buf = 128" and "unat sector < c_sectorCount"
  shows "\<exists>e d' buf'. singleSectorRead prt sector env (d, buf) = Some (e, d', buf') \<and> after_blocking d e d' \<and>
    (e = OK \<longleftrightarrow> acked env \<and> good_read_reply sector env) \<and>
    (e = OK \<longrightarrow> buf' = read_data (replies env) \<and> tx d' = tx d @ read_script sector)"
  using read_blocking [OF assms(1,2), of prt sector "[]"] assms(3)
  by (auto simp: singleSectorRead_def read_result_OK)

theorem read_attempt_correct_witness:
  "\<exists>d'. singleSectorRead Port0 5 example_read_env (fresh, replicate 128 0) = Some (OK, d', replicate 128 7)"
proof -
  have w: "waited example_read_env fresh"
    by (simp add: waited_def example_read_env_def fresh_def recoverBeforeSelect_def stampDeselect_def recovered_def)
  have g: "acked example_read_env \<and> good_read_reply 5 example_read_env \<and>
      read_data (replies example_read_env) = replicate 128 7"
    by code_simp
  show ?thesis
    using read_attempt_correct [OF w, of "replicate 128 0" 5 Port0] g by (auto simp: geometry)
qed

text \<open>
  C2: One blocking write attempt. Whatever the card answers, the attempt returns and leaves the port idle.
  It reports OK exactly when the first acknowledge came in time, the identification and acknowledge bytes
  are right and the end byte is 0x47; and then the bytes clocked out are the write command, the address,
  the 128 bytes of the caller's buffer, and the exclusive-or of address and data.
\<close>

theorem write_attempt_correct:
  assumes "waited env d" and "length buf = 128" and "unat sector < c_sectorCount"
  shows "\<exists>e d'. singleSectorWrite prt sector buf env d = Some (e, d') \<and> after_blocking d e d' \<and>
    (e = OK \<longleftrightarrow> acked env \<and> good_write_reply env) \<and>
    (e = OK \<longrightarrow> tx d' = tx d @ write_script sector buf)"
  using write_blocking [OF assms(1,2), of prt sector "[]"] assms(3)
  by (auto simp: singleSectorWrite_def write_attempt_result_OK)

theorem write_attempt_correct_witness:
  "\<exists>d'. singleSectorWrite Port0 5 (replicate 128 7) example_write_env fresh = Some (OK, d') \<and>
     tx d' = [0x81, 0x57, 0, 0, 0, 5] @ replicate 128 7 @ [5, 0, 0, 0]"
proof -
  have w: "waited example_write_env fresh"
    by (simp add: waited_def example_write_env_def fresh_def recoverBeforeSelect_def stampDeselect_def recovered_def)
  have g: "acked example_write_env \<and> good_write_reply example_write_env \<and>
      tx fresh @ write_script 5 (replicate 128 7) = [0x81, 0x57, 0, 0, 0, 5] @ replicate 128 7 @ [5, 0, 0, 0]"
    by code_simp
  show ?thesis
    using write_attempt_correct [OF w, of "replicate 128 7" 5 Port0] g by (auto simp: geometry)
qed

section \<open>Retries\<close>

text \<open>No step changes how long the caller's buffer is.\<close>

lemma readStep_buffer: "length (m_readBuffer (snd (readStep rx endb d))) = length (m_readBuffer d)"
  unfolding readStep_def Let_def send_def expect_def exchangeByte_def
  by (simp split: prod.splits step_result.splits if_splits)

lemma writeStep_buffer: "m_readBuffer (snd (writeStep rx endb d)) = m_readBuffer d"
  unfolding writeStep_def Let_def send_def expect_def exchangeByte_def
  by (simp split: prod.splits step_result.splits if_splits)

lemma machine_step_buffer:
  "length (m_readBuffer (snd (machine_step rx endb d))) = length (m_readBuffer d)"
  by (simp add: machine_step_def readStep_buffer writeStep_buffer)

lemma irq_buffer: "length (m_readBuffer (irq now rx endb d)) = length (m_readBuffer d)"
  using machine_step_buffer [of rx endb "d\<lparr>ctrl := ctrl d OR (portMask (m_port d) OR CTRL_ERRRES OR CTRL_DTR),
      m_step := m_step d + 1\<rparr>"]
  by (simp add: irq_def Let_def frame_simps split_beta)

lemma irq_run_buffer: "length (m_readBuffer (irq_run now d xs)) = length (m_readBuffer d)"
  by (induction now d xs rule: irq_run.induct) (simp_all add: irq_buffer)

lemma startTransfer_buffer:
  assumes "startTransfer env act prt sector readBuf writeBuf d = Some d'"
  shows "length (m_readBuffer d') = length readBuf"
proof -
  obtain d1 where d1: "recoverBeforeSelect (nows env) (start_state act prt sector readBuf writeBuf d) = Some d1"
    using assms by (auto simp: startTransfer_def start_state_def)
  have "m_readBuffer d1 = readBuf"
    using recoverBeforeSelect_frame [OF d1] by (auto simp: start_state_def)
  then show ?thesis
    using assms startTransfer_eq [OF d1]
    by (auto simp: selected_def frame_simps machine_step_buffer split: if_splits)
qed

lemma irqTransferBlocking_buffer:
  assumes "irqTransferBlocking act prt sector readBuf writeBuf env d = Some (e, d')"
  shows "length (m_readBuffer d') = length readBuf"
  using assms startTransfer_buffer
  by (auto simp: irqTransferBlocking_def Let_def irq_run_buffer frame_simps)

lemma singleSectorRead_buffer:
  "singleSectorRead prt sector env st = Some (e, st') \<Longrightarrow> length (snd st') = length (snd st)"
  by (auto simp: singleSectorRead_def irqTransferBlocking_buffer split: if_splits)

text \<open>
  Both blocking directions are clients of the retry contract: an attempt keeps the length of the buffer,
  and returns once its environment lets the recovery window pass.
\<close>

interpretation rd1: decided_attempt "singleSectorRead prt sector" "\<lambda>st. length (snd st) = 128"
    "\<lambda>env st. waited env (fst st) \<and> unat sector < c_sectorCount" "read_result sector"
    "\<lambda>st e st'. after_blocking (fst st) e (fst st')"
    "\<lambda>env st. read_result sector env = OK \<longrightarrow> snd st = read_data (replies env)" for prt sector
proof unfold_locales
  fix st :: "mc \<times> bytes" and env e st'
  assume len: "length (snd st) = 128"
  { assume "singleSectorRead prt sector env st = Some (e, st')"
    then show "length (snd st') = 128" using len singleSectorRead_buffer by metis }
  { assume "waited env (fst st) \<and> unat sector < c_sectorCount"
    then show "\<exists>st'. singleSectorRead prt sector env st = Some (read_result sector env, st') \<and>
        after_blocking (fst st) (read_result sector env) (fst st') \<and>
        (read_result sector env = OK \<longrightarrow> snd st' = read_data (replies env))"
      using read_blocking [of env "fst st" "snd st" prt sector "[]"] len
      by (auto simp: singleSectorRead_def)
    then show "singleSectorRead prt sector env st \<noteq> None" by auto }
qed (auto simp: after_blocking_def)

interpretation wr1: decided_attempt "singleSectorWrite prt sector buf" "\<lambda>d. length buf = 128"
    "\<lambda>env d. waited env d \<and> unat sector < c_sectorCount" write_attempt_result after_blocking
    "\<lambda>env d. write_attempt_result env = OK \<longrightarrow> (\<exists>t. tx d = t @ write_script sector buf)" for prt sector buf
proof unfold_locales
  fix d :: mc and env
  assume "length buf = 128" "waited env d \<and> unat sector < c_sectorCount"
  then show "\<exists>d'. singleSectorWrite prt sector buf env d = Some (write_attempt_result env, d') \<and>
      after_blocking d (write_attempt_result env) d' \<and>
      (write_attempt_result env = OK \<longrightarrow> (\<exists>t. tx d' = t @ write_script sector buf))"
    using write_blocking [of env d buf prt sector "[]"] by (auto simp: singleSectorWrite_def)
  then show "singleSectorWrite prt sector buf env d \<noteq> None" by auto
qed (auto simp: after_blocking_def)

text \<open>Two readings of the frame counter ten frames apart let any driver's recovery window pass.\<close>

lemma waited_frames:
  assumes "nows env = [(0, h), (10, h')]"
  shows "waited env d"
proof -
  have late: "3 \<le> 0 - f \<or> 3 \<le> 10 - f" for f :: u32
  proof (rule disjCI)
    assume "\<not> 3 \<le> 10 - f"
    then have "10 - f = 0 \<or> 10 - f = 1 \<or> 10 - f = 2"
      by unat_arith
    then have "f = 10 - 0 \<or> f = 10 - 1 \<or> f = 10 - 2"
      by (auto simp: algebra_simps)
    then show "3 \<le> 0 - f" by auto
  qed
  then show ?thesis
    using assms late
    by (auto simp: waited_def recoverBeforeSelect_def Let_def stampDeselect_def recovered_def)
qed

text \<open>
  C3: Blocking reads with retries. If the recovery window can pass before each attempt, the call returns
  with the outcome of one attempt: every attempt before it failed with an error a retry can cure, and it is
  such an error itself only if it was the third. On OK the caller's buffer holds the data of that attempt's
  reply, whatever the failed attempts before it stored there.
\<close>

theorem read_retry_correct:
  assumes "length buf = 128" and "unat sector < c_sectorCount" and "\<And>i d. waited (envs i) d"
  shows "\<exists>i d' buf'. i < c_maxAttempts \<and>
    readSectorBlocking prt sector envs (d, buf) = Some (read_result sector (envs i), d', buf') \<and>
    after_blocking d (read_result sector (envs i)) d' \<and>
    (\<forall>k<i. isTransient (read_result sector (envs k))) \<and>
    (isTransient (read_result sector (envs i)) \<longrightarrow> Suc i = c_maxAttempts) \<and>
    (read_result sector (envs i) = OK \<longrightarrow> buf' = read_data (replies (envs i)))"
proof -
  define i where "i = decisive (\<lambda>i. read_result sector (envs i)) 0 2"
  obtain st' where st': "retried (singleSectorRead prt sector) (Suc 2) envs NoCard 0 (d, buf) =
        Some (read_result sector (envs i), st')"
      "after_blocking d (read_result sector (envs i)) (fst st')"
      "read_result sector (envs i) = OK \<longrightarrow> snd st' = read_data (replies (envs i))"
    using rd1.retried_decided [of "(d, buf)" envs sector i 0 2 prt NoCard] assms i_def by auto
  have three: "c_maxAttempts = Suc 2" by (simp add: c_maxAttempts_def)
  have "i < c_maxAttempts" using decisive_bounds [of 0 "\<lambda>i. read_result sector (envs i)" 2] by (simp add: i_def three less_Suc_eq_le)
  moreover have "\<forall>k<i. isTransient (read_result sector (envs k))"
    unfolding i_def using decisive_before [of 0 _ "\<lambda>i. read_result sector (envs i)" 2] by simp
  moreover have "isTransient (read_result sector (envs i)) \<longrightarrow> Suc i = c_maxAttempts"
    unfolding i_def using decisive_transient [of "\<lambda>i. read_result sector (envs i)" 0 2] three by auto
  ultimately show ?thesis
    using st' by (intro exI [of _ i] exI [of _ "fst st'"] exI [of _ "snd st'"])
      (simp add: readSectorBlocking_def readSectorRetried_def three)
qed

text \<open>The card is slow to answer at first, and answers the second attempt.\<close>

definition example_envs :: "attempt_env \<Rightarrow> nat \<Rightarrow> attempt_env" where
  "example_envs env i = (if i = 0 then env\<lparr>nows := [(0, 0), (10, 0)], ack := None\<rparr>
     else env\<lparr>nows := [(0, 0), (10, 0)]\<rparr>)"

theorem read_retry_correct_witness:
  "\<exists>d'. readSectorBlocking Port0 5 (example_envs example_read_env) (fresh, replicate 128 0) =
     Some (OK, d', replicate 128 7)"
proof -
  have w: "waited (example_envs example_read_env i) d" for i d
    by (rule waited_frames [of _ 0 0]) (simp add: example_envs_def)
  have g: "read_result 5 (example_envs example_read_env 0) = NoCard"
    "read_result 5 (example_envs example_read_env (Suc 0)) = OK"
    "read_data (replies (example_envs example_read_env (Suc 0))) = replicate 128 7"
    by code_simp+
  obtain i d' buf' where i: "i < c_maxAttempts"
    "readSectorBlocking Port0 5 (example_envs example_read_env) (fresh, replicate 128 0) =
       Some (read_result 5 (example_envs example_read_env i), d', buf')"
    "\<forall>k<i. isTransient (read_result 5 (example_envs example_read_env k))"
    "isTransient (read_result 5 (example_envs example_read_env i)) \<longrightarrow> Suc i = c_maxAttempts"
    "read_result 5 (example_envs example_read_env i) = OK \<longrightarrow>
       buf' = read_data (replies (example_envs example_read_env i))"
    using read_retry_correct [where envs = "example_envs example_read_env" and buf = "replicate 128 0" and
          sector = 5 and prt = Port0 and d = fresh] w by (auto simp: geometry)
  have "i = Suc 0"
  proof -
    have "i \<noteq> 0" using i(4) g(1) by (cases "i = 0") (simp_all add: isTransient_def c_maxAttempts_def)
    moreover have "\<not> Suc 0 < i" using i(3) g(2) by auto
    ultimately show ?thesis by linarith
  qed
  with i g show ?thesis by auto
qed

text \<open>
  Blocking writes with retries. The call returns with the outcome of one attempt, chosen as for reads;
  on OK the last bytes clocked out are the whole write command with the caller's data and its checksum.
\<close>

theorem write_retry_correct:
  assumes "length buf = 128" and "unat sector < c_sectorCount" and "\<And>i d. waited (envs i) d"
  shows "\<exists>i d'. i < c_maxAttempts \<and>
    writeSectorBlocking prt sector buf envs d = Some (write_attempt_result (envs i), d') \<and>
    after_blocking d (write_attempt_result (envs i)) d' \<and>
    (\<forall>k<i. isTransient (write_attempt_result (envs k))) \<and>
    (isTransient (write_attempt_result (envs i)) \<longrightarrow> Suc i = c_maxAttempts) \<and>
    (write_attempt_result (envs i) = OK \<longrightarrow> (\<exists>t. tx d' = t @ write_script sector buf))"
proof -
  define i where "i = decisive (\<lambda>i. write_attempt_result (envs i)) 0 2"
  obtain d' where d': "retried (singleSectorWrite prt sector buf) (Suc 2) envs NoCard 0 d =
        Some (write_attempt_result (envs i), d')"
      "after_blocking d (write_attempt_result (envs i)) d'"
      "write_attempt_result (envs i) = OK \<longrightarrow> (\<exists>t. tx d' = t @ write_script sector buf)"
    using wr1.retried_decided [of buf envs sector i 0 2 prt NoCard d] assms i_def by auto
  have three: "c_maxAttempts = Suc 2" by (simp add: c_maxAttempts_def)
  have "i < c_maxAttempts" using decisive_bounds [of 0 "\<lambda>i. write_attempt_result (envs i)" 2] by (simp add: i_def three less_Suc_eq_le)
  moreover have "\<forall>k<i. isTransient (write_attempt_result (envs k))"
    unfolding i_def using decisive_before [of 0 _ "\<lambda>i. write_attempt_result (envs i)" 2] by simp
  moreover have "isTransient (write_attempt_result (envs i)) \<longrightarrow> Suc i = c_maxAttempts"
    unfolding i_def using decisive_transient [of "\<lambda>i. write_attempt_result (envs i)" 0 2] three by auto
  ultimately show ?thesis
    using d' by (intro exI [of _ i] exI [of _ d'])
      (simp add: writeSectorBlocking_def writeSectorRetried_def three)
qed

theorem write_retry_correct_witness:
  "\<exists>t d'. writeSectorBlocking Port0 5 (replicate 128 7) (example_envs example_write_env) fresh = Some (OK, d') \<and>
     tx d' = t @ [0x81, 0x57, 0, 0, 0, 5] @ replicate 128 7 @ [5, 0, 0, 0]"
proof -
  have w: "waited (example_envs example_write_env i) d" for i d
    by (rule waited_frames [of _ 0 0]) (simp add: example_envs_def)
  have g: "write_attempt_result (example_envs example_write_env 0) = NoCard"
    "write_attempt_result (example_envs example_write_env (Suc 0)) = OK"
    "write_script 5 (replicate 128 7) = [0x81, 0x57, 0, 0, 0, 5] @ replicate 128 7 @ [5, 0, 0, 0]"
    by code_simp+
  obtain i d' where i: "i < c_maxAttempts"
    "writeSectorBlocking Port0 5 (replicate 128 7) (example_envs example_write_env) fresh =
       Some (write_attempt_result (example_envs example_write_env i), d')"
    "\<forall>k<i. isTransient (write_attempt_result (example_envs example_write_env k))"
    "isTransient (write_attempt_result (example_envs example_write_env i)) \<longrightarrow> Suc i = c_maxAttempts"
    "write_attempt_result (example_envs example_write_env i) = OK \<longrightarrow>
       (\<exists>t. tx d' = t @ write_script 5 (replicate 128 7))"
    using write_retry_correct [where envs = "example_envs example_write_env" and buf = "replicate 128 7" and
          sector = 5 and prt = Port0 and d = fresh] w by (auto simp: geometry)
  have "i = Suc 0"
  proof -
    have "i \<noteq> 0" using i(4) g(1) by (cases "i = 0") (simp_all add: isTransient_def c_maxAttempts_def)
    moreover have "\<not> Suc 0 < i" using i(3) g(2) by auto
    ultimately show ?thesis by linarith
  qed
  with i g show ?thesis by auto
qed

section \<open>The recovery window\<close>

text \<open>
  The recovery test is exact. Let F frames and H horizontal blanks have passed since the deselect was
  stamped, where a frame has between 262 and 314 of them, a partial frame at either end. As long as the
  32-bit frame counter has not come round, the test passes exactly when at least 263 horizontal blanks have
  passed, although the hblank counter it reads is 16 bits wide and wraps every 200 frames or so.
\<close>

theorem recovered_exact:
  assumes "m_deselectStamped d" and "262 * F \<le> H + 262" and "H \<le> 314 * (F + 1)" and "F < 2 ^ 32"
  shows "recovered (m_deselectFrame d + of_nat F, m_deselectHblank d + of_nat H) d \<longleftrightarrow> 263 \<le> H"
proof -
  have f: "unat (of_nat F :: u32) = F" using assms(4) by (simp add: unat_of_nat take_bit_nat_eq_self)
  have three: "(3 :: u32) \<le> of_nat F \<longleftrightarrow> 3 \<le> F" using f by (simp add: word_le_nat_alt)
  show ?thesis
  proof (cases "3 \<le> F")
    case True
    then show ?thesis using assms three by (simp add: recovered_def)
  next
    case False
    then have h: "H < 2 ^ 16" using assms(3) by simp
    then have "unat (of_nat H :: u16) = H" by (simp add: unat_of_nat take_bit_nat_eq_self)
    then have "(263 :: u16) \<le> of_nat H \<longleftrightarrow> 263 \<le> H" by (simp add: word_le_nat_alt)
    then show ?thesis using False assms(1) three by (simp add: recovered_def c_recoveryHblanks_def)
  qed
qed

theorem recovered_exact_witness:
  "\<not> recovered (1, 262) (stampDeselect (0, 0) fresh) \<and> recovered (1, 263) (stampDeselect (0, 0) fresh) \<and>
   recovered (300, 79000) (stampDeselect (0, 0) fresh)"
  using recovered_exact [of "stampDeselect (0, 0) fresh" 1 262]
    recovered_exact [of "stampDeselect (0, 0) fresh" 1 263]
    recovered_exact [of "stampDeselect (0, 0) fresh" 300 79000]
  by (simp add: stampDeselect_def)

end
