(* ===== verification/Card_Async.thy ===== *)
theory Card_Async
  imports Card_Transfer
begin

text \<open>
  The asynchronous path of the driver as an implementation of a request with retries: an abstract request
  waits for the recovery window, is being transferred, has an attempt's result to be looked at, or is
  finished. Every interrupt and every pump of the callback queue is a step of the request, or none; from
  that follow exactly-once delivery and the bound on the attempts.
\<close>

section \<open>The abstract request\<close>

text \<open>The number is that of the attempts that failed before the one under way.\<close>

datatype request =
    Waiting nat
  | Active nat
  | Attempted nat error
  | Finished nat error

text \<open>Where an attempt that is issued can be found: still waiting, under way, or refused by an empty slot.\<close>

inductive issued :: "nat \<Rightarrow> request \<Rightarrow> bool" where
  "issued n (Waiting n)"
| "issued n (Active n)"
| "issued n (Attempted n NoCard)"

inductive request_step :: "request \<Rightarrow> request \<Rightarrow> bool" where
  wait: "issued n r \<Longrightarrow> request_step (Waiting n) r"
| byte: "request_step (Active n) (Active n)"
| complete: "request_step (Active n) (Attempted n e)"
| retry: "isTransient e \<Longrightarrow> Suc n < c_maxAttempts \<Longrightarrow> issued (Suc n) r \<Longrightarrow> request_step (Attempted n e) r"
| deliver: "\<not> isTransient e \<Longrightarrow> request_step (Attempted n e) (Finished n e)"
| give_up: "isTransient e \<Longrightarrow> c_maxAttempts \<le> Suc n \<Longrightarrow> request_step (Attempted n e) (Finished (Suc n) e)"
| stutter: "request_step r r"

inductive_cases request_stepE: "request_step r r'"

inductive request_reach :: "request \<Rightarrow> request \<Rightarrow> bool" where
  request_start: "request_reach r r"
| request_more: "request_reach r r' \<Longrightarrow> request_step r' r'' \<Longrightarrow> request_reach r r''"

fun request_bounded :: "request \<Rightarrow> bool" where
  "request_bounded (Waiting n) \<longleftrightarrow> n < c_maxAttempts"
| "request_bounded (Active n) \<longleftrightarrow> n < c_maxAttempts"
| "request_bounded (Attempted n e) \<longleftrightarrow> n < c_maxAttempts"
| "request_bounded (Finished n e) \<longleftrightarrow> n \<le> c_maxAttempts \<and> (isTransient e \<longleftrightarrow> n = c_maxAttempts)"

lemma issued_bounded: "issued n r \<Longrightarrow> n < c_maxAttempts \<Longrightarrow> request_bounded r"
  by (auto elim: issued.cases)

lemma request_step_bounded: "request_step r r' \<Longrightarrow> request_bounded r \<Longrightarrow> request_bounded r'"
  by (erule request_stepE) (auto simp: issued_bounded)

lemma request_reach_bounded: "request_reach r r' \<Longrightarrow> request_bounded r \<Longrightarrow> request_bounded r'"
  by (induction rule: request_reach.induct) (auto intro: request_step_bounded)

section \<open>The driver implements it\<close>

fun pending_call :: "call \<Rightarrow> bool" where
  "pending_call (Recheck act prt sector readBuf writeBuf) \<longleftrightarrow> act \<noteq> NoAction"
| "pending_call _ \<longleftrightarrow> False"

text \<open>How a driver state stands for a request that was made when the list of delivered results was \<open>base\<close>.\<close>

fun represents :: "error list \<Rightarrow> request \<Rightarrow> mc \<Rightarrow> bool" where
  "represents base (Waiting n) d \<longleftrightarrow> \<not> m_blocking d \<and> m_retryAction d \<noteq> NoAction \<and> m_attempt d = n \<and>
     m_userCallback d \<and> m_callback d \<and> m_action d = NoAction \<and> delivered d = base \<and>
     (\<exists>c. queued d = [c] \<and> pending_call c)"
| "represents base (Active n) d \<longleftrightarrow> \<not> m_blocking d \<and> m_retryAction d \<noteq> NoAction \<and> m_attempt d = n \<and>
     m_userCallback d \<and> m_callback d \<and> m_action d \<noteq> NoAction \<and> delivered d = base \<and> queued d = []"
| "represents base (Attempted n e) d \<longleftrightarrow> \<not> m_blocking d \<and> m_retryAction d \<noteq> NoAction \<and> m_attempt d = n \<and>
     m_userCallback d \<and> \<not> m_callback d \<and> m_action d = NoAction \<and> delivered d = base \<and>
     queued d = [AttemptDone e]"
| "represents base (Finished n e) d \<longleftrightarrow> \<not> m_blocking d \<and> m_attempt d = n \<and>
     \<not> m_userCallback d \<and> m_action d = NoAction \<and> delivered d = base @ [e] \<and> queued d = []"

lemma finishTransfer_async:
  assumes "represents base (Active n) d"
  shows "represents base (Attempted n e) (finishTransfer now e d)"
  using assms by (simp add: finishTransfer_def stampDeselect_def Let_def)

lemma startTransfer_async:
  assumes "startTransfer env act prt sector readBuf writeBuf d = Some d'"
    and "act \<noteq> NoAction" "\<not> m_blocking d" "m_retryAction d \<noteq> NoAction" "m_userCallback d" "m_callback d"
      "delivered d = base" "queued d = []"
  shows "\<exists>r. issued (m_attempt d) r \<and> represents base r d'"
proof -
  have w: "waited env d" using startTransfer_None assms(1) by fastforce
  obtain d1 where d1: "same_session d d1" "m_action d1 = act"
    and yes: "acked env \<Longrightarrow> startTransfer env act prt sector readBuf writeBuf d = Some d1"
    and no: "\<not> acked env \<Longrightarrow> startTransfer env act prt sector readBuf writeBuf d = Some (finishTransfer (fin env) NoCard d1)"
    using startTransfer_cases [OF assms(2) w] by metis
  have r1: "represents base (Active (m_attempt d)) d1"
    using d1 assms by (simp add: same_session_def)
  show ?thesis
  proof (cases "acked env")
    case True
    then have "d' = d1" using yes assms(1) by simp
    then show ?thesis using r1 issued.intros(2) by blast
  next
    case False
    then have "d' = finishTransfer (fin env) NoCard d1" using no assms(1) by simp
    then show ?thesis using finishTransfer_async [OF r1] issued.intros(3) by blast
  qed
qed

lemma startAsyncWhenRecovered_async:
  assumes "startAsyncWhenRecovered now env act prt sector readBuf writeBuf d = Some d'"
    and "act \<noteq> NoAction" "\<not> m_blocking d" "m_retryAction d \<noteq> NoAction" "m_userCallback d" "m_callback d"
      "delivered d = base" "queued d = []" "m_action d = NoAction"
  shows "\<exists>r. issued (m_attempt d) r \<and> represents base r d'"
proof -
  define d0 where "d0 = (if \<not> m_deselectStamped d then stampDeselect now (d\<lparr>ctrl := 0\<rparr>) else d)"
  have d0: "\<not> m_blocking d0" "m_retryAction d0 \<noteq> NoAction" "m_userCallback d0" "m_callback d0"
      "delivered d0 = base" "queued d0 = []" "m_action d0 = NoAction" "m_attempt d0 = m_attempt d"
    using assms by (simp_all add: d0_def stampDeselect_def)
  show ?thesis
  proof (cases "recovered now d0")
    case True
    then have "startTransfer env act prt sector readBuf writeBuf d0 = Some d'"
      using assms(1) by (simp add: startAsyncWhenRecovered_def d0_def)
    from startTransfer_async [OF this assms(2)] d0 show ?thesis by simp
  next
    case False
    then have "d' = d0\<lparr>queued := queued d0 @ [Recheck act prt sector readBuf writeBuf]\<rparr>"
      using assms(1) unfolding startAsyncWhenRecovered_def d0_def Let_def by (simp split: if_splits)
    then have "represents base (Waiting (m_attempt d)) d'" using d0 assms(2) by simp
    then show ?thesis using issued.intros(1) by blast
  qed
qed

lemma onAsyncAttemptDone_async:
  assumes "onAsyncAttemptDone now env e d = Some d'"
    and "\<not> m_blocking d" "m_retryAction d \<noteq> NoAction" "m_userCallback d" "m_action d = NoAction"
      "delivered d = base" "queued d = []" "m_attempt d = n"
  shows "\<exists>r. request_step (Attempted n e) r \<and> represents base r d'"
proof (cases "isTransient e")
  case True
  then have "e \<noteq> OK" by auto
  show ?thesis
  proof (cases "Suc n < c_maxAttempts")
    case again: True
    define d1 where "d1 = d\<lparr>m_attempt := Suc n, m_callback := True\<rparr>"
    have "startAsyncWhenRecovered now env (m_retryAction d1) (m_port d1) (m_sector d1) (m_readBuffer d1)
        (m_writeBuffer d1) d1 = Some d'"
      using assms(1,8) True again \<open>e \<noteq> OK\<close>
      by (simp add: onAsyncAttemptDone_def startAsyncAttempt_def d1_def)
    from startAsyncWhenRecovered_async [OF this] assms obtain r where
      "issued (Suc n) r" "represents base r d'" by (auto simp: d1_def)
    then show ?thesis using request_step.retry [OF True again] by blast
  next
    case False
    then have "represents base (Finished (Suc n) e) d'"
      using assms True \<open>e \<noteq> OK\<close> by (auto simp: onAsyncAttemptDone_def Let_def)
    moreover have "request_step (Attempted n e) (Finished (Suc n) e)"
      using request_step.give_up [OF True] False by simp
    ultimately show ?thesis by blast
  qed
next
  case False
  then have "represents base (Finished n e) d'"
    using assms by (auto simp: onAsyncAttemptDone_def Let_def)
  then show ?thesis using request_step.deliver [OF False] by blast
qed

lemma irq_async:
  assumes "represents base (Active n) d"
  shows "\<exists>r. request_step (Active n) r \<and> represents base r (irq now rx endb (d\<lparr>ireg := False\<rparr>))"
proof -
  define d1 where "d1 = ticked False (ctrl d OR (portMask (m_port d) OR CTRL_ERRRES OR CTRL_DTR)) d"
  have act: "m_action d \<noteq> NoAction" using assms by simp
  have eq: "irq now rx endb (d\<lparr>ireg := False\<rparr>) =
      (let (r, d') = machine_step rx endb d1 in if r = Done then finishTransfer now (m_result d') d' else d')"
    using act by (simp add: irq_def Let_def d1_def)
  have "represents base (Active n) d1" using assms by (simp add: d1_def)
  then have r1: "represents base (Active n) (snd (machine_step rx endb d1))"
    using machine_step_same [of d1 rx endb] by (simp add: same_transfer_def same_session_def)
  show ?thesis
  proof (cases "fst (machine_step rx endb d1) = Done")
    case True
    then show ?thesis using finishTransfer_async [OF r1] request_step.complete
      by (fastforce simp: eq split_beta)
  next
    case False
    then show ?thesis using r1 request_step.byte by (fastforce simp: eq split_beta)
  qed
qed

lemma async_simulation:
  assumes "async_step d d'" and "represents base r d"
  shows "\<exists>r'. request_step r r' \<and> represents base r' d'"
proof -
  from assms(1) consider (irq) now rx endb where "d' = irq now rx endb (d\<lparr>ireg := False\<rparr>)"
    | (pump) c cs now env where "queued d = c # cs" "run_call now env c (d\<lparr>queued := cs\<rparr>) = Some d'"
    by (erule_tac async_stepE) blast+
  then show ?thesis
proof cases
  case (irq now rx endb)
  show ?thesis
  proof (cases r)
    case (Active n)
    then show ?thesis using irq_async assms(2) irq by blast
  qed (use assms(2) irq request_step.stutter in \<open>fastforce simp: irq_def\<close>)+
next
  case (pump c cs now env)
  show ?thesis
  proof (cases r)
    case (Waiting n)
    then obtain act prt sector readBuf writeBuf where c: "c = Recheck act prt sector readBuf writeBuf"
        "act \<noteq> NoAction" "cs = []"
      using assms(2) pump(1) by (cases c) auto
    then obtain r' where "issued (m_attempt d) r'" "represents base r' d'"
      using startAsyncWhenRecovered_async [of now env act prt sector readBuf writeBuf "d\<lparr>queued := cs\<rparr>" d' base]
        pump(2) assms(2) Waiting by auto
    then show ?thesis using request_step.wait assms(2) Waiting by auto
  next
    case (Active n)
    then show ?thesis using assms(2) pump(1) by simp
  next
    case (Attempted n e)
    then show ?thesis
      using onAsyncAttemptDone_async [of now env e "d\<lparr>queued := cs\<rparr>" d' base n] pump assms(2) by auto
  next
    case (Finished n e)
    then show ?thesis using assms(2) pump(1) by simp
  qed
qed
qed

lemma async_reach_simulation:
  assumes "async_reach d d'" and "represents base r d"
  shows "\<exists>r'. request_reach r r' \<and> represents base r' d'"
  using assms
proof (induction rule: async_reach.induct)
  case (reach_start d)
  then show ?case using request_start by blast
next
  case (reach_more d d' d'')
  then show ?case using async_simulation request_more by blast
qed

section \<open>What a caller of the driver can rely on\<close>

definition requested :: "mc \<Rightarrow> mc \<Rightarrow> bool" where
  "requested d d0 \<longleftrightarrow> m_action d = NoAction \<and> queued d = [] \<and>
     (\<exists>now env prt sector buf. unat sector < c_sectorCount \<and>
        (readSector now env prt sector buf d = Some d0 \<or> writeSector now env prt sector buf d = Some d0))"

lemma requested_waiting:
  assumes "requested d d0"
  shows "\<exists>r. request_reach (Waiting 0) r \<and> represents (delivered d) r d0"
proof -
  from assms obtain now env act prt sector readBuf writeBuf where act: "act \<noteq> NoAction"
    and start: "startAsyncAttempt now env act prt sector readBuf writeBuf
      (d\<lparr>m_blocking := False, m_attempt := 0, m_userCallback := True\<rparr>) = Some d0"
    and idle: "m_action d = NoAction" "queued d = []"
    unfolding requested_def readSector_def writeSector_def
    by (metis action.distinct(1) action.distinct(3) not_le)
  obtain r where "issued 0 r" "represents (delivered d) r d0"
    using startAsyncWhenRecovered_async [OF start [unfolded startAsyncAttempt_def] act] idle act by auto
  then show ?thesis using request_step.wait request_start request_more by blast
qed

text \<open>
  C4: An asynchronous transfer implements the abstract request: after \<open>readSector\<close> or \<open>writeSector\<close> on an
  idle driver, every state the driver can reach by interrupts and callback pumps stands for a state the
  request can reach, which waits, is transferred, is retried at most twice, and finishes once.
\<close>

theorem async_refines_request:
  assumes "requested d d0" and "async_reach d0 d'"
  shows "\<exists>r. request_reach (Waiting 0) r \<and> represents (delivered d) r d'"
proof -
  obtain r where r: "request_reach (Waiting 0) r" "represents (delivered d) r d0"
    using requested_waiting [OF assms(1)] by blast
  obtain r' where r': "request_reach r r'" "represents (delivered d) r' d'"
    using async_reach_simulation [OF assms(2) r(2)] by blast
  have "request_reach (Waiting 0) r'"
    using r'(1) r(1) by (induction rule: request_reach.induct) (auto intro: request_more)
  then show ?thesis using r'(2) by blast
qed

lemma async_bounded:
  assumes "requested d d0" and "async_reach d0 d'"
  obtains r where "represents (delivered d) r d'" "request_bounded r"
proof -
  obtain r0 where r0: "request_reach (Waiting 0) r0" "represents (delivered d) r0 d0"
    using requested_waiting [OF assms(1)] by blast
  obtain r where r: "request_reach r0 r" "represents (delivered d) r d'"
    using async_reach_simulation [OF assms(2) r0(2)] by blast
  have "request_bounded (Waiting 0)" by (simp add: c_maxAttempts_def)
  then show thesis using that [OF r(2)] r r0 request_reach_bounded by blast
qed

text \<open>
  C5: Exactly-once delivery. In every reachable state, either nothing was delivered yet, the user's callback
  is still held, fewer than three attempts have failed, and exactly one thing is pending: the transfer or one
  callback in the kernel's queue. Or the callback was called once, nothing is pending, the result is a
  failure a retry could cure only if three attempts failed, and no later interrupt can call it again.
\<close>

theorem async_delivers_once:
  assumes "requested d d0" and "async_reach d0 d'"
  shows "(delivered d' = delivered d \<and> m_userCallback d' \<and> m_attempt d' < c_maxAttempts \<and>
            length (queued d') + (if m_action d' = NoAction then 0 else 1) = 1) \<or>
         (\<exists>e. delivered d' = delivered d @ [e] \<and> \<not> m_userCallback d' \<and> queued d' = [] \<and>
            m_action d' = NoAction \<and> m_attempt d' \<le> c_maxAttempts \<and>
            (isTransient e \<longleftrightarrow> m_attempt d' = c_maxAttempts) \<and>
            (\<forall>d''. async_step d' d'' \<longrightarrow> delivered d'' = delivered d'))"
proof -
  obtain r where r: "represents (delivered d) r d'" "request_bounded r"
    using async_bounded [OF assms] by blast
  show ?thesis
  proof (cases r)
    case (Finished n e)
    have "\<forall>d''. async_step d' d'' \<longrightarrow> delivered d'' = delivered d'"
      using r Finished by (auto elim!: async_stepE simp: irq_def)
    then show ?thesis using r Finished by auto
  qed (use r in auto)
qed

text \<open>
  While a transfer is under way the driver has nothing in the callback queue, so every step it can take
  is an acknowledge interrupt. A card that stops acknowledging in the middle of an asynchronous transfer
  therefore leaves the request pending: there is no counterpart of the blocking path's watchdog.
\<close>

theorem async_waits_for_card:
  assumes "requested d d0" and "async_reach d0 d'" and "m_action d' \<noteq> NoAction"
  shows "m_userCallback d' \<and> delivered d' = delivered d \<and> queued d' = [] \<and>
    (\<forall>d''. async_step d' d'' \<longrightarrow> (\<exists>now rx endb. d'' = irq now rx endb (d'\<lparr>ireg := False\<rparr>)))"
proof -
  obtain r where "represents (delivered d) r d'" using async_bounded [OF assms(1,2)] by blast
  with assms(3) have "m_userCallback d'" "delivered d' = delivered d" "queued d' = []"
    by (cases r; simp)+
  then show ?thesis by (auto elim!: async_stepE)
qed

text \<open>A driver whose last transfer ended four frames ago; the card acknowledges at once, or never.\<close>

definition example_idle :: mc where
  "example_idle = stampDeselect (0, 0) fresh"

definition example_env :: "nat option \<Rightarrow> attempt_env" where
  "example_env a = \<lparr>nows = [(4, 1052)], rx1 = 0xff, ack = a, irqs = [], fin = (4, 1060)\<rparr>"

lemma example_requested:
  "requested example_idle (the (readSector (4, 1052) (example_env a) Port0 5 (replicate 128 0) example_idle))"
proof -
  have "readSector (4, 1052) (example_env a) Port0 5 (replicate 128 0) example_idle \<noteq> None"
    by (simp add: readSector_def startAsyncAttempt_def startAsyncWhenRecovered_def startTransfer_def
        recoverBeforeSelect_def recovered_def example_idle_def example_env_def fresh_def stampDeselect_def
        geometry)
  then show ?thesis
    unfolding requested_def
    by (intro conjI exI [of _ "(4, 1052)"] exI [of _ "example_env a"] exI [of _ Port0] exI [of _ 5]
          exI [of _ "replicate 128 0"] disjI1)
       (simp_all add: example_idle_def fresh_def stampDeselect_def geometry)
qed

lemma example_transfer:
  "m_action (the (readSector (4, 1052) (example_env (Some 0)) Port0 5 (replicate 128 0) example_idle)) = Read"
proof -
  have "poll_ack (Some 0) c_ackTimeoutShort 0 = 0" by (simp add: poll_ack.simps ack_seen_def)
  then show ?thesis
    by (simp add: readSector_def startAsyncAttempt_def startAsyncWhenRecovered_def startTransfer_def
        recoverBeforeSelect_def recovered_def example_idle_def example_env_def fresh_def stampDeselect_def
        geometry Let_def machine_step_def readStep_def exchange_defs c_ackTimeoutShort_def)
qed

theorem async_refines_request_witness:
  "\<exists>r. request_reach (Waiting 0) r \<and> represents [] r
     (the (readSector (4, 1052) (example_env (Some 0)) Port0 5 (replicate 128 0) example_idle))"
  using async_refines_request [OF example_requested reach_start, of "Some 0"]
  by (simp add: example_idle_def stampDeselect_def fresh_def)

theorem async_delivers_once_witness:
  "delivered (the (readSector (4, 1052) (example_env (Some 0)) Port0 5 (replicate 128 0) example_idle)) = []"
  using async_delivers_once [OF example_requested reach_start, of "Some 0"] example_transfer
  by (auto simp: example_idle_def stampDeselect_def fresh_def)

theorem async_waits_for_card_witness:
  "queued (the (readSector (4, 1052) (example_env (Some 0)) Port0 5 (replicate 128 0) example_idle)) = []"
  using async_waits_for_card [OF example_requested reach_start, of "Some 0"] example_transfer by simp

end
