(* ===== verification/Card_Polled.thy ===== *)
theory Card_Polled
  imports Card_Transfer
begin

text \<open>
  The busy-polled transport of the driver (\<open>doReadSector\<close> and \<open>doWriteSector\<close> in
  \<open>psyqo/src/memory-card.cpp\<close>), which clocks each byte out and waits for its reply and its acknowledge
  before the next. The card is a function: \<open>rx n\<close> is what the exchange number \<open>n\<close> of the transfer reads,
  \<open>acks n\<close> the poll at which its acknowledge is seen. The interrupt-driven transport reads the reply of an
  exchange one exchange later; \<open>same_card\<close> says when the two see the same card, and the theorems compare
  what the two accept.
\<close>

section \<open>The transport\<close>

record polled_env =
  p_nows :: "clock list"
  p_rx :: "nat \<Rightarrow> u8"
  p_acks :: "nat \<Rightarrow> nat option"
  p_fin :: clock

text \<open>A polled transfer: the driver, the exchanges made so far, and the caller's buffer.\<close>

type_synonym polled = "mc \<times> nat \<times> bytes"

definition deselect :: "clock \<Rightarrow> mc \<Rightarrow> mc" where
  "deselect now d = stampDeselect now (d\<lparr>ctrl := 0\<rparr>)"

definition selectPort :: "clock list \<Rightarrow> port \<Rightarrow> mc \<Rightarrow> mc option" where
  "selectPort ns prt d =
     map_option
       (\<lambda>d. let d = d\<lparr>ctrl := portMask prt OR CTRL_DTR, baud := 0x88\<rparr>
            in d\<lparr>ctrl := ctrl d OR (CTRL_TXEN OR CTRL_ACKIRQEN)\<rparr>)
       (recoverBeforeSelect ns d)"

definition transceive :: "polled_env \<Rightarrow> u8 \<Rightarrow> polled \<Rightarrow> u8 \<times> polled" where
  "transceive env out st =
     (case st of (d, n, buf) \<Rightarrow>
        (p_rx env n, d\<lparr>ctrl := ctrl d OR CTRL_ERRRES, ireg := False, tx := tx d @ [out]\<rparr>, Suc n, buf))"

definition waitAck :: "nat option \<Rightarrow> nat \<Rightarrow> bool" where
  "waitAck a timeout \<longleftrightarrow> \<not> poll_ack a timeout 0 \<ge> timeout"

text \<open>
  \<open>x = transceive(out); if (!waitAck(timeout)) { deselect(); return err; }\<close> and then the rest, \<open>k\<close>.
\<close>

definition acked_byte ::
  "polled_env \<Rightarrow> u8 \<Rightarrow> nat \<Rightarrow> error \<Rightarrow> (u8 \<Rightarrow> polled \<Rightarrow> error \<times> polled) \<Rightarrow> polled \<Rightarrow> error \<times> polled"
where
  "acked_byte env out timeout err k st =
     (let (b, d, n, buf) = transceive env out st
      in if \<not> waitAck (p_acks env (n - 1)) timeout then (err, deselect (p_fin env) d, n, buf)
         else k b (d, n, buf))"

abbreviation long_byte :: "polled_env \<Rightarrow> u8 \<Rightarrow> (u8 \<Rightarrow> polled \<Rightarrow> error \<times> polled) \<Rightarrow> polled \<Rightarrow> error \<times> polled" where
  "long_byte env out \<equiv> acked_byte env out c_ackTimeoutLong Timeout"

text \<open>\<open>for (i = 0; i < c_sectorSize; i++)\<close> of the read, \<open>left\<close> iterations before the end.\<close>

fun read_loop ::
  "polled_env \<Rightarrow> nat \<Rightarrow> u8 \<Rightarrow> (u8 \<Rightarrow> polled \<Rightarrow> error \<times> polled) \<Rightarrow> polled \<Rightarrow> error \<times> polled"
where
  "read_loop env 0 checksum k st = k checksum st"
| "read_loop env (Suc left) checksum k st =
     (let (value, d, n, buf) = transceive env 0x00 st;
          buf = buf[c_sectorSize - Suc left := value];
          checksum = checksum XOR value
      in if \<not> waitAck (p_acks env (n - 1)) c_ackTimeoutLong then (Timeout, deselect (p_fin env) d, n, buf)
         else read_loop env left checksum k (d, n, buf))"

definition doReadSector :: "polled_env \<Rightarrow> port \<Rightarrow> u16 \<Rightarrow> mc \<Rightarrow> bytes \<Rightarrow> (error \<times> mc \<times> bytes) option" where
  "doReadSector env prt sector d out =
     (if unat sector \<ge> c_sectorCount then Some (BadSector, d, out)
      else
        let wasSet = imask d; d = d\<lparr>imask := False\<rparr> in
        map_option
          (\<lambda>d.
            let hi = msb sector; lo = lsb sector;
                (e, d, n, out) =
                 (acked_byte env 0x81 c_ackTimeoutShort NoCard (\<lambda>_.
                  long_byte env 0x52 (\<lambda>_.
                  long_byte env 0x00 (\<lambda>_.
                  long_byte env 0x00 (\<lambda>_.
                  long_byte env hi (\<lambda>_.
                  long_byte env lo (\<lambda>_.
                  long_byte env 0x00 (\<lambda>_.
                  long_byte env 0x00 (\<lambda>_.
                  long_byte env 0x00 (\<lambda>confMSB.
                  long_byte env 0x00 (\<lambda>confLSB st.
                    if confMSB = 0xff \<and> confLSB = 0xff
                    then (case st of (d, n, buf) \<Rightarrow> (BadSector, deselect (p_fin env) d, n, buf))
                    else
                      read_loop env c_sectorSize (hi XOR lo) (\<lambda>checksum.
                      long_byte env 0x00 (\<lambda>cardChecksum st.
                        let (endByte, d, n, buf) = transceive env 0x00 st;
                            d = deselect (p_fin env) d
                        in (if cardChecksum \<noteq> checksum then BadChecksum
                            else if endByte \<noteq> 0x47 then ProtocolError else OK, d, n, buf))) st))))))))))
                 (d, 0, out))
            in (e, if wasSet then d\<lparr>imask := True\<rparr> else d, out))
          (selectPort (p_nows env) prt d))"

fun write_loop ::
  "polled_env \<Rightarrow> bytes \<Rightarrow> (polled \<Rightarrow> error \<times> polled) \<Rightarrow> polled \<Rightarrow> error \<times> polled"
where
  "write_loop env [] k st = k st"
| "write_loop env (b # bs) k st = long_byte env b (\<lambda>_. write_loop env bs k) st"

definition doWriteSector :: "polled_env \<Rightarrow> port \<Rightarrow> u16 \<Rightarrow> bytes \<Rightarrow> mc \<Rightarrow> (error \<times> mc) option" where
  "doWriteSector env prt sector buf d =
     (if unat sector \<ge> c_sectorCount then Some (BadSector, d)
      else
        let wasSet = imask d; d = d\<lparr>imask := False\<rparr> in
        map_option
          (\<lambda>d.
            let hi = msb sector; lo = lsb sector;
                checksum = foldl (XOR) (hi XOR lo) (take c_sectorSize buf);
                (e, d, n, _) =
                 (acked_byte env 0x81 c_ackTimeoutShort NoCard (\<lambda>_.
                  long_byte env 0x57 (\<lambda>_.
                  long_byte env 0x00 (\<lambda>_.
                  long_byte env 0x00 (\<lambda>_.
                  long_byte env hi (\<lambda>_.
                  long_byte env lo (\<lambda>_.
                  write_loop env (take c_sectorSize buf) (
                  long_byte env checksum (\<lambda>_.
                  long_byte env 0x00 (\<lambda>_.
                  long_byte env 0x00 (\<lambda>_ st.
                    let (endByte, d, n, buf) = transceive env 0x00 st
                    in (write_result endByte, deselect (p_fin env) d, n, buf)))))))))))
                 (d, 0, []))
            in (e, if wasSet then d\<lparr>imask := True\<rparr> else d))
          (selectPort (p_nows env) prt d))"

section \<open>Running a transfer\<close>

definition acked_at :: "polled_env \<Rightarrow> nat \<Rightarrow> nat \<Rightarrow> bool" where
  "acked_at env timeout n \<longleftrightarrow> (case p_acks env n of None \<Rightarrow> False | Some k \<Rightarrow> k < timeout)"

lemma waitAck_iff [simp]: "waitAck (p_acks env n) timeout \<longleftrightarrow> acked_at env timeout n"
  using poll_ack_result [of "p_acks env n" timeout 0]
  by (auto simp: waitAck_def acked_at_def not_le split: option.splits)

definition sent :: "u8 \<Rightarrow> mc \<Rightarrow> mc" where
  "sent out d = d\<lparr>ctrl := ctrl d OR CTRL_ERRRES, ireg := False, tx := tx d @ [out]\<rparr>"

lemma acked_byte_eq:
  "acked_byte env out timeout err k (d, n, buf) =
     (if acked_at env timeout n then k (p_rx env n) (sent out d, Suc n, buf)
      else (err, deselect (p_fin env) (sent out d), Suc n, buf))"
  by (simp add: acked_byte_def transceive_def sent_def)

lemma sent_simps [simp]:
  "tx (sent out d) = tx d @ [out]" "imask (sent out d) = imask d" "m_action (sent out d) = m_action d"
  by (simp_all add: sent_def)

lemma deselect_simps [simp]:
  "tx (deselect now d) = tx d" "imask (deselect now d) = imask d" "ctrl (deselect now d) = 0"
  "m_deselectStamped (deselect now d)"
  by (simp_all add: deselect_def stampDeselect_def)

text \<open>The loop on a card that acknowledges every byte, and on one that stops.\<close>

lemma read_loop_acked:
  assumes "\<And>i. n \<le> i \<Longrightarrow> i < n + left \<Longrightarrow> acked_at env c_ackTimeoutLong i"
    and "left \<le> c_sectorSize" and "length buf = c_sectorSize"
  shows "\<exists>d'. tx d' = tx d @ replicate left 0 \<and> imask d' = imask d \<and>
    read_loop env left c k (d, n, buf) =
      k (foldl (XOR) c (map (p_rx env) [n..<n + left]))
        (d', n + left, take (c_sectorSize - left) buf @ map (p_rx env) [n..<n + left])"
  using assms
proof (induction left arbitrary: c d n buf)
  case 0
  then show ?case by (intro exI [of _ d]) simp
next
  case (Suc left)
  have ok: "acked_at env c_ackTimeoutLong n" using Suc.prems(1) by simp
  define i where "i = c_sectorSize - Suc left"
  have i: "i < length buf" using Suc.prems(2,3) by (simp add: i_def)
  have up: "[n..<n + Suc left] = n # [Suc n..<Suc n + left]" by (simp add: upt_conv_Cons del: upt_Suc)
  have one: "read_loop env (Suc left) c k (d, n, buf) =
      read_loop env left (c XOR p_rx env n) k (sent 0 d, Suc n, buf[i := p_rx env n])"
    using ok by (simp add: transceive_def sent_def i_def)
  have t: "take (c_sectorSize - left) (buf[i := p_rx env n]) = take i buf @ [p_rx env n]"
  proof -
    have "c_sectorSize - left = Suc i" using Suc.prems(2) by (simp add: i_def)
    then show ?thesis using i by (simp add: take_Suc_conv_app_nth)
  qed
  obtain d' where "tx d' = tx (sent 0 d) @ replicate left 0" "imask d' = imask (sent 0 d)"
    "read_loop env left (c XOR p_rx env n) k (sent 0 d, Suc n, buf[i := p_rx env n]) =
      k (foldl (XOR) (c XOR p_rx env n) (map (p_rx env) [Suc n..<Suc n + left]))
        (d', Suc n + left, take (c_sectorSize - left) (buf[i := p_rx env n]) @ map (p_rx env) [Suc n..<Suc n + left])"
    using Suc.IH [of "Suc n" "buf[i := p_rx env n]" "sent 0 d" "c XOR p_rx env n"] Suc.prems by auto
  then show ?case
    unfolding one t up by (intro exI [of _ d']) (simp del: upt_Suc add: i_def)
qed

lemma read_loop_refused:
  assumes "n \<le> i" and "i < n + left" and "\<not> acked_at env c_ackTimeoutLong i"
  shows "\<exists>d' n' buf'. read_loop env left c k (d, n, buf) = (Timeout, deselect (p_fin env) d', n', buf') \<and>
    imask d' = imask d"
  using assms
proof (induction left arbitrary: c d n buf)
  case (Suc left)
  show ?case
  proof (cases "acked_at env c_ackTimeoutLong n")
    case True
    then have "n \<noteq> i" using Suc.prems(3) by auto
    then have "\<exists>d' n' buf'. read_loop env left (c XOR p_rx env n) k
        (sent 0 d, Suc n, buf[c_sectorSize - Suc left := p_rx env n]) =
        (Timeout, deselect (p_fin env) d', n', buf') \<and> imask d' = imask (sent 0 d)"
      using Suc.prems by (intro Suc.IH) auto
    then show ?thesis using True by (simp add: transceive_def sent_def)
  next
    case False
    then show ?thesis by (auto simp: transceive_def sent_def)
  qed
qed simp

lemma write_loop_acked:
  assumes "\<And>i. n \<le> i \<Longrightarrow> i < n + length bs \<Longrightarrow> acked_at env c_ackTimeoutLong i"
  shows "\<exists>d'. tx d' = tx d @ bs \<and> imask d' = imask d \<and>
    write_loop env bs k (d, n, buf) = k (d', n + length bs, buf)"
  using assms
proof (induction bs arbitrary: d n)
  case Nil
  then show ?case by (intro exI [of _ d]) simp
next
  case (Cons b bs)
  have ok: "acked_at env c_ackTimeoutLong n" using Cons.prems by simp
  obtain d' where "tx d' = tx (sent b d) @ bs" "imask d' = imask (sent b d)"
    "write_loop env bs k (sent b d, Suc n, buf) = k (d', Suc n + length bs, buf)"
    using Cons.IH [of "Suc n" "sent b d"] Cons.prems by auto
  then show ?case using ok by (intro exI [of _ d']) (simp add: acked_byte_eq)
qed

lemma write_loop_refused:
  assumes "n \<le> i" and "i < n + length bs" and "\<not> acked_at env c_ackTimeoutLong i"
  shows "\<exists>d' n'. write_loop env bs k (d, n, buf) = (Timeout, deselect (p_fin env) d', n', buf) \<and>
    imask d' = imask d"
  using assms
proof (induction bs arbitrary: d n)
  case (Cons b bs)
  show ?case
  proof (cases "acked_at env c_ackTimeoutLong n")
    case True
    then have "n \<noteq> i" using Cons.prems(3) by auto
    then have "\<exists>d' n'. write_loop env bs k (sent b d, Suc n, buf) = (Timeout, deselect (p_fin env) d', n', buf) \<and>
        imask d' = imask (sent b d)"
      using Cons.prems by (intro Cons.IH) auto
    then show ?thesis using True by (simp add: acked_byte_eq)
  next
    case False
    then show ?thesis by (auto simp: acked_byte_eq intro!: exI [of _ "sent b d"])
  qed
qed simp

section \<open>What the polled transport accepts\<close>

definition polled_acks :: "nat \<Rightarrow> polled_env \<Rightarrow> bool" where
  "polled_acks len env \<longleftrightarrow> acked_at env c_ackTimeoutShort 0 \<and>
     (\<forall>n \<in> {1..<len - 1}. acked_at env c_ackTimeoutLong n)"

definition polled_good_read :: "u16 \<Rightarrow> polled_env \<Rightarrow> bool" where
  "polled_good_read sector env \<longleftrightarrow> polled_acks 140 env \<and>
     \<not> (p_rx env 8 = 0xff \<and> p_rx env 9 = 0xff) \<and>
     p_rx env 138 = xor_bytes (msb sector XOR lsb sector) (map (p_rx env) [10..<138]) \<and>
     p_rx env 139 = 0x47"

lemma selectPort_waited:
  assumes "recoverBeforeSelect ns d \<noteq> None"
  obtains d' where "selectPort ns prt d = Some d'" "tx d' = tx d" "imask d' = imask d"
proof -
  obtain d1 where "recoverBeforeSelect ns d = Some d1" using assms by blast
  then show thesis
    using recoverBeforeSelect_frame [of ns d d1] that by (auto simp: selectPort_def Let_def)
qed

definition settled :: "mc \<Rightarrow> mc \<Rightarrow> bool" where
  "settled d d' \<longleftrightarrow> ctrl d' = 0 \<and> m_deselectStamped d' \<and> imask d' = imask d"

text \<open>The part of a read after the addresses went out, as the loop and the last two bytes.\<close>

definition read_tail :: "polled_env \<Rightarrow> u8 \<Rightarrow> polled \<Rightarrow> error \<times> polled" where
  "read_tail env c = read_loop env c_sectorSize c (\<lambda>checksum.
     long_byte env 0x00 (\<lambda>cardChecksum st.
       let (endByte, d, n, buf) = transceive env 0x00 st;
           d = deselect (p_fin env) d
       in (if cardChecksum \<noteq> checksum then BadChecksum
           else if endByte \<noteq> 0x47 then ProtocolError else OK, d, n, buf)))"

lemma read_tail_result:
  assumes "length buf = c_sectorSize"
  shows "\<exists>e d' n' buf'. read_tail env c (d, 10, buf) = (e, d', n', buf') \<and> settled d d' \<and>
    (e = OK \<longleftrightarrow> (\<forall>n \<in> {10..<139}. acked_at env c_ackTimeoutLong n) \<and>
       p_rx env 138 = xor_bytes c (map (p_rx env) [10..<138]) \<and> p_rx env 139 = 0x47) \<and>
    (e = OK \<longrightarrow> buf' = map (p_rx env) [10..<138] \<and> tx d' = tx d @ replicate 130 0)"
proof (cases "\<forall>n \<in> {10..<138}. acked_at env c_ackTimeoutLong n")
  case False
  then obtain i where i: "10 \<le> i" "i < 10 + c_sectorSize" "\<not> acked_at env c_ackTimeoutLong i"
    by (auto simp: geometry)
  obtain d' n' buf' where "read_tail env c (d, 10, buf) = (Timeout, deselect (p_fin env) d', n', buf')"
      "imask d' = imask d"
    unfolding read_tail_def using read_loop_refused [OF i] by blast
  moreover have "\<not> (\<forall>n \<in> {10..<139}. acked_at env c_ackTimeoutLong n)"
    using i by (auto simp: geometry)
  ultimately show ?thesis by (auto simp: settled_def)
next
  case True
  define k where "k = (\<lambda>checksum. long_byte env 0x00 (\<lambda>cardChecksum st.
       let (endByte, d, n, buf) = transceive env 0x00 st; d = deselect (p_fin env) d
       in (if cardChecksum \<noteq> checksum then BadChecksum
           else if endByte \<noteq> 0x47 then ProtocolError else OK, d, n, buf)))"
  define data where "data = map (p_rx env) [10..<138]"
  define x where "x = foldl (XOR) c data"
  obtain d1 where d1: "tx d1 = tx d @ replicate 128 0" "imask d1 = imask d"
    "read_tail env c (d, 10, buf) = k x (d1, 138, data)"
    using read_loop_acked [of 10 128 env buf d c k] True assms
    unfolding read_tail_def k_def [symmetric] by (auto simp: geometry x_def data_def)
  have split: "(\<forall>n \<in> {10..<139}. acked_at env c_ackTimeoutLong n) \<longleftrightarrow> acked_at env c_ackTimeoutLong 138"
  proof -
    have "{10..<139} = insert 138 {10..<(138::nat)}" by auto
    then show ?thesis using True by simp
  qed
  have r: "replicate 130 (0::u8) = replicate 128 0 @ [0, 0]"
    using replicate_add [of 128 2 "0::u8"] by (simp add: numeral_2_eq_2)
  show ?thesis
  proof (cases "acked_at env c_ackTimeoutLong 138")
    case False
    then show ?thesis using d1 split by (auto simp: k_def acked_byte_eq settled_def)
  next
    case True
    then show ?thesis
      using d1 split r by (auto simp: k_def acked_byte_eq settled_def transceive_def data_def x_def xor_bytes_def)
  qed
qed

text \<open>A byte that is not acknowledged ends the transfer, in good order.\<close>

definition fails :: "mc \<Rightarrow> error \<times> polled \<Rightarrow> bool" where
  "fails d r \<longleftrightarrow> fst r \<noteq> OK \<and> settled d (fst (snd r))"

lemma fails_byte:
  assumes "err \<noteq> OK"
    and "acked_at env timeout n \<Longrightarrow> fails (sent out d) (k (p_rx env n) (sent out d, Suc n, buf))"
  shows "fails d (acked_byte env out timeout err k (d, n, buf))"
  using assms by (auto simp: acked_byte_eq fails_def settled_def)

lemma nine:
  "(\<forall>n \<in> {1..<10}. P n) \<longleftrightarrow> P 1 \<and> P 2 \<and> P 3 \<and> P 4 \<and> P 5 \<and> P 6 \<and> P 7 \<and> P 8 \<and> P (9::nat)"
  by (auto simp: numeral_eq_Suc less_Suc_eq)

text \<open>The part of a read that sends the command and the address.\<close>

definition read_head :: "polled_env \<Rightarrow> u16 \<Rightarrow> polled \<Rightarrow> error \<times> polled" where
  "read_head env sector =
     acked_byte env 0x81 c_ackTimeoutShort NoCard (\<lambda>_.
     long_byte env 0x52 (\<lambda>_. long_byte env 0x00 (\<lambda>_. long_byte env 0x00 (\<lambda>_.
     long_byte env (msb sector) (\<lambda>_. long_byte env (lsb sector) (\<lambda>_.
     long_byte env 0x00 (\<lambda>_. long_byte env 0x00 (\<lambda>_. long_byte env 0x00 (\<lambda>confMSB.
     long_byte env 0x00 (\<lambda>confLSB st.
       if confMSB = 0xff \<and> confLSB = 0xff
       then (case st of (d, n, buf) \<Rightarrow> (BadSector, deselect (p_fin env) d, n, buf))
       else read_tail env (msb sector XOR lsb sector) st))))))))))"

lemma read_head_result:
  assumes "length buf = c_sectorSize"
  shows "\<exists>e d' n' buf'. read_head env sector (d, 0, buf) = (e, d', n', buf') \<and> settled d d' \<and>
    (e = OK \<longleftrightarrow> polled_good_read sector env) \<and>
    (e = OK \<longrightarrow> buf' = map (p_rx env) [10..<138] \<and> tx d' = tx d @ read_script sector)"
proof (cases "acked_at env c_ackTimeoutShort 0 \<and> (\<forall>n \<in> {1..<10}. acked_at env c_ackTimeoutLong n)")
  case False
  then have "\<not> polled_good_read sector env"
    by (auto simp: polled_good_read_def polled_acks_def)
  moreover have "fails d (read_head env sector (d, 0, buf))"
  proof -
    have no: "\<not> (acked_at env c_ackTimeoutShort 0 \<and> acked_at env c_ackTimeoutLong (Suc 0) \<and>
        acked_at env c_ackTimeoutLong (Suc (Suc 0)) \<and> acked_at env c_ackTimeoutLong (Suc (Suc (Suc 0))) \<and>
        acked_at env c_ackTimeoutLong (Suc (Suc (Suc (Suc 0)))) \<and>
        acked_at env c_ackTimeoutLong (Suc (Suc (Suc (Suc (Suc 0))))) \<and>
        acked_at env c_ackTimeoutLong (Suc (Suc (Suc (Suc (Suc (Suc 0)))))) \<and>
        acked_at env c_ackTimeoutLong (Suc (Suc (Suc (Suc (Suc (Suc (Suc 0))))))) \<and>
        acked_at env c_ackTimeoutLong (Suc (Suc (Suc (Suc (Suc (Suc (Suc (Suc 0)))))))) \<and>
        acked_at env c_ackTimeoutLong (Suc (Suc (Suc (Suc (Suc (Suc (Suc (Suc (Suc 0))))))))))"
      using False unfolding nine by (simp add: numeral_eq_Suc)
    show ?thesis
      unfolding read_head_def by (intro fails_byte; (simp; fail)?; use no in blast)
  qed
  ultimately show ?thesis by (cases "read_head env sector (d, 0, buf)") (auto simp: fails_def)
next
  case True
  define d1 where "d1 = sent 0 (sent 0 (sent 0 (sent 0 (sent (lsb sector) (sent (msb sector)
      (sent 0 (sent 0 (sent 0x52 (sent 0x81 d)))))))))"
  have d1: "tx d1 = tx d @ [0x81, 0x52, 0, 0, msb sector, lsb sector, 0, 0, 0, 0]" "imask d1 = imask d"
    by (simp_all add: d1_def)
  have eq: "read_head env sector (d, 0, buf) =
      (if p_rx env 8 = 0xff \<and> p_rx env 9 = 0xff then (BadSector, deselect (p_fin env) d1, 10, buf)
       else read_tail env (msb sector XOR lsb sector) (d1, 10, buf))"
    using True unfolding nine read_head_def by (simp add: acked_byte_eq d1_def numeral_eq_Suc)
  obtain e d' n' buf' where tail: "read_tail env (msb sector XOR lsb sector) (d1, 10, buf) = (e, d', n', buf')"
    "settled d1 d'"
    "e = OK \<longleftrightarrow> (\<forall>n \<in> {10..<139}. acked_at env c_ackTimeoutLong n) \<and>
       p_rx env 138 = xor_bytes (msb sector XOR lsb sector) (map (p_rx env) [10..<138]) \<and> p_rx env 139 = 0x47"
    "e = OK \<longrightarrow> buf' = map (p_rx env) [10..<138] \<and> tx d' = tx d1 @ replicate 130 0"
    using read_tail_result [OF assms] by metis
  have acks: "polled_acks 140 env \<longleftrightarrow> (\<forall>n \<in> {10..<139}. acked_at env c_ackTimeoutLong n)"
  proof -
    have "{1..<140 - 1} = {1..<10} \<union> {10..<(139::nat)}" by auto
    then show ?thesis using True by (auto simp: polled_acks_def)
  qed
  have script: "tx d1 @ replicate 130 0 = tx d @ read_script sector"
  proof -
    have "replicate 134 (0::u8) = [0, 0, 0, 0] @ replicate 130 0"
      using replicate_add [of 4 130 "0::u8"] by (simp add: numeral_eq_Suc)
    then show ?thesis by (simp add: d1 read_script_def)
  qed
  show ?thesis
    using tail acks script d1(2) by (auto simp: eq polled_good_read_def settled_def)
qed

lemma doReadSector_run:
  assumes "recoverBeforeSelect (p_nows env) (d\<lparr>imask := False\<rparr>) \<noteq> None"
    and "unat sector < c_sectorCount" and "length buf = c_sectorSize"
  shows "\<exists>e d' buf'. doReadSector env prt sector d buf = Some (e, d', buf') \<and> settled d d' \<and>
    (e = OK \<longleftrightarrow> polled_good_read sector env) \<and>
    (e = OK \<longrightarrow> buf' = map (p_rx env) [10..<138] \<and> tx d' = tx d @ read_script sector)"
proof -
  obtain d1 where d1: "selectPort (p_nows env) prt (d\<lparr>imask := False\<rparr>) = Some d1" "tx d1 = tx d" "\<not> imask d1"
    by (rule selectPort_waited [OF assms(1), of prt]) simp
  obtain e d' n' buf' where r: "read_head env sector (d1, 0, buf) = (e, d', n', buf')" "settled d1 d'"
    "e = OK \<longleftrightarrow> polled_good_read sector env"
    "e = OK \<longrightarrow> buf' = map (p_rx env) [10..<138] \<and> tx d' = tx d1 @ read_script sector"
    using read_head_result [OF assms(3)] by metis
  have "doReadSector env prt sector d buf = Some (e, if imask d then d'\<lparr>imask := True\<rparr> else d', buf')"
    using assms(2) d1(1) r(1)
    unfolding doReadSector_def read_head_def read_tail_def by (simp add: Let_def)
  then show ?thesis using r d1 by (auto simp: settled_def)
qed

text \<open>
  The polled read. From any state in which the recovery window can pass, the call returns with the port
  deselected and the controller interrupt mask as it was. It reports OK exactly when every exchange but the
  last was acknowledged within its time-out, the two address bytes are not both 0xff, the checksum covers
  the address and the data, and the end byte is 0x47; and then the buffer holds the data bytes and the bytes
  clocked out are the read command.
\<close>

theorem polled_read_correct:
  assumes "recoverBeforeSelect (p_nows env) (d\<lparr>imask := False\<rparr>) \<noteq> None"
    and "unat sector < c_sectorCount" and "length buf = c_sectorSize"
  shows "\<exists>e d' buf'. doReadSector env prt sector d buf = Some (e, d', buf') \<and> settled d d' \<and>
    (e = OK \<longleftrightarrow> polled_good_read sector env) \<and>
    (e = OK \<longrightarrow> buf' = map (p_rx env) [10..<138] \<and> tx d' = tx d @ read_script sector)"
  by (rule doReadSector_run [OF assms])

text \<open>A card that acknowledges every byte at once and replies with the bytes of a list.\<close>

definition polled_card :: "bytes \<Rightarrow> polled_env" where
  "polled_card rs = \<lparr>p_nows = [(0, 0), (10, 0)], p_rx = (\<lambda>n. if n < length rs then rs ! n else 0xff),
     p_acks = (\<lambda>_. Some 0), p_fin = (11, 300)\<rparr>"

lemma polled_card_simps:
  "polled_acks len (polled_card rs)"
  "n < length rs \<Longrightarrow> p_rx (polled_card rs) n = rs ! n"
  by (simp_all add: polled_acks_def acked_at_def polled_card_def c_ackTimeoutShort_def c_ackTimeoutLong_def)

lemma polled_card_data:
  assumes "length rs = 140"
  shows "map (p_rx (polled_card rs)) [10..<138] = take 128 (drop 10 rs)"
proof (rule nth_equalityI)
  fix i assume "i < length (map (p_rx (polled_card rs)) [10..<138])"
  then show "map (p_rx (polled_card rs)) [10..<138] ! i = take 128 (drop 10 rs) ! i"
    using assms by (simp add: polled_card_simps del: upt_rec_numeral)
qed (use assms in \<open>simp del: upt_rec_numeral\<close>)

lemma polled_card_good_read:
  assumes "length rs = 140"
  shows "polled_good_read sector (polled_card rs) \<longleftrightarrow> \<not> (rs ! 8 = 0xff \<and> rs ! 9 = 0xff) \<and>
    rs ! 138 = xor_bytes (msb sector XOR lsb sector) (take 128 (drop 10 rs)) \<and> rs ! 139 = 0x47"
  using assms unfolding polled_good_read_def polled_card_data [OF assms]
  by (simp add: polled_card_simps)

lemma polled_card_selects: "recoverBeforeSelect (p_nows (polled_card rs)) (fresh\<lparr>imask := i\<rparr>) \<noteq> None"
  by (simp add: recoverBeforeSelect_def polled_card_def stampDeselect_def recovered_def fresh_def)

theorem polled_read_correct_witness:
  "\<exists>d'. doReadSector (polled_card (tl (replies example_read_env) @ [0x47])) Port0 5 fresh (replicate 128 0) =
     Some (OK, d', replicate 128 7)"
proof -
  have g: "polled_good_read 5 (polled_card (tl (replies example_read_env) @ [0x47]))"
    "map (p_rx (polled_card (tl (replies example_read_env) @ [0x47]))) [10..<138] = replicate 128 7"
    by (subst polled_card_good_read polled_card_data; code_simp)+
  show ?thesis
    using polled_read_correct [where env = "polled_card (tl (replies example_read_env) @ [0x47])" and d = fresh and
        sector = 5 and buf = "replicate 128 0" and prt = Port0] polled_card_selects g
    by (auto simp: geometry simp del: upt_rec_numeral)
qed

definition polled_good_write :: "polled_env \<Rightarrow> bool" where
  "polled_good_write env \<longleftrightarrow> polled_acks 138 env \<and> p_rx env 137 = 0x47"

definition write_tail :: "polled_env \<Rightarrow> u8 \<Rightarrow> polled \<Rightarrow> error \<times> polled" where
  "write_tail env checksum =
     long_byte env checksum (\<lambda>_. long_byte env 0x00 (\<lambda>_. long_byte env 0x00 (\<lambda>_ st.
       let (endByte, d, n, buf) = transceive env 0x00 st
       in (write_result endByte, deselect (p_fin env) d, n, buf))))"

definition write_head :: "polled_env \<Rightarrow> u16 \<Rightarrow> (polled \<Rightarrow> error \<times> polled) \<Rightarrow> polled \<Rightarrow> error \<times> polled" where
  "write_head env sector k =
     acked_byte env 0x81 c_ackTimeoutShort NoCard (\<lambda>_.
     long_byte env 0x57 (\<lambda>_. long_byte env 0x00 (\<lambda>_. long_byte env 0x00 (\<lambda>_.
     long_byte env (msb sector) (\<lambda>_. long_byte env (lsb sector) (\<lambda>_. k))))))"

lemma five:
  "(\<forall>n \<in> {1..<6}. P n) \<longleftrightarrow> P 1 \<and> P 2 \<and> P 3 \<and> P 4 \<and> P (5::nat)"
  by (auto simp: numeral_eq_Suc less_Suc_eq)

lemma write_head_result:
  "(if acked_at env c_ackTimeoutShort 0 \<and> (\<forall>n \<in> {1..<6}. acked_at env c_ackTimeoutLong n)
    then \<exists>d'. write_head env sector k (d, 0, buf) = k (d', 6, buf) \<and> imask d' = imask d \<and>
           tx d' = tx d @ [0x81, 0x57, 0, 0, msb sector, lsb sector]
    else fails d (write_head env sector k (d, 0, buf)))"
proof (cases "acked_at env c_ackTimeoutShort 0 \<and> (\<forall>n \<in> {1..<6}. acked_at env c_ackTimeoutLong n)")
  case True
  then have "write_head env sector k (d, 0, buf) =
      k (sent (lsb sector) (sent (msb sector) (sent 0 (sent 0 (sent 0x57 (sent 0x81 d))))), 6, buf)"
    unfolding five write_head_def by (simp add: acked_byte_eq numeral_eq_Suc)
  then show ?thesis using True by (auto intro!: exI)
next
  case False
  then have no: "\<not> (acked_at env c_ackTimeoutShort 0 \<and> acked_at env c_ackTimeoutLong (Suc 0) \<and>
      acked_at env c_ackTimeoutLong (Suc (Suc 0)) \<and> acked_at env c_ackTimeoutLong (Suc (Suc (Suc 0))) \<and>
      acked_at env c_ackTimeoutLong (Suc (Suc (Suc (Suc 0)))) \<and>
      acked_at env c_ackTimeoutLong (Suc (Suc (Suc (Suc (Suc 0))))))"
    unfolding five by (simp add: numeral_eq_Suc)
  have "fails d (write_head env sector k (d, 0, buf))"
    unfolding write_head_def by (intro fails_byte; (simp; fail)?; use no in blast)
  with False show ?thesis by (simp only: if_False)
qed

lemma write_tail_result:
  "(if \<forall>n \<in> {134..<137}. acked_at env c_ackTimeoutLong n
    then \<exists>d' n'. write_tail env c (d, 134, buf) = (write_result (p_rx env 137), d', n', buf) \<and>
           settled d d' \<and> tx d' = tx d @ [c, 0, 0, 0]
    else fails d (write_tail env c (d, 134, buf)))"
proof -
  have "{134..<137} = {134, 135, 136 :: nat}" by auto
  then show ?thesis
    by (simp add: write_tail_def acked_byte_eq transceive_def fails_def settled_def)
qed

text \<open>
  The polled write. The call returns with the port deselected and the interrupt mask as it was. It
  reports OK exactly when every exchange but the last was acknowledged within its time-out and the end byte
  is 0x47; and then the bytes clocked out are the write command with the caller's data and its checksum.
\<close>

theorem polled_write_correct:
  assumes "recoverBeforeSelect (p_nows env) (d\<lparr>imask := False\<rparr>) \<noteq> None"
    and "unat sector < c_sectorCount" and "length buf = c_sectorSize"
  shows "\<exists>e d'. doWriteSector env prt sector buf d = Some (e, d') \<and> settled d d' \<and>
    (e = OK \<longleftrightarrow> polled_good_write env) \<and> (e = OK \<longrightarrow> tx d' = tx d @ write_script sector buf)"
proof -
  define k where "k = write_loop env buf (write_tail env (write_checksum sector buf))"
  obtain d1 where d1: "selectPort (p_nows env) prt (d\<lparr>imask := False\<rparr>) = Some d1" "tx d1 = tx d" "\<not> imask d1"
    by (rule selectPort_waited [OF assms(1), of prt]) simp
  have acks: "polled_acks 138 env \<longleftrightarrow> acked_at env c_ackTimeoutShort 0 \<and>
      (\<forall>n \<in> {1..<6}. acked_at env c_ackTimeoutLong n) \<and>
      (\<forall>n \<in> {6..<134}. acked_at env c_ackTimeoutLong n) \<and> (\<forall>n \<in> {134..<137}. acked_at env c_ackTimeoutLong n)"
  proof -
    have "{1..<138 - 1} = {1..<6} \<union> {6..<134} \<union> {134..<(137::nat)}" by auto
    then show ?thesis by (auto simp: polled_acks_def)
  qed
  have run: "\<exists>e d' n' b. write_head env sector k (d1, 0, []) = (e, d', n', b) \<and> settled d1 d' \<and>
      (e = OK \<longleftrightarrow> polled_good_write env) \<and> (e = OK \<longrightarrow> tx d' = tx d1 @ write_script sector buf)"
    (is ?run)
  proof -
    have failed: ?run if "fails d1 (write_head env sector k (d1, 0, []))" "\<not> polled_acks 138 env"
      using that by (cases "write_head env sector k (d1, 0, [])") (auto simp: fails_def polled_good_write_def)
    show ?run
    proof (cases "acked_at env c_ackTimeoutShort 0 \<and> (\<forall>n \<in> {1..<6}. acked_at env c_ackTimeoutLong n)")
      case False
      then have "fails d1 (write_head env sector k (d1, 0, []))"
        using write_head_result [of env sector k d1 "[]"] unfolding if_not_P [OF False] by blast
      then show ?run using failed False acks by blast
    next
      case True
      then obtain d2 where d2: "write_head env sector k (d1, 0, []) = k (d2, 6, [])" "imask d2 = imask d1"
          "tx d2 = tx d1 @ [0x81, 0x57, 0, 0, msb sector, lsb sector]"
        using write_head_result [of env sector k d1 "[]"] unfolding if_P [OF True] by blast
      show ?run
      proof (cases "\<forall>n \<in> {6..<134}. acked_at env c_ackTimeoutLong n")
        case False
        then obtain i where i: "6 \<le> i" "i < 6 + length buf" "\<not> acked_at env c_ackTimeoutLong i"
          using assms(3) by (auto simp: geometry)
        obtain d3 n3 where "k (d2, 6, []) = (Timeout, deselect (p_fin env) d3, n3, [])" "imask d3 = imask d2"
          using write_loop_refused [OF i] unfolding k_def by metis
        then have "fails d1 (k (d2, 6, []))" using d2(2) by (simp add: fails_def settled_def)
        then show ?run using failed False acks d2(1) by simp
      next
        case mid: True
        obtain d3 where d3: "tx d3 = tx d2 @ buf" "imask d3 = imask d2"
            "k (d2, 6, []) = write_tail env (write_checksum sector buf) (d3, 134, [])"
          using write_loop_acked [where n = 6 and bs = buf and env = env and d = d2 and buf = "[]" and
                k = "write_tail env (write_checksum sector buf)"] mid assms(3)
          unfolding k_def by (auto simp: geometry)
        show ?run
          using write_tail_result [of env "write_checksum sector buf" d3 "[]"] d2 d3 True mid acks failed
          by (auto simp: polled_good_write_def write_result_OK write_script_def settled_def fails_def
                split: if_splits)
      qed
    qed
  qed
  then obtain e d' n' b where r: "write_head env sector k (d1, 0, []) = (e, d', n', b)" "settled d1 d'"
    "e = OK \<longleftrightarrow> polled_good_write env" "e = OK \<longrightarrow> tx d' = tx d1 @ write_script sector buf" by blast
  have "doWriteSector env prt sector buf d = Some (e, if imask d then d'\<lparr>imask := True\<rparr> else d')"
    using assms(2,3) d1(1) r(1)
    unfolding doWriteSector_def write_head_def k_def write_tail_def write_checksum_def xor_bytes_def
    by (simp add: Let_def)
  then show ?thesis using r d1 by (auto simp: settled_def)
qed

theorem polled_write_correct_witness:
  "\<exists>d'. doWriteSector (polled_card (replicate 137 0 @ [0x47])) Port0 5 (replicate 128 7) fresh = Some (OK, d') \<and>
     tx d' = [0x81, 0x57, 0, 0, 0, 5] @ replicate 128 7 @ [5, 0, 0, 0]"
proof -
  have g: "polled_good_write (polled_card (replicate 137 0 @ [0x47]))"
    by (simp add: polled_good_write_def polled_card_simps nth_append)
  have t: "tx fresh @ write_script 5 (replicate 128 7) = [0x81, 0x57, 0, 0, 0, 5] @ replicate 128 7 @ [5, 0, 0, 0]"
    by code_simp
  show ?thesis
    using polled_write_correct [where env = "polled_card (replicate 137 0 @ [0x47])" and d = fresh and
        sector = 5 and buf = "replicate 128 7" and prt = Port0] polled_card_selects g t
    by (auto simp: geometry)
qed

section \<open>The two transports side by side\<close>

text \<open>
  The interrupt-driven transport reads the reply of exchange \<open>n\<close> at exchange \<open>n + 1\<close>, and the last one
  after the end of the sector; the same card acknowledges in time on both.
\<close>

definition same_card :: "nat \<Rightarrow> attempt_env \<Rightarrow> polled_env \<Rightarrow> bool" where
  "same_card len env penv \<longleftrightarrow> polled_acks len penv \<and> acked env \<and>
     (\<forall>n \<in> {0..<len - 1}. p_rx penv n = replies env ! Suc n) \<and> p_rx penv (len - 1) = end_byte len env"

lemma same_card_polled:
  assumes "length (replies env) = 140" and "acked env" and "end_byte 140 env = b"
  shows "same_card 140 env (polled_card (tl (replies env) @ [b]))"
proof -
  have "tl (replies env) ! n = replies env ! Suc n" if "n < 139" for n
    using assms(1) that by (simp add: nth_tl)
  moreover have "(tl (replies env) @ [b]) ! 139 = b"
    using assms(1) nth_append_length [of "tl (replies env)" b] by simp
  ultimately show ?thesis
    using assms by (simp add: same_card_def polled_card_simps nth_append)
qed

lemma same_card_read:
  assumes card: "same_card 140 env penv" and good: "good_read_reply sector env"
    and sector: "unat sector < c_sectorCount"
  shows "polled_good_read sector penv" and "map (p_rx penv) [10..<138] = read_data (replies env)"
proof -
  have len: "140 \<le> length (replies env)" using good by (simp add: good_read_reply_def Let_def)
  show data: "map (p_rx penv) [10..<138] = read_data (replies env)"
  proof (rule nth_equalityI)
    fix i assume i: "i < length (map (p_rx penv) [10..<138])"
    then show "map (p_rx penv) [10..<138] ! i = read_data (replies env) ! i"
      using card len by (simp add: same_card_def read_data_def add.commute del: upt_rec_numeral)
  qed (use len in \<open>simp add: read_data_def del: upt_rec_numeral\<close>)
  have "msb sector \<noteq> 0xff"
  proof
    assume "msb sector = 0xff"
    then have "unat (msb sector) = 255" by simp
    moreover have "unat (msb sector) = unat sector div 256"
    proof -
      have "unat sector div 256 < 256" using sector by (simp add: geometry)
      then show ?thesis by (simp add: msb_def u_simps)
    qed
    ultimately show False using sector by (simp add: geometry)
  qed
  then show "polled_good_read sector penv"
    using card good unfolding polled_good_read_def data
    by (auto simp: same_card_def good_read_reply_def Let_def)
qed

text \<open>
  C6: Falling back to polling is safe. A read the interrupt-driven transport reports as OK is one the
  polled transport reports as OK on the same card, with the same data in the buffer.
\<close>

theorem polled_refines_irq_read:
  assumes "singleSectorRead prt sector env (d, buf) = Some (OK, d1, data)"
    and "same_card 140 env penv" and "length buf = c_sectorSize" and "unat sector < c_sectorCount"
    and "waited env d" and "recoverBeforeSelect (p_nows penv) (d\<lparr>imask := False\<rparr>) \<noteq> None"
  shows "\<exists>d2. doReadSector penv prt sector d buf = Some (OK, d2, data)"
proof -
  have len: "length buf = 128" using assms(3) by (simp add: geometry)
  have good: "good_read_reply sector env" "data = read_data (replies env)"
  proof -
    obtain e d' b where r: "singleSectorRead prt sector env (d, buf) = Some (e, d', b)"
      "e = OK \<longleftrightarrow> acked env \<and> good_read_reply sector env" "e = OK \<longrightarrow> b = read_data (replies env)"
      using read_blocking [OF assms(5) len, of prt sector "[]"] read_result_OK [of sector env] assms(4)
      by (auto simp: singleSectorRead_def)
    then show "good_read_reply sector env" "data = read_data (replies env)" using assms(1) by auto
  qed
  note same = same_card_read [OF assms(2) good(1) assms(4)]
  obtain e d2 b where "doReadSector penv prt sector d buf = Some (e, d2, b)"
    "e = OK \<longleftrightarrow> polled_good_read sector penv" "e = OK \<longrightarrow> b = map (p_rx penv) [10..<138]"
    using doReadSector_run [OF assms(6,4,3)] by blast
  then have "doReadSector penv prt sector d buf = Some (OK, d2, data)" using same good(2) by simp
  then show ?thesis by blast
qed

theorem polled_refines_irq_read_witness:
  "\<exists>d1 d2. singleSectorRead Port0 5 example_read_env (fresh, replicate 128 0) = Some (OK, d1, replicate 128 7) \<and>
     doReadSector (polled_card (tl (replies example_read_env) @ [0x47])) Port0 5 fresh (replicate 128 0) =
       Some (OK, d2, replicate 128 7)"
proof -
  have w: "waited example_read_env fresh"
    by (simp add: waited_def example_read_env_def fresh_def recoverBeforeSelect_def stampDeselect_def recovered_def)
  have g: "read_result 5 example_read_env = OK" "read_data (replies example_read_env) = replicate 128 7"
    by code_simp+
  have c: "same_card 140 example_read_env (polled_card (tl (replies example_read_env) @ [0x47]))"
    by (rule same_card_polled; code_simp)
  obtain d1 where d1: "singleSectorRead Port0 5 example_read_env (fresh, replicate 128 0) =
      Some (OK, d1, replicate 128 7)"
    using read_blocking [OF w, of "replicate 128 0" Port0 5 "[]"] g(1,2)
    by (auto simp: singleSectorRead_def geometry)
  then show ?thesis
    using polled_refines_irq_read [OF d1 c] w polled_card_selects by (auto simp: geometry)
qed

definition wrong_id_env :: attempt_env where
  "wrong_id_env = example_read_env\<lparr>irqs := map (\<lambda>b. (b, 0x47))
     ([0x08, 0x00, 0x11, 0x22, 0, 5, 0x5c, 0x5d, 0, 5] @ replicate 128 7 @ [5])\<rparr>"

text \<open>
  The converse fails. There is a card, the same one on both transports, whose identification bytes are
  wrong: the interrupt-driven transport reports ProtocolError, the polled one reports OK and hands over the
  data. The two transports are not interchangeable on misbehaving cards.
\<close>

theorem polled_trusts_identification:
  "\<exists>d1 b1 d2. same_card 140 wrong_id_env (polled_card (tl (replies wrong_id_env) @ [0x47])) \<and>
     singleSectorRead Port0 5 wrong_id_env (fresh, replicate 128 0) = Some (ProtocolError, d1, b1) \<and>
     doReadSector (polled_card (tl (replies wrong_id_env) @ [0x47])) Port0 5 fresh (replicate 128 0) =
       Some (OK, d2, replicate 128 7)"
proof -
  have w: "waited wrong_id_env fresh"
    by (simp add: waited_def wrong_id_env_def example_read_env_def fresh_def recoverBeforeSelect_def
        stampDeselect_def recovered_def)
  have g: "read_result 5 wrong_id_env = ProtocolError"
    by code_simp
  have c: "same_card 140 wrong_id_env (polled_card (tl (replies wrong_id_env) @ [0x47]))"
    by (rule same_card_polled; code_simp)
  have p: "polled_good_read 5 (polled_card (tl (replies wrong_id_env) @ [0x47]))"
    "map (p_rx (polled_card (tl (replies wrong_id_env) @ [0x47]))) [10..<138] = replicate 128 7"
    by (subst polled_card_good_read polled_card_data; code_simp)+
  obtain d1 b1 where d1: "singleSectorRead Port0 5 wrong_id_env (fresh, replicate 128 0) = Some (ProtocolError, d1, b1)"
    using read_blocking [OF w, of "replicate 128 0" Port0 5 "[]"] g
    by (auto simp: singleSectorRead_def geometry)
  obtain d2 where d2: "doReadSector (polled_card (tl (replies wrong_id_env) @ [0x47])) Port0 5 fresh (replicate 128 0) =
      Some (OK, d2, replicate 128 7)"
    using doReadSector_run [where env = "polled_card (tl (replies wrong_id_env) @ [0x47])" and d = fresh and
        sector = 5 and buf = "replicate 128 0" and prt = Port0] polled_card_selects p
    by (auto simp: geometry simp del: upt_rec_numeral)
  show ?thesis using c d1 d2 by blast
qed

end
