(* ===== verification/Card_Directory.thy ===== *)
theory Card_Directory
  imports Card_Types
begin

text \<open>
  The directory of the card filesystem (\<open>psyqo/src/memory-card-filesystem.cpp\<close>): the byte accessors, the
  frame checksum, the names, and the walks over the chains of blocks, each as the code has it. The 15
  directory frames are a list of byte lists; block \<open>b\<close> is described by frame \<open>b - 1\<close>. Sets of blocks are
  the code's 16-bit masks.

  The walks are related to one specification, \<open>chain_from\<close>: the blocks that following the links visits
  before it leaves the card, repeats itself or meets the terminator.
\<close>

section \<open>Byte accessors\<close>

definition put_at :: "nat \<Rightarrow> bytes \<Rightarrow> bytes \<Rightarrow> bytes" where
  "put_at off bs p = take off p @ bs @ drop (off + length bs) p"

definition put16 :: "nat \<Rightarrow> u16 \<Rightarrow> bytes \<Rightarrow> bytes" where
  "put16 off v p = p[off := ucast v, off + 1 := ucast (drop_bit 8 v)]"

definition put32 :: "nat \<Rightarrow> u32 \<Rightarrow> bytes \<Rightarrow> bytes" where
  "put32 off v p = p[off := ucast v, off + 1 := ucast (drop_bit 8 v), off + 2 := ucast (drop_bit 16 v),
     off + 3 := ucast (drop_bit 24 v)]"

definition get16 :: "nat \<Rightarrow> bytes \<Rightarrow> u16" where
  "get16 off p = ucast (p ! off) OR push_bit 8 (ucast (p ! (off + 1)))"

definition get32 :: "nat \<Rightarrow> bytes \<Rightarrow> u32" where
  "get32 off p = ucast (p ! off) OR push_bit 8 (ucast (p ! (off + 1))) OR
     push_bit 16 (ucast (p ! (off + 2))) OR push_bit 24 (ucast (p ! (off + 3)))"

definition blockToSector :: "nat \<Rightarrow> nat" where
  "blockToSector block = (block * 64) mod 65536"

definition c_stateFirst :: u8 where "c_stateFirst = 0x51"
definition c_stateMiddle :: u8 where "c_stateMiddle = 0x52"
definition c_stateLast :: u8 where "c_stateLast = 0x53"
definition c_stateFree :: u8 where "c_stateFree = 0xa0"

definition c_offAlloc :: nat where "c_offAlloc = 0x00"
definition c_offSize :: nat where "c_offSize = 0x04"
definition c_offNext :: nat where "c_offNext = 0x08"
definition c_offName :: nat where "c_offName = 0x0a"
definition c_offChecksum :: nat where "c_offChecksum = 0x7f"
definition c_maxNameLength :: nat where "c_maxNameLength = 20"

lemmas offsets = c_offAlloc_def c_offSize_def c_offNext_def c_offName_def c_offChecksum_def c_maxNameLength_def
lemmas states = c_stateFirst_def c_stateMiddle_def c_stateLast_def c_stateFree_def

lemma length_put [simp]:
  "length (put16 off v p) = length p" "length (put32 off w p) = length p"
  by (simp_all add: put16_def put32_def)

lemma get16_put16 [simp]: "off + 1 < length p \<Longrightarrow> get16 off (put16 off v p) = v"
  unfolding get16_def put16_def
  by (rule bit_word_eqI) (auto simp: bit_simps nth_list_update)

lemma get32_put32 [simp]:
  assumes "off + 3 < length p"
  shows "get32 off (put32 off v p) = v"
proof (rule bit_word_eqI)
  fix n assume "n < LENGTH(32)"
  then consider "n < 8" | "8 \<le> n" "n < 16" | "16 \<le> n" "n < 24" | "24 \<le> n" "n < 32" by fastforce
  then show "bit (get32 off (put32 off v p)) n = bit v n"
    using assms by cases (auto simp: get32_def put32_def bit_simps nth_list_update)
qed

section \<open>Frames\<close>

definition frameChecksum :: "bytes \<Rightarrow> u8" where
  "frameChecksum frame = foldl (XOR) 0 (take 0x7f frame)"

definition finishDirEntry :: "bytes \<Rightarrow> bytes" where
  "finishDirEntry entry = entry[c_offChecksum := frameChecksum entry]"

definition deletedState :: "u8 \<Rightarrow> u8" where
  "deletedState inUse = (inUse AND 0x0f) OR 0xa0"

text \<open>The character of a C string at an index up to its terminator.\<close>

definition char_at :: "bytes \<Rightarrow> nat \<Rightarrow> u8" where
  "char_at name i = (if i < length name then name ! i else 0)"

fun name_loop :: "bytes \<Rightarrow> bytes \<Rightarrow> nat \<Rightarrow> nat \<Rightarrow> bool" where
  "name_loop entry name i 0 = (char_at name c_maxNameLength = 0)"
| "name_loop entry name i (Suc left) =
     (let a = entry ! (c_offName + i); b = char_at name i
      in if a \<noteq> b then False else if a = 0 then True else name_loop entry name (Suc i) left)"

definition nameMatches :: "bytes \<Rightarrow> bytes \<Rightarrow> bool" where
  "nameMatches entry name = name_loop entry name 0 c_maxNameLength"

type_synonym dir = "bytes list"

definition alloc :: "dir \<Rightarrow> nat \<Rightarrow> u8" where
  "alloc dir i = dir ! i ! c_offAlloc"

fun find_loop :: "dir \<Rightarrow> bytes \<Rightarrow> nat \<Rightarrow> nat \<Rightarrow> nat option" where
  "find_loop dir name i 0 = None"
| "find_loop dir name i (Suc left) =
     (if alloc dir i = c_stateFirst \<and> nameMatches (dir ! i) name then Some (i + 1)
      else find_loop dir name (Suc i) left)"

definition findFirstBlock :: "dir \<Rightarrow> bytes \<Rightarrow> nat option" where
  "findFirstBlock dir name = find_loop dir name 0 15"

text \<open>The link field of a block's entry.\<close>

definition next_of :: "dir \<Rightarrow> nat \<Rightarrow> u16" where
  "next_of dir block = get16 c_offNext (dir ! (block - 1))"

section \<open>Chains\<close>

text \<open>\<open>mask & (1 << block)\<close> and \<open>mask | 1 << block\<close> on a 16-bit mask.\<close>

definition in_mask :: "u16 \<Rightarrow> nat \<Rightarrow> bool" where
  "in_mask w block \<longleftrightarrow> w AND push_bit block 1 \<noteq> 0"

definition mark :: "nat \<Rightarrow> u16 \<Rightarrow> u16" where
  "mark block w = w OR push_bit block 1"

lemma in_mask_bit: "block < 16 \<Longrightarrow> in_mask w block \<longleftrightarrow> bit w block"
proof -
  assume b: "block < 16"
  have "w AND push_bit block 1 = 0 \<longleftrightarrow> \<not> bit w block"
  proof
    assume z: "w AND push_bit block 1 = 0"
    have "bit (w AND push_bit block 1) block = bit w block" using b by (simp add: bit_simps)
    then show "\<not> bit w block" using z by simp
  next
    assume "\<not> bit w block"
    then show "w AND push_bit block 1 = 0"
      by (intro bit_word_eqI) (auto simp: bit_simps)
  qed
  then show ?thesis by (simp add: in_mask_def)
qed

lemma bit_mark [simp]: "bit (mark block w) b \<longleftrightarrow> bit w b \<or> b = block \<and> b < 16"
  by (auto simp: mark_def bit_simps)

definition unvisited :: "u16 \<Rightarrow> nat" where
  "unvisited visited = card {b. b < 16 \<and> \<not> bit visited b}"

lemma unvisited_mark:
  assumes "block < 16" "\<not> bit visited block"
  shows "unvisited (mark block visited) < unvisited visited"
  unfolding unvisited_def
proof (rule psubset_card_mono)
  show "{b. b < 16 \<and> \<not> bit (mark block visited) b} \<subset> {b. b < 16 \<and> \<not> bit visited b}"
    using assms by auto
qed simp

text \<open>The walk of \<open>reachableBlocks\<close> from one head.\<close>

function mark_chain :: "dir \<Rightarrow> nat \<Rightarrow> u16 \<Rightarrow> u16 \<Rightarrow> u16" where
  "mark_chain dir block visited inUse =
     (if 1 \<le> block \<and> block \<le> 15 then
        if in_mask visited block then inUse
        else let visited = mark block visited; inUse = mark block inUse; nxt = next_of dir block
             in if nxt = 0xffff then inUse else mark_chain dir (unat nxt + 1) visited inUse
      else inUse)"
  by pat_completeness auto
termination
  by (relation "measure (\<lambda>(dir, block, visited, inUse). unvisited visited)")
     (auto simp: in_mask_bit intro: unvisited_mark)

declare mark_chain.simps [simp del]

definition reachableBlocks :: "dir \<Rightarrow> u16" where
  "reachableBlocks dir =
     fold (\<lambda>i inUse. if alloc dir i \<noteq> c_stateFirst then inUse else mark_chain dir (i + 1) 0 inUse) [0..<15] 0"

text \<open>The walk of a read: the chain, or \<open>None\<close> for \<open>BadData\<close>.\<close>

function read_chain :: "dir \<Rightarrow> nat \<Rightarrow> u16 \<Rightarrow> nat list \<Rightarrow> nat list option" where
  "read_chain dir block visited chain =
     (if block < 1 \<or> block > 15 \<or> length chain \<ge> 16 \<or> in_mask visited block then None
      else let visited = mark block visited; chain = chain @ [block]; nxt = next_of dir block
           in if nxt = 0xffff then Some chain else read_chain dir (unat nxt + 1) visited chain)"
  by pat_completeness auto
termination
  by (relation "measure (\<lambda>(dir, block, visited, chain). unvisited visited)")
     (auto simp: in_mask_bit intro: unvisited_mark)

declare read_chain.simps [simp del]

text \<open>Marking one entry deleted in place.\<close>

definition delete_entry :: "dir \<Rightarrow> nat \<Rightarrow> dir" where
  "delete_entry dir block =
     (let entry = dir ! (block - 1)
      in dir[block - 1 := finishDirEntry (entry[c_offAlloc := deletedState (entry ! c_offAlloc)])])"

text \<open>
  The walk that deletes a chain, for \<open>deleteFile\<close> and for the replaced file of \<open>writeFile\<close>: the new
  directory and the slots touched, in order.
\<close>

function delete_chain :: "dir \<Rightarrow> nat \<Rightarrow> u16 \<Rightarrow> nat list \<Rightarrow> dir \<times> nat list" where
  "delete_chain dir block visited slots =
     (if 1 \<le> block \<and> block \<le> 15 then
        if in_mask visited block then (dir, slots)
        else let visited = mark block visited; nxt = next_of dir block; dir = delete_entry dir block;
                 slots = slots @ [block - 1]
             in if nxt = 0xffff then (dir, slots) else delete_chain dir (unat nxt + 1) visited slots
      else (dir, slots))"
  by pat_completeness auto
termination
  by (relation "measure (\<lambda>(dir, block, visited, slots). unvisited visited)")
     (auto simp: in_mask_bit intro: unvisited_mark)

declare delete_chain.simps [simp del]

section \<open>What following the links visits\<close>

text \<open>The blocks a file can occupy.\<close>

definition file_blocks :: "nat set" where "file_blocks = {1..15}"

lemma file_blocks_iff [simp]: "b \<in> file_blocks \<longleftrightarrow> 1 \<le> b \<and> b \<le> 15"
  by (simp add: file_blocks_def)

lemma finite_file_blocks [simp]: "finite file_blocks" and card_file_blocks [simp]: "card file_blocks = 15"
  by (simp_all add: file_blocks_def)

lemma left_to_visit:
  "1 \<le> b \<Longrightarrow> b \<le> 15 \<Longrightarrow> b \<notin> vis \<Longrightarrow> card (file_blocks - insert b vis) < card (file_blocks - vis)"
proof -
  assume b: "1 \<le> b" "b \<le> 15" "b \<notin> vis"
  have "file_blocks - insert b vis = (file_blocks - vis) - {b}" by blast
  moreover have "b \<in> file_blocks - vis" using b by simp
  ultimately show ?thesis using card_Diff1_less [of "file_blocks - vis" b] by simp
qed

function chain_from :: "dir \<Rightarrow> nat set \<Rightarrow> nat \<Rightarrow> nat list" where
  "chain_from dir vis b =
     (if b \<in> file_blocks \<and> b \<notin> vis
      then b # (if next_of dir b = 0xffff then [] else chain_from dir (insert b vis) (unat (next_of dir b) + 1))
      else [])"
  by pat_completeness auto
termination
  by (relation "measure (\<lambda>(dir, vis, b). card (file_blocks - vis))")
     (simp_all del: One_nat_def card_Diff_insert add: left_to_visit)

declare chain_from.simps [simp del]

text \<open>Whether the walk ends at the terminator.\<close>

function terminated :: "dir \<Rightarrow> nat set \<Rightarrow> nat \<Rightarrow> bool" where
  "terminated dir vis b =
     (if b \<in> file_blocks \<and> b \<notin> vis
      then if next_of dir b = 0xffff then True else terminated dir (insert b vis) (unat (next_of dir b) + 1)
      else False)"
  by pat_completeness auto
termination
  by (relation "measure (\<lambda>(dir, vis, b). card (file_blocks - vis))")
     (simp_all del: One_nat_def card_Diff_insert add: left_to_visit)

declare terminated.simps [simp del]

definition blocks_of :: "u16 \<Rightarrow> nat set" where
  "blocks_of w = {b. bit w b}"

lemma blocks_of_0 [simp]: "blocks_of 0 = {}"
  by (simp add: blocks_of_def)

lemma blocks_of_mark [simp]: "b < 16 \<Longrightarrow> blocks_of (mark b w) = insert b (blocks_of w)"
proof -
  assume "b < 16"
  then have "bit (mark b w) a \<longleftrightarrow> a = b \<or> bit w a" for a by (auto simp only: bit_mark)
  then show ?thesis by (simp only: blocks_of_def set_eq_iff insert_iff mem_Collect_eq) blast
qed

lemma in_mask_blocks: "b < 16 \<Longrightarrow> in_mask w b \<longleftrightarrow> b \<in> blocks_of w"
  by (simp add: in_mask_bit blocks_of_def)

lemma mark_chain_blocks [walk_simps]:
  "blocks_of (mark_chain dir b visited inUse) = blocks_of inUse \<union> set (chain_from dir (blocks_of visited) b)"
proof (induction dir b visited inUse rule: mark_chain.induct)
  case (1 dir b visited inUse)
  show ?case
  proof (cases "1 \<le> b \<and> b \<le> 15 \<and> \<not> in_mask visited b")
    case True
    then show ?thesis
      using 1 by (subst mark_chain.simps, subst chain_from.simps) (auto simp: in_mask_blocks Let_def)
  next
    case False
    then show ?thesis
      by (subst mark_chain.simps, subst chain_from.simps) (auto simp: in_mask_blocks)
  qed
qed

lemma chain_from_set: "set (chain_from dir vis b) \<subseteq> file_blocks - vis"
proof (induction dir vis b rule: chain_from.induct)
  case (1 dir vis b)
  then show ?case by (subst chain_from.simps) (auto split: if_splits)
qed

lemma distinct_chain_from [simp]: "distinct (chain_from dir vis b)"
proof (induction dir vis b rule: chain_from.induct)
  case (1 dir vis b)
  then show ?case
    using chain_from_set [of dir "insert b vis"] by (subst chain_from.simps) (auto split: if_splits)
qed

lemma length_chain_from: "length (chain_from dir vis b) \<le> 15"
proof -
  have "card (set (chain_from dir vis b)) \<le> card file_blocks"
    using chain_from_set [of dir vis b] by (intro card_mono finite_file_blocks) blast
  then show ?thesis by (simp add: distinct_card)
qed

text \<open>A read refuses exactly the chains that do not end at the terminator.\<close>

lemma read_chain_eq [walk_simps]:
  assumes "blocks_of visited = set chain" "distinct chain" "set chain \<subseteq> file_blocks"
  shows "read_chain dir b visited chain =
    (if terminated dir (set chain) b then Some (chain @ chain_from dir (set chain) b) else None)"
  using assms
proof (induction dir b visited chain rule: read_chain.induct)
  case (1 dir b visited chain)
  have "length chain \<le> card file_blocks"
    using 1(4) by (metis 1(3) card_mono distinct_card finite_file_blocks)
  then have len: "\<not> 16 \<le> length chain" by simp
  show ?case
  proof (cases "1 \<le> b \<and> b \<le> 15 \<and> \<not> in_mask visited b")
    case True
    then have b: "b \<in> file_blocks - set chain" using 1(2) by (auto simp: in_mask_blocks)
    show ?thesis
    proof (cases "next_of dir b = 0xffff")
      case stop: True
      then show ?thesis
        using True b len by (subst read_chain.simps, subst terminated.simps, subst chain_from.simps) simp
    next
      case False
      have ih: "read_chain dir (unat (next_of dir b) + 1) (mark b visited) (chain @ [b]) =
          (if terminated dir (set (chain @ [b])) (unat (next_of dir b) + 1)
           then Some ((chain @ [b]) @ chain_from dir (set (chain @ [b])) (unat (next_of dir b) + 1)) else None)"
        using True False len b 1(2-4) by (intro 1(1)) auto
      show ?thesis
        using True False b len ih
        by (subst read_chain.simps, subst terminated.simps, subst chain_from.simps) (simp add: Let_def)
    qed
  next
    case False
    then have "b \<notin> file_blocks - set chain" using 1(2) by (auto simp: in_mask_blocks)
    then show ?thesis
      using False by (subst read_chain.simps, subst terminated.simps) auto
  qed
qed

section \<open>Reachability\<close>

inductive follows :: "dir \<Rightarrow> nat \<Rightarrow> nat \<Rightarrow> bool" for dir where
  here: "h \<in> file_blocks \<Longrightarrow> follows dir h h"
| link: "follows dir h b \<Longrightarrow> next_of dir b \<noteq> 0xffff \<Longrightarrow> unat (next_of dir b) + 1 \<in> file_blocks \<Longrightarrow>
    follows dir h (unat (next_of dir b) + 1)"

lemma follows_trans: "follows dir c d \<Longrightarrow> follows dir b c \<Longrightarrow> follows dir b d"
proof (induction rule: follows.induct)
  case (link h x)
  then show ?case using follows.link [of dir b x] by blast
qed

lemma follows_range: "follows dir h b \<Longrightarrow> h \<in> file_blocks \<and> b \<in> file_blocks"
  by (induction rule: follows.induct) auto

lemma chain_from_follows: "b \<in> set (chain_from dir vis h) \<Longrightarrow> follows dir h b"
proof (induction dir vis h rule: chain_from.induct)
  case (1 dir vis h)
  have h: "h \<in> file_blocks \<and> h \<notin> vis" using 1(2) by (subst (asm) chain_from.simps) (simp split: if_splits)
  show ?case
  proof (cases "b = h")
    case True
    then show ?thesis using h follows.here by blast
  next
    case False
    then have n: "next_of dir h \<noteq> 0xffff"
      and b: "b \<in> set (chain_from dir (insert h vis) (unat (next_of dir h) + 1))"
      using 1(2) h by (subst (asm) chain_from.simps, simp split: if_splits)+
    have f: "follows dir (unat (next_of dir h) + 1) b" using 1(1) [OF h n b] .
    have "follows dir h (unat (next_of dir h) + 1)"
      using follows.link [OF follows.here n] h follows_range [OF f] by blast
    then show ?thesis using f follows_trans by blast
  qed
qed

lemma chain_from_closed:
  "x \<in> set (chain_from dir vis h) \<Longrightarrow> next_of dir x \<noteq> 0xffff \<Longrightarrow> unat (next_of dir x) + 1 \<in> file_blocks \<Longrightarrow>
   unat (next_of dir x) + 1 \<in> vis \<union> set (chain_from dir vis h)"
proof (induction dir vis h rule: chain_from.induct)
  case (1 dir vis h)
  have h: "h \<in> file_blocks \<and> h \<notin> vis" using 1(2) by (subst (asm) chain_from.simps) (simp split: if_splits)
  define t where "t = (if next_of dir h = 0xffff then []
      else chain_from dir (insert h vis) (unat (next_of dir h) + 1))"
  have eq: "chain_from dir vis h = h # t" using h by (subst chain_from.simps) (simp add: t_def)
  show ?case
  proof (cases "x = h")
    case True
    define y where "y = unat (next_of dir h) + 1"
    have t: "t = chain_from dir (insert h vis) y" using 1(3) True by (simp add: t_def y_def)
    have y: "y \<in> file_blocks" using 1(4) True by (simp add: y_def)
    show ?thesis
    proof (cases "y \<in> insert h vis")
      case False
      then have "y \<in> set t" using y unfolding t by (subst chain_from.simps) simp
      then show ?thesis using True eq by (simp add: y_def)
    qed (use True eq y_def in auto)
  next
    case False
    then have x: "x \<in> set t" using 1(2) eq by simp
    then have n: "next_of dir h \<noteq> 0xffff" by (auto simp: t_def)
    then have t: "t = chain_from dir (insert h vis) (unat (next_of dir h) + 1)" by (simp add: t_def)
    have "unat (next_of dir x) + 1 \<in> insert h vis \<union> set t"
      using 1(1) [OF h n] x 1(3,4) unfolding t by blast
    then show ?thesis using eq by auto
  qed
qed

lemma set_chain_from [walk_simps]: "set (chain_from dir {} h) = {b. follows dir h b}"
proof (intro set_eqI iffI)
  fix b assume "b \<in> {b. follows dir h b}"
  then have "follows dir h b" by simp
  then show "b \<in> set (chain_from dir {} h)"
  proof (induction rule: follows.induct)
    case (here h)
    then show ?case by (subst chain_from.simps) simp
  next
    case (link h b)
    then show ?case using chain_from_closed [of b dir "{}" h] by simp
  qed
qed (simp add: chain_from_follows)

lemma reachable_fold:
  "blocks_of (fold (\<lambda>i inUse. if alloc dir i \<noteq> c_stateFirst then inUse else mark_chain dir (i + 1) 0 inUse)
     [0..<n] 0) = {b. \<exists>i<n. alloc dir i = c_stateFirst \<and> follows dir (i + 1) b}"
  by (induction n) (auto simp: walk_simps less_Suc_eq)

definition reachable :: "dir \<Rightarrow> nat set" where
  "reachable dir = {b. \<exists>i<15. alloc dir i = c_stateFirst \<and> follows dir (i + 1) b}"

lemma reachableBlocks_blocks: "blocks_of (reachableBlocks dir) = reachable dir"
  unfolding reachableBlocks_def reachable_def by (rule reachable_fold)

text \<open>
  The scan for blocks in use computes reachability. Bit \<open>b\<close> of the mask is set exactly when some
  directory entry in the state first-block-in-use leads to block \<open>b\<close> by following link fields through
  blocks 1 to 15, whatever loops and bad links the directory has.
\<close>

theorem reachable_blocks_correct:
  "in_mask (reachableBlocks dir) b \<longleftrightarrow> (\<exists>i<15. alloc dir i = c_stateFirst \<and> follows dir (i + 1) b)"
proof (cases "b < 16")
  case True
  then show ?thesis by (simp add: in_mask_blocks reachableBlocks_blocks reachable_def)
next
  case False
  then have "push_bit b (1 :: u16) = 0" by (intro bit_word_eqI) (auto simp: bit_simps)
  then have "\<not> in_mask (reachableBlocks dir) b" unfolding in_mask_def by (simp only:) simp
  moreover have "\<not> follows dir (i + 1) b" for i using follows_range False by force
  ultimately show ?thesis by blast
qed

lemma chain_from_links:
  "terminated dir vis b \<Longrightarrow> chain_from dir vis b \<noteq> [] \<and> hd (chain_from dir vis b) = b \<and>
   (\<forall>i. Suc i < length (chain_from dir vis b) \<longrightarrow>
      chain_from dir vis b ! Suc i = unat (next_of dir (chain_from dir vis b ! i)) + 1 \<and>
      next_of dir (chain_from dir vis b ! i) \<noteq> 0xffff) \<and>
   next_of dir (last (chain_from dir vis b)) = 0xffff"
proof (induction dir vis b rule: chain_from.induct)
  case (1 dir vis b)
  have b: "b \<in> file_blocks \<and> b \<notin> vis"
    using 1(2) by (subst (asm) terminated.simps) (simp split: if_splits)
  show ?case
  proof (cases "next_of dir b = 0xffff")
    case True
    then show ?thesis using b by (subst (1 2 3 4 5 6 7) chain_from.simps) simp
  next
    case False
    define t where "t = chain_from dir (insert b vis) (unat (next_of dir b) + 1)"
    have eq: "chain_from dir vis b = b # t" using b False by (subst chain_from.simps) (simp add: t_def)
    have "terminated dir (insert b vis) (unat (next_of dir b) + 1)"
      using 1(2) b False by (subst (asm) terminated.simps) simp
    then have ih: "t \<noteq> []" "hd t = unat (next_of dir b) + 1" "next_of dir (last t) = 0xffff"
      "\<And>i. Suc i < length t \<Longrightarrow> t ! Suc i = unat (next_of dir (t ! i)) + 1 \<and> next_of dir (t ! i) \<noteq> 0xffff"
      using 1(1) [OF b False] unfolding t_def by blast+
    have "(b # t) ! Suc i = unat (next_of dir ((b # t) ! i)) + 1 \<and> next_of dir ((b # t) ! i) \<noteq> 0xffff"
      if "Suc i < length (b # t)" for i
      using that ih False by (cases i) (auto simp: hd_conv_nth)
    then show ?thesis using ih(1,3) unfolding eq by simp
  qed
qed

text \<open>
  C11: The chain of a file to be read is BadData exactly when following its links does not end at the
  terminator. Otherwise it is the blocks the links visit, in order: it starts at the head, each next block is
  the one the link of the previous names, all are distinct and between 1 and 15, so the sixteen entries that
  hold it are never exceeded, and the last block has the terminator.
\<close>

theorem read_chain_correct:
  "case read_chain dir first 0 [] of
     None \<Rightarrow> \<not> terminated dir {} first
   | Some chain \<Rightarrow> chain \<noteq> [] \<and> hd chain = first \<and> distinct chain \<and> set chain \<subseteq> {1..15} \<and> length chain \<le> 15 \<and>
       (\<forall>i. Suc i < length chain \<longrightarrow> chain ! Suc i = unat (next_of dir (chain ! i)) + 1) \<and>
       next_of dir (last chain) = 0xffff"
proof (cases "terminated dir {} first")
  case True
  have "read_chain dir first 0 [] = Some (chain_from dir {} first)"
    using read_chain_eq [of 0 "[]" dir first] True by simp
  moreover have "set (chain_from dir {} first) \<subseteq> {1..15}"
    using chain_from_set [of dir "{}" first] by (auto simp: file_blocks_def)
  ultimately show ?thesis
    using chain_from_links [OF True] length_chain_from [of dir "{}" first] by simp
next
  case False
  then show ?thesis using read_chain_eq [of 0 "[]" dir first] by simp
qed

theorem read_chain_correct_witness:
  "\<exists>chain. read_chain ((replicate 15 (put16 c_offNext 1 (replicate 128 0)))[1 := put16 c_offNext 0xffff (replicate 128 0)]) 1 0 [] = Some chain \<and>
     length chain = 2 \<and> chain ! Suc 0 = 2"
proof -
  define dir where "dir = (replicate 15 (put16 c_offNext 1 (replicate 128 0)))[1 := put16 c_offNext 0xffff (replicate 128 0)]"
  have n: "next_of dir 1 = 1" "next_of dir 2 = 0xffff" by (simp_all add: dir_def next_of_def offsets)
  have r: "read_chain dir 1 0 [] = Some [1, 2]"
    using n by (simp add: read_chain.simps in_mask_bit bit_simps numeral_2_eq_2 [symmetric])
  show ?thesis using read_chain_correct [of dir 1] r n unfolding dir_def [symmetric] by simp
qed

section \<open>Frames and names\<close>

definition valid_frame :: "bytes \<Rightarrow> bool" where
  "valid_frame f \<longleftrightarrow> length f = 128 \<and> f ! c_offChecksum = frameChecksum f"

lemma frameChecksum_update [simp]: "frameChecksum (f[c_offChecksum := b]) = frameChecksum f"
  by (simp add: frameChecksum_def offsets take_update_cancel)

lemma finishDirEntry_valid [simp]: "length f = 128 \<Longrightarrow> valid_frame (finishDirEntry f)"
  by (simp add: valid_frame_def finishDirEntry_def offsets)
    (simp add: frameChecksum_def take_update_cancel)

lemma length_finishDirEntry [simp]: "length (finishDirEntry f) = length f"
  by (simp add: finishDirEntry_def)

lemma nth_finishDirEntry [simp]: "i < 127 \<Longrightarrow> finishDirEntry f ! i = f ! i"
  by (simp add: finishDirEntry_def offsets)

lemma get16_finishDirEntry [simp]: "i < 126 \<Longrightarrow> get16 i (finishDirEntry f) = get16 i f"
  by (simp add: get16_def)

lemma get16_update_other [simp]: "j \<noteq> i \<Longrightarrow> j \<noteq> Suc i \<Longrightarrow> get16 i (f[j := b]) = get16 i f"
  by (simp add: get16_def)

text \<open>The name an entry holds: up to twenty characters, ended by a zero if shorter.\<close>

definition entry_name :: "bytes \<Rightarrow> bytes" where
  "entry_name f = takeWhile (\<lambda>c. c \<noteq> 0) (take c_maxNameLength (drop c_offName f))"

lemma name_loop_eq:
  assumes "0 \<notin> set name" "length f = 128"
  shows "i + left = 20 \<Longrightarrow> i \<le> length name \<Longrightarrow>
    name_loop f name i left \<longleftrightarrow> takeWhile (\<lambda>c. c \<noteq> 0) (take left (drop (10 + i) f)) = drop i name"
proof (induction left arbitrary: i)
  case 0
  have "char_at name 20 = 0 \<longleftrightarrow> length name \<le> 20"
    using assms(1) by (auto simp: char_at_def in_set_conv_nth)
  then show ?case using 0 by (simp add: offsets)
next
  case (Suc left)
  define a where "a = f ! (10 + i)"
  have d: "take (Suc left) (drop (10 + i) f) = a # take left (drop (10 + Suc i) f)"
    using Suc.prems(1) assms(2) by (simp add: a_def Cons_nth_drop_Suc [symmetric])
  show ?case
  proof (cases "i < length name")
    case True
    have n: "name ! i \<noteq> 0" using assms(1) True by (metis nth_mem)
    have dn: "drop i name = name ! i # drop (Suc i) name" using True by (simp add: Cons_nth_drop_Suc)
    have step: "name_loop f name i (Suc left) \<longleftrightarrow> a = name ! i \<and> name_loop f name (Suc i) left"
      using n True by (simp add: a_def char_at_def Let_def offsets)
    show ?thesis
      unfolding step d dn using Suc.IH [of "Suc i"] Suc.prems True n by auto
  next
    case False
    then have i: "i = length name" using Suc.prems(2) by simp
    have step: "name_loop f name i (Suc left) \<longleftrightarrow> a = 0"
      using i by (auto simp: a_def char_at_def Let_def offsets)
    show ?thesis unfolding step d using i by auto
  qed
qed

text \<open>
  Names are compared whole. For a name that is a C string (no zero byte inside), an entry matches exactly
  when the up to twenty characters it stores, without the zero padding, are the name; a longer name matches
  no entry, and a stored prefix or extension of the name does not match.
\<close>

theorem nameMatches_correct:
  assumes "0 \<notin> set name" and "length entry = 128"
  shows "nameMatches entry name \<longleftrightarrow> entry_name entry = name"
  using name_loop_eq [OF assms, of 0 20] by (simp add: nameMatches_def entry_name_def offsets)

theorem nameMatches_correct_witness:
  "nameMatches (replicate 10 0 @ [0x42, 0x41] @ replicate 116 0) [0x42, 0x41] \<and>
   \<not> nameMatches (replicate 10 0 @ [0x42, 0x41] @ replicate 116 0) [0x42]"
  using nameMatches_correct [of "[0x42, 0x41]" "replicate 10 0 @ [0x42, 0x41] @ replicate 116 0"]
    nameMatches_correct [of "[0x42]" "replicate 10 0 @ [0x42, 0x41] @ replicate 116 0"]
  by (simp add: entry_name_def offsets)

lemma find_loop_cases:
  "case find_loop dir name i left of
     None \<Rightarrow> \<forall>j. i \<le> j \<and> j < i + left \<longrightarrow> \<not> (alloc dir j = c_stateFirst \<and> nameMatches (dir ! j) name)
   | Some b \<Rightarrow> i < b \<and> b \<le> i + left \<and> alloc dir (b - 1) = c_stateFirst \<and> nameMatches (dir ! (b - 1)) name \<and>
       (\<forall>j. i \<le> j \<and> j < b - 1 \<longrightarrow> \<not> (alloc dir j = c_stateFirst \<and> nameMatches (dir ! j) name))"
proof (induction left arbitrary: i)
  case (Suc left)
  show ?case
  proof (cases "alloc dir i = c_stateFirst \<and> nameMatches (dir ! i) name")
    case True
    then have "find_loop dir name i (Suc left) = Some (i + 1)" by simp
    then show ?thesis using True by auto
  next
    case False
    then show ?thesis
      using Suc [of "Suc i"]
      by (auto split: option.splits simp: le_less Suc_le_eq) (metis Suc_leI le_neq_implies_less)+
  qed
qed auto

lemma findFirstBlock_Some:
  assumes "findFirstBlock dir name = Some b"
  shows "b \<in> file_blocks" "alloc dir (b - 1) = c_stateFirst" "nameMatches (dir ! (b - 1)) name"
    "\<And>j. j < b - 1 \<Longrightarrow> \<not> (alloc dir j = c_stateFirst \<and> nameMatches (dir ! j) name)"
  using assms find_loop_cases [where dir = dir and name = name and i = 0 and left = 15]
  by (auto simp: findFirstBlock_def)

lemma findFirstBlock_None:
  assumes "findFirstBlock dir name = None" and "i < 15"
  shows "\<not> (alloc dir i = c_stateFirst \<and> nameMatches (dir ! i) name)"
  using assms find_loop_cases [where dir = dir and name = name and i = 0 and left = 15]
  by (auto simp: findFirstBlock_def)

section \<open>Deleting a chain\<close>

definition deleted :: "bytes \<Rightarrow> bytes" where
  "deleted f = finishDirEntry (f[c_offAlloc := deletedState (f ! c_offAlloc)])"

definition dir_wf :: "dir \<Rightarrow> bool" where
  "dir_wf dir \<longleftrightarrow> length dir = 15 \<and> (\<forall>f \<in> set dir. length f = 128)"

lemma dir_wf_nth: "dir_wf dir \<Longrightarrow> i < 15 \<Longrightarrow> length (dir ! i) = 128"
  by (simp add: dir_wf_def)

lemma dir_wf_update: "dir_wf dir \<Longrightarrow> length f = 128 \<Longrightarrow> dir_wf (dir[i := f])"
  by (auto simp: dir_wf_def dest!: set_update_subset_insert [THEN subsetD])

lemma length_deleted [simp]: "length (deleted f) = length f"
  by (simp add: deleted_def)

lemma deleted_next [simp]: "get16 c_offNext (deleted f) = get16 c_offNext f"
  by (simp add: deleted_def offsets)

lemma deleted_name [simp]:
  assumes "length f = 128" shows "entry_name (deleted f) = entry_name f"
proof -
  have "take 20 (drop 10 (deleted f)) = take 20 (drop 10 f)"
    using assms by (intro nth_equalityI) (auto simp: deleted_def offsets)
  then show ?thesis by (simp add: entry_name_def offsets)
qed

lemma deleted_alloc [simp]: "f \<noteq> [] \<Longrightarrow> deleted f ! c_offAlloc = deletedState (f ! c_offAlloc)"
  by (simp add: deleted_def offsets)

lemma deletedState_available: "deletedState s \<noteq> c_stateFirst"
proof
  assume "deletedState s = c_stateFirst"
  then have "bit (deletedState s) 7 = bit c_stateFirst 7" by simp
  then show False by (simp add: deletedState_def c_stateFirst_def bit_simps)
qed

lemma delete_entry_eq: "delete_entry dir b = dir[b - 1 := deleted (dir ! (b - 1))]"
  by (simp add: delete_entry_def deleted_def Let_def)

lemma next_of_delete_entry [simp]: "next_of (delete_entry dir b) x = next_of dir x"
proof (cases "b - 1 < length dir")
  case True
  then show ?thesis by (auto simp: next_of_def delete_entry_eq nth_list_update)
next
  case False
  then show ?thesis by (simp add: next_of_def delete_entry_eq list_update_beyond)
qed

lemma chain_from_cong: "(\<And>x. next_of dir' x = next_of dir x) \<Longrightarrow> chain_from dir' vis b = chain_from dir vis b"
proof (induction dir vis b rule: chain_from.induct)
  case (1 dir vis b)
  show ?case
    using 1(1) [OF _ _ 1(2)] 1(2) by (subst (1 2) chain_from.simps) simp
qed

lemma delete_chain_eq [walk_simps]:
  assumes "length dir = 15"
  shows "snd (delete_chain dir b visited slots) =
      slots @ map (\<lambda>b. b - 1) (chain_from dir (blocks_of visited) b)"
    and "length (fst (delete_chain dir b visited slots)) = 15"
    and "i < 15 \<Longrightarrow> fst (delete_chain dir b visited slots) ! i =
      (if Suc i \<in> set (chain_from dir (blocks_of visited) b) then deleted (dir ! i) else dir ! i)"
proof -
  have "snd (delete_chain dir b visited slots) =
      slots @ map (\<lambda>b. b - 1) (chain_from dir (blocks_of visited) b) \<and>
    length (fst (delete_chain dir b visited slots)) = 15 \<and>
    (\<forall>i<15. fst (delete_chain dir b visited slots) ! i =
      (if Suc i \<in> set (chain_from dir (blocks_of visited) b) then deleted (dir ! i) else dir ! i))"
    using assms
  proof (induction dir b visited slots rule: delete_chain.induct)
    case (1 dir b visited slots)
    show ?case
    proof (cases "1 \<le> b \<and> b \<le> 15 \<and> \<not> in_mask visited b")
      case True
      define t where "t = (if next_of dir b = 0xffff then []
        else chain_from dir (insert b (blocks_of visited)) (unat (next_of dir b) + 1))"
      have c: "chain_from dir (blocks_of visited) b = b # t"
        using True by (subst chain_from.simps) (auto simp: t_def in_mask_blocks)
      have bt: "b \<notin> set t"
        using distinct_chain_from [of dir "blocks_of visited" b] unfolding c by simp
      have d: "delete_entry dir b ! i = (if Suc i = b then deleted (dir ! i) else dir ! i)" if "i < 15" for i
        using True that 1(2) by (auto simp: delete_entry_eq nth_list_update)
      have l: "length (delete_entry dir b) = 15" using 1(2) by (simp add: delete_entry_def Let_def)
      show ?thesis
      proof (cases "next_of dir b = 0xffff")
        case stop: True
        then have "delete_chain dir b visited slots = (delete_entry dir b, slots @ [b - 1])"
          using True by (subst delete_chain.simps) (simp add: Let_def)
        then show ?thesis using c d l stop by (auto simp: t_def)
      next
        case False
        define r where "r = delete_chain (delete_entry dir b) (unat (next_of dir b) + 1) (mark b visited)
          (slots @ [b - 1])"
        have eq: "delete_chain dir b visited slots = r"
          using True False by (subst delete_chain.simps) (simp add: Let_def r_def)
        have cc: "chain_from (delete_entry dir b) (insert b (blocks_of visited)) (unat (next_of dir b) + 1) = t"
          using chain_from_cong [of "delete_entry dir b" dir] False unfolding t_def by (simp only: if_False) simp
        have bm: "blocks_of (mark b visited) = insert b (blocks_of visited)" using True by simp
        have cond: "1 \<le> b \<and> b \<le> 15" "\<not> in_mask visited b" using True by blast+
        note ih = 1(1) [OF cond refl refl refl refl False l, folded r_def, unfolded bm cc]
        have "fst r ! i = (if Suc i \<in> set (b # t) then deleted (dir ! i) else dir ! i)" if "i < 15" for i
          using ih d [OF that] bt that by auto
        then show ?thesis unfolding eq c using ih by simp
      qed
    next
      case False
      then have "delete_chain dir b visited slots = (dir, slots)"
        by (subst delete_chain.simps) auto
      moreover have "chain_from dir (blocks_of visited) b = []"
        using False by (subst chain_from.simps) (auto simp: in_mask_blocks)
      ultimately show ?thesis using 1(2) by simp
    qed
  qed
  then show "snd (delete_chain dir b visited slots) =
      slots @ map (\<lambda>b. b - 1) (chain_from dir (blocks_of visited) b)"
    and "length (fst (delete_chain dir b visited slots)) = 15"
    and "i < 15 \<Longrightarrow> fst (delete_chain dir b visited slots) ! i =
      (if Suc i \<in> set (chain_from dir (blocks_of visited) b) then deleted (dir ! i) else dir ! i)" by blast+
qed

end
