(* ===== verification/Card_Filesystem.thy ===== *)
theory Card_Filesystem
  imports Card_Directory
begin

text \<open>
  The transaction engine of \<open>psyqo::MemoryCardFileSystem\<close> (\<open>psyqo/src/memory-card-filesystem.cpp\<close>): one
  operation at a time, one sector transfer per step. \<open>issueOrFinish\<close> returns the transfer it asks the card
  for, or \<open>IoNone\<close> when it has finished the operation; \<open>onSectorDone\<close> is the completion of that transfer.
  \<open>run\<close> closes the loop with a card that may fail any transfer in any way.

  Counters that the code bounds by a few thousand are natural numbers; the one computation whose 32-bit
  wrap-around matters, the size of a file to be written, is on words. Buffers the caller passes by pointer
  are fields of the state, \<open>None\<close> for a null pointer. The names and chains the code keeps in arrays beside a
  length are lists of that length.
\<close>

section \<open>State\<close>

datatype op_kind =
    OpNone | OpGetCardState | OpFormat | OpGetFreeBlockCount | OpListFiles | OpFileExists
  | OpReadFile | OpReadInfo | OpWriteFile | OpDeleteFile

datatype phase =
    PhFail | PhHeader | PhProbe | PhReadDir | PhReadTitle | PhReadData | PhReadInfo
  | PhWriteData | PhWriteDir | PhFormat

record icon =
  frameCount :: u8
  clut :: "u16 list"
  pixels :: "bytes list"

record file_entry =
  fe_name :: bytes
  sizeInBlocks :: u16
  firstBlock :: u8

record file_info =
  fi_title :: bytes
  fi_icon :: icon

record fs =
  m_busy :: bool
  m_lockHeld :: bool
  s_depth :: nat                     \<comment> \<open>\<open>SIO0Bus\<close>\<close>
  m_callback :: bool
  called :: "error list"             \<comment> \<open>results handed to callbacks\<close>
  m_result :: error
  m_op :: op_kind
  m_phase :: phase
  m_port :: port
  m_idx :: nat
  m_dir :: dir
  m_scratch :: bytes
  m_probe :: bytes
  m_cardBlocks :: nat
  m_probeSector :: nat
  m_chain :: "nat list"
  m_headerFrames :: nat
  m_blocksNeeded :: nat
  m_iconFrames :: nat
  m_dirty :: "bool list"
  m_writeOrder :: "nat list"
  m_dataOffset :: nat
  m_written :: nat
  m_blockIdx :: nat
  m_frameInBlock :: nat
  m_name :: bytes                    \<comment> \<open>a C string, without its terminator\<close>
  m_title :: bytes
  m_readBuffer :: bytes
  m_writeData :: bytes
  m_dataLen :: u32
  m_maxLen :: nat
  m_outLen :: "nat option"
  m_outFreeBlocks :: "nat option"
  m_outCount :: "nat option"
  m_outExists :: "bool option"
  m_outEntries :: "file_entry list option"
  m_outInfo :: "file_info option"
  m_maxEntries :: nat
  m_icon :: icon
  g_titleEncoder :: "bytes \<Rightarrow> bytes"  \<comment> \<open>the registered encoder, into 64 bytes\<close>

datatype dest = ToScratch | ToProbe | ToDir nat

datatype request = IoNone | IoRead port nat dest | IoWrite port nat bytes

section \<open>The bus lock\<close>

definition acquire :: "fs \<Rightarrow> fs" where
  "acquire d = d\<lparr>s_depth := s_depth d + 1\<rparr>"

definition release :: "fs \<Rightarrow> fs" where
  "release d = (if s_depth d \<noteq> 0 then d\<lparr>s_depth := s_depth d - 1\<rparr> else d)"

definition owned :: "fs \<Rightarrow> bool" where
  "owned d \<longleftrightarrow> s_depth d \<noteq> 0"

section \<open>Starting and finishing an operation\<close>

definition finish :: "error \<Rightarrow> fs \<Rightarrow> fs" where
  "finish e d =
     (let d = (if m_lockHeld d then (release d)\<lparr>m_lockHeld := False\<rparr> else d);
          d = d\<lparr>m_busy := False, m_result := e\<rparr>;
          cb = m_callback d; d = d\<lparr>m_callback := False\<rparr>
      in if cb then d\<lparr>called := called d @ [e]\<rparr> else d)"

text \<open>The size of a file in blocks, in the 32-bit arithmetic of the code.\<close>

definition blocks_for :: "nat \<Rightarrow> u32 \<Rightarrow> u32" where
  "blocks_for headerFrames dataLen =
     (let totalBytes = of_nat (headerFrames * c_sectorSize) + dataLen;
          n = drop_bit 13 (totalBytes + of_nat (c_blockSize - 1))
      in if n < 1 then 1 else n)"

text \<open>\<open>None\<close>: the assertion that no operation is in flight fails.\<close>

definition begin_op :: "op_kind \<Rightarrow> port \<Rightarrow> bool \<Rightarrow> fs \<Rightarrow> fs option" where
  "begin_op oper prt callback d =
     (if m_busy d then None
      else
        let d = d\<lparr>m_busy := True, m_op := oper, m_port := prt, m_callback := callback, m_result := OK, m_idx := 0\<rparr>;
            d = (if \<not> m_lockHeld d then (acquire d)\<lparr>m_lockHeld := True\<rparr> else d)
        in Some
          (case oper of
             OpFormat \<Rightarrow> d\<lparr>m_phase := PhFormat\<rparr>
           | OpWriteFile \<Rightarrow>
               if length (m_name d) > c_maxNameLength
               then d\<lparr>m_result := NameTooLong, m_phase := PhFail\<rparr>
               else
                 let n = unat (frameCount (m_icon d)); n = (if n < 1 then 1 else n); n = (if n > 3 then 3 else n);
                     d = d\<lparr>m_iconFrames := n, m_headerFrames := 1 + n\<rparr>;
                     d = d\<lparr>m_blocksNeeded := unat (blocks_for (m_headerFrames d) (m_dataLen d))\<rparr>
                 in if m_blocksNeeded d > 15 then d\<lparr>m_result := FileTooLarge, m_phase := PhFail\<rparr>
                    else d\<lparr>m_phase := PhHeader\<rparr>
           | _ \<Rightarrow> d\<lparr>m_phase := PhHeader\<rparr>))"

section \<open>The next transfer\<close>

definition zero_frame :: bytes where "zero_frame = replicate 128 0"

definition put_clut :: "u16 list \<Rightarrow> bytes \<Rightarrow> bytes" where
  "put_clut colours p = fold (\<lambda>c p. put16 (0x60 + c * 2) (colours ! c) p) [0..<16] p"

definition title_frame :: "fs \<Rightarrow> bytes" where
  "title_frame d =
     (let p = zero_frame;
          p = p[0 := 0x53, 1 := 0x43, 2 := 0x10 + of_nat (m_iconFrames d), 3 := of_nat (m_blocksNeeded d)];
          p = put_at 0x04 (g_titleEncoder d (m_title d)) p
      in put_clut (clut (m_icon d)) p)"

definition format_sector :: "nat \<Rightarrow> nat" where
  "format_sector idx = (if idx < 3 then 512 div 2 ^ idx else idx - 3)"

definition format_frame :: "nat \<Rightarrow> bytes" where
  "format_frame sector =
     (let p = zero_frame
      in if sector = 0 \<or> sector = 63 then finishDirEntry (p[0 := 0x4d, 1 := 0x43])
         else if 1 \<le> sector \<and> sector \<le> 15
         then finishDirEntry (put16 c_offNext 0xffff (put32 c_offSize 0 (put32 c_offAlloc (ucast c_stateFree) p)))
         else if 16 \<le> sector \<and> sector \<le> 35
         then finishDirEntry (put16 0x08 0xffff (put32 0x00 0xffffffff p))
         else p)"

definition write_frame :: "fs \<Rightarrow> bytes \<times> fs" where
  "write_frame d =
     (let frame = m_frameInBlock d
      in if m_blockIdx d = 0 \<and> frame = 0 then (title_frame d, d)
         else if m_blockIdx d = 0 \<and> frame \<ge> 1 \<and> frame \<le> m_iconFrames d
         then (pixels (m_icon d) ! (frame - 1), d)
         else if m_dataOffset d < unat (m_dataLen d)
         then let chunk = unat (m_dataLen d) - m_dataOffset d;
                  chunk = (if chunk > c_sectorSize then c_sectorSize else chunk)
              in (put_at 0 (take chunk (drop (m_dataOffset d) (m_writeData d))) zero_frame,
                  d\<lparr>m_dataOffset := m_dataOffset d + chunk\<rparr>)
         else (zero_frame, d))"

definition issueOrFinish :: "fs \<Rightarrow> request \<times> fs" where
  "issueOrFinish d =
     (case m_phase d of
        PhFail \<Rightarrow> (IoNone, finish (m_result d) d)
      | PhHeader \<Rightarrow> (IoRead (m_port d) 0 ToScratch, d)
      | PhProbe \<Rightarrow> (IoRead (m_port d) (m_probeSector d) ToProbe, d)
      | PhReadDir \<Rightarrow> (IoRead (m_port d) (m_idx d + 1) (ToDir (m_idx d)), d)
      | PhReadTitle \<Rightarrow> (IoRead (m_port d) (blockToSector (m_chain d ! 0)) ToScratch, d)
      | PhReadData \<Rightarrow> (IoRead (m_port d) (m_chain d ! m_blockIdx d * 64 + m_frameInBlock d) ToScratch, d)
      | PhReadInfo \<Rightarrow> (IoRead (m_port d) (blockToSector (m_chain d ! 0) + m_frameInBlock d) ToScratch, d)
      | PhWriteData \<Rightarrow>
          (let base = m_chain d ! m_blockIdx d * 64; sector = base + m_frameInBlock d;
               (p, d) = write_frame d; d = d\<lparr>m_scratch := p\<rparr>
           in (IoWrite (m_port d) sector p, d))
      | PhWriteDir \<Rightarrow>
          if m_idx d \<ge> length (m_writeOrder d) then (IoNone, finish (m_result d) d)
          else let slot = m_writeOrder d ! m_idx d in (IoWrite (m_port d) (slot + 1) (m_dir d ! slot), d)
      | PhFormat \<Rightarrow>
          let sector = format_sector (m_idx d); d = d\<lparr>m_scratch := format_frame sector\<rparr>
          in (IoWrite (m_port d) sector (m_scratch d), d))"

section \<open>Once the directory is in memory\<close>

definition count_free :: "nat \<Rightarrow> u16 \<Rightarrow> nat" where
  "count_free cardBlocks inUse =
     fold (\<lambda>i free. if \<not> in_mask inUse (i + 1) then free + 1 else free) [0..<cardBlocks - 1] 0"

definition list_entry :: "dir \<Rightarrow> nat \<Rightarrow> file_entry" where
  "list_entry dir i =
     \<lparr>fe_name = take 20 (drop c_offName (dir ! i)) @ [0],
      sizeInBlocks = ucast (drop_bit 13 (get32 c_offSize (dir ! i))),
      firstBlock = of_nat (i + 1)\<rparr>"

text \<open>The loop of a listing: the caller's array and the number of files so far.\<close>

fun list_loop :: "dir \<Rightarrow> nat \<Rightarrow> nat list \<Rightarrow> file_entry list option \<times> nat \<Rightarrow> file_entry list option \<times> nat" where
  "list_loop dir maxEntries [] st = st"
| "list_loop dir maxEntries (i # is) (out, count) =
     (if alloc dir i \<noteq> c_stateFirst then list_loop dir maxEntries is (out, count)
      else
        let out = (case out of None \<Rightarrow> None
                   | Some a \<Rightarrow> Some (if count < maxEntries then a[count := list_entry dir i] else a))
        in list_loop dir maxEntries is (out, count + 1))"

text \<open>One of the two passes that choose blocks for a new file.\<close>

definition pick_blocks ::
  "dir \<Rightarrow> nat \<Rightarrow> nat \<Rightarrow> u16 \<Rightarrow> (u8 \<Rightarrow> bool) \<Rightarrow> nat list \<Rightarrow> nat list"
where
  "pick_blocks dir cardBlocks needed inUse want chain =
     fold (\<lambda>i chain. if i + 1 < cardBlocks \<and> length chain < needed \<and> \<not> in_mask inUse (i + 1) \<and> want (alloc dir i)
                     then chain @ [i + 1] else chain) [0..<15] chain"

definition choose_blocks :: "dir \<Rightarrow> nat \<Rightarrow> nat \<Rightarrow> nat list" where
  "choose_blocks dir cardBlocks needed =
     (let inUse = reachableBlocks dir
      in pick_blocks dir cardBlocks needed inUse (\<lambda>s. s \<noteq> c_stateFree)
           (pick_blocks dir cardBlocks needed inUse (\<lambda>s. s = c_stateFree) []))"

definition dirty_of :: "nat list \<Rightarrow> bool list" where
  "dirty_of slots = map (\<lambda>s. s \<in> set slots) [0..<15]"

datatype dir_result = DirContinue | DirDone

definition afterReadDir :: "fs \<Rightarrow> dir_result \<times> fs" where
  "afterReadDir d =
     (case m_op d of
        OpGetFreeBlockCount \<Rightarrow>
          let free = count_free (m_cardBlocks d) (reachableBlocks (m_dir d))
          in (DirDone, d\<lparr>m_outFreeBlocks := map_option (\<lambda>_. free) (m_outFreeBlocks d)\<rparr>)
      | OpListFiles \<Rightarrow>
          let (out, count) = list_loop (m_dir d) (m_maxEntries d) [0..<15] (m_outEntries d, 0)
          in (DirDone, d\<lparr>m_outEntries := out, m_outCount := map_option (\<lambda>_. count) (m_outCount d)\<rparr>)
      | OpFileExists \<Rightarrow>
          (DirDone, d\<lparr>m_outExists := map_option (\<lambda>_. findFirstBlock (m_dir d) (m_name d) \<noteq> None) (m_outExists d)\<rparr>)
      | OpReadFile \<Rightarrow>
          (case findFirstBlock (m_dir d) (m_name d) of
             None \<Rightarrow> (DirDone, d\<lparr>m_result := FileNotFound\<rparr>)
           | Some first \<Rightarrow>
               (case read_chain (m_dir d) first 0 [] of
                  None \<Rightarrow> (DirDone, d\<lparr>m_result := BadData\<rparr>)
                | Some chain \<Rightarrow> (DirContinue, d\<lparr>m_chain := chain, m_phase := PhReadTitle\<rparr>)))
      | OpReadInfo \<Rightarrow>
          (case findFirstBlock (m_dir d) (m_name d) of
             None \<Rightarrow> (DirDone, d\<lparr>m_result := FileNotFound\<rparr>)
           | Some first \<Rightarrow>
               (DirContinue, d\<lparr>m_chain := [first], m_frameInBlock := 0, m_iconFrames := 1, m_phase := PhReadInfo\<rparr>))
      | OpWriteFile \<Rightarrow>
          let (dir, slots) =
                (case findFirstBlock (m_dir d) (m_name d) of
                   None \<Rightarrow> (m_dir d, [])
                 | Some existing \<Rightarrow> delete_chain (m_dir d) existing 0 []);
              d = d\<lparr>m_dir := dir, m_dirty := dirty_of slots\<rparr>;
              d = d\<lparr>m_chain := choose_blocks (m_dir d) (m_cardBlocks d) (m_blocksNeeded d)\<rparr>
          in if length (m_chain d) < m_blocksNeeded d then (DirDone, d\<lparr>m_result := OutOfSpace\<rparr>)
             else (DirContinue,
                   d\<lparr>m_blockIdx := 0, m_frameInBlock := 0, m_dataOffset := 0, m_phase := PhWriteData\<rparr>)
      | OpDeleteFile \<Rightarrow>
          (case findFirstBlock (m_dir d) (m_name d) of
             None \<Rightarrow> (DirDone, d\<lparr>m_result := FileNotFound\<rparr>)
           | Some first \<Rightarrow>
               let (dir, slots) = delete_chain (m_dir d) first 0 []
               in (DirContinue, d\<lparr>m_dir := dir, m_writeOrder := slots, m_phase := PhWriteDir, m_idx := 0\<rparr>))
      | _ \<Rightarrow> (DirDone, d))"

section \<open>The directory entries of a new file\<close>

definition new_entry :: "nat list \<Rightarrow> bytes \<Rightarrow> nat \<Rightarrow> bytes" where
  "new_entry chain name bi =
     (let needed = length chain; entry = zero_frame;
          state = (if needed = 1 \<or> bi = 0 then c_stateFirst
                   else if bi = needed - 1 then c_stateLast else c_stateMiddle);
          entry = put32 c_offAlloc (ucast state) entry;
          entry = (if bi = 0 then put_at c_offName name (put32 c_offSize (of_nat (needed * c_blockSize)) entry)
                   else put32 c_offSize 0 entry);
          nxt = (if bi = needed - 1 then 0xffff else of_nat (chain ! (bi + 1) - 1));
          entry = put16 c_offNext nxt entry
      in finishDirEntry entry)"

definition new_entries :: "nat list \<Rightarrow> bytes \<Rightarrow> dir \<Rightarrow> dir" where
  "new_entries chain name dir =
     fold (\<lambda>bi dir. dir[chain ! bi - 1 := new_entry chain name bi]) [0..<length chain] dir"

text \<open>
  The commit order: blocks of a replaced file that the new one does not use, then the new chain from its
  tail to its head.
\<close>

definition write_order :: "bool list \<Rightarrow> nat list \<Rightarrow> nat list" where
  "write_order dirty chain =
     filter (\<lambda>s. dirty ! s \<and> s + 1 \<notin> set chain) [0..<15] @ rev (map (\<lambda>b. b - 1) chain)"

section \<open>The completion of a transfer\<close>

definition is_formatted :: "bytes \<Rightarrow> bool" where
  "is_formatted p \<longleftrightarrow> p ! 0 = 0x4d \<and> p ! 1 = 0x43"

text \<open>The number of icon frames a title frame announces, one if it makes no sense.\<close>

definition announced_icons :: "bytes \<Rightarrow> nat" where
  "announced_icons p =
     (let n = unat ((p ! 2) AND 0x0f) in if n < 1 \<or> n > 3 then 1 else n)"

definition is_title :: "bytes \<Rightarrow> bool" where
  "is_title p \<longleftrightarrow> p ! 0 = 0x53 \<and> p ! 1 = 0x43"

definition next_frame :: "fs \<Rightarrow> fs" where
  "next_frame d =
     (let d = d\<lparr>m_frameInBlock := m_frameInBlock d + 1\<rparr>
      in if m_frameInBlock d \<ge> c_sectorsPerBlock then d\<lparr>m_frameInBlock := 0, m_blockIdx := m_blockIdx d + 1\<rparr> else d)"

definition title_info :: "bytes \<Rightarrow> nat \<Rightarrow> file_info" where
  "title_info p iconFrames =
     \<lparr>fi_title = take 64 (drop 0x04 p) @ [0],
      fi_icon = \<lparr>frameCount = of_nat iconFrames, clut = map (\<lambda>c. get16 (0x60 + c * 2) p) [0..<16],
                 pixels = replicate 3 zero_frame\<rparr>\<rparr>"

text \<open>The post-transfer half of a step: \<open>True\<close> when the operation has to be finished with \<open>m_result\<close>.\<close>

definition advance :: "fs \<Rightarrow> bool \<times> fs" where
  "advance d =
     (case m_phase d of
        PhFail \<Rightarrow> (True, d)
      | PhHeader \<Rightarrow>
          (let formatted = is_formatted (m_scratch d)
           in if m_op d = OpGetCardState
              then (True, if \<not> formatted then d\<lparr>m_result := NotFormatted\<rparr> else d)
              else if \<not> formatted then (True, d\<lparr>m_result := NotFormatted\<rparr>)
              else
                let d = d\<lparr>m_cardBlocks := 16\<rparr>
                in if m_op d = OpWriteFile \<or> m_op d = OpGetFreeBlockCount
                   then (False, d\<lparr>m_probeSector := 512, m_phase := PhProbe\<rparr>)
                   else (False, d\<lparr>m_phase := PhReadDir, m_idx := 0\<rparr>))
      | PhProbe \<Rightarrow>
          (let alias = (m_probe d = m_scratch d);
               d = (if alias then d\<lparr>m_cardBlocks := m_probeSector d div c_sectorsPerBlock\<rparr> else d)
           in if alias \<and> m_probeSector d > 128 then (False, d\<lparr>m_probeSector := m_probeSector d div 2\<rparr>)
              else (False, d\<lparr>m_phase := PhReadDir, m_idx := 0\<rparr>))
      | PhReadDir \<Rightarrow>
          (let d = d\<lparr>m_idx := m_idx d + 1\<rparr>
           in if m_idx d < 15 then (False, d)
              else case afterReadDir d of (r, d) \<Rightarrow> (r = DirDone, d))
      | PhReadTitle \<Rightarrow>
          (let h = (if is_title (m_scratch d) then 1 + announced_icons (m_scratch d) else 0)
           in (False, d\<lparr>m_headerFrames := h, m_blockIdx := 0, m_frameInBlock := h, m_written := 0,
                        m_phase := PhReadData\<rparr>))
      | PhReadData \<Rightarrow>
          (let chunk = (if c_sectorSize > m_maxLen d - m_written d then m_maxLen d - m_written d else c_sectorSize);
               d = d\<lparr>m_readBuffer := put_at (m_written d) (take chunk (m_scratch d)) (m_readBuffer d),
                     m_written := m_written d + chunk\<rparr>;
               d = next_frame d
           in if m_blockIdx d \<ge> length (m_chain d) \<or> m_written d \<ge> m_maxLen d
              then let dataBytes = (length (m_chain d) * c_sectorsPerBlock - m_headerFrames d) * c_sectorSize
                   in (True, d\<lparr>m_outLen := map_option (\<lambda>_. min dataBytes (m_maxLen d)) (m_outLen d)\<rparr>)
              else (False, d))
      | PhReadInfo \<Rightarrow>
          (let d = (if m_frameInBlock d = 0
                    then let n = (if is_title (m_scratch d) then announced_icons (m_scratch d) else 1)
                         in d\<lparr>m_iconFrames := n,
                              m_outInfo := map_option (\<lambda>_. title_info (m_scratch d) n) (m_outInfo d)\<rparr>
                    else if m_frameInBlock d \<le> m_iconFrames d
                    then d\<lparr>m_outInfo := map_option (\<lambda>i. i\<lparr>fi_icon := (fi_icon i)
                             \<lparr>pixels := (pixels (fi_icon i))[m_frameInBlock d - 1 := m_scratch d]\<rparr>\<rparr>) (m_outInfo d)\<rparr>
                    else d);
               d = d\<lparr>m_frameInBlock := m_frameInBlock d + 1\<rparr>
           in (m_frameInBlock d > m_iconFrames d, d))
      | PhWriteData \<Rightarrow>
          (let d = next_frame d
           in if m_blockIdx d \<ge> m_blocksNeeded d
              then (False, d\<lparr>m_dir := new_entries (take (m_blocksNeeded d) (m_chain d)) (m_name d) (m_dir d),
                             m_writeOrder := write_order (m_dirty d) (take (m_blocksNeeded d) (m_chain d)),
                             m_phase := PhWriteDir, m_idx := 0\<rparr>)
              else (False, d))
      | PhWriteDir \<Rightarrow> (False, d\<lparr>m_idx := m_idx d + 1\<rparr>)
      | PhFormat \<Rightarrow>
          (let d = d\<lparr>m_idx := m_idx d + 1\<rparr> in (m_idx d > 66, d)))"

definition onSectorDone :: "error \<Rightarrow> fs \<Rightarrow> request \<times> fs" where
  "onSectorDone e d =
     (let d = d\<lparr>m_result := e\<rparr>
      in if e \<noteq> OK then (IoNone, finish e d)
         else case advance d of
                (True, d) \<Rightarrow> (IoNone, finish (m_result d) d)
              | (False, d) \<Rightarrow> issueOrFinish d)"

section \<open>The operations\<close>

text \<open>The object as constructed; \<open>dir\<close> stands for the frames it leaves uninitialised.\<close>

definition fs_init :: "dir \<Rightarrow> (bytes \<Rightarrow> bytes) \<Rightarrow> fs" where
  "fs_init dir encoder =
     \<lparr>m_busy = False, m_lockHeld = False, s_depth = 0, m_callback = False, called = [], m_result = OK,
      m_op = OpNone, m_phase = PhFail, m_port = Port0, m_idx = 0, m_dir = dir, m_scratch = [], m_probe = [],
      m_cardBlocks = 16, m_probeSector = 0, m_chain = [], m_headerFrames = 0, m_blocksNeeded = 0,
      m_iconFrames = 0, m_dirty = replicate 15 False, m_writeOrder = [], m_dataOffset = 0, m_written = 0,
      m_blockIdx = 0, m_frameInBlock = 0, m_name = [], m_title = [], m_readBuffer = [], m_writeData = [],
      m_dataLen = 0, m_maxLen = 0, m_outLen = None, m_outFreeBlocks = None, m_outCount = None,
      m_outExists = None, m_outEntries = None, m_outInfo = None, m_maxEntries = 0,
      m_icon = \<lparr>frameCount = 0, clut = replicate 16 0, pixels = replicate 3 zero_frame\<rparr>,
      g_titleEncoder = encoder\<rparr>"

definition start_op :: "op_kind \<Rightarrow> port \<Rightarrow> bool \<Rightarrow> fs \<Rightarrow> (request \<times> fs) option" where
  "start_op oper prt callback d = map_option issueOrFinish (begin_op oper prt callback d)"

definition getCardState :: "port \<Rightarrow> fs \<Rightarrow> (request \<times> fs) option" where
  "getCardState prt d = start_op OpGetCardState prt True d"

definition format_card :: "port \<Rightarrow> fs \<Rightarrow> (request \<times> fs) option" where
  "format_card prt d = start_op OpFormat prt True d"

definition getFreeBlockCount :: "port \<Rightarrow> nat option \<Rightarrow> fs \<Rightarrow> (request \<times> fs) option" where
  "getFreeBlockCount prt out d =
     start_op OpGetFreeBlockCount prt True (d\<lparr>m_outFreeBlocks := map_option (\<lambda>_. 0) out\<rparr>)"

definition listFiles ::
  "port \<Rightarrow> file_entry list option \<Rightarrow> nat \<Rightarrow> nat option \<Rightarrow> fs \<Rightarrow> (request \<times> fs) option"
where
  "listFiles prt out maxEntries outCount d =
     start_op OpListFiles prt True
       (d\<lparr>m_outEntries := out, m_maxEntries := maxEntries, m_outCount := map_option (\<lambda>_. 0) outCount\<rparr>)"

definition fileExists :: "port \<Rightarrow> bytes \<Rightarrow> bool option \<Rightarrow> fs \<Rightarrow> (request \<times> fs) option" where
  "fileExists prt name out d =
     start_op OpFileExists prt True (d\<lparr>m_name := name, m_outExists := map_option (\<lambda>_. False) out\<rparr>)"

definition readFile ::
  "port \<Rightarrow> bytes \<Rightarrow> bytes \<Rightarrow> nat \<Rightarrow> nat option \<Rightarrow> fs \<Rightarrow> (request \<times> fs) option"
where
  "readFile prt name buffer maxLen outLen d =
     start_op OpReadFile prt True
       (d\<lparr>m_name := name, m_readBuffer := buffer, m_maxLen := maxLen, m_outLen := map_option (\<lambda>_. 0) outLen\<rparr>)"

definition readFileInfo :: "port \<Rightarrow> bytes \<Rightarrow> file_info option \<Rightarrow> fs \<Rightarrow> (request \<times> fs) option" where
  "readFileInfo prt name out d = start_op OpReadInfo prt True (d\<lparr>m_name := name, m_outInfo := out\<rparr>)"

definition writeFile ::
  "port \<Rightarrow> bytes \<Rightarrow> bytes \<Rightarrow> icon \<Rightarrow> bytes \<Rightarrow> u32 \<Rightarrow> fs \<Rightarrow> (request \<times> fs) option"
where
  "writeFile prt name title icn data dataLen d =
     start_op OpWriteFile prt True
       (d\<lparr>m_name := name, m_title := title, m_icon := icn, m_writeData := data, m_dataLen := dataLen\<rparr>)"

definition deleteFile :: "port \<Rightarrow> bytes \<Rightarrow> fs \<Rightarrow> (request \<times> fs) option" where
  "deleteFile prt name d = start_op OpDeleteFile prt True (d\<lparr>m_name := name\<rparr>)"

section \<open>Running an operation on a card\<close>

text \<open>
  The card: its number of sectors, so that it ignores the address bits above, and its contents. Each
  transfer comes with its outcome and with the bytes a failed one leaves in the buffer or on the card.
\<close>

record card =
  sectors :: nat
  image :: "nat \<Rightarrow> bytes"

definition card_get :: "card \<Rightarrow> nat \<Rightarrow> bytes" where
  "card_get c s = image c (s mod sectors c)"

definition card_put :: "card \<Rightarrow> nat \<Rightarrow> bytes \<Rightarrow> card" where
  "card_put c s b = c\<lparr>image := (image c)(s mod sectors c := b)\<rparr>"

definition receive :: "dest \<Rightarrow> bytes \<Rightarrow> fs \<Rightarrow> fs" where
  "receive to b d =
     (case to of ToScratch \<Rightarrow> d\<lparr>m_scratch := b\<rparr> | ToProbe \<Rightarrow> d\<lparr>m_probe := b\<rparr>
      | ToDir i \<Rightarrow> d\<lparr>m_dir := (m_dir d)[i := b]\<rparr>)"

type_synonym outcome = "error \<times> bytes"

fun transfer :: "outcome \<Rightarrow> request \<Rightarrow> card \<times> fs \<Rightarrow> card \<times> fs" where
  "transfer (e, junk) IoNone (c, d) = (c, d)"
| "transfer (e, junk) (IoRead prt s to) (c, d) =
     (c, receive to (if e = OK then card_get c s else junk) d)"
| "transfer (e, junk) (IoWrite prt s b) (c, d) =
     (card_put c s (if e = OK then b else junk), d)"

fun run :: "outcome list \<Rightarrow> request \<Rightarrow> card \<times> fs \<Rightarrow> request \<times> card \<times> fs" where
  "run [] req st = (req, st)"
| "run (out # outs) req st =
     (if req = IoNone then (req, st)
      else let (c, d) = transfer out req st; (req, d) = onSectorDone (fst out) d in run outs req (c, d))"

text \<open>The blocking forms: the same transaction without a callback, run until it is no longer busy.\<close>

definition runBlocking :: "outcome list \<Rightarrow> card \<times> fs \<Rightarrow> (error \<times> card \<times> fs) option" where
  "runBlocking outs st =
     (case st of (c, d) \<Rightarrow>
        let (req, d) = issueOrFinish d; (req, c, d) = run outs req (c, d)
        in if m_busy d then None else Some (m_result d, c, d))"

definition blocking_op :: "outcome list \<Rightarrow> op_kind \<Rightarrow> port \<Rightarrow> card \<times> fs \<Rightarrow> (error \<times> card \<times> fs) option" where
  "blocking_op outs oper prt st =
     (case st of (c, d) \<Rightarrow>
        case begin_op oper prt False d of None \<Rightarrow> None | Some d \<Rightarrow> runBlocking outs (c, d))"

section \<open>The blocks given to a new file\<close>

definition available :: "dir \<Rightarrow> nat \<Rightarrow> nat list" where
  "available dir cardBlocks = filter (\<lambda>i. i + 1 < cardBlocks \<and> i + 1 \<notin> reachable dir) [0..<15]"

lemma in_mask_reachable: "i < 15 \<Longrightarrow> in_mask (reachableBlocks dir) (Suc i) \<longleftrightarrow> Suc i \<in> reachable dir"
  by (simp add: in_mask_blocks reachableBlocks_blocks)

lemma pick_blocks_eq:
  assumes "length chain \<le> needed"
  shows "pick_blocks dir cardBlocks needed inUse want chain =
    chain @ take (needed - length chain)
      (map Suc (filter (\<lambda>i. i + 1 < cardBlocks \<and> \<not> in_mask inUse (i + 1) \<and> want (alloc dir i)) [0..<15]))"
proof -
  have "length chain \<le> needed \<Longrightarrow>
      fold (\<lambda>i chain. if i + 1 < cardBlocks \<and> length chain < needed \<and> \<not> in_mask inUse (i + 1) \<and> want (alloc dir i)
                     then chain @ [i + 1] else chain) js chain =
      chain @ take (needed - length chain)
        (map Suc (filter (\<lambda>i. i + 1 < cardBlocks \<and> \<not> in_mask inUse (i + 1) \<and> want (alloc dir i)) js))" for js
  proof (induction js arbitrary: chain)
    case (Cons i js)
    show ?case
    proof (cases "i + 1 < cardBlocks \<and> \<not> in_mask inUse (i + 1) \<and> want (alloc dir i)")
      case True
      show ?thesis
      proof (cases "length chain < needed")
        case room: True
        then have "needed - length chain = Suc (needed - Suc (length chain))" by simp
        then show ?thesis using Cons.IH [of "chain @ [i + 1]"] room True by simp
      qed (use Cons in simp)
    qed (use Cons in auto)
  qed simp
  then show ?thesis using assms by (simp add: pick_blocks_def)
qed

text \<open>Free blocks first, then the ones that hold deleted data, both in the order of the directory.\<close>

lemma choose_blocks_eq:
  "choose_blocks dir cardBlocks needed =
     take needed (map Suc (filter (\<lambda>i. alloc dir i = c_stateFree) (available dir cardBlocks) @
                           filter (\<lambda>i. alloc dir i \<noteq> c_stateFree) (available dir cardBlocks)))"
proof -
  define fr where "fr = map Suc (filter (\<lambda>i. alloc dir i = c_stateFree) (available dir cardBlocks))"
  define de where "de = map Suc (filter (\<lambda>i. alloc dir i \<noteq> c_stateFree) (available dir cardBlocks))"
  have f: "map Suc (filter (\<lambda>i. i + 1 < cardBlocks \<and> \<not> in_mask (reachableBlocks dir) (i + 1) \<and> want (alloc dir i)) [0..<15]) =
      map Suc (filter (\<lambda>i. want (alloc dir i)) (available dir cardBlocks))" for want
    unfolding available_def filter_filter
    by (intro arg_cong [where f = "map Suc"] filter_cong) (auto simp: in_mask_reachable)
  have one: "pick_blocks dir cardBlocks needed (reachableBlocks dir) (\<lambda>s. s = c_stateFree) [] = take needed fr"
    using f [of "\<lambda>s. s = c_stateFree"] by (subst pick_blocks_eq) (simp_all add: fr_def)
  have "choose_blocks dir cardBlocks needed = take needed fr @ take (needed - length (take needed fr)) de"
    using f [of "\<lambda>s. s \<noteq> c_stateFree"]
    unfolding choose_blocks_def Let_def one by (subst pick_blocks_eq) (simp_all add: de_def)
  then show ?thesis by (simp add: fr_def de_def min_def)
qed

lemma set_available: "set (available dir cardBlocks) = {i. i < 15 \<and> i + 1 < cardBlocks \<and> i + 1 \<notin> reachable dir}"
  by (auto simp: available_def)

lemma distinct_available: "distinct (available dir cardBlocks)"
  by (simp add: available_def)

lemma choose_props:
  shows "distinct (choose_blocks dir cardBlocks needed)"
    and "set (choose_blocks dir cardBlocks needed) \<subseteq>
      {b. 1 \<le> b \<and> b \<le> 15 \<and> b < cardBlocks \<and> b \<notin> reachable dir}"
    and "length (choose_blocks dir cardBlocks needed) = min needed (length (available dir cardBlocks))"
proof -
  define xs where "xs = filter (\<lambda>i. alloc dir i = c_stateFree) (available dir cardBlocks) @
    filter (\<lambda>i. alloc dir i \<noteq> c_stateFree) (available dir cardBlocks)"
  have xs: "distinct xs" "set xs = set (available dir cardBlocks)"
    using distinct_available by (auto simp: xs_def)
  have len: "length xs = length (available dir cardBlocks)"
    using xs distinct_card [OF xs(1)] distinct_card [OF distinct_available, of dir cardBlocks] by simp
  have eq: "choose_blocks dir cardBlocks needed = take needed (map Suc xs)"
    by (simp only: choose_blocks_eq xs_def)
  show "distinct (choose_blocks dir cardBlocks needed)"
    unfolding eq using xs(1) by (simp add: distinct_map)
  show "length (choose_blocks dir cardBlocks needed) = min needed (length (available dir cardBlocks))"
    unfolding eq using len by simp
  show "set (choose_blocks dir cardBlocks needed) \<subseteq>
      {b. 1 \<le> b \<and> b \<le> 15 \<and> b < cardBlocks \<and> b \<notin> reachable dir}"
    using set_take_subset [of needed "map Suc xs"] xs(2) unfolding eq set_available by auto
qed

lemma count_free_eq:
  assumes "cardBlocks \<le> 16"
  shows "count_free cardBlocks (reachableBlocks dir) = length (available dir cardBlocks)"
proof -
  have f: "fold (\<lambda>i free. if \<not> in_mask w (i + 1) then free + 1 else free) [0..<n] 0 =
      length (filter (\<lambda>i. \<not> in_mask w (i + 1)) [0..<n])" for w n
    by (induction n) auto
  have "filter (\<lambda>i. \<not> in_mask (reachableBlocks dir) (i + 1)) [0..<cardBlocks - 1] = available dir cardBlocks"
  proof -
    have s: "[0..<15] = [0..<cardBlocks - 1] @ [cardBlocks - 1..<15]"
      using assms upt_add_eq_append [of 0 "cardBlocks - 1" "15 - (cardBlocks - 1)"] by simp
    have "filter (\<lambda>i. i + 1 < cardBlocks \<and> i + 1 \<notin> reachable dir) [cardBlocks - 1..<15] = []"
      by (auto simp: filter_empty_conv)
    moreover have "filter (\<lambda>i. i + 1 < cardBlocks \<and> i + 1 \<notin> reachable dir) [0..<cardBlocks - 1] =
        filter (\<lambda>i. \<not> in_mask (reachableBlocks dir) (i + 1)) [0..<cardBlocks - 1]"
      using assms by (intro filter_cong) (auto simp: in_mask_reachable)
    ultimately show ?thesis unfolding available_def s filter_append by simp
  qed
  then show ?thesis unfolding count_free_def f by simp
qed

text \<open>
  C10: The allocator. For a file of \<open>needed\<close> blocks it hands out distinct blocks, between 1 and 15 and below
  the measured size of the card, none of which any file on the card reaches; it gives as many as are wanted
  and no more, and it fails to find enough exactly when the count the free-block query reports is too small.
\<close>

theorem allocation_correct:
  assumes "cardBlocks \<le> 16"
  shows "distinct (choose_blocks dir cardBlocks needed) \<and>
    (\<forall>b \<in> set (choose_blocks dir cardBlocks needed).
       1 \<le> b \<and> b \<le> 15 \<and> b < cardBlocks \<and> \<not> (\<exists>i<15. alloc dir i = c_stateFirst \<and> follows dir (i + 1) b)) \<and>
    length (choose_blocks dir cardBlocks needed) \<le> needed \<and>
    (length (choose_blocks dir cardBlocks needed) < needed \<longleftrightarrow>
       count_free cardBlocks (reachableBlocks dir) < needed)"
  using choose_props [where dir = dir and cardBlocks = cardBlocks and needed = needed] count_free_eq [OF assms, of dir]
  by (auto simp: reachable_def)

theorem allocation_correct_witness:
  "length (choose_blocks (replicate 15 zero_frame) 8 2) = 2 \<and> distinct (choose_blocks (replicate 15 zero_frame) 8 2)"
proof -
  have "reachableBlocks (replicate 15 zero_frame) = 0"
    by (simp add: reachableBlocks_def alloc_def zero_frame_def offsets states upt_rec)
  then have "count_free 8 (reachableBlocks (replicate 15 zero_frame)) = 7"
    by (simp add: count_free_def in_mask_def upt_rec)
  then show ?thesis
    using allocation_correct [where dir = "replicate 15 zero_frame" and cardBlocks = 8 and needed = 2] by linarith
qed

end
