(* ===== verification/Card_Engine.thy ===== *)
theory Card_Engine
  imports Card_Filesystem
begin

text \<open>
  The invariant of the filesystem engine, and what follows from it for every operation on a card that may
  fail any transfer: the operation ends within a bounded number of transfers, reports once, releases the
  bus, and stops at the first failed transfer; and where its writes can go.
\<close>

section \<open>The engine's invariant\<close>

text \<open>
  What each phase relies on while an operation is in flight. \<open>m_chain\<close> and \<open>m_writeOrder\<close> stay within the
  16 and 15 entries the code gives them.
\<close>

definition phase_ok :: "fs \<Rightarrow> bool" where
  "phase_ok d \<longleftrightarrow>
     (case m_phase d of
        PhFail \<Rightarrow> False
      | PhHeader \<Rightarrow> True
      | PhProbe \<Rightarrow> m_probeSector d \<in> {128, 256, 512} \<and> m_cardBlocks d \<in> {4, 8, 16}
      | PhReadDir \<Rightarrow> m_idx d < 15
      | PhReadTitle \<Rightarrow> m_chain d \<noteq> [] \<and> length (m_chain d) \<le> 15
      | PhReadData \<Rightarrow> m_blockIdx d < length (m_chain d) \<and> m_frameInBlock d < 64 \<and> length (m_chain d) \<le> 15
      | PhReadInfo \<Rightarrow> m_iconFrames d \<le> 3 \<and> m_frameInBlock d \<le> m_iconFrames d
      | PhWriteData \<Rightarrow> m_blockIdx d < m_blocksNeeded d \<and> m_frameInBlock d < 64 \<and>
          length (m_chain d) = m_blocksNeeded d \<and> m_blocksNeeded d \<le> 15 \<and>
          distinct (m_chain d) \<and> set (m_chain d) \<subseteq> file_blocks
      | PhWriteDir \<Rightarrow> length (m_writeOrder d) \<le> 15 \<and> m_idx d < length (m_writeOrder d)
      | PhFormat \<Rightarrow> m_idx d \<le> 66) \<and>
     (m_op d = OpWriteFile \<longrightarrow> 1 \<le> m_blocksNeeded d \<and> m_blocksNeeded d \<le> 15)"

text \<open>A bound on the transfers an operation in flight has still to make.\<close>

definition remaining :: "fs \<Rightarrow> nat" where
  "remaining d =
     (case m_phase d of
        PhFail \<Rightarrow> 0
      | PhHeader \<Rightarrow> 1020
      | PhProbe \<Rightarrow> 1016 + (if m_probeSector d > 256 then 3 else if m_probeSector d > 128 then 2 else 1)
      | PhReadDir \<Rightarrow> 1000 + (15 - m_idx d)
      | PhReadTitle \<Rightarrow> 999
      | PhReadData \<Rightarrow> (length (m_chain d) - m_blockIdx d) * 64 - m_frameInBlock d
      | PhReadInfo \<Rightarrow> if m_frameInBlock d = 0 then 4 else Suc (m_iconFrames d) - m_frameInBlock d
      | PhWriteData \<Rightarrow> 15 + ((m_blocksNeeded d - m_blockIdx d) * 64 - m_frameInBlock d)
      | PhWriteDir \<Rightarrow> length (m_writeOrder d) - m_idx d
      | PhFormat \<Rightarrow> 67 - m_idx d)"

text \<open>The bookkeeping around the phases: busy, the lock, the callback.\<close>

definition in_flight :: "fs \<Rightarrow> bool" where
  "in_flight d \<longleftrightarrow> m_busy d \<and> m_lockHeld d \<and> phase_ok d"

definition frame_eq :: "fs \<Rightarrow> fs \<Rightarrow> bool" where
  "frame_eq d d' \<longleftrightarrow> m_busy d' = m_busy d \<and> m_lockHeld d' = m_lockHeld d \<and> s_depth d' = s_depth d \<and>
     m_callback d' = m_callback d \<and> called d' = called d \<and> m_op d' = m_op d \<and> m_port d' = m_port d \<and>
     m_name d' = m_name d \<and> m_title d' = m_title d \<and> m_icon d' = m_icon d \<and> m_writeData d' = m_writeData d \<and>
     m_dataLen d' = m_dataLen d \<and> m_maxLen d' = m_maxLen d \<and> m_blocksNeeded d' = m_blocksNeeded d \<and>
     g_titleEncoder d' = g_titleEncoder d"

lemma frame_eq_refl [simp]: "frame_eq d d"
  by (simp add: frame_eq_def)

lemma frame_eq_trans: "frame_eq a b \<Longrightarrow> frame_eq b c \<Longrightarrow> frame_eq a c"
  by (simp add: frame_eq_def)

lemma receive_frame [simp]: "frame_eq d (receive to b d)"
  by (cases to) (simp_all add: receive_def frame_eq_def)

lemma receive_phase [simp]:
  "m_phase (receive to b d) = m_phase d" "m_idx (receive to b d) = m_idx d"
  "m_chain (receive to b d) = m_chain d" "m_blockIdx (receive to b d) = m_blockIdx d"
  "m_frameInBlock (receive to b d) = m_frameInBlock d" "m_iconFrames (receive to b d) = m_iconFrames d"
  "m_writeOrder (receive to b d) = m_writeOrder d" "m_probeSector (receive to b d) = m_probeSector d"
  "m_cardBlocks (receive to b d) = m_cardBlocks d" "m_blocksNeeded (receive to b d) = m_blocksNeeded d"
  "m_op (receive to b d) = m_op d" "m_result (receive to b d) = m_result d"
  "m_busy (receive to b d) = m_busy d" "m_lockHeld (receive to b d) = m_lockHeld d"
  "m_dirty (receive to b d) = m_dirty d" "m_headerFrames (receive to b d) = m_headerFrames d"
  "m_written (receive to b d) = m_written d" "m_maxLen (receive to b d) = m_maxLen d"
  "m_name (receive to b d) = m_name d"
  by (cases to; simp add: receive_def)+

lemma receive_in_flight [simp]: "in_flight (receive to b d) = in_flight d"
  by (cases "m_phase d") (simp_all add: in_flight_def phase_ok_def)

lemma receive_remaining [simp]: "remaining (receive to b d) = remaining d"
  by (cases "m_phase d") (simp_all add: remaining_def)

lemma pick_length:
  "length chain \<le> needed \<Longrightarrow> length (pick_blocks dir cardBlocks needed inUse want chain) \<le> needed"
proof -
  have "length chain \<le> needed \<Longrightarrow> length (fold (\<lambda>i chain. if i + 1 < cardBlocks \<and> length chain < needed \<and>
      \<not> in_mask inUse (i + 1) \<and> want (alloc dir i) then chain @ [i + 1] else chain) is chain) \<le> needed" for "is"
    by (induction "is" arbitrary: chain) auto
  then show "length chain \<le> needed \<Longrightarrow> ?thesis" by (simp add: pick_blocks_def)
qed

lemma choose_length: "length (choose_blocks dir cardBlocks needed) \<le> needed"
  unfolding choose_blocks_def Let_def by (intro pick_length) simp

lemma read_chain_Some:
  assumes "read_chain dir first 0 [] = Some chain"
  shows "chain = chain_from dir {} first" "terminated dir {} first" "chain \<noteq> []" "length chain \<le> 15"
proof -
  show t: "terminated dir {} first" and c: "chain = chain_from dir {} first"
    using assms read_chain_eq [of 0 "[]" dir first] by (simp_all split: if_splits)
  show "chain \<noteq> []" unfolding c using t by (subst chain_from.simps, subst (asm) terminated.simps) (auto split: if_splits)
  show "length chain \<le> 15" unfolding c by (rule length_chain_from)
qed

lemma afterReadDir_frame: "frame_eq d (snd (afterReadDir d))"
  unfolding afterReadDir_def Let_def
  by (cases "m_op d") (auto simp: frame_eq_def split: option.splits prod.splits)

lemma delete_chain_slots:
  assumes "length dir = 15" and "first \<in> file_blocks"
  shows "snd (delete_chain dir first 0 []) = map (\<lambda>b. b - 1) (chain_from dir {} first)"
    and "snd (delete_chain dir first 0 []) \<noteq> []" and "length (snd (delete_chain dir first 0 [])) \<le> 15"
proof -
  show s: "snd (delete_chain dir first 0 []) = map (\<lambda>b. b - 1) (chain_from dir {} first)"
    using delete_chain_eq(1) [OF assms(1), of first 0 "[]"] by simp
  show "snd (delete_chain dir first 0 []) \<noteq> []"
    unfolding s using assms(2) by (subst chain_from.simps) simp
  show "length (snd (delete_chain dir first 0 [])) \<le> 15"
    unfolding s using length_chain_from by simp
qed

lemma afterReadDir_continue:
  assumes "afterReadDir d = (DirContinue, d')" and "length (m_dir d) = 15"
    and "m_op d = OpWriteFile \<longrightarrow> 1 \<le> m_blocksNeeded d \<and> m_blocksNeeded d \<le> 15"
  shows "phase_ok d' \<and> remaining d' \<le> 999 \<and> m_phase d' \<in> {PhReadTitle, PhReadInfo, PhWriteData, PhWriteDir} \<and>
    m_result d' = m_result d"
  using assms
proof (cases "m_op d")
  case OpReadFile
  then show ?thesis
    using assms read_chain_Some(3,4)
    by (auto simp: afterReadDir_def phase_ok_def remaining_def split: option.splits)
next
  case OpReadInfo
  then show ?thesis
    using assms by (auto simp: afterReadDir_def phase_ok_def remaining_def split: option.splits)
next
  case OpWriteFile
  then obtain dir slots where d': "d' = d\<lparr>m_dir := dir, m_dirty := dirty_of slots,
      m_chain := choose_blocks dir (m_cardBlocks d) (m_blocksNeeded d),
      m_blockIdx := 0, m_frameInBlock := 0, m_dataOffset := 0, m_phase := PhWriteData\<rparr>"
    "\<not> length (choose_blocks dir (m_cardBlocks d) (m_blocksNeeded d)) < m_blocksNeeded d"
    using assms(1) by (auto simp: afterReadDir_def Let_def split: prod.splits if_splits)
  then show ?thesis
    using assms(3) OpWriteFile choose_length [of dir "m_cardBlocks d" "m_blocksNeeded d"]
      choose_props [where dir = dir and cardBlocks = "m_cardBlocks d" and needed = "m_blocksNeeded d"]
    by (auto simp: phase_ok_def remaining_def)
next
  case OpDeleteFile
  then obtain first where first: "findFirstBlock (m_dir d) (m_name d) = Some first"
    "d' = d\<lparr>m_dir := fst (delete_chain (m_dir d) first 0 []), m_writeOrder := snd (delete_chain (m_dir d) first 0 []),
       m_phase := PhWriteDir, m_idx := 0\<rparr>"
    using assms(1) by (auto simp: afterReadDir_def split: option.splits prod.splits)
  then show ?thesis
    using assms(2) OpDeleteFile delete_chain_slots [OF assms(2) findFirstBlock_Some(1) [OF first(1)]]
    by (auto simp: phase_ok_def remaining_def)
qed (auto simp: afterReadDir_def split: prod.splits)

lemma set_write_order:
  "set (write_order dirty chain) = {s. s < 15 \<and> dirty ! s \<and> Suc s \<notin> set chain} \<union> (\<lambda>b. b - 1) ` set chain"
  by (auto simp: write_order_def)

lemma distinct_write_order:
  assumes "distinct chain" "set chain \<subseteq> file_blocks"
  shows "distinct (write_order dirty chain)" and "set (write_order dirty chain) \<subseteq> {0..<15}"
proof -
  have inj: "inj_on (\<lambda>b. b - 1) (set chain)"
    using assms(2) by (intro inj_onI) (metis One_nat_def diff_Suc_1 eq_diff_iff file_blocks_iff subsetD)
  have "Suc (b - 1) = b" if "b \<in> set chain" for b using assms(2) that by (auto simp: subset_iff)
  then have "{s. s < 15 \<and> dirty ! s \<and> Suc s \<notin> set chain} \<inter> (\<lambda>b. b - 1) ` set chain = {}" by force
  then show "distinct (write_order dirty chain)"
    using assms(1) inj by (auto simp: write_order_def distinct_map)
  show "set (write_order dirty chain) \<subseteq> {0..<15}"
    using assms(2) by (auto simp: set_write_order subset_iff)
qed

lemma length_write_order:
  assumes "distinct chain" "set chain \<subseteq> file_blocks"
  shows "length (write_order dirty chain) \<le> 15"
proof -
  have "card (set (write_order dirty chain)) \<le> card {0..<15 :: nat}"
    using distinct_write_order(2) [OF assms] by (intro card_mono) auto
  then show ?thesis using distinct_card [OF distinct_write_order(1) [OF assms]] by simp
qed

lemma length_new_entries [simp]: "length (new_entries chain name dir) = length dir"
proof -
  have "length (fold (\<lambda>bi dir. dir[chain ! bi - 1 := new_entry chain name bi]) bis dir) = length dir" for bis
    by (induction bis arbitrary: dir) auto
  then show ?thesis by (simp add: new_entries_def)
qed

lemma next_frame_simps [simp]:
  "m_dir (next_frame d) = m_dir d" "m_chain (next_frame d) = m_chain d" "m_phase (next_frame d) = m_phase d"
  "m_blocksNeeded (next_frame d) = m_blocksNeeded d" "m_written (next_frame d) = m_written d"
  "m_maxLen (next_frame d) = m_maxLen d" "m_op (next_frame d) = m_op d" "m_result (next_frame d) = m_result d"
  "m_dirty (next_frame d) = m_dirty d" "m_name (next_frame d) = m_name d"
  "m_headerFrames (next_frame d) = m_headerFrames d" "m_outLen (next_frame d) = m_outLen d"
  "m_readBuffer (next_frame d) = m_readBuffer d" "m_cardBlocks (next_frame d) = m_cardBlocks d"
  "m_iconFrames (next_frame d) = m_iconFrames d" "m_dataOffset (next_frame d) = m_dataOffset d"
  by (simp_all add: next_frame_def Let_def)

lemma next_frame_frame [simp]: "frame_eq d (next_frame d)"
  by (simp add: next_frame_def Let_def frame_eq_def)

text \<open>The frames of a chain in order: each step uses up one of those left.\<close>

lemma next_frame_left:
  assumes "m_blockIdx d < n" "m_frameInBlock d < 64"
  shows "m_frameInBlock (next_frame d) < 64" and "m_blockIdx (next_frame d) \<le> n"
    and "Suc ((n - m_blockIdx (next_frame d)) * 64 - m_frameInBlock (next_frame d)) =
      (n - m_blockIdx d) * 64 - m_frameInBlock d"
proof -
  obtain k where k: "n = m_blockIdx d + Suc k" using assms(1) by (metis add_Suc_right less_imp_Suc_add)
  show "m_frameInBlock (next_frame d) < 64" and "m_blockIdx (next_frame d) \<le> n"
    and "Suc ((n - m_blockIdx (next_frame d)) * 64 - m_frameInBlock (next_frame d)) =
      (n - m_blockIdx d) * 64 - m_frameInBlock d"
    using assms k by (auto simp: next_frame_def Let_def geometry)
qed

lemma announced_icons_bound: "1 \<le> announced_icons p \<and> announced_icons p \<le> 3"
  by (auto simp: announced_icons_def Let_def)

text \<open>The states between the two halves of a step: as in flight, or past the last directory write.\<close>

definition progressed :: "fs \<Rightarrow> fs \<Rightarrow> bool" where
  "progressed d d' \<longleftrightarrow> frame_eq d d' \<and> m_result d' = m_result d \<and> length (m_dir d') = length (m_dir d) \<and>
     (m_phase d' = PhWriteDir \<and> length (m_writeOrder d') \<le> m_idx d' \<or> phase_ok d' \<and> remaining d' < remaining d)"

lemma length_delete_chain: "length dir = 15 \<Longrightarrow> length (fst (delete_chain dir b visited slots)) = 15"
  by (rule delete_chain_eq(2))

lemma afterReadDir_length: "length (m_dir d) = 15 \<Longrightarrow> length (m_dir (snd (afterReadDir d))) = 15"
  using length_delete_chain [of "m_dir d"]
  unfolding afterReadDir_def Let_def
  by (cases "m_op d") (auto split: option.splits prod.splits, (metis fst_conv)+)

lemma advance_progress:
  assumes ok: "phase_ok d" and dir: "length (m_dir d) = 15" and adv: "advance d = (False, d')"
  shows "progressed d d'"
proof (cases "m_phase d")
  case PhHeader
  then have "d' = d\<lparr>m_cardBlocks := 16, m_probeSector := 512, m_phase := PhProbe\<rparr> \<or>
      d' = d\<lparr>m_cardBlocks := 16, m_phase := PhReadDir, m_idx := 0\<rparr>"
    using adv by (auto simp: advance_def Let_def split: if_splits)
  then show ?thesis using ok PhHeader
    by (elim disjE) (simp_all add: progressed_def frame_eq_def phase_ok_def remaining_def)
next
  case PhProbe
  have probe: "m_probeSector d \<in> {128, 256, 512}" using ok PhProbe by (simp add: phase_ok_def)
  define n where "n = (if m_probe d = m_scratch d then m_probeSector d div 64 else m_cardBlocks d)"
  show ?thesis
  proof (cases "m_probe d = m_scratch d \<and> m_probeSector d > 128")
    case True
    then have "d' = d\<lparr>m_cardBlocks := m_probeSector d div 64, m_probeSector := m_probeSector d div 2\<rparr>"
      using adv PhProbe by (simp add: advance_def Let_def geometry)
    then show ?thesis using ok PhProbe probe True
      by (auto simp: progressed_def frame_eq_def phase_ok_def remaining_def)
  next
    case False
    then have "d' = d\<lparr>m_cardBlocks := n, m_phase := PhReadDir, m_idx := 0\<rparr>"
      using adv PhProbe by (auto simp: advance_def Let_def geometry n_def split: if_splits)
    then show ?thesis using ok PhProbe by (simp add: progressed_def frame_eq_def phase_ok_def remaining_def)
  qed
next
  case PhReadDir
  define d1 where "d1 = d\<lparr>m_idx := m_idx d + 1\<rparr>"
  show ?thesis
  proof (cases "m_idx d + 1 < 15")
    case True
    then have "d' = d1" using adv PhReadDir by (simp add: advance_def Let_def d1_def)
    then show ?thesis using True ok PhReadDir
      by (auto simp: d1_def progressed_def frame_eq_def phase_ok_def remaining_def)
  next
    case False
    then have d': "afterReadDir d1 = (DirContinue, d')"
      using adv PhReadDir by (auto simp: advance_def Let_def d1_def split: prod.splits dir_result.splits)
        (metis dir_result.exhaust)
    have "phase_ok d' \<and> remaining d' \<le> 999 \<and> m_result d' = m_result d1"
      using afterReadDir_continue [OF d'] dir ok by (simp add: d1_def phase_ok_def)
    moreover have "frame_eq d1 d'" using afterReadDir_frame [of d1] d' by simp
    moreover have "length (m_dir d') = 15" using afterReadDir_length [of d1] d' dir by (simp add: d1_def)
    moreover have "1000 \<le> remaining d" using PhReadDir by (simp add: remaining_def)
    ultimately show ?thesis using dir by (auto simp: progressed_def frame_eq_def d1_def)
  qed
next
  case PhReadTitle
  have "m_chain d \<noteq> []" "length (m_chain d) \<le> 15" using ok PhReadTitle by (auto simp: phase_ok_def)
  then have "length (m_chain d) * 64 \<le> 960" and "m_chain d \<noteq> []" by simp_all
  define h where "h = (if is_title (m_scratch d) then 1 + announced_icons (m_scratch d) else 0)"
  have "h \<le> 4" using announced_icons_bound [of "m_scratch d"] by (simp add: h_def)
  moreover have "d' = d\<lparr>m_headerFrames := h, m_blockIdx := 0, m_frameInBlock := h, m_written := 0,
      m_phase := PhReadData\<rparr>"
    using adv PhReadTitle unfolding advance_def Let_def h_def by simp
  ultimately show ?thesis using ok PhReadTitle \<open>length (m_chain d) * 64 \<le> 960\<close> \<open>m_chain d \<noteq> []\<close>
    by (auto simp: progressed_def frame_eq_def phase_ok_def remaining_def)
next
  case PhReadData
  define d1 where "d1 = d\<lparr>m_readBuffer := put_at (m_written d)
      (take (if c_sectorSize > m_maxLen d - m_written d then m_maxLen d - m_written d else c_sectorSize) (m_scratch d))
      (m_readBuffer d),
    m_written := m_written d + (if c_sectorSize > m_maxLen d - m_written d then m_maxLen d - m_written d else c_sectorSize)\<rparr>"
  have d': "d' = next_frame d1" "\<not> m_blockIdx d' \<ge> length (m_chain d1)"
    using adv PhReadData by (auto simp: advance_def Let_def d1_def split: if_splits)
  have p1: "frame_eq d d1" "m_phase d1 = PhReadData" "m_chain d1 = m_chain d" "m_dir d1 = m_dir d"
    "m_result d1 = m_result d" "m_blockIdx d1 = m_blockIdx d" "m_frameInBlock d1 = m_frameInBlock d"
    "m_op d1 = m_op d" "m_blocksNeeded d1 = m_blocksNeeded d"
    using PhReadData by (simp_all add: d1_def frame_eq_def)
  have b: "m_blockIdx d1 < length (m_chain d1)" "m_frameInBlock d1 < 64"
    using ok PhReadData by (simp_all add: phase_ok_def p1)
  have "phase_ok d'" using d' next_frame_left [OF b] ok PhReadData by (simp add: phase_ok_def p1)
  moreover have "remaining d' < remaining d"
    using d' next_frame_left [OF b] PhReadData by (simp add: remaining_def p1)
  ultimately show ?thesis
    using d'(1) frame_eq_trans [OF p1(1) next_frame_frame] by (simp add: progressed_def p1)
next
  case PhReadInfo
  have bound: "announced_icons (m_scratch d) \<le> 3" using announced_icons_bound by blast
  obtain n info where d': "d' = d\<lparr>m_iconFrames := n, m_outInfo := info, m_frameInBlock := m_frameInBlock d + 1\<rparr>"
      "m_frameInBlock d + 1 \<le> n" "n \<le> 3" "m_frameInBlock d \<noteq> 0 \<longrightarrow> n = m_iconFrames d"
  proof (cases "m_frameInBlock d = 0")
    case True
    define n where "n = (if is_title (m_scratch d) then announced_icons (m_scratch d) else 1)"
    have "d' = d\<lparr>m_iconFrames := n, m_outInfo := map_option (\<lambda>_. title_info (m_scratch d) n) (m_outInfo d),
        m_frameInBlock := m_frameInBlock d + 1\<rparr>" "m_frameInBlock d + 1 \<le> n"
      using adv PhReadInfo True unfolding advance_def Let_def n_def by auto
    moreover have "n \<le> 3" using bound by (simp add: n_def)
    ultimately show ?thesis using that [where n = n] True by blast
  next
    case False
    define info where "info = (if m_frameInBlock d \<le> m_iconFrames d
      then map_option (\<lambda>i. i\<lparr>fi_icon := (fi_icon i)
             \<lparr>pixels := (pixels (fi_icon i))[m_frameInBlock d - 1 := m_scratch d]\<rparr>\<rparr>) (m_outInfo d)
      else m_outInfo d)"
    have "d' = d\<lparr>m_iconFrames := m_iconFrames d, m_outInfo := info, m_frameInBlock := m_frameInBlock d + 1\<rparr>"
        "m_frameInBlock d + 1 \<le> m_iconFrames d"
      using adv PhReadInfo False unfolding advance_def Let_def info_def by (auto split: if_splits)
    moreover have "m_iconFrames d \<le> 3" using ok PhReadInfo by (simp add: phase_ok_def)
    ultimately show ?thesis using that [where n = "m_iconFrames d"] by blast
  qed
  show ?thesis using d' PhReadInfo ok
    by (auto simp: progressed_def frame_eq_def phase_ok_def remaining_def split: if_splits)
next
  case PhWriteData
  have b: "m_blockIdx d < m_blocksNeeded d" "m_frameInBlock d < 64" "length (m_chain d) = m_blocksNeeded d"
    "distinct (m_chain d)" "set (m_chain d) \<subseteq> file_blocks"
    using ok PhWriteData by (auto simp: phase_ok_def)
  note nf = next_frame_left [OF b(1,2)]
  show ?thesis
  proof (cases "m_blockIdx (next_frame d) \<ge> m_blocksNeeded d")
    case True
    have "m_chain d \<noteq> []" using b(1,3) by auto
    then have "write_order (m_dirty d) (m_chain d) \<noteq> []" by (simp add: write_order_def)
    moreover have "15 < remaining d"
      using b(1,2) PhWriteData by (simp add: remaining_def)
    moreover have "d' = (next_frame d)\<lparr>m_dir := new_entries (m_chain d) (m_name d) (m_dir d),
        m_writeOrder := write_order (m_dirty d) (m_chain d), m_phase := PhWriteDir, m_idx := 0\<rparr>"
      using adv PhWriteData True b(3) by (simp add: advance_def Let_def)
    moreover have "frame_eq d (next_frame d)" by simp
    ultimately show ?thesis using length_write_order [OF b(4,5), of "m_dirty d"] ok
      by (auto simp: progressed_def frame_eq_def phase_ok_def remaining_def)
  next
    case False
    then have "d' = next_frame d" using adv PhWriteData by (simp add: advance_def Let_def)
    then show ?thesis using False nf PhWriteData ok
      by (auto simp: progressed_def phase_ok_def remaining_def)
  qed
next
  case PhWriteDir
  then have "d' = d\<lparr>m_idx := m_idx d + 1\<rparr>" using adv by (simp add: advance_def)
  then show ?thesis using ok PhWriteDir
    by (auto simp: progressed_def frame_eq_def phase_ok_def remaining_def)
next
  case PhFormat
  then have "d' = d\<lparr>m_idx := m_idx d + 1\<rparr> \<and> \<not> m_idx d + 1 > 66" using adv by (auto simp: advance_def)
  then show ?thesis using ok PhFormat
    by (auto simp: progressed_def frame_eq_def phase_ok_def remaining_def)
qed (use ok in \<open>simp add: phase_ok_def\<close>)

section \<open>One step\<close>

lemma frame_eq_upd:
  "frame_eq d (d'\<lparr>m_phase := p\<rparr>) = frame_eq d d'" "frame_eq d (d'\<lparr>m_result := e\<rparr>) = frame_eq d d'"
  "frame_eq d (d'\<lparr>m_idx := n\<rparr>) = frame_eq d d'" "frame_eq d (d'\<lparr>m_dir := dd\<rparr>) = frame_eq d d'"
  "frame_eq d (d'\<lparr>m_writeOrder := w\<rparr>) = frame_eq d d'" "frame_eq d (d'\<lparr>m_outInfo := i\<rparr>) = frame_eq d d'"
  "frame_eq d (d'\<lparr>m_iconFrames := n\<rparr>) = frame_eq d d'" "frame_eq d (d'\<lparr>m_outLen := x\<rparr>) = frame_eq d d'"
  "frame_eq d (d'\<lparr>m_written := n\<rparr>) = frame_eq d d'" "frame_eq d (d'\<lparr>m_readBuffer := b\<rparr>) = frame_eq d d'"
  "frame_eq d (d'\<lparr>m_frameInBlock := n\<rparr>) = frame_eq d d'" "frame_eq d (d'\<lparr>m_blockIdx := n\<rparr>) = frame_eq d d'"
  "frame_eq d (d'\<lparr>m_headerFrames := n\<rparr>) = frame_eq d d'" "frame_eq d (d'\<lparr>m_probeSector := n\<rparr>) = frame_eq d d'"
  "frame_eq d (d'\<lparr>m_cardBlocks := n\<rparr>) = frame_eq d d'" "frame_eq d (d'\<lparr>m_scratch := b\<rparr>) = frame_eq d d'"
  "frame_eq d (d'\<lparr>m_dataOffset := n\<rparr>) = frame_eq d d'"
  by (simp_all add: frame_eq_def)

lemma frame_eq_next: "frame_eq d d' \<Longrightarrow> frame_eq d (next_frame d')"
  using frame_eq_trans next_frame_frame by blast

lemma advance_frame: "frame_eq d (snd (advance d))"
proof (cases "m_phase d")
  case PhReadDir
  define d1 where "d1 = d\<lparr>m_idx := m_idx d + 1\<rparr>"
  have "frame_eq d d1" by (simp add: d1_def frame_eq_upd)
  then have "frame_eq d (snd (afterReadDir d1))" using afterReadDir_frame frame_eq_trans by blast
  then show ?thesis using PhReadDir by (simp add: advance_def Let_def d1_def frame_eq_upd split_beta)
qed (simp_all add: advance_def Let_def frame_eq_upd frame_eq_next split_beta)

definition finished :: "fs \<Rightarrow> fs \<Rightarrow> bool" where
  "finished d d' \<longleftrightarrow> \<not> m_busy d' \<and> \<not> m_lockHeld d' \<and> s_depth d' = s_depth d - 1 \<and> \<not> m_callback d' \<and>
     called d' = called d @ (if m_callback d then [m_result d'] else [])"

lemma finish_finished:
  assumes "frame_eq d d'" and "m_lockHeld d"
  shows "finished d (finish e d')" and "m_result (finish e d') = e"
  using assms by (simp_all add: finished_def finish_def release_def Let_def frame_eq_def)

lemma write_frame_frame:
  "frame_eq d (snd (write_frame d)) \<and> m_dir (snd (write_frame d)) = m_dir d \<and>
   m_phase (snd (write_frame d)) = m_phase d \<and> m_chain (snd (write_frame d)) = m_chain d \<and>
   m_blockIdx (snd (write_frame d)) = m_blockIdx d \<and> m_frameInBlock (snd (write_frame d)) = m_frameInBlock d \<and>
   m_result (snd (write_frame d)) = m_result d \<and> m_op (snd (write_frame d)) = m_op d \<and>
   m_cardBlocks (snd (write_frame d)) = m_cardBlocks d \<and> m_dirty (snd (write_frame d)) = m_dirty d"
  by (simp add: write_frame_def Let_def frame_eq_def)

lemma issue_transfer:
  assumes "phase_ok d"
  shows "fst (issueOrFinish d) \<noteq> IoNone" and "frame_eq d (snd (issueOrFinish d))"
    and "phase_ok (snd (issueOrFinish d))" and "remaining (snd (issueOrFinish d)) = remaining d"
    and "m_dir (snd (issueOrFinish d)) = m_dir d" and "m_phase (snd (issueOrFinish d)) = m_phase d"
proof -
  have w: "frame_eq d (snd (write_frame d))" by (simp add: write_frame_frame)
  then have n: "m_blocksNeeded (snd (write_frame d)) = m_blocksNeeded d" by (simp add: frame_eq_def)
  show "fst (issueOrFinish d) \<noteq> IoNone" "frame_eq d (snd (issueOrFinish d))"
    "phase_ok (snd (issueOrFinish d))" "remaining (snd (issueOrFinish d)) = remaining d"
    "m_dir (snd (issueOrFinish d)) = m_dir d" "m_phase (snd (issueOrFinish d)) = m_phase d"
    using assms w n
    by (cases "m_phase d"; simp add: issueOrFinish_def phase_ok_def remaining_def Let_def split_beta
          frame_eq_upd write_frame_frame)+
qed

lemma step_cases:
  assumes ok: "in_flight d" and dir: "length (m_dir d) = 15" and step: "onSectorDone e d = (req, d')"
  shows "req = IoNone \<and> finished d d' \<and> (e \<noteq> OK \<longrightarrow> m_result d' = e) \<or>
    req \<noteq> IoNone \<and> e = OK \<and> in_flight d' \<and> frame_eq d d' \<and> remaining d' < remaining d \<and> length (m_dir d') = 15"
proof -
  define d0 where "d0 = d\<lparr>m_result := e\<rparr>"
  have d0: "frame_eq d d0" "phase_ok d0" "m_lockHeld d" "m_busy d" "remaining d0 = remaining d" "length (m_dir d0) = 15"
    using ok dir by (simp_all add: d0_def frame_eq_upd in_flight_def phase_ok_def remaining_def cong: phase.case_cong)
  show ?thesis
  proof (cases "e = OK")
    case False
    then have "req = IoNone" "d' = finish e d0" using step by (simp_all add: onSectorDone_def d0_def)
    then show ?thesis using finish_finished [OF d0(1,3)] by simp
  next
    case True
    obtain b d1 where adv: "advance d0 = (b, d1)" by force
    have f1: "frame_eq d d1" using advance_frame [of d0] adv frame_eq_trans [OF d0(1)] by simp
    show ?thesis
    proof (cases b)
      case over: True
      then have "req = IoNone" "d' = finish (m_result d1) d1"
        using step True adv by (simp_all add: onSectorDone_def d0_def)
      then show ?thesis using finish_finished [OF f1 d0(3)] True by simp
    next
      case False
      then have d': "(req, d') = issueOrFinish d1" using step True adv by (simp add: onSectorDone_def d0_def)
      have p: "progressed d0 d1" using advance_progress [OF d0(2,6)] adv False by simp
      then show ?thesis
        unfolding progressed_def
      proof (elim conjE disjE)
        assume "m_phase d1 = PhWriteDir" "length (m_writeOrder d1) \<le> m_idx d1"
        then have "req = IoNone" "d' = finish (m_result d1) d1" using d' by (simp_all add: issueOrFinish_def)
        then show ?thesis using finish_finished [OF f1 d0(3)] True by simp
      next
        assume 1: "phase_ok d1" "remaining d1 < remaining d0" "length (m_dir d1) = length (m_dir d0)"
        have e: "req = fst (issueOrFinish d1)" "d' = snd (issueOrFinish d1)"
          using d' by (simp_all add: prod_eq_iff)
        note t = issue_transfer [OF 1(1)]
        have f: "frame_eq d d'" unfolding e(2) by (rule frame_eq_trans [OF f1 t(2)])
        then have "m_busy d'" "m_lockHeld d'" using d0(3,4) by (simp_all add: frame_eq_def)
        then have "in_flight d'" using t(3) by (simp add: in_flight_def e(2))
        then show ?thesis using True f t(1,4,5) 1(2,3) d0(5,6) by (simp add: e)
      qed
    qed
  qed
qed

section \<open>Whole operations\<close>

text \<open>How many transfers a run makes.\<close>

fun run_count :: "outcome list \<Rightarrow> request \<Rightarrow> card \<times> fs \<Rightarrow> nat" where
  "run_count [] req st = 0"
| "run_count (out # outs) req st =
     (if req = IoNone then 0
      else let (c, d) = transfer out req st; (req, d) = onSectorDone (fst out) d in Suc (run_count outs req (c, d)))"

lemma receive_dir [simp]: "length (m_dir (receive to b d)) = length (m_dir d)"
  by (cases to) (simp_all add: receive_def)

lemma transfer_keeps:
  assumes "transfer out req (c, d) = (c', d')"
  shows "frame_eq d d'" "in_flight d' = in_flight d" "remaining d' = remaining d"
    "length (m_dir d') = length (m_dir d)" "m_phase d' = m_phase d"
proof -
  have "d' = d \<or> (\<exists>to b. d' = receive to b d)"
    using assms by (cases out; cases req) auto
  then show "frame_eq d d'" "in_flight d' = in_flight d" "remaining d' = remaining d"
    "length (m_dir d') = length (m_dir d)" "m_phase d' = m_phase d" by auto
qed

lemma finished_frame: "frame_eq d d1 \<Longrightarrow> finished d1 d' \<Longrightarrow> finished d d'"
  by (simp add: finished_def frame_eq_def)

text \<open>
  A run with enough transfers ends; it makes at most \<open>remaining\<close> of them, all but the last succeed, and if
  the last fails its error is the result.
\<close>

lemma run_ends:
  assumes "in_flight d" "length (m_dir d) = 15" "req \<noteq> IoNone" "remaining d \<le> length outs"
  shows "\<exists>c' d'. run outs req (c, d) = (IoNone, c', d') \<and> finished d d' \<and>
    0 < run_count outs req (c, d) \<and> run_count outs req (c, d) \<le> remaining d \<and>
    (\<forall>k. Suc k < run_count outs req (c, d) \<longrightarrow> fst (outs ! k) = OK) \<and>
    (fst (outs ! (run_count outs req (c, d) - 1)) \<noteq> OK \<longrightarrow>
       m_result d' = fst (outs ! (run_count outs req (c, d) - 1)))"
  using assms
proof (induction outs arbitrary: req c d)
  case Nil
  have "0 < remaining d"
    using Nil(1) by (cases "m_phase d") (auto simp: in_flight_def phase_ok_def remaining_def)
  then show ?case using Nil(4) by simp
next
  case (Cons out outs)
  have pos: "0 < remaining d"
    using Cons.prems(1) by (cases "m_phase d") (auto simp: in_flight_def phase_ok_def remaining_def)
  obtain c1 d1 where t: "transfer out req (c, d) = (c1, d1)" by force
  obtain req2 d2 where st: "onSectorDone (fst out) d1 = (req2, d2)" by force
  note k = transfer_keeps [OF t]
  have r: "run (out # outs) req (c, d) = run outs req2 (c1, d2)"
    "run_count (out # outs) req (c, d) = Suc (run_count outs req2 (c1, d2))"
    using Cons.prems(3) by (simp_all add: t st)
  consider (last) "req2 = IoNone" "finished d1 d2" "fst out \<noteq> OK \<longrightarrow> m_result d2 = fst out"
    | (on) "req2 \<noteq> IoNone" "fst out = OK" "in_flight d2" "frame_eq d1 d2" "remaining d2 < remaining d1"
        "length (m_dir d2) = 15"
    using step_cases [OF _ _ st] k Cons.prems(1,2) by auto
  then show ?case
  proof cases
    case last
    then have "run outs req2 (c1, d2) = (IoNone, c1, d2)" "run_count outs req2 (c1, d2) = 0"
      by (cases outs; simp)+
    then show ?thesis using r last pos finished_frame [OF k(1)] by simp
  next
    case on
    then have len: "remaining d2 \<le> length outs" using Cons.prems(4) k(3) by simp
    obtain c' d' where ih: "run outs req2 (c1, d2) = (IoNone, c', d')" "finished d2 d'"
      "0 < run_count outs req2 (c1, d2)" "run_count outs req2 (c1, d2) \<le> remaining d2"
      "\<forall>k. Suc k < run_count outs req2 (c1, d2) \<longrightarrow> fst (outs ! k) = OK"
      "fst (outs ! (run_count outs req2 (c1, d2) - 1)) \<noteq> OK \<longrightarrow>
       m_result d' = fst (outs ! (run_count outs req2 (c1, d2) - 1))"
      using Cons.IH [OF on(3,6,1) len, of c1] by blast
    have "fst ((out # outs) ! n) = OK" if "n < run_count outs req2 (c1, d2)" for n
      using that ih(5) on(2) by (cases n) auto
    moreover have "finished d d'"
      using finished_frame [OF k(1)] finished_frame [OF on(4)] ih(2) by blast
    ultimately show ?thesis
      using r ih on(5) k(3) by (simp add: nth_Cons')
  qed
qed

text \<open>Where an operation starts: refused at once, or in flight.\<close>

lemma begin_op_cases:
  assumes "begin_op oper prt callback d = Some d1" "\<not> m_lockHeld d"
  shows "m_busy d1 \<and> m_lockHeld d1 \<and> s_depth d1 = s_depth d + 1 \<and> m_callback d1 = callback \<and>
    called d1 = called d \<and> m_dir d1 = m_dir d \<and> m_op d1 = oper \<and> m_name d1 = m_name d \<and>
    (m_phase d1 = PhFail \<and> oper = OpWriteFile \<and> m_result d1 \<in> {NameTooLong, FileTooLarge} \<or>
     in_flight d1 \<and> remaining d1 \<le> 1020 \<and> m_phase d1 = (if oper = OpFormat then PhFormat else PhHeader) \<and>
     m_result d1 = OK \<and> m_idx d1 = 0)"
proof (cases "oper = OpWriteFile")
  case False
  define d0 where "d0 = (acquire (d\<lparr>m_busy := True, m_op := oper, m_port := prt, m_callback := callback,
      m_result := OK, m_idx := 0\<rparr>))\<lparr>m_lockHeld := True\<rparr>"
  have "d1 = d0\<lparr>m_phase := if oper = OpFormat then PhFormat else PhHeader\<rparr>"
    using assms False
    by (cases oper) (simp_all add: begin_op_def Let_def d0_def acquire_def split: if_splits)
  then show ?thesis using False
    by (simp add: d0_def acquire_def in_flight_def phase_ok_def remaining_def)
next
  case True
  define n where "n = (let n = unat (frameCount (m_icon d)); n = (if n < 1 then 1 else n) in if n > 3 then 3 else n)"
  define b where "b = unat (blocks_for (1 + n) (m_dataLen d))"
  have "1 \<le> blocks_for (1 + n) (m_dataLen d)"
    unfolding blocks_for_def Let_def by (simp only: not_less split: if_split) auto
  then have b: "1 \<le> b" using word_le_nat_alt [of 1 "blocks_for (1 + n) (m_dataLen d)"] by (simp add: b_def)
  define d0 where "d0 = (acquire (d\<lparr>m_busy := True, m_op := oper, m_port := prt, m_callback := callback,
      m_result := OK, m_idx := 0\<rparr>))\<lparr>m_lockHeld := True\<rparr>"
  have "d1 = (if length (m_name d) > c_maxNameLength then d0\<lparr>m_result := NameTooLong, m_phase := PhFail\<rparr>
      else if b > 15 then d0\<lparr>m_iconFrames := n, m_headerFrames := 1 + n, m_blocksNeeded := b,
             m_result := FileTooLarge, m_phase := PhFail\<rparr>
      else d0\<lparr>m_iconFrames := n, m_headerFrames := 1 + n, m_blocksNeeded := b, m_phase := PhHeader\<rparr>)"
    using assms True
    by (simp add: begin_op_def Let_def d0_def acquire_def n_def b_def split: if_splits)
  then show ?thesis using True b
    by (auto simp: d0_def acquire_def in_flight_def phase_ok_def remaining_def split: if_splits)
qed

text \<open>
  C8: Every operation ends, reports once, and gives the bus back. From an idle filesystem, and whatever the
  card does with each transfer, an operation that starts makes at most 1020 transfers and is then no longer
  busy; it has called the callback exactly once, with the result, if there is one, and has released exactly
  the bus ownership it took. All its transfers but the last succeeded; if the last one failed, its error is
  the result.
\<close>

theorem operation_ends:
  assumes "start_op oper prt callback d = Some (req, d1)" and "\<not> m_lockHeld d"
    and "length (m_dir d) = 15" and "1020 \<le> length outs"
  shows "\<exists>c' d'. run outs req (c, d1) = (IoNone, c', d') \<and> \<not> m_busy d' \<and> \<not> m_lockHeld d' \<and>
    s_depth d' = s_depth d \<and> called d' = called d @ (if callback then [m_result d'] else []) \<and>
    run_count outs req (c, d1) \<le> 1020 \<and>
    (\<forall>k. Suc k < run_count outs req (c, d1) \<longrightarrow> fst (outs ! k) = OK) \<and>
    (0 < run_count outs req (c, d1) \<and> fst (outs ! (run_count outs req (c, d1) - 1)) \<noteq> OK \<longrightarrow>
       m_result d' = fst (outs ! (run_count outs req (c, d1) - 1)))"
proof -
  obtain d0 where b: "begin_op oper prt callback d = Some d0" and i: "issueOrFinish d0 = (req, d1)"
    using assms(1) by (auto simp: start_op_def)
  note start = begin_op_cases [OF b assms(2)]
  show ?thesis
  proof (cases "m_phase d0 = PhFail")
    case True
    then have e: "req = IoNone" "d1 = finish (m_result d0) d0" using i by (simp_all add: issueOrFinish_def)
    have "finished d0 d1" using finish_finished(1) [OF frame_eq_refl] start e(2) by blast
    moreover have "run outs req (c, d1) = (IoNone, c, d1)" "run_count outs req (c, d1) = 0"
      using e(1) by (cases outs; simp)+
    ultimately show ?thesis using start by (auto simp: finished_def)
  next
    case False
    then have f: "in_flight d0" "remaining d0 \<le> 1020" using start by blast+
    then have ok: "phase_ok d0" by (simp add: in_flight_def)
    have e: "req = fst (issueOrFinish d0)" "d1 = snd (issueOrFinish d0)" using i by simp_all
    note t = issue_transfer [OF ok, folded e]
    have f1: "in_flight d1" using t(2,3) f(1) by (simp add: in_flight_def frame_eq_def)
    have "length (m_dir d1) = 15" using t(5) start assms(3) by simp
    then obtain c' d' where r: "run outs req (c, d1) = (IoNone, c', d')" "finished d1 d'"
      "run_count outs req (c, d1) \<le> remaining d1"
      "\<forall>k. Suc k < run_count outs req (c, d1) \<longrightarrow> fst (outs ! k) = OK"
      "fst (outs ! (run_count outs req (c, d1) - 1)) \<noteq> OK \<longrightarrow>
         m_result d' = fst (outs ! (run_count outs req (c, d1) - 1))"
      using run_ends [OF f1 _ t(1), of outs c] t(4) f(2) assms(4) by auto
    have "finished d0 d'" using finished_frame [OF t(2) r(2)] .
    then show ?thesis using r start t(4) f(2) by (auto simp: finished_def)
  qed
qed


theorem operation_ends_witness:
  "\<exists>req d1 c' d'. start_op OpGetCardState Port0 True (fs_init (replicate 15 zero_frame) id) = Some (req, d1) \<and>
     run (replicate 1020 (Timeout, [])) req (\<lparr>sectors = 1024, image = \<lambda>s. zero_frame\<rparr>, d1) = (IoNone, c', d') \<and>
     \<not> m_busy d' \<and> called d' = [m_result d']"
proof -
  define d where "d = fs_init (replicate 15 zero_frame) id"
  obtain req d1 where s: "start_op OpGetCardState Port0 True d = Some (req, d1)"
    by (cases "start_op OpGetCardState Port0 True d") (auto simp: start_op_def begin_op_def d_def fs_init_def)
  have d: "\<not> m_lockHeld d" "length (m_dir d) = 15" "called d = []" by (simp_all add: d_def fs_init_def)
  show ?thesis
    using operation_ends [OF s d(1,2), of "replicate 1020 (Timeout, [])" "\<lparr>sectors = 1024, image = \<lambda>s. zero_frame\<rparr>"]
      s d(3) unfolding d_def [symmetric] by auto
qed

section \<open>Where an operation writes\<close>

text \<open>What the phases that write know about their targets.\<close>

definition targets_ok :: "fs \<Rightarrow> bool" where
  "targets_ok d \<longleftrightarrow>
     (m_phase d = PhWriteData \<longrightarrow> m_op d = OpWriteFile \<and>
        set (m_chain d) \<subseteq> {b. 1 \<le> b \<and> b \<le> 15 \<and> b < m_cardBlocks d \<and> b \<notin> reachable (m_dir d)}) \<and>
     (m_phase d = PhWriteDir \<longrightarrow> (m_op d = OpWriteFile \<or> m_op d = OpDeleteFile) \<and>
        set (m_writeOrder d) \<subseteq> {0..<15}) \<and>
     (m_phase d = PhFormat \<longrightarrow> m_op d = OpFormat)"

definition request_ok :: "request \<Rightarrow> fs \<Rightarrow> bool" where
  "request_ok req d \<longleftrightarrow>
     (case req of
        IoNone \<Rightarrow> True
      | IoRead prt s to \<Rightarrow> (case to of ToDir i \<Rightarrow> m_phase d = PhReadDir | _ \<Rightarrow> True)
      | IoWrite prt s b \<Rightarrow>
          (case m_phase d of
             PhWriteData \<Rightarrow> m_op d = OpWriteFile \<and> s div 64 \<in> set (m_chain d)
           | PhWriteDir \<Rightarrow> (m_op d = OpWriteFile \<or> m_op d = OpDeleteFile) \<and> s \<in> {1..15}
           | PhFormat \<Rightarrow> m_op d = OpFormat \<and> (s < 64 \<or> s \<in> {128, 256, 512})
           | _ \<Rightarrow> False))"

lemma afterReadDir_targets:
  assumes "afterReadDir d = (DirContinue, d')" and "length (m_dir d) = 15"
  shows "targets_ok d'"
proof (cases "m_op d")
  case OpWriteFile
  then obtain dir slots where "d' = d\<lparr>m_dir := dir, m_dirty := dirty_of slots,
      m_chain := choose_blocks dir (m_cardBlocks d) (m_blocksNeeded d),
      m_blockIdx := 0, m_frameInBlock := 0, m_dataOffset := 0, m_phase := PhWriteData\<rparr>"
    using assms(1) by (auto simp: afterReadDir_def Let_def split: prod.splits if_splits)
  then show ?thesis
    using OpWriteFile choose_props(2) [of dir "m_cardBlocks d" "m_blocksNeeded d"]
    by (simp add: targets_ok_def)
next
  case OpDeleteFile
  then obtain first where first: "findFirstBlock (m_dir d) (m_name d) = Some first"
    "d' = d\<lparr>m_dir := fst (delete_chain (m_dir d) first 0 []), m_writeOrder := snd (delete_chain (m_dir d) first 0 []),
       m_phase := PhWriteDir, m_idx := 0\<rparr>"
    using assms(1) by (auto simp: afterReadDir_def split: option.splits prod.splits)
  have "set (map (\<lambda>b. b - 1) (chain_from (m_dir d) {} first)) \<subseteq> {0..<15}"
    using chain_from_set [of "m_dir d" "{}" first] by (auto simp: subset_iff)
  then show ?thesis
    using first OpDeleteFile delete_chain_slots(1) [OF assms(2) findFirstBlock_Some(1) [OF first(1)]]
    by (simp add: targets_ok_def)
qed (use assms in \<open>auto simp: afterReadDir_def targets_ok_def split: option.splits prod.splits\<close>)

lemma targets_ok_other: "m_phase d \<notin> {PhWriteData, PhWriteDir, PhFormat} \<Longrightarrow> targets_ok d"
  by (simp add: targets_ok_def)

lemma advance_targets:
  assumes ok: "phase_ok d" and dir: "length (m_dir d) = 15" and t: "targets_ok d" and adv: "advance d = (False, d')"
  shows "targets_ok d'"
proof (cases "m_phase d")
  case PhHeader
  then show ?thesis using adv by (intro targets_ok_other) (auto simp: advance_def Let_def split: if_splits)
next
  case PhProbe
  then show ?thesis using adv by (intro targets_ok_other) (auto simp: advance_def Let_def split: if_splits)
next
  case PhReadDir
  define d1 where "d1 = d\<lparr>m_idx := m_idx d + 1\<rparr>"
  show ?thesis
  proof (cases "m_idx d + 1 < 15")
    case True
    then have "d' = d1" using adv PhReadDir by (simp add: advance_def Let_def d1_def)
    then show ?thesis using PhReadDir by (intro targets_ok_other) (simp add: d1_def)
  next
    case False
    then have "afterReadDir d1 = (DirContinue, d')"
      using adv PhReadDir by (auto simp: advance_def Let_def d1_def split: prod.splits dir_result.splits)
        (metis dir_result.exhaust)
    then show ?thesis using afterReadDir_targets dir by (simp add: d1_def)
  qed
next
  case PhReadTitle
  then show ?thesis using adv by (intro targets_ok_other) (auto simp: advance_def Let_def split: if_splits)
next
  case PhReadData
  then show ?thesis using adv by (intro targets_ok_other) (auto simp: advance_def Let_def split: if_splits)
next
  case PhReadInfo
  then show ?thesis using adv by (intro targets_ok_other) (auto simp: advance_def Let_def split: if_splits)
next
  case PhWriteData
  then have b: "length (m_chain d) = m_blocksNeeded d" "distinct (m_chain d)" "set (m_chain d) \<subseteq> file_blocks"
    "m_op d = OpWriteFile"
    using ok t by (simp_all add: phase_ok_def targets_ok_def)
  have "d' = next_frame d \<or> d' = (next_frame d)\<lparr>m_dir := new_entries (m_chain d) (m_name d) (m_dir d),
        m_writeOrder := write_order (m_dirty d) (m_chain d), m_phase := PhWriteDir, m_idx := 0\<rparr>"
    using adv PhWriteData b(1) by (auto simp: advance_def Let_def split: if_splits)
  then show ?thesis
  proof
    assume "d' = next_frame d" then show ?thesis using t PhWriteData by (simp add: targets_ok_def)
  qed (use b distinct_write_order(2) [OF b(2,3)] in \<open>simp add: targets_ok_def\<close>)
next
  case PhWriteDir
  then have "d' = d\<lparr>m_idx := m_idx d + 1\<rparr>" using adv by (simp add: advance_def)
  then show ?thesis using t by (simp add: targets_ok_def)
next
  case PhFormat
  then have "d' = d\<lparr>m_idx := m_idx d + 1\<rparr>" using adv by (auto simp: advance_def)
  then show ?thesis using t by (simp add: targets_ok_def)
qed (use ok in \<open>simp add: phase_ok_def\<close>)

lemma issue_targets:
  assumes ok: "phase_ok d" and t: "targets_ok d"
  shows "targets_ok (snd (issueOrFinish d))" and "request_ok (fst (issueOrFinish d)) (snd (issueOrFinish d))"
proof -
  note w = write_frame_frame [of d]
  show "targets_ok (snd (issueOrFinish d))"
    using ok t w
    by (cases "m_phase d"; simp add: issueOrFinish_def phase_ok_def targets_ok_def Let_def split_beta)
  have f: "format_sector i < 64 \<or> format_sector i \<in> {128, 256, 512}" if "i \<le> 66" for i
  proof -
    consider "i = 0" | "i = 1" | "i = 2" | "3 \<le> i" by linarith
    then show ?thesis using that by cases (auto simp: format_sector_def)
  qed
  have "s \<in> {0..<15} \<Longrightarrow> s + 1 \<in> {1..15 :: nat}" for s by auto
  moreover have "m_writeOrder d ! m_idx d \<in> {0..<15}" if "m_phase d = PhWriteDir"
    using that ok t by (auto simp: phase_ok_def targets_ok_def dest: nth_mem)
  moreover have "(m_chain d ! m_blockIdx d * 64 + m_frameInBlock d) div 64 \<in> set (m_chain d)" if "m_phase d = PhWriteData"
    using that ok by (simp add: phase_ok_def)
  ultimately show "request_ok (fst (issueOrFinish d)) (snd (issueOrFinish d))"
    using ok t w f
    by (cases "m_phase d"; simp add: issueOrFinish_def phase_ok_def targets_ok_def request_ok_def Let_def split_beta)
qed

lemma transfer_targets:
  assumes "transfer out req (c, d) = (c', d')" "targets_ok d" "request_ok req d"
  shows "targets_ok d'"
proof -
  have "d' = d \<or> (\<exists>to b. d' = receive to b d \<and> (\<forall>i. to = ToDir i \<longrightarrow> m_phase d = PhReadDir))"
    using assms(1,3) by (cases out; cases req) (auto simp: request_ok_def split: dest.splits)
  then show ?thesis
  proof
    assume "\<exists>to b. d' = receive to b d \<and> (\<forall>i. to = ToDir i \<longrightarrow> m_phase d = PhReadDir)"
    then obtain to b where to: "d' = receive to b d" "\<And>i. to = ToDir i \<Longrightarrow> m_phase d = PhReadDir" by blast
    show ?thesis using assms(2) to by (cases to) (auto simp: targets_ok_def receive_def)
  qed (use assms(2) in simp)
qed

text \<open>The run invariant: an operation in flight with its request, or one that has finished.\<close>

definition running :: "request \<Rightarrow> fs \<Rightarrow> bool" where
  "running req d \<longleftrightarrow> req = IoNone \<or> in_flight d \<and> length (m_dir d) = 15 \<and> targets_ok d \<and> request_ok req d"

lemma onSectorDone_running:
  assumes f: "in_flight d" and dir: "length (m_dir d) = 15" and t: "targets_ok d"
    and s: "onSectorDone e d = (req, d')"
  shows "running req d'"
proof (cases "req = IoNone")
  case False
  then have e: "e = OK" and f': "in_flight d'" "length (m_dir d') = 15" using step_cases [OF f dir s] by auto
  define d0 where "d0 = d\<lparr>m_result := e\<rparr>"
  have d0: "phase_ok d0" "length (m_dir d0) = 15" "targets_ok d0"
    using f dir t by (cases "m_phase d"; simp add: d0_def in_flight_def phase_ok_def targets_ok_def)+
  obtain b d1 where adv: "advance d0 = (b, d1)" by force
  have b: "\<not> b" using s e adv False by (auto simp: onSectorDone_def d0_def)
  then have d': "(req, d') = issueOrFinish d1" using s e adv by (simp add: onSectorDone_def d0_def)
  have t1: "targets_ok d1" using advance_targets [OF d0] adv b by simp
  have ok1: "phase_ok d1"
  proof -
    have "progressed d0 d1" using advance_progress [OF d0(1,2)] adv b by simp
    moreover have "\<not> (m_phase d1 = PhWriteDir \<and> length (m_writeOrder d1) \<le> m_idx d1)"
      using d' False by (auto simp: issueOrFinish_def)
    ultimately show ?thesis by (auto simp: progressed_def)
  qed
  have "req = fst (issueOrFinish d1)" "d' = snd (issueOrFinish d1)" using d' by (simp_all add: prod_eq_iff)
  then show ?thesis using issue_targets [OF ok1 t1] f' by (simp add: running_def)
qed (simp add: running_def)

lemma run_running:
  "running req d \<Longrightarrow> run outs req (c, d) = (req', c', d') \<Longrightarrow> running req' d'"
proof (induction outs arbitrary: req c d)
  case (Cons out outs)
  show ?case
  proof (cases "req = IoNone")
    case False
    obtain c1 d1 where t: "transfer out req (c, d) = (c1, d1)" by force
    obtain req2 d2 where s: "onSectorDone (fst out) d1 = (req2, d2)" by force
    have "in_flight d1" "length (m_dir d1) = 15" "targets_ok d1"
      using Cons.prems(1) False transfer_keeps [OF t] transfer_targets [OF t] by (auto simp: running_def)
    then have "running req2 d2" using onSectorDone_running s by blast
    then show ?thesis using Cons.IH Cons.prems(2) False t s by simp
  qed (use Cons.prems in simp)
qed simp

lemma start_running:
  assumes "start_op oper prt callback d = Some (req, d1)" "\<not> m_lockHeld d" "length (m_dir d) = 15"
  shows "running req d1"
proof -
  obtain d0 where b: "begin_op oper prt callback d = Some d0" and i: "issueOrFinish d0 = (req, d1)"
    using assms(1) by (auto simp: start_op_def)
  note start = begin_op_cases [OF b assms(2)]
  show ?thesis
  proof (cases "m_phase d0 = PhFail")
    case True
    then show ?thesis using i by (simp add: running_def issueOrFinish_def)
  next
    case False
    then have f: "in_flight d0" and ph: "m_phase d0 = (if oper = OpFormat then PhFormat else PhHeader)"
      and "m_op d0 = oper" using start by blast+
    then have t: "targets_ok d0" by (simp add: targets_ok_def)
    have ok: "phase_ok d0" using f by (simp add: in_flight_def)
    have e: "req = fst (issueOrFinish d0)" "d1 = snd (issueOrFinish d0)" using i by simp_all
    note it = issue_transfer [OF ok, folded e]
    have "in_flight d1" using it(2,3) f by (simp add: in_flight_def frame_eq_def)
    then show ?thesis
      using issue_targets [OF ok t, folded e] it(5) start assms(3) by (simp add: running_def)
  qed
qed

text \<open>
  C9: Writes go where they may. Whatever the card returned so far, a sector an operation asks to write is:
  for a file being written, in a data block that the allocator gave it, that is below the size of the card
  and that no file in the directory reaches; for a directory commit, one of the fifteen directory frames;
  for a format, in block 0 or one of the three probe sectors. No other operation ever writes.
\<close>

theorem writes_in_bounds:
  assumes "start_op oper prt callback d = Some (req, d1)" and "\<not> m_lockHeld d" and "length (m_dir d) = 15"
    and "run outs req (c, d1) = (IoWrite p s b, c', d')"
  shows "m_op d' = OpWriteFile \<and> m_phase d' = PhWriteData \<and> s div 64 \<in> set (m_chain d') \<and>
       64 \<le> s \<and> s < 1024 \<and> s < m_cardBlocks d' * 64 \<and> s div 64 \<notin> reachable (m_dir d') \<or>
     (m_op d' = OpWriteFile \<or> m_op d' = OpDeleteFile) \<and> m_phase d' = PhWriteDir \<and> 1 \<le> s \<and> s \<le> 15 \<or>
     m_op d' = OpFormat \<and> (s < 64 \<or> s \<in> {128, 256, 512})"
proof -
  have "running (IoWrite p s b) d'" using run_running [OF start_running [OF assms(1-3)] assms(4)] .
  then have r: "request_ok (IoWrite p s b) d'" "targets_ok d'" by (simp_all add: running_def)
  show ?thesis
  proof (cases "m_phase d'")
    case PhWriteData
    then have "s div 64 \<in> set (m_chain d')" "m_op d' = OpWriteFile"
      "set (m_chain d') \<subseteq> {b. 1 \<le> b \<and> b \<le> 15 \<and> b < m_cardBlocks d' \<and> b \<notin> reachable (m_dir d')}"
      using r by (simp_all add: request_ok_def targets_ok_def)
    moreover from this have "1 \<le> s div 64" "s div 64 \<le> 15" "s div 64 < m_cardBlocks d'" by blast+
    then have "64 \<le> s" "s < 1024" "s < m_cardBlocks d' * 64" by linarith+
    ultimately show ?thesis using PhWriteData by blast
  next
    case PhFormat
    then have "m_op d' = OpFormat \<and> (s < 64 \<or> s \<in> {128, 256, 512})" using r by (simp add: request_ok_def)
    then show ?thesis by blast
  qed (use r in \<open>simp_all add: request_ok_def\<close>)
qed

theorem writes_in_bounds_witness:
  "\<exists>d1. start_op OpFormat Port0 True (fs_init (replicate 15 zero_frame) id) =
     Some (IoWrite Port0 512 (format_frame 512), d1) \<and> m_op d1 = OpFormat"
proof -
  define d where "d = fs_init (replicate 15 zero_frame) id"
  define c :: card where "c = \<lparr>sectors = 1024, image = \<lambda>s. zero_frame\<rparr>"
  obtain d1 where s: "start_op OpFormat Port0 True d = Some (IoWrite Port0 512 (format_frame 512), d1)" "m_phase d1 = PhFormat"
    by (simp add: start_op_def begin_op_def d_def fs_init_def issueOrFinish_def acquire_def Let_def format_sector_def)
  have d: "\<not> m_lockHeld d" "length (m_dir d) = 15" by (simp_all add: d_def fs_init_def)
  show ?thesis
    using writes_in_bounds [OF s(1) d, of "[]" c Port0 512 "format_frame 512" c d1] s
    unfolding d_def [symmetric] by simp
qed

end
