(* ===== verification/Mips_Encoder.thy ===== *)
theory Mips_Encoder
  imports Prelude
begin

text \<open>
  The MIPS I assembler of \<open>common/util/encoder.hh\<close> with the registers of \<open>common/util/mips.hh\<close>: one
  definition per function, \<open>enc_\<close> before its name (\<open>b\<close>, \<open>j\<close>, \<open>div\<close> and others are taken), and the number
  of its arguments after the name of an overload. A signed 16-bit argument is the word of its bits; \<open>scast\<close>
  is its promotion to \<open>int\<close>, \<open>signed_drop_bit\<close> the arithmetic shift.
\<close>

section \<open>Registers\<close>

datatype reg =
    R0 | AT | V0 | V1 | A0 | A1 | A2 | A3
  | T0 | T1 | T2 | T3 | T4 | T5 | T6 | T7
  | S0 | S1 | S2 | S3 | S4 | S5 | S6 | S7
  | T8 | T9 | K0 | K1 | GP | SP | S8 | RA

definition regs :: "reg list" where
  "regs = [R0, AT, V0, V1, A0, A1, A2, A3, T0, T1, T2, T3, T4, T5, T6, T7,
           S0, S1, S2, S3, S4, S5, S6, S7, T8, T9, K0, K1, GP, SP, S8, RA]"

text \<open>The conversions between a register and its number.\<close>

primrec reg_val :: "reg \<Rightarrow> u32" where
  "reg_val R0 = 0"
| "reg_val AT = 1"
| "reg_val V0 = 2"
| "reg_val V1 = 3"
| "reg_val A0 = 4"
| "reg_val A1 = 5"
| "reg_val A2 = 6"
| "reg_val A3 = 7"
| "reg_val T0 = 8"
| "reg_val T1 = 9"
| "reg_val T2 = 10"
| "reg_val T3 = 11"
| "reg_val T4 = 12"
| "reg_val T5 = 13"
| "reg_val T6 = 14"
| "reg_val T7 = 15"
| "reg_val S0 = 16"
| "reg_val S1 = 17"
| "reg_val S2 = 18"
| "reg_val S3 = 19"
| "reg_val S4 = 20"
| "reg_val S5 = 21"
| "reg_val S6 = 22"
| "reg_val S7 = 23"
| "reg_val T8 = 24"
| "reg_val T9 = 25"
| "reg_val K0 = 26"
| "reg_val K1 = 27"
| "reg_val GP = 28"
| "reg_val SP = 29"
| "reg_val S8 = 30"
| "reg_val RA = 31"

definition Reg :: "u32 \<Rightarrow> reg" where
  "Reg n = regs ! unat n"

lemma Reg_reg_val [simp]: "Reg (reg_val r) = r"
  by (cases r) (simp_all add: Reg_def regs_def)

lemma reg_val_inject [simp]: "reg_val r = reg_val s \<longleftrightarrow> r = s"
  by (metis Reg_reg_val)

lemma reg_val_less: "unat (reg_val r) < 32"
  by (cases r) simp_all

section \<open>Instructions\<close>

definition iclass :: "u32 \<Rightarrow> u32" where "iclass v = push_bit 26 v"
definition dstVal :: "reg \<Rightarrow> u32" where "dstVal r = push_bit 11 (reg_val r)"
definition tgtVal :: "reg \<Rightarrow> u32" where "tgtVal r = push_bit 16 (reg_val r)"
definition srcVal :: "reg \<Rightarrow> u32" where "srcVal r = push_bit 21 (reg_val r)"

text \<open>\<open>v &= 0xffff\<close>.\<close>

definition low16 :: "u32 \<Rightarrow> u32" where "low16 v = v AND 0xffff"

definition enc_add :: "reg \<Rightarrow> reg \<Rightarrow> reg \<Rightarrow> u32" where
  "enc_add dst src tgt = dstVal dst OR tgtVal tgt OR srcVal src OR 0b100000"

definition enc_add2 :: "reg \<Rightarrow> reg \<Rightarrow> u32" where
  "enc_add2 dst tgt = enc_add dst dst tgt"

definition enc_addu :: "reg \<Rightarrow> reg \<Rightarrow> reg \<Rightarrow> u32" where
  "enc_addu dst src tgt = dstVal dst OR tgtVal tgt OR srcVal src OR 0b100001"

definition enc_addu2 :: "reg \<Rightarrow> reg \<Rightarrow> u32" where
  "enc_addu2 dst tgt = enc_addu dst dst tgt"

definition enc_addi :: "reg \<Rightarrow> reg \<Rightarrow> u16 \<Rightarrow> u32" where
  "enc_addi tgt src val = iclass 0b001000 OR srcVal src OR tgtVal tgt OR low16 (scast val)"

definition enc_addi2 :: "reg \<Rightarrow> u16 \<Rightarrow> u32" where
  "enc_addi2 tgt val = enc_addi tgt tgt val"

definition enc_addiu :: "reg \<Rightarrow> reg \<Rightarrow> u16 \<Rightarrow> u32" where
  "enc_addiu tgt src val = iclass 0b001001 OR srcVal src OR tgtVal tgt OR low16 (scast val)"

definition enc_addiu2 :: "reg \<Rightarrow> u16 \<Rightarrow> u32" where
  "enc_addiu2 tgt val = enc_addiu tgt tgt val"

definition enc_andd :: "reg \<Rightarrow> reg \<Rightarrow> reg \<Rightarrow> u32" where
  "enc_andd dst src tgt = dstVal dst OR tgtVal tgt OR srcVal src OR 0b100100"

definition enc_andd2 :: "reg \<Rightarrow> reg \<Rightarrow> u32" where
  "enc_andd2 dst tgt = enc_andd dst dst tgt"

definition enc_andi :: "reg \<Rightarrow> reg \<Rightarrow> u16 \<Rightarrow> u32" where
  "enc_andi tgt src val = iclass 0b001100 OR srcVal src OR tgtVal tgt OR ucast val"

definition enc_andi2 :: "reg \<Rightarrow> u16 \<Rightarrow> u32" where
  "enc_andi2 tgt val = enc_andi tgt tgt val"

definition enc_lui :: "reg \<Rightarrow> u16 \<Rightarrow> u32" where
  "enc_lui tgt val = iclass 0b001111 OR tgtVal tgt OR ucast val"

definition enc_nor :: "reg \<Rightarrow> reg \<Rightarrow> reg \<Rightarrow> u32" where
  "enc_nor dst src tgt = dstVal dst OR tgtVal tgt OR srcVal src OR 0b100111"

definition enc_nor2 :: "reg \<Rightarrow> reg \<Rightarrow> u32" where
  "enc_nor2 dst tgt = enc_nor dst dst tgt"

definition enc_orr :: "reg \<Rightarrow> reg \<Rightarrow> reg \<Rightarrow> u32" where
  "enc_orr dst src tgt = dstVal dst OR tgtVal tgt OR srcVal src OR 0b100101"

definition enc_orr2 :: "reg \<Rightarrow> reg \<Rightarrow> u32" where
  "enc_orr2 dst tgt = enc_orr dst dst tgt"

definition enc_ori :: "reg \<Rightarrow> reg \<Rightarrow> u16 \<Rightarrow> u32" where
  "enc_ori tgt src val = iclass 0b001101 OR srcVal src OR tgtVal tgt OR ucast val"

definition enc_ori2 :: "reg \<Rightarrow> u16 \<Rightarrow> u32" where
  "enc_ori2 tgt val = enc_ori tgt tgt val"

definition enc_slt :: "reg \<Rightarrow> reg \<Rightarrow> reg \<Rightarrow> u32" where
  "enc_slt dst src tgt = dstVal dst OR tgtVal tgt OR srcVal src OR 0b101010"

definition enc_slt2 :: "reg \<Rightarrow> reg \<Rightarrow> u32" where
  "enc_slt2 dst tgt = enc_slt dst dst tgt"

definition enc_sltu :: "reg \<Rightarrow> reg \<Rightarrow> reg \<Rightarrow> u32" where
  "enc_sltu dst src tgt = dstVal dst OR tgtVal tgt OR srcVal src OR 0b101011"

definition enc_sltu2 :: "reg \<Rightarrow> reg \<Rightarrow> u32" where
  "enc_sltu2 dst tgt = enc_sltu dst dst tgt"

definition enc_slti :: "reg \<Rightarrow> reg \<Rightarrow> u16 \<Rightarrow> u32" where
  "enc_slti tgt src val = iclass 0b001010 OR srcVal src OR tgtVal tgt OR low16 (scast val)"

definition enc_slti2 :: "reg \<Rightarrow> u16 \<Rightarrow> u32" where
  "enc_slti2 tgt val = enc_slti tgt tgt val"

definition enc_sltiu :: "reg \<Rightarrow> reg \<Rightarrow> u16 \<Rightarrow> u32" where
  "enc_sltiu tgt src val = iclass 0b001011 OR srcVal src OR tgtVal tgt OR ucast val"

definition enc_sltiu2 :: "reg \<Rightarrow> u16 \<Rightarrow> u32" where
  "enc_sltiu2 tgt val = enc_sltiu tgt tgt val"

definition enc_sub :: "reg \<Rightarrow> reg \<Rightarrow> reg \<Rightarrow> u32" where
  "enc_sub dst src tgt = dstVal dst OR tgtVal tgt OR srcVal src OR 0b100010"

definition enc_sub2 :: "reg \<Rightarrow> reg \<Rightarrow> u32" where
  "enc_sub2 dst tgt = enc_sub dst dst tgt"

definition enc_subu :: "reg \<Rightarrow> reg \<Rightarrow> reg \<Rightarrow> u32" where
  "enc_subu dst src tgt = dstVal dst OR tgtVal tgt OR srcVal src OR 0b100011"

definition enc_subu2 :: "reg \<Rightarrow> reg \<Rightarrow> u32" where
  "enc_subu2 dst tgt = enc_subu dst dst tgt"

definition enc_xorr :: "reg \<Rightarrow> reg \<Rightarrow> reg \<Rightarrow> u32" where
  "enc_xorr dst src tgt = dstVal dst OR tgtVal tgt OR srcVal src OR 0b100110"

definition enc_xorr2 :: "reg \<Rightarrow> reg \<Rightarrow> u32" where
  "enc_xorr2 dst tgt = enc_xorr dst dst tgt"

definition enc_xori :: "reg \<Rightarrow> reg \<Rightarrow> u16 \<Rightarrow> u32" where
  "enc_xori tgt src val = iclass 0b001110 OR srcVal src OR tgtVal tgt OR ucast val"

definition enc_xori2 :: "reg \<Rightarrow> u16 \<Rightarrow> u32" where
  "enc_xori2 tgt val = enc_xori tgt tgt val"

definition enc_sll :: "reg \<Rightarrow> reg \<Rightarrow> u16 \<Rightarrow> u32" where
  "enc_sll dst tgt sa = dstVal dst OR tgtVal tgt OR push_bit 6 (ucast sa) OR 0b000000"

definition enc_sll2 :: "reg \<Rightarrow> u16 \<Rightarrow> u32" where
  "enc_sll2 dst sa = enc_sll dst dst sa"

definition enc_sllv :: "reg \<Rightarrow> reg \<Rightarrow> reg \<Rightarrow> u32" where
  "enc_sllv dst tgt src = dstVal dst OR tgtVal tgt OR srcVal src OR 0b000100"

definition enc_sllv2 :: "reg \<Rightarrow> reg \<Rightarrow> u32" where
  "enc_sllv2 dst src = enc_sllv dst dst src"

definition enc_sra :: "reg \<Rightarrow> reg \<Rightarrow> u16 \<Rightarrow> u32" where
  "enc_sra dst tgt sa = dstVal dst OR tgtVal tgt OR push_bit 6 (ucast sa) OR 0b000011"

definition enc_sra2 :: "reg \<Rightarrow> u16 \<Rightarrow> u32" where
  "enc_sra2 dst sa = enc_sra dst dst sa"

definition enc_srav :: "reg \<Rightarrow> reg \<Rightarrow> reg \<Rightarrow> u32" where
  "enc_srav dst tgt src = dstVal dst OR tgtVal tgt OR srcVal src OR 0b000111"

definition enc_srav2 :: "reg \<Rightarrow> reg \<Rightarrow> u32" where
  "enc_srav2 dst src = enc_srav dst dst src"

definition enc_srl :: "reg \<Rightarrow> reg \<Rightarrow> u16 \<Rightarrow> u32" where
  "enc_srl dst tgt sa = dstVal dst OR tgtVal tgt OR push_bit 6 (ucast sa) OR 0b000010"

definition enc_srl2 :: "reg \<Rightarrow> u16 \<Rightarrow> u32" where
  "enc_srl2 dst sa = enc_srl dst dst sa"

definition enc_srlv :: "reg \<Rightarrow> reg \<Rightarrow> reg \<Rightarrow> u32" where
  "enc_srlv dst tgt src = dstVal dst OR tgtVal tgt OR srcVal src OR 0b000110"

definition enc_srlv2 :: "reg \<Rightarrow> reg \<Rightarrow> u32" where
  "enc_srlv2 dst src = enc_srlv dst dst src"

definition enc_div :: "reg \<Rightarrow> reg \<Rightarrow> u32" where
  "enc_div src tgt = tgtVal tgt OR srcVal src OR 0b011010"

definition enc_divu :: "reg \<Rightarrow> reg \<Rightarrow> u32" where
  "enc_divu src tgt = tgtVal tgt OR srcVal src OR 0b011011"

definition enc_mfhi :: "reg \<Rightarrow> u32" where
  "enc_mfhi dst = dstVal dst OR 0b010000"

definition enc_mflo :: "reg \<Rightarrow> u32" where
  "enc_mflo dst = dstVal dst OR 0b010010"

definition enc_mthi :: "reg \<Rightarrow> u32" where
  "enc_mthi dst = dstVal dst OR 0b010001"

definition enc_mtlo :: "reg \<Rightarrow> u32" where
  "enc_mtlo dst = dstVal dst OR 0b010011"

definition enc_mult :: "reg \<Rightarrow> reg \<Rightarrow> u32" where
  "enc_mult src tgt = tgtVal tgt OR srcVal src OR 0b011000"

definition enc_multu :: "reg \<Rightarrow> reg \<Rightarrow> u32" where
  "enc_multu src tgt = tgtVal tgt OR srcVal src OR 0b011001"

definition enc_beq :: "reg \<Rightarrow> reg \<Rightarrow> u16 \<Rightarrow> u32" where
  "enc_beq src tgt off = iclass 0b000100 OR tgtVal tgt OR srcVal src OR low16 (signed_drop_bit 2 (scast off))"

definition enc_bgez :: "reg \<Rightarrow> u16 \<Rightarrow> u32" where
  "enc_bgez src off = iclass 0b000001 OR tgtVal (Reg 0b00001) OR srcVal src OR low16 (signed_drop_bit 2 (scast off))"

definition enc_bgezal :: "reg \<Rightarrow> u16 \<Rightarrow> u32" where
  "enc_bgezal src off = iclass 0b000001 OR tgtVal (Reg 0b10001) OR srcVal src OR low16 (signed_drop_bit 2 (scast off))"

definition enc_bgtz :: "reg \<Rightarrow> u16 \<Rightarrow> u32" where
  "enc_bgtz src off = iclass 0b000111 OR tgtVal (Reg 0b00000) OR srcVal src OR low16 (signed_drop_bit 2 (scast off))"

definition enc_blez :: "reg \<Rightarrow> u16 \<Rightarrow> u32" where
  "enc_blez src off = iclass 0b000110 OR tgtVal (Reg 0b00000) OR srcVal src OR low16 (signed_drop_bit 2 (scast off))"

definition enc_bltz :: "reg \<Rightarrow> u16 \<Rightarrow> u32" where
  "enc_bltz src off = iclass 0b000001 OR tgtVal (Reg 0b00000) OR srcVal src OR low16 (signed_drop_bit 2 (scast off))"

definition enc_bltzal :: "reg \<Rightarrow> u16 \<Rightarrow> u32" where
  "enc_bltzal src off = iclass 0b000001 OR tgtVal (Reg 0b10000) OR srcVal src OR low16 (signed_drop_bit 2 (scast off))"

definition enc_bne :: "reg \<Rightarrow> reg \<Rightarrow> u16 \<Rightarrow> u32" where
  "enc_bne src tgt off = iclass 0b000101 OR tgtVal tgt OR srcVal src OR low16 (signed_drop_bit 2 (scast off))"

definition enc_brk :: "u32 \<Rightarrow> u32" where
  "enc_brk code = push_bit 6 code OR 0b001101"

definition enc_j :: "u32 \<Rightarrow> u32" where
  "enc_j addr = iclass 0b000010 OR (drop_bit 2 addr AND 0x03ffffff)"

definition enc_jal :: "u32 \<Rightarrow> u32" where
  "enc_jal addr = iclass 0b000011 OR (drop_bit 2 addr AND 0x03ffffff)"

definition enc_jalr :: "reg \<Rightarrow> reg \<Rightarrow> u32" where
  "enc_jalr src dst = dstVal dst OR srcVal src OR 0b001001"

definition enc_jr :: "reg \<Rightarrow> u32" where
  "enc_jr src = srcVal src OR 0b001000"

definition enc_syscall :: "u32" where
  "enc_syscall = 0b001100"

definition enc_lb :: "reg \<Rightarrow> u16 \<Rightarrow> reg \<Rightarrow> u32" where
  "enc_lb tgt off src = iclass 0b100000 OR tgtVal tgt OR srcVal src OR low16 (scast off)"

definition enc_lbu :: "reg \<Rightarrow> u16 \<Rightarrow> reg \<Rightarrow> u32" where
  "enc_lbu tgt off src = iclass 0b100100 OR tgtVal tgt OR srcVal src OR low16 (scast off)"

definition enc_lh :: "reg \<Rightarrow> u16 \<Rightarrow> reg \<Rightarrow> u32" where
  "enc_lh tgt off src = iclass 0b100001 OR tgtVal tgt OR srcVal src OR low16 (scast off)"

definition enc_lhu :: "reg \<Rightarrow> u16 \<Rightarrow> reg \<Rightarrow> u32" where
  "enc_lhu tgt off src = iclass 0b100101 OR tgtVal tgt OR srcVal src OR low16 (scast off)"

definition enc_lw :: "reg \<Rightarrow> u16 \<Rightarrow> reg \<Rightarrow> u32" where
  "enc_lw tgt off src = iclass 0b100011 OR tgtVal tgt OR srcVal src OR low16 (scast off)"

definition enc_lwl :: "reg \<Rightarrow> u16 \<Rightarrow> reg \<Rightarrow> u32" where
  "enc_lwl tgt off src = iclass 0b100010 OR tgtVal tgt OR srcVal src OR low16 (scast off)"

definition enc_lwr :: "reg \<Rightarrow> u16 \<Rightarrow> reg \<Rightarrow> u32" where
  "enc_lwr tgt off src = iclass 0b100110 OR tgtVal tgt OR srcVal src OR low16 (scast off)"

definition enc_sb :: "reg \<Rightarrow> u16 \<Rightarrow> reg \<Rightarrow> u32" where
  "enc_sb tgt off src = iclass 0b101000 OR tgtVal tgt OR srcVal src OR low16 (scast off)"

definition enc_sh :: "reg \<Rightarrow> u16 \<Rightarrow> reg \<Rightarrow> u32" where
  "enc_sh tgt off src = iclass 0b101001 OR tgtVal tgt OR srcVal src OR low16 (scast off)"

definition enc_sw :: "reg \<Rightarrow> u16 \<Rightarrow> reg \<Rightarrow> u32" where
  "enc_sw tgt off src = iclass 0b101011 OR tgtVal tgt OR srcVal src OR low16 (scast off)"

definition enc_swl :: "reg \<Rightarrow> u16 \<Rightarrow> reg \<Rightarrow> u32" where
  "enc_swl tgt off src = iclass 0b101010 OR tgtVal tgt OR srcVal src OR low16 (scast off)"

definition enc_swr :: "reg \<Rightarrow> u16 \<Rightarrow> reg \<Rightarrow> u32" where
  "enc_swr tgt off src = iclass 0b101110 OR tgtVal tgt OR srcVal src OR low16 (scast off)"

definition enc_mfc0 :: "reg \<Rightarrow> u8 \<Rightarrow> u32" where
  "enc_mfc0 tgt dst = iclass 0b010000 OR tgtVal tgt OR push_bit 11 (ucast dst)"

definition enc_mtc0 :: "reg \<Rightarrow> u8 \<Rightarrow> u32" where
  "enc_mtc0 tgt dst = iclass 0b010000 OR push_bit 21 4 OR tgtVal tgt OR push_bit 11 (ucast dst)"

definition enc_rfe :: "u32" where
  "enc_rfe = 0x42000010"

definition enc_nop :: "u32" where
  "enc_nop = 0"

definition enc_li :: "reg \<Rightarrow> u16 \<Rightarrow> u32" where
  "enc_li tgt val = enc_addiu tgt R0 val"

definition enc_liu :: "reg \<Rightarrow> u16 \<Rightarrow> u32" where
  "enc_liu tgt val = enc_ori tgt R0 val"

definition enc_move :: "reg \<Rightarrow> reg \<Rightarrow> u32" where
  "enc_move tgt src = enc_addu tgt R0 src"

definition enc_nott :: "reg \<Rightarrow> reg \<Rightarrow> u32" where
  "enc_nott tgt src = enc_nor tgt src R0"

definition enc_nott1 :: "reg \<Rightarrow> u32" where
  "enc_nott1 tgt = enc_nott tgt tgt"

definition enc_neg :: "reg \<Rightarrow> reg \<Rightarrow> u32" where
  "enc_neg tgt src = enc_subu tgt R0 src"

definition enc_neg1 :: "reg \<Rightarrow> u32" where
  "enc_neg1 tgt = enc_neg tgt tgt"

definition enc_b :: "u16 \<Rightarrow> u32" where
  "enc_b off = enc_bgez R0 off"

definition enc_beqz :: "reg \<Rightarrow> u16 \<Rightarrow> u32" where
  "enc_beqz tgt off = enc_beq tgt R0 off"

definition enc_bnez :: "reg \<Rightarrow> u16 \<Rightarrow> u32" where
  "enc_bnez tgt off = enc_bne tgt R0 off"

definition enc_bal :: "u16 \<Rightarrow> u32" where
  "enc_bal off = enc_bgezal R0 off"

end
