(* ===== verification/Mips_Decoder.thy ===== *)
theory Mips_Decoder
  imports Mips_Encoder
begin

text \<open>
  The MIPS I decoder of \<open>common/util/decoder.hh\<close>, one definition per method of \<open>Instruction\<close>. The nested
  switches of \<open>mnemonic()\<close> are association lists in the order of their cases. A register file is the array
  of \<open>GPRRegs\<close>; signed results are the words of their bits.
\<close>

section \<open>Fields\<close>

datatype (plugins only: size) Mnemonic =
    ADD | ADDU | ADDI | ADDIU | SUB | SUBU | SLT | SLTU | SLTI | SLTIU | DIV | DIVU | MULT | MULTU
  | AND_op | ANDI | OR_op | ORI | XOR_op | XORI | NOR
  | SLL | SRL | SRA | SLLV | SRLV | SRAV
  | LB | LBU | LH | LHU | LUI | LW | LWL | LWR
  | SB | SH | SW | SWL | SWR
  | BEQ | BNE | BGEZ | BGTZ | BLEZ | BLTZ | BGEZAL | BLTZAL
  | J | JAL | JR | JALR
  | MFHI | MTHI | MFLO | MTLO
  | BREAK | SYSCALL
  | MFC0 | MTC0 | CFC0 | CTC0 | MFC2 | MTC2 | CFC2 | CTC2 | SWC2 | LWC2
  | INVALID

definition opcode :: "u32 \<Rightarrow> u32" where "opcode code = drop_bit 26 code"
definition funct :: "u32 \<Rightarrow> u32" where "funct code = code AND 0x3f"
definition rs :: "u32 \<Rightarrow> u32" where "rs code = drop_bit 21 code AND 0x1f"
definition rt :: "u32 \<Rightarrow> u32" where "rt code = drop_bit 16 code AND 0x1f"
definition rd :: "u32 \<Rightarrow> u32" where "rd code = drop_bit 11 code AND 0x1f"
definition sa :: "u32 \<Rightarrow> u32" where "sa code = drop_bit 6 code AND 0x1f"
definition imm :: "u32 \<Rightarrow> u32" where "imm code = scast (ucast (code AND 0xffff) :: u16)"
definition target :: "u32 \<Rightarrow> u32" where "target code = code AND 0x3ffffff"
definition offset :: "u32 \<Rightarrow> u32" where "offset code = code AND 0x3ffffff"
definition cop :: "u32 \<Rightarrow> u32" where "cop code = drop_bit 26 code AND 0x1f"
definition copFunc :: "u32 \<Rightarrow> u32" where "copFunc code = code AND 0x3f"

section \<open>Mnemonics\<close>

definition special_table :: "(u32 \<times> Mnemonic) list" where
  "special_table =
    [(0b100000, ADD), (0b100001, ADDU), (0b100010, SUB), (0b100011, SUBU), (0b101010, SLT),
     (0b101011, SLTU), (0b011010, DIV), (0b011011, DIVU), (0b011000, MULT), (0b011001, MULTU),
     (0b010000, MFHI), (0b010001, MTHI), (0b010010, MFLO), (0b010011, MTLO), (0b000000, SLL),
     (0b000010, SRL), (0b000011, SRA), (0b000100, SLLV), (0b000110, SRLV), (0b000111, SRAV),
     (0b100111, NOR), (0b001000, JR), (0b001001, JALR), (0b001101, BREAK), (0b001100, SYSCALL)]"

definition regimm_table :: "(u32 \<times> Mnemonic) list" where
  "regimm_table =
    [(0b00001, BGEZ), (0b10001, BGEZAL), (0b00000, BLTZ), (0b10000, BLTZAL)]"

definition main_table :: "(u32 \<times> Mnemonic) list" where
  "main_table =
    [(0b001000, ADDI), (0b001001, ADDIU), (0b001010, SLTI), (0b001011, SLTIU), (0b001100, ANDI),
     (0b001101, ORI), (0b001110, XORI), (0b000010, J), (0b000011, JAL), (0b000100, BEQ),
     (0b000101, BNE), (0b000111, BGTZ), (0b000110, BLEZ), (0b100000, LB), (0b100100, LBU),
     (0b100001, LH), (0b100101, LHU), (0b001111, LUI), (0b100011, LW), (0b100010, LWL),
     (0b100110, LWR), (0b101000, SB), (0b101001, SH), (0b101011, SW), (0b101010, SWL),
     (0b101110, SWR), (0b111010, SWC2), (0b110010, LWC2)]"

definition cop0_table :: "(u32 \<times> Mnemonic) list" where
  "cop0_table =
    [(0b00000, MFC0), (0b00100, MTC0), (0b00010, CFC0), (0b00110, CTC0)]"

definition cop2_table :: "(u32 \<times> Mnemonic) list" where
  "cop2_table =
    [(0b00000, MFC2), (0b00100, MTC2), (0b00010, CFC2), (0b00110, CTC2)]"

definition switch :: "(u32 \<times> Mnemonic) list \<Rightarrow> u32 \<Rightarrow> Mnemonic" where
  "switch table k = (case map_of table k of Some m \<Rightarrow> m | None \<Rightarrow> INVALID)"

definition mnemonic :: "u32 \<Rightarrow> Mnemonic" where
  "mnemonic code =
     (if opcode code = 0b000000 then switch special_table (funct code)
      else if opcode code = 0b000001 then switch regimm_table (rt code)
      else if opcode code = 0b010000 then switch cop0_table (rs code)
      else if opcode code = 0b010010 then switch cop2_table (rs code)
      else switch main_table (opcode code))"

definition isLoad :: "u32 \<Rightarrow> bool" where
  "isLoad code \<longleftrightarrow> mnemonic code \<in> {LB, LBU, LH, LHU, LUI, LW, LWL, LWR, LWC2}"

definition isStore :: "u32 \<Rightarrow> bool" where
  "isStore code \<longleftrightarrow> mnemonic code \<in> {SB, SH, SW, SWL, SWR, SWC2}"

section \<open>Addresses, masks and values\<close>

type_synonym gpr_regs = "u32 list"

definition gpr_read :: "gpr_regs \<Rightarrow> u32 \<Rightarrow> u32" where
  "gpr_read gpr n = gpr ! unat n"

definition getLoadAddress :: "gpr_regs \<Rightarrow> u32 \<Rightarrow> u32" where
  "getLoadAddress gpr code =
     (if mnemonic code \<in> {LB, LBU, LH, LHU, LW, LWL, LWR, LWC2} then gpr_read gpr (rs code) + imm code else 0)"

definition getStoreAddress :: "gpr_regs \<Rightarrow> u32 \<Rightarrow> u32" where
  "getStoreAddress gpr code =
     (if mnemonic code \<in> {SB, SH, SW, SWL, SWR, SWC2} then gpr_read gpr (rs code) + imm code else 0)"

text \<open>The four cases of \<open>address & 3\<close>.\<close>

definition by_lane :: "u32 \<Rightarrow> u32 \<Rightarrow> u32 \<Rightarrow> u32 \<Rightarrow> u32 \<Rightarrow> u32" where
  "by_lane address v0 v1 v2 v3 =
     (if address AND 3 = 0 then v0 else if address AND 3 = 1 then v1 else if address AND 3 = 2 then v2 else v3)"

definition getLoadMask :: "gpr_regs \<Rightarrow> u32 \<Rightarrow> u32" where
  "getLoadMask gpr code =
     (if mnemonic code = LB \<or> mnemonic code = LBU then 0xff
      else if mnemonic code = LH \<or> mnemonic code = LHU then 0xffff
      else if mnemonic code = LWL
      then by_lane (gpr_read gpr (rs code) + imm code) 0x000000ff 0x0000ffff 0x00ffffff 0xffffffff
      else if mnemonic code = LWR
      then by_lane (gpr_read gpr (rs code) + imm code) 0xffffffff 0xffffff00 0xffff0000 0xff000000
      else 0xffffffff)"

definition getValueToStore :: "gpr_regs \<Rightarrow> u32 list \<Rightarrow> u32 \<Rightarrow> u32" where
  "getValueToStore gpr cop2regs code =
     (let v = gpr_read gpr (rt code)
      in if mnemonic code = SB then v AND 0xff
         else if mnemonic code = SH then v AND 0xffff
         else if mnemonic code = SWL
         then by_lane (gpr_read gpr (rs code) + imm code) (push_bit 24 v) (push_bit 16 v) (push_bit 8 v) v
         else if mnemonic code = SWR
         then by_lane (gpr_read gpr (rs code) + imm code) v (drop_bit 8 v) (drop_bit 16 v) (drop_bit 24 v)
         else if mnemonic code = SWC2 then cop2regs ! unat (rt code)
         else v)"

definition getStoreMask :: "gpr_regs \<Rightarrow> u32 \<Rightarrow> u32" where
  "getStoreMask gpr code =
     (if mnemonic code = SB then 0xff
      else if mnemonic code = SH then 0xffff
      else if mnemonic code = SWL
      then by_lane (gpr_read gpr (rs code) + imm code) 0xff000000 0xffff0000 0xffffff00 0xffffffff
      else if mnemonic code = SWR
      then by_lane (gpr_read gpr (rs code) + imm code) 0x000000ff 0x0000ffff 0x00ffffff 0xffffffff
      else 0xffffffff)"

definition getBranchAddress :: "u32 \<Rightarrow> u32 \<Rightarrow> u32" where
  "getBranchAddress pc code =
     (if mnemonic code \<in> {BEQ, BNE, BGEZ, BGTZ, BLEZ, BLTZ, BGEZAL, BLTZAL} then pc + push_bit 2 (imm code) + 4
      else 0)"

definition getJumpAddress :: "u32 \<Rightarrow> u32 \<Rightarrow> u32" where
  "getJumpAddress pc code =
     (if mnemonic code = J \<or> mnemonic code = JAL then (pc AND 0xf0000000) OR push_bit 2 (target code) else 0)"

definition getJumpRegisterAddress :: "gpr_regs \<Rightarrow> u32 \<Rightarrow> u32" where
  "getJumpRegisterAddress gpr code =
     (if mnemonic code = JR \<or> mnemonic code = JALR then gpr_read gpr (rs code) else 0)"

end
