(* ===== verification/Mips_Codec.thy ===== *)
theory Mips_Codec
  imports Mips_Decoder
begin

text \<open>
  The assembler against the decoder. The fields of every assembled word are computed from those of its parts;
  the round trip goes through an abstract instruction, \<open>instr\<close>: what the functions of the assembler can
  express, read back from the mnemonic and the fields. Then the targets of branches and jumps, the byte masks
  of unaligned accesses, and the places where the two files disagree with the processor.
\<close>

section \<open>Fields of assembled words\<close>

named_theorems asm_simps "the fields of the parts of an instruction word"

lemma and_field_masks:
  "(w :: u32) AND 0x1f = take_bit 5 w" "w AND 0x3f = take_bit 6 w" "w AND 0x3ffffff = take_bit 26 w"
  "w AND 0xffff = take_bit 16 w"
  by (simp_all add: take_bit_eq_mask mask_eq_exp_minus_1)

lemma fields_or [asm_simps]:
  "opcode (v OR w) = opcode v OR opcode w" "funct (v OR w) = funct v OR funct w"
  "rs (v OR w) = rs v OR rs w" "rt (v OR w) = rt v OR rt w" "rd (v OR w) = rd v OR rd w"
  "sa (v OR w) = sa v OR sa w" "target (v OR w) = target v OR target w" "low16 (v OR w) = low16 v OR low16 w"
  by (simp_all add: opcode_def funct_def rs_def rt_def rd_def sa_def target_def low16_def
        drop_bit_or bit.conj_disj_distrib2 word_ao_dist)

lemma bit_reg_val [simp]: "5 \<le> n \<Longrightarrow> \<not> bit (reg_val r) n"
proof -
  assume n: "5 \<le> n"
  have "take_bit 5 (reg_val r) = reg_val r" by (cases r) simp_all
  then have "bit (reg_val r) n = bit (take_bit 5 (reg_val r)) n" by simp
  then show ?thesis using n by (simp add: bit_simps)
qed

lemma bit_reg_val_less [dest]: "bit (reg_val r) n \<Longrightarrow> n < 5"
  by (metis bit_reg_val not_le)

lemmas field_defs = opcode_def funct_def rs_def rt_def rd_def sa_def low16_def target_def
  dstVal_def tgtVal_def srcVal_def iclass_def and_field_masks

lemma fields_dst [asm_simps]:
  "opcode (dstVal r) = 0" "funct (dstVal r) = 0" "rs (dstVal r) = 0" "rt (dstVal r) = 0"
  "rd (dstVal r) = reg_val r" "sa (dstVal r) = 0"
  by (rule bit_word_eqI; auto simp: field_defs bit_simps)+

lemma fields_tgt [asm_simps]:
  "opcode (tgtVal r) = 0" "funct (tgtVal r) = 0" "rs (tgtVal r) = 0" "rt (tgtVal r) = reg_val r"
  "rd (tgtVal r) = 0" "sa (tgtVal r) = 0" "low16 (tgtVal r) = 0"
  by (rule bit_word_eqI; auto simp: field_defs bit_simps)+

lemma fields_src [asm_simps]:
  "opcode (srcVal r) = 0" "funct (srcVal r) = 0" "rs (srcVal r) = reg_val r" "rt (srcVal r) = 0"
  "rd (srcVal r) = 0" "sa (srcVal r) = 0" "low16 (srcVal r) = 0"
  by (rule bit_word_eqI; auto simp: field_defs bit_simps)+

lemma fields_numeral [asm_simps]:
  "opcode (numeral n) = drop_bit 26 (numeral n)" "opcode 0 = 0" "opcode 1 = 0"
  "funct (numeral n) = numeral n AND 0x3f" "funct 0 = 0" "funct 1 = 1"
  "rs (numeral n) = drop_bit 21 (numeral n) AND 0x1f" "rs 0 = 0"
  "rt (numeral n) = drop_bit 16 (numeral n) AND 0x1f" "rt 0 = 0"
  "rd (numeral n) = drop_bit 11 (numeral n) AND 0x1f" "rd 0 = 0"
  "sa (numeral n) = drop_bit 6 (numeral n) AND 0x1f" "sa 0 = 0"
  by (simp_all add: opcode_def funct_def rs_def rt_def rd_def sa_def)

lemma fields_iclass [asm_simps]:
  "rs (iclass v) = 0" "rt (iclass v) = 0" "rd (iclass v) = 0" "low16 (iclass v) = 0" "target (iclass v) = 0"
  by (rule bit_word_eqI; auto simp: field_defs bit_simps)+

lemma opcode_iclass [asm_simps]:
  "opcode (iclass (numeral n)) = drop_bit 26 (push_bit 26 (numeral n))" "opcode (iclass 1) = 1"
  by (simp_all add: opcode_def iclass_def)

lemma fields_low16 [asm_simps]:
  "opcode (low16 v) = 0" "rs (low16 v) = 0" "rt (low16 v) = 0" "low16 (low16 v) = low16 v"
  by (rule bit_word_eqI; auto simp: field_defs bit_simps)+

lemma fields_half [asm_simps]:
  "opcode (ucast (v :: u16)) = 0" "rs (ucast (v :: u16)) = 0" "rt (ucast (v :: u16)) = 0"
  "low16 (ucast v) = ucast v"
  by (rule bit_word_eqI; auto simp: field_defs bit_simps dest: bit_imp_le_length)+

lemma imm_low16: "imm w = scast (ucast (low16 w) :: u16)"
  by (simp add: imm_def low16_def)

lemma scast_low16 [asm_simps]: "ucast (low16 (scast (v :: u16))) = v"
  by (rule bit_word_eqI) (auto simp: low16_def and_field_masks bit_simps)

lemma ucast_half [asm_simps]: "ucast (ucast (v :: u16) :: u32) = v"
  by (rule bit_word_eqI) (auto simp: bit_simps)

lemma ucast_scast [asm_simps]: "ucast (scast (v :: u16) :: u32) = v"
  by (rule bit_word_eqI) (auto simp: bit_simps)

lemma fields_shift [asm_simps]:
  assumes "unat (v :: u16) < 32"
  shows "opcode (push_bit 6 (ucast v)) = 0" "funct (push_bit 6 (ucast v)) = 0" "rs (push_bit 6 (ucast v)) = 0"
    "rt (push_bit 6 (ucast v)) = 0" "rd (push_bit 6 (ucast v)) = 0" "sa (push_bit 6 (ucast v)) = ucast v"
proof -
  have "take_bit 5 v = v" using assms by (simp add: word_unat_eq_iff unat_take_bit)
  then have b: "n < 5" if "bit v n" for n using that by (metis bit_take_bit_iff)
  show "opcode (push_bit 6 (ucast v)) = 0" "funct (push_bit 6 (ucast v)) = 0" "rs (push_bit 6 (ucast v)) = 0"
    "rt (push_bit 6 (ucast v)) = 0" "rd (push_bit 6 (ucast v)) = 0" "sa (push_bit 6 (ucast v)) = ucast v"
    by (rule bit_word_eqI; auto simp: field_defs bit_simps dest: b)+
qed

section \<open>Assembling and reading back\<close>

datatype (plugins only: size) instr =
    Alu3 Mnemonic reg reg reg         \<comment> \<open>destination, source, target\<close>
  | ShiftV Mnemonic reg reg reg       \<comment> \<open>destination, target, source\<close>
  | ShiftI Mnemonic reg reg u16       \<comment> \<open>destination, target, amount\<close>
  | ImmOp Mnemonic reg reg u16        \<comment> \<open>target, source, immediate\<close>
  | LoadUpper reg u16
  | MulDiv Mnemonic reg reg           \<comment> \<open>source, target\<close>
  | HiLo Mnemonic reg
  | BranchTwo Mnemonic reg reg u16    \<comment> \<open>source, target, offset in bytes\<close>
  | BranchOne Mnemonic reg u16
  | Jump Mnemonic u32
  | JumpLink reg reg
  | JumpReg reg
  | Brk u32
  | Sys
  | Mem Mnemonic reg u16 reg          \<comment> \<open>target, offset, base\<close>
  | Cop0 Mnemonic reg u8

definition alu3_table :: "(Mnemonic \<times> (reg \<Rightarrow> reg \<Rightarrow> reg \<Rightarrow> u32)) list" where
  "alu3_table = [(ADD, enc_add), (ADDU, enc_addu), (AND_op, enc_andd), (NOR, enc_nor), (OR_op, enc_orr), (SLT, enc_slt),
     (SLTU, enc_sltu), (SUB, enc_sub), (SUBU, enc_subu), (XOR_op, enc_xorr)]"

definition shiftv_table :: "(Mnemonic \<times> (reg \<Rightarrow> reg \<Rightarrow> reg \<Rightarrow> u32)) list" where
  "shiftv_table = [(SLLV, enc_sllv), (SRAV, enc_srav), (SRLV, enc_srlv)]"

definition shifti_table :: "(Mnemonic \<times> (reg \<Rightarrow> reg \<Rightarrow> u16 \<Rightarrow> u32)) list" where
  "shifti_table = [(SLL, enc_sll), (SRA, enc_sra), (SRL, enc_srl)]"

definition immop_table :: "(Mnemonic \<times> (reg \<Rightarrow> reg \<Rightarrow> u16 \<Rightarrow> u32)) list" where
  "immop_table = [(ADDI, enc_addi), (ADDIU, enc_addiu), (ANDI, enc_andi), (ORI, enc_ori), (SLTI, enc_slti),
     (SLTIU, enc_sltiu), (XORI, enc_xori)]"

definition muldiv_table :: "(Mnemonic \<times> (reg \<Rightarrow> reg \<Rightarrow> u32)) list" where
  "muldiv_table = [(DIV, enc_div), (DIVU, enc_divu), (MULT, enc_mult), (MULTU, enc_multu)]"

definition hilo_table :: "(Mnemonic \<times> (reg \<Rightarrow> u32)) list" where
  "hilo_table = [(MFHI, enc_mfhi), (MFLO, enc_mflo), (MTHI, enc_mthi), (MTLO, enc_mtlo)]"

definition branch2_table :: "(Mnemonic \<times> (reg \<Rightarrow> reg \<Rightarrow> u16 \<Rightarrow> u32)) list" where
  "branch2_table = [(BEQ, enc_beq), (BNE, enc_bne)]"

definition branch1_table :: "(Mnemonic \<times> (reg \<Rightarrow> u16 \<Rightarrow> u32)) list" where
  "branch1_table = [(BGEZ, enc_bgez), (BGEZAL, enc_bgezal), (BGTZ, enc_bgtz), (BLEZ, enc_blez), (BLTZ, enc_bltz),
     (BLTZAL, enc_bltzal)]"

definition jump_table :: "(Mnemonic \<times> (u32 \<Rightarrow> u32)) list" where
  "jump_table = [(J, enc_j), (JAL, enc_jal)]"

definition mem_table :: "(Mnemonic \<times> (reg \<Rightarrow> u16 \<Rightarrow> reg \<Rightarrow> u32)) list" where
  "mem_table = [(LB, enc_lb), (LBU, enc_lbu), (LH, enc_lh), (LHU, enc_lhu), (LW, enc_lw), (LWL, enc_lwl),
     (LWR, enc_lwr), (SB, enc_sb), (SH, enc_sh), (SW, enc_sw), (SWL, enc_swl), (SWR, enc_swr)]"

definition cop0_enc_table :: "(Mnemonic \<times> (reg \<Rightarrow> u8 \<Rightarrow> u32)) list" where
  "cop0_enc_table = [(MFC0, enc_mfc0), (MTC0, enc_mtc0)]"

definition entry :: "(Mnemonic \<times> 'f) list \<Rightarrow> Mnemonic \<Rightarrow> 'f" where
  "entry table m = the (map_of table m)"

definition covers :: "(Mnemonic \<times> 'f) list \<Rightarrow> Mnemonic \<Rightarrow> bool" where
  "covers table m \<longleftrightarrow> map_of table m \<noteq> None"

fun assemble :: "instr \<Rightarrow> u32" where
  "assemble (Alu3 m d s t) = entry alu3_table m d s t"
| "assemble (ShiftV m d t s) = entry shiftv_table m d t s"
| "assemble (ShiftI m d t n) = entry shifti_table m d t n"
| "assemble (ImmOp m t s v) = entry immop_table m t s v"
| "assemble (LoadUpper t v) = enc_lui t v"
| "assemble (MulDiv m s t) = entry muldiv_table m s t"
| "assemble (HiLo m d) = entry hilo_table m d"
| "assemble (BranchTwo m s t off) = entry branch2_table m s t off"
| "assemble (BranchOne m s off) = entry branch1_table m s off"
| "assemble (Jump m addr) = entry jump_table m addr"
| "assemble (JumpLink s d) = enc_jalr s d"
| "assemble (JumpReg s) = enc_jr s"
| "assemble (Brk n) = enc_brk n"
| "assemble Sys = enc_syscall"
| "assemble (Mem m t off s) = entry mem_table m t off s"
| "assemble (Cop0 m t n) = entry cop0_enc_table m t n"

text \<open>What an instruction word has room for, and the decoder knows.\<close>

fun encodable :: "instr \<Rightarrow> bool" where
  "encodable (Alu3 m d s t) \<longleftrightarrow> covers alu3_table m \<and> m \<notin> {AND_op, OR_op, XOR_op}"
| "encodable (ShiftV m d t s) \<longleftrightarrow> covers shiftv_table m"
| "encodable (ShiftI m d t n) \<longleftrightarrow> covers shifti_table m \<and> unat n < 32"
| "encodable (ImmOp m t s v) \<longleftrightarrow> covers immop_table m"
| "encodable (LoadUpper t v) \<longleftrightarrow> True"
| "encodable (MulDiv m s t) \<longleftrightarrow> covers muldiv_table m"
| "encodable (HiLo m d) \<longleftrightarrow> covers hilo_table m"
| "encodable (BranchTwo m s t off) \<longleftrightarrow> covers branch2_table m \<and> take_bit 2 off = 0"
| "encodable (BranchOne m s off) \<longleftrightarrow> covers branch1_table m \<and> take_bit 2 off = 0"
| "encodable (Jump m addr) \<longleftrightarrow> covers jump_table m \<and> take_bit 2 addr = 0 \<and> drop_bit 28 addr = 0"
| "encodable (JumpLink s d) \<longleftrightarrow> True"
| "encodable (JumpReg s) \<longleftrightarrow> True"
| "encodable (Brk n) \<longleftrightarrow> drop_bit 20 n = 0"
| "encodable Sys \<longleftrightarrow> True"
| "encodable (Mem m t off s) \<longleftrightarrow> covers mem_table m"
| "encodable (Cop0 m t n) \<longleftrightarrow> covers cop0_enc_table m \<and> unat n < 32"

definition branch_off :: "u32 \<Rightarrow> u16" where
  "branch_off w = ucast (push_bit 2 (imm w))"

definition disassemble :: "u32 \<Rightarrow> instr option" where
  "disassemble w =
     (let m = mnemonic w; d = Reg (rd w); s = Reg (rs w); t = Reg (rt w)
      in if covers alu3_table m then Some (Alu3 m d s t)
         else if covers shiftv_table m then Some (ShiftV m d t s)
         else if covers shifti_table m then Some (ShiftI m d t (ucast (sa w)))
         else if covers immop_table m then Some (ImmOp m t s (ucast (imm w)))
         else if m = LUI then Some (LoadUpper t (ucast (imm w)))
         else if covers muldiv_table m then Some (MulDiv m s t)
         else if covers hilo_table m then Some (HiLo m d)
         else if covers branch2_table m then Some (BranchTwo m s t (branch_off w))
         else if covers branch1_table m then Some (BranchOne m s (branch_off w))
         else if covers jump_table m then Some (Jump m (push_bit 2 (target w)))
         else if m = JALR then Some (JumpLink s d)
         else if m = JR then Some (JumpReg s)
         else if m = BREAK then Some (Brk (drop_bit 6 w))
         else if m = SYSCALL then Some Sys
         else if covers mem_table m then Some (Mem m t (ucast (imm w)) s)
         else if covers cop0_enc_table m then Some (Cop0 m t (ucast (rd w)))
         else None)"

lemmas asm_tables = alu3_table_def shiftv_table_def shifti_table_def immop_table_def muldiv_table_def
  hilo_table_def branch2_table_def branch1_table_def jump_table_def mem_table_def cop0_enc_table_def

lemmas decode_tables = special_table_def regimm_table_def main_table_def cop0_table_def cop2_table_def

lemmas encoders =
  enc_add_def enc_add2_def enc_addu_def enc_addu2_def enc_addi_def enc_addi2_def enc_addiu_def
  enc_addiu2_def enc_andd_def enc_andd2_def enc_andi_def enc_andi2_def enc_lui_def enc_nor_def
  enc_nor2_def enc_orr_def enc_orr2_def enc_ori_def enc_ori2_def enc_slt_def enc_slt2_def enc_sltu_def
  enc_sltu2_def enc_slti_def enc_slti2_def enc_sltiu_def enc_sltiu2_def enc_sub_def enc_sub2_def
  enc_subu_def enc_subu2_def enc_xorr_def enc_xorr2_def enc_xori_def enc_xori2_def enc_sll_def
  enc_sll2_def enc_sllv_def enc_sllv2_def enc_sra_def enc_sra2_def enc_srav_def enc_srav2_def enc_srl_def
  enc_srl2_def enc_srlv_def enc_srlv2_def enc_div_def enc_divu_def enc_mfhi_def enc_mflo_def enc_mthi_def
  enc_mtlo_def enc_mult_def enc_multu_def enc_beq_def enc_bgez_def enc_bgezal_def enc_bgtz_def
  enc_blez_def enc_bltz_def enc_bltzal_def enc_bne_def enc_brk_def enc_j_def enc_jal_def enc_jalr_def
  enc_jr_def enc_syscall_def enc_lb_def enc_lbu_def enc_lh_def enc_lhu_def enc_lw_def enc_lwl_def
  enc_lwr_def enc_sb_def enc_sh_def enc_sw_def enc_swl_def enc_swr_def enc_mfc0_def enc_mtc0_def
  enc_rfe_def enc_nop_def enc_li_def enc_liu_def enc_move_def enc_nott_def enc_nott1_def enc_neg_def
  enc_neg1_def enc_b_def enc_beqz_def enc_bnez_def enc_bal_def

lemma mnemonic_special: "opcode w = 0 \<Longrightarrow> mnemonic w = switch special_table (funct w)"
  by (simp add: mnemonic_def)

lemma mnemonic_main:
  "opcode w \<notin> {0, 1, 0x10, 0x12} \<Longrightarrow> mnemonic w = switch main_table (opcode w)"
  by (simp add: mnemonic_def)

lemma covers_simps [asm_simps]:
  "covers alu3_table m \<longleftrightarrow> m \<in> {ADD, ADDU, AND_op, NOR, OR_op, SLT, SLTU, SUB, SUBU, XOR_op}"
  "covers shiftv_table m \<longleftrightarrow> m \<in> {SLLV, SRAV, SRLV}"
  "covers shifti_table m \<longleftrightarrow> m \<in> {SLL, SRA, SRL}"
  "covers immop_table m \<longleftrightarrow> m \<in> {ADDI, ADDIU, ANDI, ORI, SLTI, SLTIU, XORI}"
  "covers muldiv_table m \<longleftrightarrow> m \<in> {DIV, DIVU, MULT, MULTU}"
  "covers hilo_table m \<longleftrightarrow> m \<in> {MFHI, MFLO, MTHI, MTLO}"
  "covers branch2_table m \<longleftrightarrow> m \<in> {BEQ, BNE}"
  "covers branch1_table m \<longleftrightarrow> m \<in> {BGEZ, BGEZAL, BGTZ, BLEZ, BLTZ, BLTZAL}"
  "covers jump_table m \<longleftrightarrow> m \<in> {J, JAL}"
  "covers mem_table m \<longleftrightarrow> m \<in> {LB, LBU, LH, LHU, LW, LWL, LWR, SB, SH, SW, SWL, SWR}"
  "covers cop0_enc_table m \<longleftrightarrow> m \<in> {MFC0, MTC0}"
  by (auto simp: covers_def asm_tables split: if_splits)

text \<open>The mnemonic and the fields of every word the assembler makes.\<close>

lemmas read_word = entry_def asm_tables encoders asm_simps switch_def

lemma alu3_fields:
  assumes "covers alu3_table m" "m \<notin> {AND_op, OR_op, XOR_op}"
  shows "mnemonic (entry alu3_table m d s t) = m" "rd (entry alu3_table m d s t) = reg_val d"
    "rs (entry alu3_table m d s t) = reg_val s" "rt (entry alu3_table m d s t) = reg_val t"
  using assms unfolding covers_simps
  by (elim insertE emptyE; simp add: read_word mnemonic_special special_table_def)+

lemma shiftv_fields:
  assumes "covers shiftv_table m"
  shows "mnemonic (entry shiftv_table m d t s) = m" "rd (entry shiftv_table m d t s) = reg_val d"
    "rs (entry shiftv_table m d t s) = reg_val s" "rt (entry shiftv_table m d t s) = reg_val t"
  using assms unfolding covers_simps
  by (elim insertE emptyE; simp add: read_word mnemonic_special special_table_def)+

lemma shifti_fields:
  assumes "covers shifti_table m" "unat n < 32"
  shows "mnemonic (entry shifti_table m d t n) = m" "rd (entry shifti_table m d t n) = reg_val d"
    "rt (entry shifti_table m d t n) = reg_val t" "sa (entry shifti_table m d t n) = ucast n"
  using assms unfolding covers_simps
  by (elim insertE emptyE; simp add: read_word mnemonic_special special_table_def)+

lemma immop_fields:
  assumes "covers immop_table m"
  shows "mnemonic (entry immop_table m t s v) = m" "rs (entry immop_table m t s v) = reg_val s"
    "rt (entry immop_table m t s v) = reg_val t" "imm (entry immop_table m t s v) = scast v"
  using assms unfolding covers_simps
  by (elim insertE emptyE; simp add: read_word mnemonic_main main_table_def imm_low16)+

lemma lui_fields:
  "mnemonic (enc_lui t v) = LUI" "rt (enc_lui t v) = reg_val t" "imm (enc_lui t v) = scast v"
  by (simp_all add: read_word mnemonic_main main_table_def imm_low16)

lemma muldiv_fields:
  assumes "covers muldiv_table m"
  shows "mnemonic (entry muldiv_table m s t) = m" "rs (entry muldiv_table m s t) = reg_val s"
    "rt (entry muldiv_table m s t) = reg_val t"
  using assms unfolding covers_simps
  by (elim insertE emptyE; simp add: read_word mnemonic_special special_table_def)+

lemma hilo_fields:
  assumes "covers hilo_table m"
  shows "mnemonic (entry hilo_table m d) = m" "rd (entry hilo_table m d) = reg_val d"
  using assms unfolding covers_simps
  by (elim insertE emptyE; simp add: read_word mnemonic_special special_table_def)+

lemma jumpreg_fields:
  "mnemonic (enc_jr s) = JR" "rs (enc_jr s) = reg_val s"
  "mnemonic (enc_jalr s d) = JALR" "rs (enc_jalr s d) = reg_val s" "rd (enc_jalr s d) = reg_val d"
  "mnemonic enc_syscall = SYSCALL"
  by (simp_all add: read_word mnemonic_special special_table_def)

lemma mem_fields:
  assumes "covers mem_table m"
  shows "mnemonic (entry mem_table m t off s) = m" "rs (entry mem_table m t off s) = reg_val s"
    "rt (entry mem_table m t off s) = reg_val t" "imm (entry mem_table m t off s) = scast off"
  using assms unfolding covers_simps
  by (elim insertE emptyE; simp add: read_word mnemonic_main main_table_def imm_low16)+

lemma low_bits:
  fixes w :: "'a::len word"
  assumes "take_bit k w = 0" and "n < k"
  shows "\<not> bit w n"
proof
  assume "bit w n"
  then have "bit (take_bit k w) n" using assms(2) by (simp add: bit_simps)
  then show False using assms(1) by simp
qed

lemma high_bits:
  fixes w :: "'a::len word"
  assumes "drop_bit k w = 0" and "bit w n"
  shows "n < k"
proof (rule ccontr)
  assume "\<not> n < k"
  then have "bit (drop_bit k w) (n - k)" using assms(2) by (simp add: bit_simps)
  then show False using assms(1) by simp
qed

text \<open>A branch offset loses its two low bits and nothing else: the shift is arithmetic.\<close>

lemma branch_imm:
  "scast (ucast (low16 (signed_drop_bit 2 (scast (off :: u16)))) :: u16) = (signed_drop_bit 2 (scast off) :: u32)"
proof -
  have "min 13 (min 15 n) = min 13 n" for n :: nat by simp
  then show ?thesis
    by (intro bit_word_eqI) (auto simp: low16_def and_field_masks bit_simps)
qed

lemma branch_bytes:
  assumes "take_bit 2 (off :: u16) = 0"
  shows "push_bit 2 (signed_drop_bit 2 (scast off)) = (scast off :: u32)"
proof (rule bit_word_eqI)
  fix n assume n: "n < LENGTH(32)"
  show "bit (push_bit 2 (signed_drop_bit 2 (scast off)) :: u32) n = bit (scast off :: u32) n"
  proof (cases "n < 2")
    case True
    then show ?thesis using low_bits [OF assms True] by (simp add: bit_simps)
  next
    case False
    then obtain k where "n = k + 2" by (metis add.commute le_Suc_ex not_le)
    then show ?thesis using n by (simp add: bit_simps)
  qed
qed

lemma branch2_fields:
  assumes "covers branch2_table m"
  shows "mnemonic (entry branch2_table m s t off) = m" "rs (entry branch2_table m s t off) = reg_val s"
    "rt (entry branch2_table m s t off) = reg_val t"
    "imm (entry branch2_table m s t off) = signed_drop_bit 2 (scast off)"
  using assms unfolding covers_simps
  by (elim insertE emptyE; simp add: read_word mnemonic_main main_table_def imm_low16 branch_imm)+

lemma mnemonic_regimm: "opcode w = 1 \<Longrightarrow> mnemonic w = switch regimm_table (rt w)"
  by (simp add: mnemonic_def)

lemma mnemonic_cop0: "opcode w = 0x10 \<Longrightarrow> mnemonic w = switch cop0_table (rs w)"
  by (simp add: mnemonic_def)

lemma Reg_numbers: "reg_val (Reg 0) = 0" "reg_val (Reg 1) = 1" "reg_val (Reg 0x10) = 0x10" "reg_val (Reg 0x11) = 0x11"
  by (simp_all add: Reg_def regs_def)

lemma branch1_fields:
  assumes "covers branch1_table m"
  shows "mnemonic (entry branch1_table m s off) = m" "rs (entry branch1_table m s off) = reg_val s"
    "imm (entry branch1_table m s off) = signed_drop_bit 2 (scast off)"
  using assms unfolding covers_simps
  by (elim insertE emptyE; simp add: read_word mnemonic_main mnemonic_regimm main_table_def regimm_table_def
      imm_low16 branch_imm Reg_numbers)+

lemma jump_target: "opcode (drop_bit 2 addr AND 0x03ffffff) = 0"
  "target (drop_bit 2 addr AND 0x03ffffff) = drop_bit 2 addr AND 0x03ffffff"
  by (rule bit_word_eqI; auto simp: field_defs bit_simps)+

lemma jump_fields:
  assumes "covers jump_table m"
  shows "mnemonic (entry jump_table m addr) = m"
    "target (entry jump_table m addr) = drop_bit 2 addr AND 0x03ffffff"
  using assms unfolding covers_simps
  by (elim insertE emptyE; simp add: read_word mnemonic_main main_table_def jump_target)+

lemma jump_bytes:
  assumes "take_bit 2 (addr :: u32) = 0"
  shows "push_bit 2 (drop_bit 2 addr AND 0x03ffffff) = take_bit 28 addr"
proof (rule bit_word_eqI)
  fix n assume n: "n < LENGTH(32)"
  show "bit (push_bit 2 (drop_bit 2 addr AND 0x03ffffff)) n = bit (take_bit 28 addr) n"
  proof (cases "n < 2")
    case True
    then show ?thesis using low_bits [OF assms True] by (simp add: bit_simps)
  next
    case False
    then obtain k where "n = k + 2" by (metis add.commute le_Suc_ex not_le)
    then show ?thesis using n by (simp add: and_field_masks bit_simps)
  qed
qed

lemma take_28: "drop_bit 28 (addr :: u32) = 0 \<Longrightarrow> take_bit 28 addr = addr"
  by (rule bit_word_eqI) (auto simp: bit_simps dest: high_bits)

lemma brk_fields:
  assumes "drop_bit 20 n = 0"
  shows "mnemonic (enc_brk n) = BREAK" "drop_bit 6 (enc_brk n) = n"
proof -
  note b = high_bits [OF assms]
  have "opcode (push_bit 6 n) = 0" "funct (push_bit 6 n) = 0"
    by (rule bit_word_eqI; auto simp: field_defs bit_simps dest: b)+
  then show "mnemonic (enc_brk n) = BREAK"
    by (simp add: read_word mnemonic_special special_table_def)
  show "drop_bit 6 (enc_brk n) = n"
    by (rule bit_word_eqI) (auto simp: enc_brk_def drop_bit_or bit_simps dest: b)
qed

lemma fields_cop0:
  assumes "unat (n :: u8) < 32"
  shows "opcode (push_bit 11 (ucast n)) = 0" "rs (push_bit 11 (ucast n)) = 0" "rt (push_bit 11 (ucast n)) = 0"
    "rd (push_bit 11 (ucast n)) = ucast n"
proof -
  have "take_bit 5 n = n" using assms by (simp add: word_unat_eq_iff unat_take_bit)
  then have b: "k < 5" if "bit n k" for k using that by (metis bit_take_bit_iff)
  show "opcode (push_bit 11 (ucast n)) = 0" "rs (push_bit 11 (ucast n)) = 0" "rt (push_bit 11 (ucast n)) = 0"
    "rd (push_bit 11 (ucast n)) = ucast n"
    by (rule bit_word_eqI; auto simp: field_defs bit_simps dest: b)+
qed

lemma cop0_fields:
  assumes "covers cop0_enc_table m" "unat n < 32"
  shows "mnemonic (entry cop0_enc_table m t n) = m" "rt (entry cop0_enc_table m t n) = reg_val t"
    "rd (entry cop0_enc_table m t n) = ucast n"
  using assms(1) unfolding covers_simps
  by (elim insertE emptyE; simp add: read_word mnemonic_cop0 cop0_table_def fields_cop0 [OF assms(2)])+

lemma disassemble_assemble: "encodable i \<Longrightarrow> disassemble (assemble i) = Some i"
proof (cases i)
  case (Alu3 m d s t)
  assume "encodable i"
  then have c: "covers alu3_table m" "m \<notin> {AND_op, OR_op, XOR_op}" using Alu3 by auto
  show ?thesis using c(1) by (simp only: Alu3 assemble.simps disassemble_def Let_def alu3_fields [OF c] if_True Reg_reg_val)
next
  case (ShiftV m d t s)
  assume "encodable i"
  then have c: "covers shiftv_table m" using ShiftV by auto
  have "\<not> covers alu3_table m" using c by (auto simp: covers_simps)
  then show ?thesis using c by (simp add: ShiftV disassemble_def shiftv_fields)
next
  case (ShiftI m d t n)
  assume "encodable i"
  then have c: "covers shifti_table m" "unat n < 32" using ShiftI by auto
  have "\<not> covers alu3_table m" "\<not> covers shiftv_table m" using c(1) by (auto simp: covers_simps)
  then show ?thesis using c by (simp add: ShiftI disassemble_def shifti_fields ucast_half)
next
  case (ImmOp m t s v)
  assume "encodable i"
  then have c: "covers immop_table m" using ImmOp by auto
  have "\<not> covers alu3_table m" "\<not> covers shiftv_table m" "\<not> covers shifti_table m"
    using c by (auto simp: covers_simps)
  then show ?thesis using c by (simp add: ImmOp disassemble_def immop_fields ucast_scast)
next
  case (LoadUpper t v)
  then show ?thesis by (simp add: disassemble_def lui_fields ucast_scast covers_simps)
next
  case (MulDiv m s t)
  assume "encodable i"
  then have c: "covers muldiv_table m" using MulDiv by auto
  then have "m \<noteq> LUI" "\<not> covers alu3_table m" "\<not> covers shiftv_table m" "\<not> covers shifti_table m" "\<not> covers immop_table m"
    by (auto simp: covers_simps)
  then show ?thesis using c by (simp add: MulDiv disassemble_def muldiv_fields)
next
  case (HiLo m d)
  assume "encodable i"
  then have c: "covers hilo_table m" using HiLo by auto
  then have "m \<noteq> LUI" "\<not> covers alu3_table m" "\<not> covers shiftv_table m" "\<not> covers shifti_table m" "\<not> covers immop_table m"
    "\<not> covers muldiv_table m"
    by (auto simp: covers_simps)
  then show ?thesis using c by (simp add: HiLo disassemble_def hilo_fields)
next
  case (BranchTwo m s t off)
  assume "encodable i"
  then have c: "covers branch2_table m" "take_bit 2 off = 0" using BranchTwo by auto
  have "m \<noteq> LUI" "\<not> covers alu3_table m" "\<not> covers shiftv_table m" "\<not> covers shifti_table m" "\<not> covers immop_table m"
    "\<not> covers muldiv_table m" "\<not> covers hilo_table m" using c(1) by (auto simp: covers_simps)
  then show ?thesis using c by (simp add: BranchTwo disassemble_def branch2_fields branch_off_def branch_bytes ucast_scast)
next
  case (BranchOne m s off)
  assume "encodable i"
  then have c: "covers branch1_table m" "take_bit 2 off = 0" using BranchOne by auto
  have "m \<noteq> LUI" "\<not> covers alu3_table m" "\<not> covers shiftv_table m" "\<not> covers shifti_table m" "\<not> covers immop_table m"
    "\<not> covers muldiv_table m" "\<not> covers hilo_table m" "\<not> covers branch2_table m" using c(1) by (auto simp: covers_simps)
  then show ?thesis using c by (simp add: BranchOne disassemble_def branch1_fields branch_off_def branch_bytes ucast_scast)
next
  case (Jump m addr)
  assume "encodable i"
  then have c: "covers jump_table m" "take_bit 2 addr = 0" "drop_bit 28 addr = 0" using Jump by auto
  have "m \<noteq> LUI" "\<not> covers alu3_table m" "\<not> covers shiftv_table m" "\<not> covers shifti_table m" "\<not> covers immop_table m"
    "\<not> covers muldiv_table m" "\<not> covers hilo_table m" "\<not> covers branch2_table m" "\<not> covers branch1_table m"
    using c(1) by (auto simp: covers_simps)
  moreover have "push_bit 2 (target (entry jump_table m addr)) = addr"
    by (simp only: jump_fields [OF c(1)] jump_bytes [OF c(2)] take_28 [OF c(3)])
  ultimately show ?thesis using c by (simp add: Jump disassemble_def jump_fields(1))
next
  case (Mem m t off s)
  assume "encodable i"
  then have c: "covers mem_table m" using Mem by auto
  then have "m \<notin> {LUI, JALR, JR, BREAK, SYSCALL}" "\<not> covers alu3_table m" "\<not> covers shiftv_table m" "\<not> covers shifti_table m"
    "\<not> covers immop_table m" "\<not> covers muldiv_table m" "\<not> covers hilo_table m" "\<not> covers branch2_table m"
    "\<not> covers branch1_table m" "\<not> covers jump_table m"
    by (auto simp: covers_simps)
  then show ?thesis using c by (simp add: Mem disassemble_def mem_fields ucast_scast)
next
  case (Cop0 m t n)
  assume "encodable i"
  then have c: "covers cop0_enc_table m" "unat n < 32" using Cop0 by auto
  have "m \<notin> {LUI, JALR, JR, BREAK, SYSCALL}" "\<not> covers alu3_table m" "\<not> covers shiftv_table m" "\<not> covers shifti_table m"
    "\<not> covers immop_table m" "\<not> covers muldiv_table m" "\<not> covers hilo_table m" "\<not> covers branch2_table m"
    "\<not> covers branch1_table m" "\<not> covers jump_table m" "\<not> covers mem_table m"
    using c(1) by (auto simp: covers_simps)
  moreover have "ucast (ucast n :: u32) = n" by (rule bit_word_eqI) (auto simp: bit_simps)
  ultimately show ?thesis using c by (simp add: Cop0 disassemble_def cop0_fields)
qed (auto simp: disassemble_def jumpreg_fields brk_fields covers_simps)

lemma logical_undecoded:
  "mnemonic (enc_andd d s t) = INVALID" "mnemonic (enc_orr d s t) = INVALID" "mnemonic (enc_xorr d s t) = INVALID"
  by (simp_all add: enc_andd_def enc_orr_def enc_xorr_def asm_simps mnemonic_special switch_def special_table_def)

lemma rfe_undecoded: "mnemonic enc_rfe = INVALID"
  by (simp add: mnemonic_def opcode_def rs_def switch_def decode_tables enc_rfe_def)

lemma undecoded_word: "mnemonic w = INVALID \<Longrightarrow> disassemble w = None"
  by (simp add: disassemble_def Let_def covers_simps)

interpretation asm: codec assemble "\<lambda>w. the (disassemble w)" encodable
  by unfold_locales (simp add: disassemble_assemble)

text \<open>
  C12: What the assembler writes, the decoder reads. For every instruction the assembler has a function for,
  other than the three-register AND, OR and XOR and RFE, with operands the word has room for (shift amounts and
  coprocessor registers below 32, branch offsets and jump targets on a word boundary), the mnemonic and the
  fields of the assembled word give the instruction back; so no two such instructions share an encoding. The
  words of the four exceptions are not known to the decoder.
\<close>

theorem assembler_roundtrip:
  assumes "encodable i"
  shows "disassemble (assemble i) = Some i \<and> (\<forall>j. encodable j \<and> assemble j = assemble i \<longrightarrow> j = i) \<and>
    disassemble (enc_andd d s t) = None \<and> disassemble (enc_orr d s t) = None \<and> disassemble (enc_xorr d s t) = None \<and>
    disassemble enc_rfe = None"
proof -
  have "j = i" if "encodable j" "assemble j = assemble i" for j
    using asm.enc_inj [OF that(1) assms] that(2) by simp
  then show ?thesis using disassemble_assemble [OF assms] undecoded_word [OF rfe_undecoded] logical_undecoded [THEN undecoded_word] by blast
qed

theorem assembler_roundtrip_witness:
  "disassemble (enc_addiu SP SP (- 32)) = Some (ImmOp ADDIU SP SP (- 32)) \<and>
   disassemble (enc_bne V0 R0 (- 8)) = Some (BranchTwo BNE V0 R0 (- 8))"
proof -
  have "entry immop_table ADDIU = enc_addiu" "entry branch2_table BNE = enc_bne"
    by (simp_all add: entry_def asm_tables)
  then show ?thesis
    using assembler_roundtrip [of "ImmOp ADDIU SP SP (- 32)"] assembler_roundtrip [of "BranchTwo BNE V0 R0 (- 8)"]
    by (simp add: covers_simps)
qed

text \<open>
  Branches and jumps go where they were assembled to. With a byte offset on a word boundary a branch at
  \<open>pc\<close> is decoded to \<open>pc + 4 + offset\<close>, for negative offsets too; a jump assembled with the address of a word
  in the 256 MiB region of \<open>pc\<close> is decoded to that address.
\<close>

theorem branch_and_jump_targets:
  "(covers branch2_table m \<and> take_bit 2 off = 0 \<longrightarrow>
      getBranchAddress pc (entry branch2_table m s t off) = pc + 4 + scast off) \<and>
   (covers branch1_table m \<and> take_bit 2 off = 0 \<longrightarrow>
      getBranchAddress pc (entry branch1_table m s off) = pc + 4 + scast off) \<and>
   (covers jump_table m \<and> take_bit 2 addr = 0 \<and> drop_bit 28 addr = drop_bit 28 pc \<longrightarrow>
      getJumpAddress pc (entry jump_table m addr) = addr)"
proof (intro conjI impI)
  assume a: "covers branch2_table m \<and> take_bit 2 off = 0"
  then have "m \<in> {BEQ, BNE, BGEZ, BGTZ, BLEZ, BLTZ, BGEZAL, BLTZAL}" by (auto simp: covers_simps)
  then show "getBranchAddress pc (entry branch2_table m s t off) = pc + 4 + scast off"
    using a by (simp only: getBranchAddress_def branch2_fields branch_bytes if_True) simp
next
  assume a: "covers branch1_table m \<and> take_bit 2 off = 0"
  then have "m \<in> {BEQ, BNE, BGEZ, BGTZ, BLEZ, BLTZ, BGEZAL, BLTZAL}" by (auto simp: covers_simps)
  then show "getBranchAddress pc (entry branch1_table m s off) = pc + 4 + scast off"
    using a by (simp only: getBranchAddress_def branch1_fields branch_bytes if_True) simp
next
  assume a: "covers jump_table m \<and> take_bit 2 addr = 0 \<and> drop_bit 28 addr = drop_bit 28 pc"
  then have m: "m = J \<or> m = JAL" by (auto simp: covers_simps)
  have "pc AND 0xf0000000 = push_bit 28 (drop_bit 28 pc)"
  proof -
    have m: "(0xf0000000 :: u32) = push_bit 28 (mask 4)" by (simp add: mask_eq_exp_minus_1)
    show ?thesis unfolding m by (rule bit_word_eqI) (auto simp: bit_simps)
  qed
  moreover have "push_bit 28 (drop_bit 28 pc) OR take_bit 28 addr = addr"
    by (simp only: conjunct2 [OF conjunct2 [OF a], symmetric]) (rule bit_word_eqI, auto simp: bit_simps)
  moreover have "push_bit 2 (target (entry jump_table m addr)) = take_bit 28 addr"
    using a by (simp only: jump_fields jump_bytes)
  ultimately show "getJumpAddress pc (entry jump_table m addr) = addr"
    using a m by (simp add: getJumpAddress_def jump_fields(1))
qed

theorem branch_and_jump_targets_witness:
  "getBranchAddress 0x80010000 (enc_beq V0 R0 (- 16)) = 0x8000fff4 \<and>
   getJumpAddress 0x80010000 (enc_jal 0x80012344) = 0x80012344"
proof -
  have "entry branch2_table BEQ = enc_beq" "entry jump_table JAL = enc_jal"
    by (simp_all add: entry_def asm_tables)
  then show ?thesis
    using branch_and_jump_targets [where m = BEQ and off = "- 16" and pc = "0x80010000" and s = V0 and t = R0]
      branch_and_jump_targets [where m = JAL and addr = "0x80012344" and pc = "0x80010000"]
    by (simp add: covers_simps)
qed

section \<open>Memory accesses\<close>

text \<open>The bytes of memory that a mask over the aligned word of an address selects.\<close>

definition lanes :: "u32 \<Rightarrow> u32 \<Rightarrow> nat set" where
  "lanes address msk = (\<lambda>k. unat address div 4 * 4 + k) ` set (filter (\<lambda>k. bit msk (8 * k)) [0, 1, 2, 3])"

lemma and_3_nat: "(w :: u32) AND 3 = of_nat (unat w mod 4)"
  by (simp add: word_unat_eq_iff unat_and_masks unat_of_nat)

lemma lane_at:
  assumes "unat (w :: u32) = 4 * q + k" and "k < 4"
  shows "by_lane w v0 v1 v2 v3 = [v0, v1, v2, v3] ! k"
    and "lanes w msk = (\<lambda>j. 4 * q + j) ` set (filter (\<lambda>j. bit msk (8 * j)) [0, 1, 2, 3])"
proof -
  have "unat w mod 4 = k" "unat w div 4 = q" using assms by simp_all
  then show "lanes w msk = (\<lambda>j. 4 * q + j) ` set (filter (\<lambda>j. bit msk (8 * j)) [0, 1, 2, 3])"
    by (simp only: lanes_def mult.commute)
  consider "k = 0" | "k = 1" | "k = 2" | "k = 3" using assms(2) by linarith
  then show "by_lane w v0 v1 v2 v3 = [v0, v1, v2, v3] ! k"
    using \<open>unat w mod 4 = k\<close> by cases (simp_all add: by_lane_def and_3_nat)
qed

lemma unat_plus_3: "unat (a :: u32) + 3 < 4294967296 \<Longrightarrow> unat (a + 3) = unat a + 3"
  using unat_plus_small [of a 3] by simp

text \<open>
  The masks of an unaligned load. The pair \<open>lwr\<close> at an address and \<open>lwl\<close> three bytes on selects, over
  the two aligned words, exactly the four bytes from that address, whatever its alignment.
\<close>

theorem unaligned_load_masks:
  assumes "mnemonic l = LWL" and "mnemonic r = LWR" and "getLoadAddress gpr r = a" and "getLoadAddress gpr l = a + 3"
    and "unat a + 3 < 2 ^ 32"
  shows "lanes (a + 3) (getLoadMask gpr l) \<union> lanes a (getLoadMask gpr r) = {unat a ..< unat a + 4}"
proof -
  have l: "getLoadMask gpr l = by_lane (a + 3) 0xff 0xffff 0xffffff 0xffffffff"
    and r: "getLoadMask gpr r = by_lane a 0xffffffff 0xffffff00 0xffff0000 0xff000000"
    using assms(1-4) by (simp_all add: getLoadMask_def getLoadAddress_def)
  define q where "q = unat a div 4"
  note u = unat_plus_3 [of a]
  have u3: "unat (a + 3) = unat a + 3" using u assms(5) by simp
  have "unat a = 4 * q + unat a mod 4" "unat a mod 4 < 4" by (simp_all add: q_def)
  then consider "unat a = 4 * q + 0" "unat (a + 3) = 4 * q + 3" | "unat a = 4 * q + 1" "unat (a + 3) = 4 * (q + 1) + 0"
    | "unat a = 4 * q + 2" "unat (a + 3) = 4 * (q + 1) + 1" | "unat a = 4 * q + 3" "unat (a + 3) = 4 * (q + 1) + 2"
    using u3 by fastforce
  then show ?thesis
    unfolding l r by cases (simp_all only: lane_at, auto)
qed

lemma addressed:
  assumes "covers mem_table m"
  shows "m \<in> {LB, LBU, LH, LHU, LW, LWL, LWR} \<Longrightarrow>
      getLoadAddress gpr (entry mem_table m t off s) = gpr_read gpr (reg_val s) + scast off"
    and "m \<in> {SB, SH, SW, SWL, SWR} \<Longrightarrow>
      getStoreAddress gpr (entry mem_table m t off s) = gpr_read gpr (reg_val s) + scast off"
  using mem_fields [OF assms, of t off s] by (auto simp: getLoadAddress_def getStoreAddress_def)

lemma mem_entries:
  "entry mem_table LWL = enc_lwl" "entry mem_table LWR = enc_lwr" "entry mem_table SWL = enc_swl"
  "entry mem_table SWR = enc_swr"
  by (simp_all add: entry_def mem_table_def)

lemmas mem_addressed = addressed [of LWL, unfolded mem_entries] addressed [of LWR, unfolded mem_entries]
  addressed [of SWL, unfolded mem_entries] addressed [of SWR, unfolded mem_entries]
  mem_fields(1) [of LWL, unfolded mem_entries] mem_fields(1) [of LWR, unfolded mem_entries]
  mem_fields(1) [of SWL, unfolded mem_entries] mem_fields(1) [of SWR, unfolded mem_entries]

theorem unaligned_load_masks_witness:
  "lanes 0x80000005 (getLoadMask (replicate 34 0x80000002) (enc_lwl V0 3 A0)) \<union>
   lanes 0x80000002 (getLoadMask (replicate 34 0x80000002) (enc_lwr V0 0 A0)) = {2147483650 ..< 2147483654}"
  using unaligned_load_masks [of "enc_lwl V0 3 A0" "enc_lwr V0 0 A0" "replicate 34 0x80000002" "0x80000002"]
  by (simp add: mem_addressed covers_simps gpr_read_def)

text \<open>
  The masks of an unaligned store are not those of the same bytes. For the pair \<open>swr\<close> at an address one
  past a word boundary and \<open>swl\<close> three bytes on, the masks select the byte before the address, the one at it
  and the one six past it, three bytes of the eight; read as masks over the register instead they select the
  same byte group twice and leave one of its four bytes out.
\<close>

theorem unaligned_store_masks:
  assumes "mnemonic l = SWL" and "mnemonic r = SWR" and "getStoreAddress gpr r = a" and "getStoreAddress gpr l = a + 3"
    and "unat a + 3 < 2 ^ 32" and "unat a mod 4 = 1"
  shows "lanes (a + 3) (getStoreMask gpr l) \<union> lanes a (getStoreMask gpr r) = {unat a - 1, unat a, unat a + 6} \<and>
    getStoreMask gpr l OR getStoreMask gpr r = 0xff00ffff"
proof -
  have l: "getStoreMask gpr l = by_lane (a + 3) 0xff000000 0xffff0000 0xffffff00 0xffffffff"
    and r: "getStoreMask gpr r = by_lane a 0xff 0xffff 0xffffff 0xffffffff"
    using assms(1-4) by (simp_all add: getStoreMask_def getStoreAddress_def)
  define q where "q = unat a div 4"
  have q: "unat a = 4 * q + 1" using assms(6) unfolding q_def by presburger
  have u: "unat (a + 3) = unat a + 3" using unat_plus_3 [of a] assms(5) by simp
  have l3: "unat (a + 3) = 4 * (q + 1) + 0" unfolding u q by simp
  have "{4 * (q + 1) + 3, 4 * q, 4 * q + 1} = {4 * q + 1 - 1, 4 * q + 1, 4 * q + 1 + 6}" by auto
  then show ?thesis unfolding l r by (simp add: lane_at [OF q] lane_at [OF l3] q insert_commute)
qed

theorem unaligned_store_masks_witness:
  "getStoreMask (replicate 34 0x80000001) (enc_swl V0 3 A0) OR
   getStoreMask (replicate 34 0x80000001) (enc_swr V0 0 A0) = 0xff00ffff"
  using unaligned_store_masks [of "enc_swl V0 3 A0" "enc_swr V0 0 A0" "replicate 34 0x80000001" "0x80000001"]
  by (simp add: mem_addressed covers_simps gpr_read_def)

section \<open>Where assembler and decoder disagree with the processor\<close>

lemma switch_in: "switch table k \<in> insert INVALID (snd ` set table)"
  by (auto simp: switch_def split: option.splits dest!: map_of_SomeD intro: image_eqI [rotated])

lemma no_logical:
  assumes "m \<in> {AND_op, OR_op, XOR_op}"
  shows "switch special_table k \<noteq> m" "switch regimm_table k \<noteq> m" "switch cop0_table k \<noteq> m"
    "switch cop2_table k \<noteq> m" "switch main_table k \<noteq> m"
proof -
  have "m \<notin> insert INVALID (snd ` set special_table)" "m \<notin> insert INVALID (snd ` set regimm_table)"
    "m \<notin> insert INVALID (snd ` set cop0_table)" "m \<notin> insert INVALID (snd ` set cop2_table)"
    "m \<notin> insert INVALID (snd ` set main_table)"
    using assms by (elim insertE emptyE; simp add: decode_tables)+
  then show "switch special_table k \<noteq> m" "switch regimm_table k \<noteq> m" "switch cop0_table k \<noteq> m"
    "switch cop2_table k \<noteq> m" "switch main_table k \<noteq> m"
    using switch_in by metis+
qed

text \<open>A word for each mnemonic.\<close>

definition mnemonic_words :: "(Mnemonic \<times> u32) list" where
  "mnemonic_words =
     map (\<lambda>(k, m). (m, k)) special_table @ map (\<lambda>(k, m). (m, push_bit 26 1 OR push_bit 16 k)) regimm_table @
     map (\<lambda>(k, m). (m, push_bit 26 k)) main_table @ map (\<lambda>(k, m). (m, push_bit 26 0x10 OR push_bit 21 k)) cop0_table @
     map (\<lambda>(k, m). (m, push_bit 26 0x12 OR push_bit 21 k)) cop2_table @ [(INVALID, 0x3f)]"

lemma words_listed:
  "map fst mnemonic_words =
    [ADD, ADDU, SUB, SUBU, SLT, SLTU, DIV, DIVU, MULT, MULTU, MFHI, MTHI, MFLO, MTLO, SLL, SRL,
     SRA, SLLV, SRLV, SRAV, NOR, JR, JALR, BREAK, SYSCALL, BGEZ, BGEZAL, BLTZ, BLTZAL, ADDI, ADDIU,
     SLTI, SLTIU, ANDI, ORI, XORI, J, JAL, BEQ, BNE, BGTZ, BLEZ, LB, LBU, LH, LHU, LUI, LW, LWL,
     LWR, SB, SH, SW, SWL, SWR, SWC2, LWC2, MFC0, MTC0, CFC0, CTC0, MFC2, MTC2, CFC2, CTC2, INVALID]"
  by (simp add: mnemonic_words_def decode_tables)

lemma words_decode: "(m, w) \<in> set mnemonic_words \<Longrightarrow> mnemonic w = m"
  unfolding mnemonic_words_def decode_tables
  by (simp, elim disjE conjE; simp add: mnemonic_def opcode_def funct_def rs_def rt_def switch_def decode_tables)

text \<open>
  C13: The range of the decoder. It never answers AND, OR or XOR, so the words the assembler makes for these
  three instructions, like any word it does not know, are INVALID; every other mnemonic it declares is the
  answer for some word.
\<close>

theorem mnemonic_range:
  "range mnemonic = UNIV - {AND_op, OR_op, XOR_op} \<and>
   mnemonic (enc_andd d s t) = INVALID \<and> mnemonic (enc_orr d s t) = INVALID \<and> mnemonic (enc_xorr d s t) = INVALID"
proof -
  define none where "none = {AND_op, OR_op, XOR_op}"
  have no: "mnemonic w \<notin> none" for w
    unfolding none_def
  proof
    assume "mnemonic w \<in> {AND_op, OR_op, XOR_op}"
    from no_logical [OF this] show False unfolding mnemonic_def by (metis (full_types))
  qed
  have all: "m \<in> range mnemonic" if m: "m \<notin> none" for m
  proof -
    have "m \<in> fst ` set mnemonic_words"
      using m unfolding set_map [symmetric] words_listed none_def by (cases m; simp)
    then show ?thesis using words_decode by force
  qed
  have "range mnemonic = UNIV - none"
    by (rule set_eqI, rule iffI) (use no all in \<open>simp_all only: Diff_iff UNIV_I image_iff simp_thms, metis\<close>)
  then show ?thesis using logical_undecoded by (simp only: none_def simp_thms)
qed

text \<open>
  \<open>mthi\<close> and \<open>mtlo\<close> name their register in the destination field. The processor reads the source field
  of these two instructions, which is zero in the assembled word whatever the register, so it moves the
  zero register.
\<close>

theorem mthi_ignores_register:
  "rs (enc_mthi r) = reg_val R0 \<and> rs (enc_mtlo r) = reg_val R0 \<and> rd (enc_mthi r) = reg_val r \<and> rd (enc_mtlo r) = reg_val r"
  by (simp add: encoders asm_simps)

end
