(* ===== verification/Events.thy ===== *)
theory Events
  imports Prelude
begin

text \<open>
  The event control blocks of OpenBIOS (\<open>openbios/kernel/events.c\<close>). The table is a list of records. An
  operation on a handle whose slot is past the end of the table reads and writes memory that is not an event;
  that is the result \<open>None\<close>. Event handlers are arbitrary functions; \<open>call\<close> says what each does to the table.
\<close>

section \<open>The table\<close>

definition EVENT_FLAG_FREE :: u32 where "EVENT_FLAG_FREE = 0x0000"
definition EVENT_FLAG_DISABLED :: u32 where "EVENT_FLAG_DISABLED = 0x1000"
definition EVENT_FLAG_ENABLED :: u32 where "EVENT_FLAG_ENABLED = 0x2000"
definition EVENT_FLAG_PENDING :: u32 where "EVENT_FLAG_PENDING = 0x4000"
definition EVENT_MODE_CALLBACK :: u32 where "EVENT_MODE_CALLBACK = 0x1000"
definition EVENT_MODE_NO_CALLBACK :: u32 where "EVENT_MODE_NO_CALLBACK = 0x2000"

lemmas event_flags = EVENT_FLAG_FREE_def EVENT_FLAG_DISABLED_def EVENT_FLAG_ENABLED_def EVENT_FLAG_PENDING_def

lemmas event_modes = EVENT_MODE_CALLBACK_def EVENT_MODE_NO_CALLBACK_def

record EventInfo =
  ev_class :: u32
  ev_flags :: u32
  ev_spec :: u32
  ev_mode :: u32
  ev_handler :: "nat option"          \<comment> \<open>\<open>None\<close> for a null pointer\<close>

type_synonym events = "EventInfo list"

text \<open>\<open>raw\<close> is the memory the kernel allocator returns, if it does.\<close>

definition initEvents :: "events option \<Rightarrow> nat \<Rightarrow> nat \<times> events option" where
  "initEvents raw count =
     (case raw of None \<Rightarrow> (0, None)
      | Some array \<Rightarrow> (count * 28, Some (map (\<lambda>e. e\<lparr>ev_flags := 0\<rparr>) (take count array) @ drop count array)))"

fun free_loop :: "events \<Rightarrow> int \<Rightarrow> int" where
  "free_loop [] slot = -1"
| "free_loop (e # es) slot = (if ev_flags e = EVENT_FLAG_FREE then slot else free_loop es (slot + 1))"

definition getFreeEvCBSlot :: "events \<Rightarrow> int" where
  "getFreeEvCBSlot evs = free_loop evs 0"

section \<open>The operations\<close>

definition openEvent :: "u32 \<Rightarrow> u32 \<Rightarrow> u32 \<Rightarrow> nat option \<Rightarrow> events \<Rightarrow> u32 \<times> events" where
  "openEvent cls spec mode handler evs =
     (let slot = getFreeEvCBSlot evs
      in if slot = -1 then (-1, evs)
         else (word_of_int slot OR 0xf1000000,
               evs[nat slot := (evs ! nat slot)\<lparr>ev_class := cls, ev_spec := spec, ev_mode := mode,
                     ev_flags := EVENT_FLAG_DISABLED, ev_handler := handler\<rparr>]))"

fun deliver_loop ::
  "(nat \<Rightarrow> events \<Rightarrow> events) \<Rightarrow> u32 \<Rightarrow> u32 \<Rightarrow> nat \<Rightarrow> nat \<Rightarrow> events \<Rightarrow> events"
where
  "deliver_loop call cls spec i 0 evs = evs"
| "deliver_loop call cls spec i (Suc left) evs =
     (let e = evs ! i;
          evs = (if ev_flags e = EVENT_FLAG_ENABLED \<and> cls = ev_class e \<and> spec = ev_spec e
                 then if ev_mode e = EVENT_MODE_NO_CALLBACK then evs[i := e\<lparr>ev_flags := EVENT_FLAG_PENDING\<rparr>]
                      else if ev_mode e = EVENT_MODE_CALLBACK
                      then (case ev_handler e of None \<Rightarrow> evs | Some h \<Rightarrow> call h evs)
                      else evs
                 else evs)
      in deliver_loop call cls spec (Suc i) left evs)"

definition deliverEvent :: "(nat \<Rightarrow> events \<Rightarrow> events) \<Rightarrow> u32 \<Rightarrow> u32 \<Rightarrow> events \<Rightarrow> events" where
  "deliverEvent call cls spec evs = deliver_loop call cls spec 0 (length evs) evs"

text \<open>The slot of a handle, and an operation on its entry.\<close>

definition slot_of :: "u32 \<Rightarrow> nat" where
  "slot_of event = unat (event AND 0xffff)"

definition on_event :: "(EventInfo \<Rightarrow> nat \<times> EventInfo) \<Rightarrow> u32 \<Rightarrow> events \<Rightarrow> (nat \<times> events) option" where
  "on_event f event evs =
     (let i = slot_of event
      in if i < length evs then Some (fst (f (evs ! i)), evs[i := snd (f (evs ! i))]) else None)"

definition enableEvent :: "u32 \<Rightarrow> events \<Rightarrow> (nat \<times> events) option" where
  "enableEvent = on_event (\<lambda>e. (1, if ev_flags e \<noteq> 0 then e\<lparr>ev_flags := EVENT_FLAG_ENABLED\<rparr> else e))"

definition disableEvent :: "u32 \<Rightarrow> events \<Rightarrow> (nat \<times> events) option" where
  "disableEvent = on_event (\<lambda>e. (1, if ev_flags e \<noteq> 0 then e\<lparr>ev_flags := EVENT_FLAG_DISABLED\<rparr> else e))"

definition closeEvent :: "u32 \<Rightarrow> events \<Rightarrow> (nat \<times> events) option" where
  "closeEvent = on_event (\<lambda>e. (1, e\<lparr>ev_flags := EVENT_FLAG_FREE\<rparr>))"

primrec undeliverEvent :: "u32 \<Rightarrow> u32 \<Rightarrow> events \<Rightarrow> events" where
  "undeliverEvent cls spec [] = []"
| "undeliverEvent cls spec (e # es) =
     (if ev_flags e = EVENT_FLAG_PENDING \<and> cls = ev_class e \<and> spec = ev_spec e \<and> ev_mode e = EVENT_MODE_NO_CALLBACK
      then e\<lparr>ev_flags := EVENT_FLAG_ENABLED\<rparr> else e) # undeliverEvent cls spec es"

definition testEvent :: "u32 \<Rightarrow> events \<Rightarrow> (nat \<times> events) option" where
  "testEvent = on_event (\<lambda>e. if ev_flags e = EVENT_FLAG_PENDING then (1, e\<lparr>ev_flags := EVENT_FLAG_ENABLED\<rparr>) else (0, e))"

text \<open>
  The wait reads the flag again and again while interrupts change the table: \<open>irq i\<close> is what happens between
  its \<open>i\<close>-th read and the next. \<open>None\<close> is a wait that never ends.
\<close>

partial_function (option) wait_spin :: "(nat \<Rightarrow> events \<Rightarrow> events) \<Rightarrow> nat \<Rightarrow> nat \<Rightarrow> events \<Rightarrow> events option" where
  "wait_spin irq slot i evs =
     (if ev_flags (evs ! slot) = EVENT_FLAG_PENDING then Some evs else wait_spin irq slot (Suc i) (irq i evs))"

definition waitEvent :: "(nat \<Rightarrow> events \<Rightarrow> events) \<Rightarrow> u32 \<Rightarrow> events \<Rightarrow> (nat \<times> events) option" where
  "waitEvent irq event evs =
     (let slot = slot_of event; wake = (\<lambda>evs. evs[slot := (evs ! slot)\<lparr>ev_flags := EVENT_FLAG_ENABLED\<rparr>])
      in if \<not> slot < length evs then None
         else if ev_flags (evs ! slot) = EVENT_FLAG_PENDING then Some (1, wake evs)
         else if ev_flags (evs ! slot) = EVENT_FLAG_ENABLED
         then (case wait_spin irq slot 0 evs of None \<Rightarrow> None | Some evs \<Rightarrow> Some (1, wake evs))
         else Some (0, evs))"

section \<open>Opening\<close>

lemma free_loop_cases:
  "free_loop evs slot = -1 \<and> (\<forall>e \<in> set evs. ev_flags e \<noteq> EVENT_FLAG_FREE) \<or>
   (\<exists>i < length evs. free_loop evs slot = slot + int i \<and> ev_flags (evs ! i) = EVENT_FLAG_FREE \<and>
      (\<forall>j < i. ev_flags (evs ! j) \<noteq> EVENT_FLAG_FREE))"
proof (induction evs arbitrary: slot)
  case (Cons e es)
  show ?case
  proof (cases "ev_flags e = EVENT_FLAG_FREE")
    case False
    from Cons [of "slot + 1"] show ?thesis
    proof (elim disjE exE conjE)
      fix i assume i: "i < length es" "free_loop es (slot + 1) = slot + 1 + int i" "ev_flags (es ! i) = EVENT_FLAG_FREE"
        "\<forall>j<i. ev_flags (es ! j) \<noteq> EVENT_FLAG_FREE"
      have "\<forall>j<Suc i. ev_flags ((e # es) ! j) \<noteq> EVENT_FLAG_FREE"
        using i(4) False by (auto simp: less_Suc_eq_0_disj)
      then show ?thesis using i(1-3) False by (intro disjI2 exI [of _ "Suc i"]) simp
    qed (use False in simp)
  qed (intro disjI2 exI [of _ 0], simp)
qed simp

lemma free_slot_cases:
  "getFreeEvCBSlot evs = -1 \<and> (\<forall>e \<in> set evs. ev_flags e \<noteq> EVENT_FLAG_FREE) \<or>
   (\<exists>i < length evs. getFreeEvCBSlot evs = int i \<and> ev_flags (evs ! i) = EVENT_FLAG_FREE \<and>
      (\<forall>j < i. ev_flags (evs ! j) \<noteq> EVENT_FLAG_FREE))"
  using free_loop_cases [of evs 0] by (simp add: getFreeEvCBSlot_def)

lemma handle_slot: "i < 65536 \<Longrightarrow> slot_of (word_of_int (int i) OR 0xf1000000) = i"
proof -
  assume i: "i < 65536"
  have "(word_of_int (int i) OR 0xf1000000 :: u32) AND 0xffff = take_bit 16 (of_nat i)"
    by (rule bit_word_eqI) (auto simp: and_0xffff bit_simps)
  then show ?thesis using i by (simp add: slot_of_def unat_take_bit unat_of_nat)
qed

text \<open>
  Opening an event. It fails, with -1 and no change, exactly when no entry is free. Otherwise it takes
  the lowest free entry, disabled and with the fields asked for, leaves the others alone, and returns a
  handle that leads back to that entry.
\<close>

theorem openEvent_correct:
  assumes "length evs \<le> 65536"
  shows "case openEvent cls spec mode handler evs of (h, evs') \<Rightarrow>
     (\<forall>e \<in> set evs. ev_flags e \<noteq> EVENT_FLAG_FREE) \<and> h = -1 \<and> evs' = evs \<or>
     (\<exists>i < length evs. ev_flags (evs ! i) = EVENT_FLAG_FREE \<and> (\<forall>j < i. ev_flags (evs ! j) \<noteq> EVENT_FLAG_FREE) \<and>
        h \<noteq> -1 \<and> slot_of h = i \<and> length evs' = length evs \<and> (\<forall>j. j \<noteq> i \<longrightarrow> evs' ! j = evs ! j) \<and>
        evs' ! i = \<lparr>ev_class = cls, ev_flags = EVENT_FLAG_DISABLED, ev_spec = spec, ev_mode = mode,
                    ev_handler = handler\<rparr>)"
  using free_slot_cases [of evs]
proof (elim disjE exE conjE)
  fix i assume i: "i < length evs" "getFreeEvCBSlot evs = int i" "ev_flags (evs ! i) = EVENT_FLAG_FREE"
    "\<forall>j<i. ev_flags (evs ! j) \<noteq> EVENT_FLAG_FREE"
  have h: "slot_of (word_of_int (int i) OR 0xf1000000) = i" using handle_slot i(1) assms by simp
  have "word_of_int (int i) OR 0xf1000000 \<noteq> (-1 :: u32)"
  proof
    assume "word_of_int (int i) OR 0xf1000000 = (-1 :: u32)"
    then have "bit (word_of_int (int i) OR 0xf1000000 :: u32) 17 = bit (-1 :: u32) 17" by simp
    moreover have "\<not> bit (int i) 17" using i(1) assms by (simp add: bit_iff_odd)
    ultimately show False by (simp add: bit_simps)
  qed
  then show ?thesis using i h by (auto simp: openEvent_def)
qed (auto simp: openEvent_def)

theorem openEvent_correct_witness:
  "slot_of (fst (openEvent 0xf0000003 0x20 EVENT_MODE_NO_CALLBACK None
      [\<lparr>ev_class = 0, ev_flags = EVENT_FLAG_DISABLED, ev_spec = 0, ev_mode = 0, ev_handler = None\<rparr>,
       \<lparr>ev_class = 0, ev_flags = EVENT_FLAG_FREE, ev_spec = 0, ev_mode = 0, ev_handler = None\<rparr>])) = 1"
  using openEvent_correct [of "[\<lparr>ev_class = 0, ev_flags = EVENT_FLAG_DISABLED, ev_spec = 0, ev_mode = 0, ev_handler = None\<rparr>,
       \<lparr>ev_class = 0, ev_flags = EVENT_FLAG_FREE, ev_spec = 0, ev_mode = 0, ev_handler = None\<rparr>]"
      "0xf0000003" "0x20" EVENT_MODE_NO_CALLBACK None]
  by (auto simp: event_flags less_Suc_eq split: prod.splits)

section \<open>Delivering\<close>

text \<open>What a delivery does to one entry.\<close>

definition delivered :: "u32 \<Rightarrow> u32 \<Rightarrow> EventInfo \<Rightarrow> EventInfo" where
  "delivered cls spec e =
     (if ev_flags e = EVENT_FLAG_ENABLED \<and> cls = ev_class e \<and> spec = ev_spec e \<and> ev_mode e = EVENT_MODE_NO_CALLBACK
      then e\<lparr>ev_flags := EVENT_FLAG_PENDING\<rparr> else e)"

text \<open>An entry that no handler touches.\<close>

definition untouched :: "(nat \<Rightarrow> events \<Rightarrow> events) \<Rightarrow> nat \<Rightarrow> bool" where
  "untouched call j \<longleftrightarrow> (\<forall>h evs. length (call h evs) = length evs \<and> call h evs ! j = evs ! j)"

lemma deliver_loop_nth:
  assumes "untouched call j"
  shows "i + left = length evs \<Longrightarrow> length (deliver_loop call cls spec i left evs) = length evs \<and>
    deliver_loop call cls spec i left evs ! j = (if i \<le> j \<and> j < length evs then delivered cls spec (evs ! j) else evs ! j)"
proof (induction left arbitrary: i evs)
  case (Suc left)
  define e where "e = evs ! i"
  define evs' where "evs' = (if ev_flags e = EVENT_FLAG_ENABLED \<and> cls = ev_class e \<and> spec = ev_spec e
     then if ev_mode e = EVENT_MODE_NO_CALLBACK then evs[i := e\<lparr>ev_flags := EVENT_FLAG_PENDING\<rparr>]
          else if ev_mode e = EVENT_MODE_CALLBACK
          then (case ev_handler e of None \<Rightarrow> evs | Some h \<Rightarrow> call h evs)
          else evs
     else evs)"
  have "length evs' = length evs"
    using assms by (auto simp: evs'_def untouched_def split: option.splits)
  moreover have "evs' ! j = (if j = i then delivered cls spec (evs ! j) else evs ! j)"
    using assms Suc.prems
    by (auto simp: evs'_def untouched_def e_def delivered_def event_modes split: option.splits)
  ultimately show ?case
    using Suc.IH [of "Suc i" evs'] Suc.prems
    by (auto simp: Let_def e_def [symmetric] evs'_def [symmetric] Suc_le_eq)
qed auto

lemma deliverEvent_nth:
  assumes "untouched call j"
  shows "length (deliverEvent call cls spec evs) = length evs"
    and "j < length evs \<Longrightarrow> deliverEvent call cls spec evs ! j = delivered cls spec (evs ! j)"
  using deliver_loop_nth [OF assms, of 0 "length evs" evs cls spec] by (simp_all add: deliverEvent_def)

text \<open>An event for the witnesses.\<close>

definition done_event :: EventInfo where
  "done_event = \<lparr>ev_class = 0xf0000003, ev_flags = EVENT_FLAG_ENABLED, ev_spec = 0x20, ev_mode = EVENT_MODE_NO_CALLBACK,
     ev_handler = None\<rparr>"

lemma untouched_id [simp]: "untouched (\<lambda>h evs. evs) j"
  by (simp add: untouched_def)

lemma slot_of_first [simp]: "slot_of 0xf1000000 = 0"
  by (simp add: slot_of_def)

text \<open>
  C14: A delivery is seen once. When the handlers it runs leave the tested event's own entry alone (they may do anything
  to the others), then after a delivery, testing an event answers 1 exactly when it was already
  pending, or enabled, of that class and specification and without callback; a second test then answers 0 and
  changes nothing, and after a positive answer the event is enabled again, ready for the next delivery.
\<close>

theorem delivery_seen_once:
  assumes "slot_of event < length evs" and "untouched call (slot_of event)"
  shows "\<exists>r evs'. testEvent event (deliverEvent call cls spec evs) = Some (r, evs') \<and>
    (r = 1 \<longleftrightarrow> (let e = evs ! slot_of event
               in ev_flags e = EVENT_FLAG_PENDING \<or>
                  ev_flags e = EVENT_FLAG_ENABLED \<and> ev_mode e = EVENT_MODE_NO_CALLBACK \<and> ev_class e = cls \<and> ev_spec e = spec)) \<and>
    (r = 1 \<longrightarrow> ev_flags (evs' ! slot_of event) = EVENT_FLAG_ENABLED) \<and>
    testEvent event evs' = Some (0, evs')"
proof -
  have "list_update evs' j (evs' ! j) = evs'" for evs' :: events and j by (simp add: list_update_id)
  then show ?thesis
    using assms(1) deliverEvent_nth [OF assms(2), where cls = cls and spec = spec and evs = evs]
    by (auto simp: testEvent_def on_event_def Let_def delivered_def event_flags)
qed

theorem delivery_seen_once_witness:
  "\<exists>evs'. testEvent 0xf1000000 (deliverEvent (\<lambda>h evs. evs) 0xf0000003 0x20 [done_event]) = Some (1, evs') \<and>
     testEvent 0xf1000000 evs' = Some (0, evs')"
  using delivery_seen_once [where event = "0xf1000000" and evs = "[done_event]" and call = "\<lambda>h evs. evs"
      and cls = "0xf0000003" and spec = "0x20"]
  by (auto simp: done_event_def event_flags)

section \<open>Taking back a delivery\<close>

definition undelivered :: "u32 \<Rightarrow> u32 \<Rightarrow> EventInfo \<Rightarrow> EventInfo" where
  "undelivered cls spec e =
     (if ev_flags e = EVENT_FLAG_PENDING \<and> cls = ev_class e \<and> spec = ev_spec e \<and> ev_mode e = EVENT_MODE_NO_CALLBACK
      then e\<lparr>ev_flags := EVENT_FLAG_ENABLED\<rparr> else e)"

lemma undeliverEvent_map: "undeliverEvent cls spec evs = map (undelivered cls spec) evs"
  by (induction evs) (simp_all add: undelivered_def)

text \<open>
  Taking back a delivery undoes it and nothing else: on an entry no handler touches, delivering and then
  taking back gives what taking back alone gives, a test of an event of that class and specification then
  answers 0, and the entries of other classes or specifications are as they were.
\<close>

theorem undeliver_undoes:
  assumes "slot_of event < length evs" and "untouched call (slot_of event)" and "e = evs ! slot_of event"
  shows "undeliverEvent cls spec (deliverEvent call cls spec evs) ! slot_of event =
       undeliverEvent cls spec evs ! slot_of event \<and>
    (ev_class e = cls \<and> ev_spec e = spec \<and> ev_mode e = EVENT_MODE_NO_CALLBACK \<longrightarrow>
       map_option fst (testEvent event (undeliverEvent cls spec evs)) = Some 0) \<and>
    (\<not> (ev_class e = cls \<and> ev_spec e = spec) \<longrightarrow> undeliverEvent cls spec evs ! slot_of event = e)"
  using assms deliverEvent_nth [OF assms(2), where cls = cls and spec = spec and evs = evs]
  by (auto simp: undeliverEvent_map testEvent_def on_event_def Let_def delivered_def undelivered_def event_flags)

theorem undeliver_undoes_witness:
  "undeliverEvent 0xf0000003 0x20 (deliverEvent (\<lambda>h evs. evs) 0xf0000003 0x20 [done_event]) ! 0 =
     undeliverEvent 0xf0000003 0x20 [done_event] ! 0"
  using undeliver_undoes [where event = "0xf1000000" and evs = "[done_event]" and call = "\<lambda>h evs. evs"
      and cls = "0xf0000003" and spec = "0x20" and e = done_event]
  by simp

section \<open>Waiting\<close>

text \<open>The table after a number of reads.\<close>

primrec after :: "(nat \<Rightarrow> events \<Rightarrow> events) \<Rightarrow> nat \<Rightarrow> events \<Rightarrow> events" where
  "after irq 0 evs = evs"
| "after irq (Suc n) evs = irq n (after irq n evs)"

lemma wait_spin_reaches:
  "\<forall>k < n. ev_flags (after irq k evs ! slot) \<noteq> EVENT_FLAG_PENDING \<Longrightarrow> m \<le> n \<Longrightarrow>
   wait_spin irq slot m (after irq m evs) = wait_spin irq slot n (after irq n evs)"
proof (induction "n - m" arbitrary: m)
  case (Suc d)
  then have "ev_flags (after irq m evs ! slot) \<noteq> EVENT_FLAG_PENDING" "m < n" by auto
  then have "wait_spin irq slot m (after irq m evs) = wait_spin irq slot (Suc m) (after irq (Suc m) evs)"
    by (subst wait_spin.simps) simp
  then show ?case using Suc.hyps(1) [of "Suc m"] Suc.hyps(2) Suc.prems \<open>m < n\<close> by simp
qed simp

lemma wait_spin_stops:
  assumes "wait_spin irq slot m evs0 = Some evs'"
  shows "evs0 = after irq m evs \<Longrightarrow> \<exists>k\<ge>m. ev_flags (after irq k evs ! slot) = EVENT_FLAG_PENDING"
proof (rule wait_spin.raw_induct [OF _ assms, where P = "\<lambda>irq slot m evs0 r.
      \<forall>evs. evs0 = after irq m evs \<longrightarrow> (\<exists>k\<ge>m. ev_flags (after irq k evs ! slot) = EVENT_FLAG_PENDING)", rule_format])
  fix w irq slot i evs r evs1
  assume h: "\<And>irq slot i evs0 r evs. w irq slot i evs0 = Some r \<Longrightarrow> evs0 = after irq i evs \<Longrightarrow>
      \<exists>k\<ge>i. ev_flags (after irq k evs ! slot) = EVENT_FLAG_PENDING"
    and r: "(if ev_flags (evs ! slot) = EVENT_FLAG_PENDING then Some evs else w irq slot (Suc i) (irq i evs)) = Some r"
    and e: "evs = after irq i evs1"
  show "\<exists>k\<ge>i. ev_flags (after irq k evs1 ! slot) = EVENT_FLAG_PENDING"
  proof (cases "ev_flags (evs ! slot) = EVENT_FLAG_PENDING")
    case False
    then have "w irq slot (Suc i) (irq i evs) = Some r" using r by simp
    from h [OF this, of evs1] show ?thesis using e by (auto intro: Suc_leD)
  qed (use e in blast)
qed

text \<open>
  Waiting. On an event that is pending the wait returns 1 at once; on one that is neither pending nor
  enabled it returns 0 at once; on an enabled one it returns exactly if the interrupts that come in ever make
  it pending, and then with 1, on the table as it is at that moment, the event enabled again.
\<close>

theorem waitEvent_correct:
  assumes "slot_of event < length evs"
  shows "if ev_flags (evs ! slot_of event) = EVENT_FLAG_PENDING \<or> ev_flags (evs ! slot_of event) = EVENT_FLAG_ENABLED
    then (case waitEvent irq event evs of
            None \<Rightarrow> \<forall>k. ev_flags (after irq k evs ! slot_of event) \<noteq> EVENT_FLAG_PENDING
          | Some (r, evs') \<Rightarrow> r = 1 \<and>
              (\<exists>k. ev_flags (after irq k evs ! slot_of event) = EVENT_FLAG_PENDING \<and>
                   (\<forall>i<k. ev_flags (after irq i evs ! slot_of event) \<noteq> EVENT_FLAG_PENDING) \<and>
                   evs' = (after irq k evs)[slot_of event :=
                             (after irq k evs ! slot_of event)\<lparr>ev_flags := EVENT_FLAG_ENABLED\<rparr>]))
    else waitEvent irq event evs = Some (0, evs)"
proof (cases "ev_flags (evs ! slot_of event) = EVENT_FLAG_ENABLED")
  case True
  define slot where "slot = slot_of event"
  show ?thesis
  proof (cases "\<exists>k. ev_flags (after irq k evs ! slot) = EVENT_FLAG_PENDING")
    case ex: True
    define k where "k = (LEAST k. ev_flags (after irq k evs ! slot) = EVENT_FLAG_PENDING)"
    have k: "ev_flags (after irq k evs ! slot) = EVENT_FLAG_PENDING"
      "\<forall>i<k. ev_flags (after irq i evs ! slot) \<noteq> EVENT_FLAG_PENDING"
      using LeastI_ex [OF ex] not_less_Least unfolding k_def by blast+
    have "wait_spin irq slot 0 evs = Some (after irq k evs)"
      using wait_spin_reaches [OF k(2), of 0] k(1) by (simp add: wait_spin.simps)
    then show ?thesis
      using True assms k by (auto simp: waitEvent_def slot_def [symmetric] event_flags)
  next
    case False
    then have "wait_spin irq slot 0 evs = None"
      using wait_spin_stops [of irq slot 0 evs _ evs] by (cases "wait_spin irq slot 0 evs") auto
    then show ?thesis
      using True assms False by (auto simp: waitEvent_def slot_def [symmetric] event_flags)
  qed
next
  case False
  then show ?thesis using assms
    by (cases "ev_flags (evs ! slot_of event) = EVENT_FLAG_PENDING")
      (auto simp: waitEvent_def Let_def event_flags intro: exI [of _ "0::nat"])
qed

theorem waitEvent_correct_witness:
  "waitEvent (\<lambda>i evs. evs) 0xf1000000 [done_event] = None"
proof -
  have "after (\<lambda>i evs. evs) k evs = evs" for k evs by (induction k) simp_all
  then show ?thesis
    using waitEvent_correct [where event = "0xf1000000" and evs = "[done_event]" and irq = "\<lambda>i evs. evs"]
    by (auto simp: done_event_def event_flags split: option.splits)
qed

end
