(* ===== verification/Threads.thy ===== *)
theory Threads
  imports Prelude
begin

text \<open>
  The thread control blocks of OpenBIOS (\<open>openbios/kernel/threads.c\<close>), with the same convention for slots past
  the end of the table as the events. Only the registers the code writes are named; the others are one opaque
  field. The context switch itself is assembly and a parameter of no definition here.
\<close>

record Thread =
  th_flags :: u32
  th_flags2 :: u32
  th_sp :: u32
  th_fp :: u32
  th_gp :: u32
  th_returnPC :: u32
  th_others :: "u32 list"

record thread_globals =
  processes :: "nat option list"        \<comment> \<open>the thread each process runs\<close>
  threads :: "Thread list"
  processBlockSize :: nat
  threadBlockSize :: nat

text \<open>\<open>procs\<close> and \<open>raw\<close> are what the kernel allocator returns, \<open>None\<close> when it is out of memory.\<close>

definition initThreads ::
  "nat option list option \<Rightarrow> Thread list option \<Rightarrow> nat \<Rightarrow> nat \<Rightarrow> thread_globals \<Rightarrow> nat \<times> thread_globals"
where
  "initThreads procs raw processCount threadCount g =
     (let g = g\<lparr>processBlockSize := processCount * 4\<rparr>
      in case procs of None \<Rightarrow> (0, g)
         | Some process \<Rightarrow>
             let g = g\<lparr>threadBlockSize := threadCount * 192\<rparr>
             in case raw of None \<Rightarrow> (0, g)
                | Some ts \<Rightarrow>
                    let process = map (\<lambda>p. None) process;
                        ts = map (\<lambda>t. t\<lparr>th_flags := 0x1000\<rparr>) ts;
                        ts = ts[0 := (ts ! 0)\<lparr>th_flags := 0x4000\<rparr>];
                        process = process[0 := Some 0]
                    in (processCount * 4 + threadCount * 192, g\<lparr>processes := process, threads := ts\<rparr>))"

fun free_tcb :: "Thread list \<Rightarrow> int \<Rightarrow> int" where
  "free_tcb [] i = -1"
| "free_tcb (t # ts) i = (if th_flags t = 0x1000 then i else free_tcb ts (i + 1))"

definition getFreeTCBslot :: "thread_globals \<Rightarrow> int" where
  "getFreeTCBslot g = free_tcb (take (threadBlockSize g div 192) (threads g)) 0"

definition openThread :: "u32 \<Rightarrow> u32 \<Rightarrow> u32 \<Rightarrow> thread_globals \<Rightarrow> u32 \<times> thread_globals" where
  "openThread pc sp gp g =
     (let slot = getFreeTCBslot g
      in if slot = -1 then (-1, g)
         else (word_of_int slot OR 0xff000000,
               g\<lparr>threads := (threads g)[nat slot := (threads g ! nat slot)
                  \<lparr>th_flags := 0x4000, th_flags2 := 0x1000, th_sp := sp, th_fp := sp, th_returnPC := pc, th_gp := gp\<rparr>]\<rparr>))"

definition closeThread :: "u32 \<Rightarrow> thread_globals \<Rightarrow> (nat \<times> thread_globals) option" where
  "closeThread threadId g =
     (let i = unat (threadId AND 0xffff)
      in if i < length (threads g)
         then Some (1, g\<lparr>threads := (threads g)[i := (threads g ! i)\<lparr>th_flags := 0x1000\<rparr>]\<rparr>)
         else None)"

section \<open>Opening and closing\<close>

definition threads_ok :: "thread_globals \<Rightarrow> bool" where
  "threads_ok g \<longleftrightarrow> threadBlockSize g = length (threads g) * 192 \<and> length (threads g) \<le> 65536"

lemma free_tcb_cases:
  "free_tcb ts i = -1 \<and> (\<forall>t \<in> set ts. th_flags t \<noteq> 0x1000) \<or>
   (\<exists>k < length ts. free_tcb ts i = i + int k \<and> th_flags (ts ! k) = 0x1000 \<and> (\<forall>j < k. th_flags (ts ! j) \<noteq> 0x1000))"
proof (induction ts arbitrary: i)
  case (Cons t ts)
  show ?case
  proof (cases "th_flags t = 0x1000")
    case False
    from Cons [of "i + 1"] show ?thesis
    proof (elim disjE exE conjE)
      fix k assume k: "k < length ts" "free_tcb ts (i + 1) = i + 1 + int k" "th_flags (ts ! k) = 0x1000"
        "\<forall>j<k. th_flags (ts ! j) \<noteq> 0x1000"
      have "\<forall>j<Suc k. th_flags ((t # ts) ! j) \<noteq> 0x1000" using k(4) False by (auto simp: less_Suc_eq_0_disj)
      then show ?thesis using k(1-3) False by (intro disjI2 exI [of _ "Suc k"]) simp
    qed (use False in simp)
  qed (intro disjI2 exI [of _ 0], simp)
qed simp

lemma thread_slot:
  assumes "i < 65536"
  shows "unat ((word_of_int (int i) OR 0xff000000 :: u32) AND 0xffff) = i"
proof -
  have "(word_of_int (int i) OR 0xff000000 :: u32) AND 0xffff = take_bit 16 (of_nat i)"
    by (rule bit_word_eqI) (auto simp: and_0xffff bit_simps)
  then show ?thesis using assms by (simp add: unat_take_bit unat_of_nat)
qed

text \<open>
  Threads are opened and closed in step. Opening fails, with -1 and no change, exactly when no block is
  free; otherwise it takes the lowest free block, sets its program counter, stack, frame and global pointers,
  and returns a handle with which closing frees that block again, all else in the table as it was before
  the opening.
\<close>

theorem open_close_thread:
  assumes "threads_ok g"
  shows "case openThread pc sp gp g of (h, g') \<Rightarrow>
     (\<forall>t \<in> set (threads g). th_flags t \<noteq> 0x1000) \<and> h = -1 \<and> g' = g \<or>
     (\<exists>i < length (threads g). th_flags (threads g ! i) = 0x1000 \<and> (\<forall>j < i. th_flags (threads g ! j) \<noteq> 0x1000) \<and>
        th_flags (threads g' ! i) = 0x4000 \<and> th_returnPC (threads g' ! i) = pc \<and> th_sp (threads g' ! i) = sp \<and>
        th_fp (threads g' ! i) = sp \<and> th_gp (threads g' ! i) = gp \<and> threads_ok g' \<and>
        (\<forall>j. j \<noteq> i \<longrightarrow> threads g' ! j = threads g ! j) \<and>
        (\<exists>g''. closeThread h g' = Some (1, g'') \<and> th_flags (threads g'' ! i) = 0x1000 \<and>
           threads g'' = (threads g)[i := threads g'' ! i]))"
proof -
  have all: "take (threadBlockSize g div 192) (threads g) = threads g" using assms by (simp add: threads_ok_def)
  show ?thesis using free_tcb_cases [of "threads g" 0]
  proof (elim disjE exE conjE)
    fix i assume i: "i < length (threads g)" "free_tcb (threads g) 0 = 0 + int i" "th_flags (threads g ! i) = 0x1000"
      "\<forall>j<i. th_flags (threads g ! j) \<noteq> 0x1000"
    have h: "unat ((word_of_int (int i) OR 0xff000000 :: u32) AND 0xffff) = i"
      using thread_slot i(1) assms by (simp add: threads_ok_def)
    define t where "t = (threads g ! i)\<lparr>th_flags := 0x4000, th_flags2 := 0x1000, th_sp := sp, th_fp := sp,
      th_returnPC := pc, th_gp := gp\<rparr>"
    have o: "openThread pc sp gp g = (word_of_int (int i) OR 0xff000000, g\<lparr>threads := (threads g)[i := t]\<rparr>)"
      using i all by (simp add: openThread_def getFreeTCBslot_def t_def)
    show ?thesis
      unfolding o prod.case
      using i h assms by (intro disjI2 exI [of _ i]) (simp add: closeThread_def threads_ok_def t_def)
  qed (simp add: openThread_def getFreeTCBslot_def all)
qed

theorem open_close_thread_witness:
  "fst (openThread 0x80010000 0x801ffff0 0 \<lparr>processes = [Some 0],
     threads = [\<lparr>th_flags = 0x4000, th_flags2 = 0, th_sp = 0, th_fp = 0, th_gp = 0, th_returnPC = 0, th_others = []\<rparr>],
     processBlockSize = 4, threadBlockSize = 192\<rparr>) = -1"
  using open_close_thread [where g = "\<lparr>processes = [Some 0],
     threads = [\<lparr>th_flags = 0x4000, th_flags2 = 0, th_sp = 0, th_fp = 0, th_gp = 0, th_returnPC = 0, th_others = []\<rparr>],
     processBlockSize = 4, threadBlockSize = 192\<rparr>" and pc = "0x80010000" and sp = "0x801ffff0" and gp = 0]
  by (auto simp: threads_ok_def split: prod.splits)

end
