(* ===== verification/Cdrom_Machine.thy ===== *)
theory Cdrom_Machine
  imports Prelude
begin

text \<open>
  The CD-ROM interrupt state machine of OpenBIOS (\<open>openbios/cdrom/statemachine.c\<close> with the two event loops
  of \<open>events.c\<close>), one definition per function. The static variables are fields of a record; pointers are
  addresses and \<open>mem\<close> the memory behind them. The hardware is what the code reads from it and a log of what
  it writes: \<open>in1\<close> gives the bytes of the response register in the order they are read, \<open>reg0\<close>, \<open>reg3\<close>,
  \<open>IREG\<close> and \<open>DICR\<close> what the next read of those registers returns, and \<open>out\<close> all the writes. \<open>calls\<close> is the
  log of calls to the kernel. Sector counters are signed and do not wrap for less than two billion sectors.
\<close>

section \<open>State\<close>

definition GETSTATUS :: u32 where "GETSTATUS = 0x0001"
definition SETMODE :: u32 where "SETMODE = 0x000e"
definition SEEKL :: u32 where "SEEKL = 0x0015"
definition SEEKP :: u32 where "SEEKP = 0x0016"
definition SEEKL_SETLOC :: u32 where "SEEKL_SETLOC = 0x00f2"
definition READN :: u32 where "READN = 0x00f6"
definition READS :: u32 where "READS = 0x00fb"
definition READ_SETMODE :: u32 where "READ_SETMODE = 0x00fe"
definition INITIALIZING :: u32 where "INITIALIZING = 0x0ccc"
definition GOT_ERROR_AND_REINIT :: u32 where "GOT_ERROR_AND_REINIT = 0x0ddd"
definition PAUSING :: u32 where "PAUSING = 0x0fff"
definition IDLE :: u32 where "IDLE = 0xffff"

lemmas cd_states = GETSTATUS_def SETMODE_def SEEKL_def SEEKP_def SEEKL_SETLOC_def READN_def READS_def
  READ_SETMODE_def INITIALIZING_def GOT_ERROR_AND_REINIT_def PAUSING_def IDLE_def

definition CDL_NOP :: u8 where "CDL_NOP = 1"
definition CDL_SETLOC :: u8 where "CDL_SETLOC = 2"
definition CDL_READN :: u8 where "CDL_READN = 6"
definition CDL_PAUSE :: u8 where "CDL_PAUSE = 9"
definition CDL_INIT :: u8 where "CDL_INIT = 10"
definition CDL_SETMODE :: u8 where "CDL_SETMODE = 14"
definition CDL_GETTN :: u8 where "CDL_GETTN = 19"
definition CDL_GETTD :: u8 where "CDL_GETTD = 20"
definition CDL_READS :: u8 where "CDL_READS = 27"

definition IRQ_CDROM :: u32 where "IRQ_CDROM = 4"
definition IRQ_DMA :: u32 where "IRQ_DMA = 8"

text \<open>Writes to the hardware, and calls to the kernel.\<close>

datatype hw_write =
    CdReg nat u8 | Dicr u32 | Dpcr u32 | Madr u32 | Bcr u32 | Chcr u32 | SbusDev5 u32 | SbusCom u32
  | Ireg u32 | Imask u32 | Vector00 u32

datatype sys_call =
    Deliver u32 | Undeliver u32 | EnqIO | EnqDMA | DeqIO | DeqDMA | ReturnFromException
  | EnterCritical | LeaveCritical

record cd =
  s_currentState :: u32
  s_preemptedState :: u32
  s_gotInt3 :: bool
  s_gotInt5 :: bool
  s_wordsToRead :: nat
  s_sectorCounter :: int
  s_dmaCounter :: int
  s_readBuffer :: u32
  s_initialReadBuffer :: u32
  s_mode :: u32
  s_initializationComplete :: nat
  s_err1 :: u8
  s_err2 :: u8
  s_getStatusResponsePtr :: u32
  s_idResponsePtr :: u32
  s_getLocResponsePtr :: u32
  s_testAckPtr :: u32
  s_tracksInformationPtr :: u32
  s_getParamResultsPtr :: u32
  s_getIDerrPtr :: u32
  s_getTDtrackNum :: u8
  s_numberOfTracks :: u8
  s_firstTrack :: u8
  s_audioResp :: bytes
  s_lastIREG :: u32
  s_irqFlags :: u8
  s_autoAckIO :: bool
  s_autoAckDMA :: bool
  mem :: "u32 \<Rightarrow> u8"
  in1 :: "nat \<Rightarrow> u8"
  n1 :: nat
  reg0 :: u8
  reg3 :: u8
  IMASK :: u32
  IREG :: u32
  DICR :: u32
  DPCR :: u32
  out :: "hw_write list"
  calls :: "sys_call list"

definition write_hw :: "hw_write \<Rightarrow> cd \<Rightarrow> cd" where
  "write_hw w d = d\<lparr>out := out d @ [w]\<rparr>"

definition sys :: "sys_call \<Rightarrow> cd \<Rightarrow> cd" where
  "sys c d = d\<lparr>calls := calls d @ [c]\<rparr>"

definition deliver :: "u32 \<Rightarrow> cd \<Rightarrow> cd" where
  "deliver spec = sys (Deliver spec)"

text \<open>Reading the response register, and storing through a pointer.\<close>

definition read1 :: "cd \<Rightarrow> u8 \<times> cd" where
  "read1 d = (in1 d (n1 d), d\<lparr>n1 := n1 d + 1\<rparr>)"

definition store :: "u32 \<Rightarrow> u8 \<Rightarrow> cd \<Rightarrow> cd" where
  "store addr v d = d\<lparr>mem := (mem d)(addr := v)\<rparr>"

definition store1 :: "u32 \<Rightarrow> cd \<Rightarrow> cd" where
  "store1 addr d = (let (v, d) = read1 d in store addr v d)"

definition skip1 :: "cd \<Rightarrow> cd" where
  "skip1 d = snd (read1 d)"

definition busy0 :: "cd \<Rightarrow> bool" where
  "busy0 d \<longleftrightarrow> reg0 d AND 0x10 = 0"

definition cdromUndeliverAllExceptAckAndRdy :: "cd \<Rightarrow> cd" where
  "cdromUndeliverAllExceptAckAndRdy d =
     fold (\<lambda>spec. sys (Undeliver spec)) [0x20, 0x80, 0x8000, 0x100, 0x200] d"

definition cdromUndeliverAll :: "cd \<Rightarrow> cd" where
  "cdromUndeliverAll d =
     fold (\<lambda>spec. sys (Undeliver spec)) [0x40, 0x10, 0x20, 0x80, 0x8000, 0x100, 0x200] d"

section \<open>The entry points\<close>

definition cdromSeekL :: "u8 \<Rightarrow> u8 \<Rightarrow> u8 \<Rightarrow> cd \<Rightarrow> nat \<times> cd" where
  "cdromSeekL m s f d =
     (if (if s_currentState d = 0xe6 \<or> s_currentState d = 0xeb then \<not> s_gotInt3 d else s_currentState d \<noteq> IDLE)
      then (0, d)
      else if busy0 d then (0, d)
      else
        let d = cdromUndeliverAllExceptAckAndRdy d;
            d = (if s_currentState d = 0xe6 \<or> s_currentState d = 0xeb
                 then d\<lparr>s_preemptedState := s_currentState d\<rparr> else d);
            d = write_hw (CdReg 0 0) d;
            d = write_hw (CdReg 2 m) d; d = write_hw (CdReg 2 s) d; d = write_hw (CdReg 2 f) d;
            d = write_hw (CdReg 1 CDL_SETLOC) d
        in (1, d\<lparr>s_currentState := SEEKL_SETLOC\<rparr>))"

definition cdromGetStatus :: "u32 \<Rightarrow> cd \<Rightarrow> nat \<times> cd" where
  "cdromGetStatus responsePtr d =
     (if s_currentState d \<noteq> IDLE then (0, d)
      else
        let d = cdromUndeliverAll d; d = write_hw (CdReg 0 0) d; d = d\<lparr>s_currentState := GETSTATUS\<rparr>;
            d = write_hw (CdReg 1 CDL_NOP) d
        in (1, d\<lparr>s_getStatusResponsePtr := responsePtr\<rparr>))"

definition cdromRead :: "int \<Rightarrow> u32 \<Rightarrow> u32 \<Rightarrow> cd \<Rightarrow> nat \<times> cd" where
  "cdromRead count buffer mode d =
     (if s_currentState d \<noteq> IDLE \<or> count \<le> 0 then (0, d)
      else
        let d = cdromUndeliverAll d;
            d = d\<lparr>s_gotInt3 := False,
                  s_wordsToRead := (if mode AND 0x10 = 0 then if mode AND 0x20 = 0 then 0x200 else 0x249 else 0x246),
                  s_sectorCounter := count, s_dmaCounter := count, s_readBuffer := buffer, s_mode := mode\<rparr>
        in if busy0 d then (0, d)
           else let d = d\<lparr>s_currentState := READ_SETMODE\<rparr>; d = write_hw (CdReg 0 0) d;
                    d = write_hw (CdReg 2 (ucast mode)) d; d = write_hw (CdReg 1 CDL_SETMODE) d
                in (1, d))"

definition cdromSetMode :: "u32 \<Rightarrow> cd \<Rightarrow> nat \<times> cd" where
  "cdromSetMode mode d =
     (if s_currentState d \<noteq> IDLE then (0, d)
      else
        let d = cdromUndeliverAll d; d = d\<lparr>s_mode := mode\<rparr>
        in if busy0 d then (0, d)
           else let d = write_hw (CdReg 0 0) d; d = write_hw (CdReg 2 (ucast mode)) d;
                    d = d\<lparr>s_currentState := SETMODE\<rparr>; d = write_hw (CdReg 1 CDL_SETMODE) d
                in (1, d))"

section \<open>Data\<close>

definition setDMA :: "u32 \<Rightarrow> nat \<Rightarrow> cd \<Rightarrow> cd" where
  "setDMA buffer amountOfWords d =
     (let t = (DICR d AND 0xffffff) OR 0x880000; d = write_hw (Dicr t) d;
          d = d\<lparr>DPCR := DPCR d OR 0x8000\<rparr>; d = write_hw (Dpcr (DPCR d)) d;
          d = write_hw (Madr buffer) d; d = write_hw (Bcr (of_nat amountOfWords OR 0x10000)) d
      in write_hw (Chcr 0x11000000) d)"

definition initiateDMA :: "cd \<Rightarrow> cd" where
  "initiateDMA d =
     (let d = (if s_sectorCounter d < 1 then if s_sectorCounter d = 0 then d\<lparr>s_sectorCounter := -1\<rparr> else d else d);
          d = d\<lparr>s_initialReadBuffer := s_readBuffer d\<rparr>;
          d = write_hw (CdReg 0 0) d; d = write_hw (CdReg 3 0) d; d = write_hw (CdReg 0 0) d;
          d = write_hw (CdReg 3 0x80) d; d = write_hw (SbusDev5 0x20943) d; d = write_hw (SbusCom 0x132c) d;
          d = d\<lparr>s_sectorCounter := s_sectorCounter d - 1\<rparr>;
          d = setDMA (s_readBuffer d) (s_wordsToRead d) d;
          d = d\<lparr>s_readBuffer := s_readBuffer d + of_nat (4 * s_wordsToRead d)\<rparr>
      in if s_sectorCounter d \<noteq> 0 then d
         else let d = write_hw (CdReg 0 0) d; d = write_hw (CdReg 1 CDL_PAUSE) d
              in d\<lparr>s_currentState := PAUSING\<rparr>)"

fun audio_bytes :: "nat \<Rightarrow> nat \<Rightarrow> cd \<Rightarrow> cd" where
  "audio_bytes i 0 d = d"
| "audio_bytes i (Suc left) d =
     (let (v, d) = read1 d in audio_bytes (Suc i) left (d\<lparr>s_audioResp := (s_audioResp d)[i := v]\<rparr>))"

definition audioResponse :: "u8 \<Rightarrow> cd \<Rightarrow> cd" where
  "audioResponse status d =
     deliver 0x40 (audio_bytes 1 7 (d\<lparr>s_audioResp := (s_audioResp d)[0 := status]\<rparr>))"

definition dataReady :: "cd \<Rightarrow> cd" where
  "dataReady d =
     (let (status, d) = read1 d
      in if s_preemptedState d = READN \<or> s_preemptedState d = READS then initiateDMA d
         else if s_preemptedState d = 0xe6 \<or> s_preemptedState d = 0xeb then deliver 0x40 d
         else if s_currentState d = READN \<or> s_currentState d = READS then initiateDMA d
         else if s_currentState d = 0xe6 \<or> s_currentState d = 0xeb then deliver 0x40 d
         else if s_currentState d \<in> {3, 4, 5} then audioResponse status d
         else deliver 0x200 d)"

section \<open>Completion\<close>

definition genericErrorState :: "cd \<Rightarrow> cd" where
  "genericErrorState d =
     (let d = write_hw (CdReg 0 0) d; d = write_hw (CdReg 1 CDL_INIT) d
      in d\<lparr>s_currentState := GOT_ERROR_AND_REINIT, s_preemptedState := IDLE, s_err1 := 1, s_err2 := 0x80,
           s_gotInt5 := True\<rparr>)"

definition setSessionResponse :: "cd \<Rightarrow> cd" where
  "setSessionResponse d =
     (if \<not> busy0 d
      then let d = d\<lparr>s_currentState := 0xf14\<rparr>; d = write_hw (CdReg 0 0) d; d = write_hw (CdReg 2 0) d
           in write_hw (CdReg 1 CDL_GETTD) d
      else genericErrorState d)"

definition go_idle :: "u32 \<Rightarrow> cd \<Rightarrow> cd" where
  "go_idle spec d = deliver spec (d\<lparr>s_currentState := IDLE\<rparr>)"

definition complete :: "cd \<Rightarrow> cd" where
  "complete d =
     (let d = skip1 d
      in if s_currentState d = 0x12 then setSessionResponse d
         else if s_currentState d = INITIALIZING then d\<lparr>s_currentState := IDLE, s_initializationComplete := 1\<rparr>
         else if s_currentState d \<in> {8, 9, SEEKL, SEEKP}
         then go_idle 0x20 (if s_preemptedState d \<in> {0xe6, 0xeb, 3, 4, 5} then d\<lparr>s_preemptedState := IDLE\<rparr> else d)
         else if s_currentState d = 0x1a
         then let ptr = s_idResponsePtr d
              in go_idle 0x20 (store1 (ptr + 3) (store1 (ptr + 2) (store1 (ptr + 1) (store1 ptr d))))
         else if s_currentState d = GOT_ERROR_AND_REINIT then go_idle 0x8000 (d\<lparr>s_gotInt5 := False\<rparr>)
         else if s_currentState d = IDLE then deliver 0x200 d
         else go_idle 0x20 d)"

section \<open>Acknowledges\<close>

definition getLocLAck :: "cd \<Rightarrow> cd" where
  "getLocLAck d =
     (let ptr = s_getLocResponsePtr d;
          d = store1 (ptr + 2) (store1 (ptr + 1) (store1 ptr d));
          d = skip1 (skip1 (skip1 (skip1 d)));
          d = (if s_preemptedState d = IDLE then d\<lparr>s_currentState := IDLE\<rparr>
               else d\<lparr>s_currentState := s_preemptedState d, s_preemptedState := IDLE\<rparr>)
      in deliver 0x20 d)"

definition getLocPAck :: "cd \<Rightarrow> cd" where
  "getLocPAck d =
     (let d = d\<lparr>s_currentState := s_preemptedState d\<rparr>;
          d = skip1 (skip1 (skip1 (skip1 d)));
          ptr = s_getLocResponsePtr d;
          d = store1 (ptr + 2) (store1 (ptr + 1) (store1 ptr d));
          d = (if s_currentState d = IDLE then d\<lparr>s_currentState := IDLE\<rparr> else d\<lparr>s_preemptedState := IDLE\<rparr>)
      in deliver 0x20 d)"

fun test_loop :: "u32 \<Rightarrow> nat \<Rightarrow> nat \<Rightarrow> cd \<Rightarrow> cd" where
  "test_loop ptr i 0 d = d"
| "test_loop ptr i (Suc left) d = test_loop ptr (Suc i) left (store1 (ptr + of_nat (i + 2)) d)"

text \<open>\<open>--count\<close> wraps: a count of 0 reads 255 bytes.\<close>

definition testAck :: "u8 \<Rightarrow> cd \<Rightarrow> cd" where
  "testAck status d =
     (let ptr = s_testAckPtr d; count = mem d (ptr + 1); d = store ptr status d
      in go_idle 0x20 (test_loop ptr 0 (unat (count - 1)) d))"

definition ack :: "cd \<Rightarrow> cd" where
  "ack d = go_idle 0x20 d"

definition getStatusAck :: "u8 \<Rightarrow> cd \<Rightarrow> cd" where
  "getStatusAck status d = go_idle 0x20 (store (s_getStatusResponsePtr d) status d)"

definition resume :: "cd \<Rightarrow> cd" where
  "resume d = deliver 0x20 (d\<lparr>s_currentState := s_preemptedState d, s_preemptedState := IDLE\<rparr>)"

definition demuteAck :: "cd \<Rightarrow> cd" where
  "demuteAck d = resume d"

definition unlockAck :: "cd \<Rightarrow> cd" where
  "unlockAck d = resume d"

definition getTDack :: "cd \<Rightarrow> cd" where
  "getTDack d =
     (let trackNum = s_getTDtrackNum d; ptr = s_tracksInformationPtr d + ucast trackNum * 3;
          d = store1 (ptr - 2) (store1 (ptr - 3) d)
      in if trackNum > s_numberOfTracks d then go_idle 0x20 d
         else if busy0 d then genericErrorState d
         else let d = write_hw (CdReg 0 0) d; d = d\<lparr>s_getTDtrackNum := s_getTDtrackNum d + 1\<rparr>;
                  d = write_hw (CdReg 2 (of_nat (unat trackNum div 10 * 0x10 + unat trackNum mod 10))) d;
                  d = d\<lparr>s_currentState := 0x14\<rparr>
              in write_hw (CdReg 1 CDL_GETTD) d)"

definition getParamAck :: "cd \<Rightarrow> cd" where
  "getParamAck d = go_idle 0x20 (skip1 (skip1 (skip1 (store1 (s_getParamResultsPtr d) d))))"

definition of_bcd :: "u8 \<Rightarrow> u8" where
  "of_bcd v = of_nat (unat v div 0x10 * 10) + (v AND 0xf)"

definition getTNack :: "cd \<Rightarrow> cd" where
  "getTNack d =
     (let (f, d) = read1 d; d = d\<lparr>s_firstTrack := of_bcd f\<rparr>;
          (v, d) = read1 d; d = d\<lparr>s_numberOfTracks := of_bcd v\<rparr>
      in if busy0 d then genericErrorState (d\<lparr>s_getTDtrackNum := s_firstTrack d\<rparr>)
         else let d = write_hw (CdReg 0 0) d; d = d\<lparr>s_getTDtrackNum := s_firstTrack d + 1\<rparr>;
                  d = write_hw (CdReg 2 f) d; d = d\<lparr>s_currentState := 0x14\<rparr>
              in write_hw (CdReg 1 CDL_GETTD) d)"

definition issueSeekAfterSetLoc :: "bool \<Rightarrow> cd \<Rightarrow> cd" where
  "issueSeekAfterSetLoc P d =
     (let d = d\<lparr>s_currentState := SEEKP\<rparr>; d = (if \<not> P then d\<lparr>s_currentState := SEEKL\<rparr> else d);
          d = write_hw (CdReg 0 0) d
      in write_hw (CdReg 1 (ucast (s_currentState d))) d)"

definition readSetModeResponse :: "cd \<Rightarrow> cd" where
  "readSetModeResponse d =
     (let d = write_hw (CdReg 0 0) d
      in if s_mode d AND 0x100 = 0
         then write_hw (CdReg 1 CDL_READN)
                (d\<lparr>s_currentState := (if s_currentState d = READ_SETMODE then READN else 0xe6)\<rparr>)
         else write_hw (CdReg 1 CDL_READS)
                (d\<lparr>s_currentState := (if s_currentState d = READ_SETMODE then READS else 0xeb)\<rparr>))"

definition chainGetTNack :: "cd \<Rightarrow> cd" where
  "chainGetTNack d =
     (let ptr = s_tracksInformationPtr d; d = store1 (ptr + 1) (store1 ptr d);
          d = write_hw (CdReg 0 0) d; d = write_hw (CdReg 1 CDL_GETTN) d
      in d\<lparr>s_currentState := 0x13\<rparr>)"

definition acknowledge :: "cd \<Rightarrow> cd" where
  "acknowledge d =
     (if s_currentState d = 0x10 then getLocLAck d
      else if s_currentState d = 0x11 then getLocPAck d
      else
        let (status, d) = read1 d
        in if s_currentState d = 0x19 then testAck status d
           else if s_currentState d = SETMODE \<or> s_currentState d = 0x17 then ack d
           else if s_currentState d \<in> {3, 4, 5} then deliver 0x20 (d\<lparr>s_gotInt3 := True\<rparr>)
           else if s_currentState d = GETSTATUS then getStatusAck status d
           else if s_currentState d = 12 then demuteAck d
           else if s_currentState d = 0x14 then getTDack d
           else if s_currentState d = 15 then getParamAck d
           else if s_currentState d = 0x13 then getTNack d
           else if s_currentState d = 0x50 then unlockAck d
           else if s_currentState d \<in> {READN, READS, 0xeb, 0xe6} then d\<lparr>s_gotInt3 := True\<rparr>
           else if s_currentState d = 0xe2 then issueSeekAfterSetLoc True d
           else if s_currentState d = 0xee \<or> s_currentState d = READ_SETMODE then readSetModeResponse d
           else if s_currentState d = SEEKL_SETLOC then issueSeekAfterSetLoc False d
           else if s_currentState d = 0xf14 then chainGetTNack d
           else if s_currentState d = IDLE then deliver 0x200 d
           else d)"

section \<open>End of data and errors\<close>

definition data_end :: "cd \<Rightarrow> cd" where
  "data_end d =
     (let reading = (\<lambda>s. s = READN \<or> s = READS); streaming = (\<lambda>s. s = 0xe6 \<or> s = 0xeb);
          d = (if reading (s_preemptedState d) \<or> reading (s_currentState d)
               then let d = (if s_dmaCounter d > 0 then deliver 0x80 d else d)
                    in if reading (s_currentState d) then d\<lparr>s_currentState := IDLE\<rparr> else d\<lparr>s_preemptedState := IDLE\<rparr>
               else d);
          d = (if streaming (s_currentState d) \<or> streaming (s_preemptedState d)
               then if streaming (s_currentState d) then d\<lparr>s_currentState := IDLE\<rparr> else d\<lparr>s_preemptedState := IDLE\<rparr>
               else d)
      in if s_currentState d \<in> {3, 4, 5} then (deliver 0x80 d)\<lparr>s_currentState := IDLE\<rparr>
         else deliver 0x200 d)"

definition discError :: "cd \<Rightarrow> cd" where
  "discError d =
     (let (e1, d) = read1 d; d = d\<lparr>s_err1 := e1\<rparr>; (e2, d) = read1 d; d = d\<lparr>s_err2 := e2\<rparr>
      in if s_currentState d = 0x1a
         then let ptr = s_getIDerrPtr d;
                  d = store (ptr + 1) (s_err2 d) (store ptr (s_err1 d) d);
                  d = store1 (ptr + 3) (store1 (ptr + 2) d)
              in go_idle 0x8000 (d\<lparr>s_preemptedState := IDLE\<rparr>)
         else if s_currentState d = INITIALIZING then d\<lparr>s_initializationComplete := 2\<rparr>
         else if \<not> s_gotInt5 d
         then let d = d\<lparr>s_gotInt5 := True, s_preemptedState := IDLE\<rparr>;
                  d = write_hw (CdReg 0 0) d; d = write_hw (CdReg 1 CDL_INIT) d
              in d\<lparr>s_currentState := GOT_ERROR_AND_REINIT\<rparr>
         else go_idle 0x8000 (d\<lparr>s_gotInt5 := False, s_preemptedState := IDLE\<rparr>))"

section \<open>Interrupt verifiers and handlers\<close>

definition flush_vector :: "cd \<Rightarrow> cd" where
  "flush_vector d = ((write_hw (Vector00 0)) ^^ 4) d"

definition cdromIOVerifier :: "cd \<Rightarrow> nat \<times> cd" where
  "cdromIOVerifier d =
     (if IMASK d AND IRQ_CDROM = 0 then (0, d)
      else
        let d = d\<lparr>s_lastIREG := IREG d\<rparr>
        in if s_lastIREG d AND IRQ_CDROM = 0 then (0, d)
           else
             let d = write_hw (CdReg 0 1) d; d = d\<lparr>s_irqFlags := reg3 d\<rparr>;
                 d = (if s_irqFlags d AND 7 \<noteq> 0
                      then flush_vector (write_hw (CdReg 3 7) (write_hw (CdReg 0 1) d)) else d);
                 d = (if s_irqFlags d AND 0x18 \<noteq> 0
                      then flush_vector (write_hw (CdReg 3 (s_irqFlags d AND 0x18)) (write_hw (CdReg 0 1) d)) else d);
                 k = s_irqFlags d AND 7
             in (1, if k = 1 then dataReady d else if k = 2 then complete d else if k = 3 then acknowledge d
                    else if k = 4 then data_end d else if k = 5 then discError d else d))"

definition cdromDMAVerifier :: "cd \<Rightarrow> nat \<times> cd" where
  "cdromDMAVerifier d =
     (if IMASK d AND IRQ_DMA = 0 then (0, d)
      else
        let d = d\<lparr>s_lastIREG := IREG d\<rparr>
        in if s_lastIREG d AND IRQ_DMA = 0 then (0, d)
           else
             let dicr = (DICR d AND 0x00ffffff) OR 0x88000000; d = write_hw (Dicr dicr) d;
                 d = d\<lparr>s_dmaCounter := s_dmaCounter d - 1\<rparr>
             in (1, if s_dmaCounter d = 0 then deliver 0x10 d else d))"

definition cdromIOHandler :: "cd \<Rightarrow> cd" where
  "cdromIOHandler d = (if \<not> s_autoAckIO d then d else sys ReturnFromException (write_hw (Ireg (NOT IRQ_CDROM)) d))"

definition cdromDMAHandler :: "cd \<Rightarrow> cd" where
  "cdromDMAHandler d = (if \<not> s_autoAckDMA d then d else sys ReturnFromException (write_hw (Ireg (NOT IRQ_DMA)) d))"

definition getLastCDRomError :: "u32 \<Rightarrow> u32 \<Rightarrow> cd \<Rightarrow> cd" where
  "getLastCDRomError err1 err2 d = store err2 (s_err2 d) (store err1 (s_err1 d) d)"

definition resetAllCDRomIRQs :: "cd \<Rightarrow> cd" where
  "resetAllCDRomIRQs d =
     fold (\<lambda>i. write_hw (Vector00 (of_nat i))) [0..<4] (write_hw (CdReg 3 0x1f) (write_hw (CdReg 0 1) d))"

definition enableAllCDRomIRQs :: "cd \<Rightarrow> cd" where
  "enableAllCDRomIRQs d = write_hw (CdReg 2 0x1f) (write_hw (CdReg 0 1) d)"

definition set_mask :: "u32 \<Rightarrow> cd \<Rightarrow> cd" where
  "set_mask w d = write_hw (Imask w) (d\<lparr>IMASK := w\<rparr>)"

text \<open>The initialisation up to the command, and the loop that waits for it; \<open>irq i\<close> is what happens between polls.\<close>

definition init_start :: "cd \<Rightarrow> cd" where
  "init_start d =
     (let d = d\<lparr>s_initializationComplete := 0, s_gotInt5 := False\<rparr>; d = sys EnterCritical d;
          d = set_mask (IMASK d AND NOT IRQ_CDROM) d; d = set_mask (IMASK d AND NOT IRQ_DMA) d;
          d = write_hw (Ireg (NOT IRQ_CDROM)) d; d = write_hw (Ireg (NOT IRQ_DMA)) d;
          d = d\<lparr>s_autoAckDMA := True, s_autoAckIO := True\<rparr>;
          d = d\<lparr>DPCR := 0x9099\<rparr>; d = write_hw (Dpcr 0x9099) d;
          dicr = (DICR d AND 0x00ffffff) OR 0x88000000; d = write_hw (Dicr dicr) d;
          d = d\<lparr>s_preemptedState := IDLE, s_currentState := INITIALIZING, s_gotInt3 := False\<rparr>;
          d = enableAllCDRomIRQs (resetAllCDRomIRQs d);
          d = write_hw (Ireg (NOT IRQ_CDROM)) d;
          d = set_mask (IMASK d OR IRQ_CDROM) d; d = set_mask (IMASK d OR IRQ_DMA) d;
          d = sys LeaveCritical d; d = write_hw (CdReg 0 0) d
      in write_hw (CdReg 1 CDL_INIT) d)"

fun init_wait :: "(nat \<Rightarrow> cd \<Rightarrow> cd) \<Rightarrow> nat \<Rightarrow> cd \<Rightarrow> nat \<times> cd" where
  "init_wait irq 0 d = (0, d)"
| "init_wait irq (Suc wait) d =
     (if s_initializationComplete d = 2 then (0, d)
      else if s_initializationComplete d = 1 then (1, d)
      else init_wait irq wait (irq wait d))"

definition cdromInnerInit :: "(nat \<Rightarrow> cd \<Rightarrow> cd) \<Rightarrow> cd \<Rightarrow> nat \<times> cd" where
  "cdromInnerInit irq d = init_wait irq 500000 (init_start d)"

definition setCDRomIRQAutoAck :: "bool \<Rightarrow> bool \<Rightarrow> cd \<Rightarrow> bool \<times> cd" where
  "setCDRomIRQAutoAck dma val d =
     (if dma then (s_autoAckDMA d, d\<lparr>s_autoAckDMA := val\<rparr>) else (s_autoAckIO d, d\<lparr>s_autoAckIO := val\<rparr>))"

definition enqueueCDRomHandlers :: "cd \<Rightarrow> cd" where
  "enqueueCDRomHandlers d = sys EnqDMA (sys EnqIO d)"

definition dequeueCDRomHandlers :: "cd \<Rightarrow> cd" where
  "dequeueCDRomHandlers d = sys DeqDMA (sys DeqIO d)"

end
