(* ===== verification/Cdrom_Protocol.thy ===== *)
theory Cdrom_Protocol
  imports Cdrom_Machine
begin

text \<open>
  What the CD-ROM state machine does: the states it can reach, the course of a read from the request to its
  last sector, the completion of its transfers, and the reporting of errors.
\<close>


section \<open>What the building blocks leave alone\<close>

lemma write_hw_simps [simp]:
  "s_currentState (write_hw w d) = s_currentState d" "s_preemptedState (write_hw w d) = s_preemptedState d"
  "s_gotInt3 (write_hw w d) = s_gotInt3 d" "s_gotInt5 (write_hw w d) = s_gotInt5 d" "calls (write_hw w d) = calls d"
  "s_sectorCounter (write_hw w d) = s_sectorCounter d" "s_dmaCounter (write_hw w d) = s_dmaCounter d"
  "s_wordsToRead (write_hw w d) = s_wordsToRead d" "s_readBuffer (write_hw w d) = s_readBuffer d"
  "s_mode (write_hw w d) = s_mode d" "IMASK (write_hw w d) = IMASK d" "mem (write_hw w d) = mem d"
  "out (write_hw w d) = out d @ [w]" "s_irqFlags (write_hw w d) = s_irqFlags d" "DICR (write_hw w d) = DICR d"
  "s_initializationComplete (write_hw w d) = s_initializationComplete d"
  "s_getStatusResponsePtr (write_hw w d) = s_getStatusResponsePtr d"
  "reg0 (write_hw w d) = reg0 d" "reg3 (write_hw w d) = reg3 d" "IREG (write_hw w d) = IREG d"
  "in1 (write_hw w d) = in1 d" "n1 (write_hw w d) = n1 d" "s_lastIREG (write_hw w d) = s_lastIREG d"
  "DPCR (write_hw w d) = DPCR d"
  by (simp_all add: write_hw_def)

lemma sys_simps [simp]:
  "s_currentState (sys c d) = s_currentState d" "s_preemptedState (sys c d) = s_preemptedState d"
  "s_gotInt3 (sys c d) = s_gotInt3 d" "s_gotInt5 (sys c d) = s_gotInt5 d" "calls (sys c d) = calls d @ [c]"
  "s_sectorCounter (sys c d) = s_sectorCounter d" "s_dmaCounter (sys c d) = s_dmaCounter d"
  "s_wordsToRead (sys c d) = s_wordsToRead d" "s_readBuffer (sys c d) = s_readBuffer d"
  "s_mode (sys c d) = s_mode d" "IMASK (sys c d) = IMASK d" "mem (sys c d) = mem d" "out (sys c d) = out d"
  "s_initializationComplete (sys c d) = s_initializationComplete d"
  "s_getStatusResponsePtr (sys c d) = s_getStatusResponsePtr d"
  "reg0 (sys c d) = reg0 d" "reg3 (sys c d) = reg3 d" "IREG (sys c d) = IREG d"
  by (simp_all add: sys_def)

lemma store1_simps [simp]:
  "s_currentState (store1 a d) = s_currentState d" "s_preemptedState (store1 a d) = s_preemptedState d"
  "s_gotInt5 (store1 a d) = s_gotInt5 d" "calls (store1 a d) = calls d" "out (store1 a d) = out d"
  "s_dmaCounter (store1 a d) = s_dmaCounter d" "IMASK (store1 a d) = IMASK d"
  by (simp_all add: store1_def read1_def store_def)

lemma skip1_simps [simp]:
  "s_currentState (skip1 d) = s_currentState d" "s_preemptedState (skip1 d) = s_preemptedState d"
  "s_gotInt5 (skip1 d) = s_gotInt5 d" "s_gotInt3 (skip1 d) = s_gotInt3 d" "calls (skip1 d) = calls d" "out (skip1 d) = out d"
  "s_dmaCounter (skip1 d) = s_dmaCounter d" "IMASK (skip1 d) = IMASK d" "s_sectorCounter (skip1 d) = s_sectorCounter d"
  "s_readBuffer (skip1 d) = s_readBuffer d" "s_wordsToRead (skip1 d) = s_wordsToRead d" "s_mode (skip1 d) = s_mode d"
  "mem (skip1 d) = mem d" "s_getStatusResponsePtr (skip1 d) = s_getStatusResponsePtr d"
  by (simp_all add: skip1_def read1_def)

lemma store_simps [simp]:
  "s_currentState (store a v d) = s_currentState d" "s_preemptedState (store a v d) = s_preemptedState d"
  "calls (store a v d) = calls d" "out (store a v d) = out d" "s_gotInt5 (store a v d) = s_gotInt5 d"
  "mem (store a v d) = (mem d)(a := v)"
  by (simp_all add: store_def)

lemma flush_vector_simps [simp]:
  "s_currentState (flush_vector d) = s_currentState d" "s_preemptedState (flush_vector d) = s_preemptedState d"
  "s_gotInt5 (flush_vector d) = s_gotInt5 d" "calls (flush_vector d) = calls d" "s_irqFlags (flush_vector d) = s_irqFlags d"
  "s_gotInt3 (flush_vector d) = s_gotInt3 d" "IMASK (flush_vector d) = IMASK d"
  by (simp_all add: flush_vector_def eval_nat_numeral)

section \<open>The states that can be reached\<close>

definition live_states :: "u32 set" where
  "live_states = {GETSTATUS, SETMODE, SEEKL, SEEKL_SETLOC, READN, READS, READ_SETMODE, INITIALIZING,
     GOT_ERROR_AND_REINIT, PAUSING, IDLE}"

definition live :: "cd \<Rightarrow> bool" where
  "live d \<longleftrightarrow> s_currentState d \<in> live_states \<and> s_preemptedState d = IDLE"

lemma live_states_cases:
  "s \<in> live_states \<longleftrightarrow> s = GETSTATUS \<or> s = SETMODE \<or> s = SEEKL \<or> s = SEEKL_SETLOC \<or> s = READN \<or> s = READS \<or>
     s = READ_SETMODE \<or> s = INITIALIZING \<or> s = GOT_ERROR_AND_REINIT \<or> s = PAUSING \<or> s = IDLE"
  by (simp add: live_states_def)

lemma undeliver_frame [simp]:
  "s_currentState (cdromUndeliverAll d) = s_currentState d" "s_preemptedState (cdromUndeliverAll d) = s_preemptedState d"
  "s_currentState (cdromUndeliverAllExceptAckAndRdy d) = s_currentState d"
  "s_preemptedState (cdromUndeliverAllExceptAckAndRdy d) = s_preemptedState d"
  "reg0 (cdromUndeliverAll d) = reg0 d"
  by (simp_all add: cdromUndeliverAll_def cdromUndeliverAllExceptAckAndRdy_def)

lemma live_states_in [simp]:
  "GETSTATUS \<in> live_states" "SETMODE \<in> live_states" "SEEKL \<in> live_states" "SEEKL_SETLOC \<in> live_states"
  "READN \<in> live_states" "READS \<in> live_states" "READ_SETMODE \<in> live_states" "INITIALIZING \<in> live_states"
  "GOT_ERROR_AND_REINIT \<in> live_states" "PAUSING \<in> live_states" "IDLE \<in> live_states"
  by (simp_all add: live_states_def)

lemma entry_live:
  assumes "live d"
  shows "live (snd (cdromSeekL m s f d))" "live (snd (cdromGetStatus p d))" "live (snd (cdromRead c b mode d))"
    "live (snd (cdromSetMode mode d))"
proof -
  have "s_currentState d \<noteq> 0xe6" "s_currentState d \<noteq> 0xeb"
    using assms by (auto simp: live_def live_states_def cd_states)
  then show "live (snd (cdromSeekL m s f d))" "live (snd (cdromGetStatus p d))" "live (snd (cdromRead c b mode d))"
    "live (snd (cdromSetMode mode d))"
    using assms
    by (simp_all add: live_def cdromSeekL_def cdromGetStatus_def cdromRead_def cdromSetMode_def Let_def)
qed

lemma initiateDMA_live: "live d \<Longrightarrow> live (initiateDMA d)"
  by (simp add: live_def initiateDMA_def setDMA_def Let_def)

lemma dataReady_live: "live d \<Longrightarrow> live (dataReady d)"
proof -
  assume l: "live d"
  have "live (snd (read1 d))" using l by (simp add: live_def read1_def)
  moreover have "s_currentState d \<notin> {0xe6, 0xeb, 3, 4, 5}" "s_preemptedState d \<notin> {0xe6, 0xeb, READN, READS}"
    using l by (auto simp: live_def live_states_def cd_states)
  ultimately show ?thesis
    using initiateDMA_live [of "snd (read1 d)"]
    by (auto simp: dataReady_def read1_def deliver_def live_def)
qed

lemma complete_live: "live d \<Longrightarrow> live (complete d)"
proof -
  assume l: "live d"
  then have "s_currentState d \<noteq> 0x12" "s_currentState d \<noteq> 0x1a"
    by (auto simp: live_def live_states_def cd_states)
  then show ?thesis
    using l by (simp add: complete_def Let_def live_def go_idle_def deliver_def)
qed

lemma acknowledge_live: "live d \<Longrightarrow> live (acknowledge d)"
proof -
  assume l: "live d"
  then have "s_currentState d \<notin> {0x10, 0x11, 0x19, 3, 4, 5, 12, 0x14, 15, 0x13, 0x50, 0xeb, 0xe6, 0xe2, 0xee, 0xf14}"
    by (auto simp: live_def live_states_def cd_states)
  then show ?thesis
    using l by (auto simp: acknowledge_def Let_def live_def go_idle_def deliver_def read1_def ack_def getStatusAck_def
      readSetModeResponse_def issueSeekAfterSetLoc_def)
qed

lemma data_end_live: "live d \<Longrightarrow> live (data_end d)"
proof -
  assume l: "live d"
  then have "s_currentState d \<notin> {0xe6, 0xeb, 3, 4, 5}" "s_preemptedState d \<notin> {0xe6, 0xeb, READN, READS}"
    by (auto simp: live_def live_states_def cd_states)
  moreover have "IDLE \<notin> {0xe6, 0xeb, 3, 4, 5}" by (simp add: cd_states)
  ultimately show ?thesis
    using l by (auto simp: data_end_def Let_def live_def deliver_def)
qed

lemma discError_live: "live d \<Longrightarrow> live (discError d)"
proof -
  assume l: "live d"
  then have "s_currentState d \<noteq> 0x1a" by (auto simp: live_def live_states_def cd_states)
  then show ?thesis
    using l by (simp add: discError_def Let_def live_def deliver_def go_idle_def read1_def)
qed

lemma live_frame:
  "live (write_hw w d) = live d" "live (d\<lparr>s_lastIREG := i\<rparr>) = live d" "live (d\<lparr>s_irqFlags := j\<rparr>) = live d"
  "live (flush_vector d) = live d" "live (d\<lparr>s_dmaCounter := k\<rparr>) = live d" "live (sys c d) = live d"
  by (simp_all add: live_def)

lemma verifier_live:
  assumes "live d"
  shows "live (snd (cdromIOVerifier d))" "live (snd (cdromDMAVerifier d))"
  using assms
  by (auto simp: cdromIOVerifier_def cdromDMAVerifier_def Let_def live_frame deliver_def
      intro!: dataReady_live complete_live acknowledge_live data_end_live discError_live)

text \<open>
  The machine after initialisation: the entry points, the interrupts, and between them the hardware, which
  changes what its registers read.
\<close>

inductive cd_step :: "cd \<Rightarrow> cd \<Rightarrow> bool" where
  seek: "cd_step d (snd (cdromSeekL m s f d))"
| get_status: "cd_step d (snd (cdromGetStatus p d))"
| read_sectors: "cd_step d (snd (cdromRead c b mode d))"
| set_mode: "cd_step d (snd (cdromSetMode mode d))"
| io_irq: "cd_step d (snd (cdromIOVerifier d))"
| dma_irq: "cd_step d (snd (cdromDMAVerifier d))"
| io_handler: "cd_step d (cdromIOHandler d)"
| dma_handler: "cd_step d (cdromDMAHandler d)"
| last_error: "cd_step d (getLastCDRomError e1 e2 d)"
| auto_ack: "cd_step d (snd (setCDRomIRQAutoAck dma val d))"
| initialise: "cd_step d (init_start d)"
| hardware: "cd_step d (d\<lparr>in1 := f, n1 := n, reg0 := r0, reg3 := r3, IREG := i, DICR := j\<rparr>)"

inductive cd_reach :: "cd \<Rightarrow> cd \<Rightarrow> bool" for d0 where
  cd_start: "cd_reach d0 (init_start d0)"
| cd_next: "cd_reach d0 d \<Longrightarrow> cd_step d d' \<Longrightarrow> cd_reach d0 d'"

lemma init_start_live: "live (init_start d)"
  by (simp add: live_def init_start_def Let_def set_mask_def enableAllCDRomIRQs_def resetAllCDRomIRQs_def
      upt_rec eval_nat_numeral)

lemma others_live:
  assumes "live d"
  shows "live (cdromIOHandler d)" "live (cdromDMAHandler d)" "live (getLastCDRomError e1 e2 d)"
    "live (snd (setCDRomIRQAutoAck dma val d))"
    "live (d\<lparr>in1 := f, n1 := n, reg0 := r0, reg3 := r3, IREG := i, DICR := j\<rparr>)"
  using assms
  by (simp_all add: live_def cdromIOHandler_def cdromDMAHandler_def getLastCDRomError_def setCDRomIRQAutoAck_def)

lemma step_live: "cd_step d d' \<Longrightarrow> live d \<Longrightarrow> live d'"
  by (induction rule: cd_step.induct)
    (simp_all only: entry_live verifier_live init_start_live others_live)

text \<open>
  C16: The unreachable states. Whatever requests and interrupts come in any order, with any answers from the
  hardware, the machine is in one of eleven of the twelve named states and the preempted state is always idle:
  the numbered states and \<open>SEEKP\<close> are never entered, so the code for them is dead, as the source suspects.
\<close>

theorem dead_states_unreachable:
  assumes "cd_reach d0 d"
  shows "s_currentState d \<in> {GETSTATUS, SETMODE, SEEKL, SEEKL_SETLOC, READN, READS, READ_SETMODE, INITIALIZING,
     GOT_ERROR_AND_REINIT, PAUSING, IDLE} \<and> s_preemptedState d = IDLE"
proof -
  have "live d" using assms by induction (auto intro: init_start_live step_live)
  then show ?thesis by (simp add: live_def live_states_def)
qed


section \<open>A read, from the request to the last sector\<close>

text \<open>The addresses given to the DMA, and the commands given to the controller.\<close>

definition madrs :: "hw_write list \<Rightarrow> u32 list" where
  "madrs ws = List.map_filter (\<lambda>w. case w of Madr a \<Rightarrow> Some a | _ \<Rightarrow> None) ws"

definition commands :: "hw_write list \<Rightarrow> u8 list" where
  "commands ws = List.map_filter (\<lambda>w. case w of CdReg r v \<Rightarrow> if r = 1 then Some v else None | _ \<Rightarrow> None) ws"

lemma logs_simps [simp]:
  "madrs [] = []" "commands [] = []"
  "madrs (ws @ ws') = madrs ws @ madrs ws'" "commands (ws @ ws') = commands ws @ commands ws'"
  "madrs (w # ws) = (case w of Madr a \<Rightarrow> a # madrs ws | _ \<Rightarrow> madrs ws)"
  "commands (w # ws) = (case w of CdReg r v \<Rightarrow> (if r = 1 then v # commands ws else commands ws) | _ \<Rightarrow> commands ws)"
  by (simp_all add: madrs_def commands_def map_filter_def split: hw_write.splits)

text \<open>An interrupt of the controller: its cause and the pending bit.\<close>

definition raise :: "u8 \<Rightarrow> cd \<Rightarrow> cd" where
  "raise k d = snd (cdromIOVerifier (d\<lparr>reg3 := k, IREG := IREG d OR IRQ_CDROM\<rparr>))"

definition enabled :: "cd \<Rightarrow> bool" where
  "enabled d \<longleftrightarrow> IMASK d AND IRQ_CDROM \<noteq> 0"

text \<open>What the caller and the controller see of the machine.\<close>

record view =
  v_state :: u32
  v_preempted :: u32
  v_sectors :: int
  v_dmas :: int
  v_buffer :: u32
  v_words :: nat
  v_mode :: u32
  v_int5 :: bool
  v_calls :: "sys_call list"
  v_madrs :: "u32 list"
  v_commands :: "u8 list"
  v_mask :: u32

definition view :: "cd \<Rightarrow> view" where
  "view d = \<lparr>v_state = s_currentState d, v_preempted = s_preemptedState d, v_sectors = s_sectorCounter d,
     v_dmas = s_dmaCounter d, v_buffer = s_readBuffer d, v_words = s_wordsToRead d, v_mode = s_mode d,
     v_int5 = s_gotInt5 d, v_calls = calls d, v_madrs = madrs (out d), v_commands = commands (out d), v_mask = IMASK d\<rparr>"

definition dispatch :: "u8 \<Rightarrow> cd \<Rightarrow> cd" where
  "dispatch k d = (if k = 1 then dataReady d else if k = 2 then complete d else if k = 3 then acknowledge d
     else if k = 4 then data_end d else if k = 5 then discError d else d)"

lemma raised: "((w :: u32) OR IRQ_CDROM) AND IRQ_CDROM \<noteq> 0"
proof -
  have "bit ((w OR IRQ_CDROM) AND IRQ_CDROM) 2" by (simp add: IRQ_CDROM_def bit_simps)
  then show ?thesis by auto
qed

lemma raise_dispatch:
  assumes "enabled d" and "k \<in> {1, 2, 3, 4, 5}"
  shows "\<exists>d'. raise k d = dispatch k d' \<and> view d' = view d \<and> mem d' = mem d \<and> reg0 d' = reg0 d \<and> s_getStatusResponsePtr d' = s_getStatusResponsePtr d \<and>
    in1 d' = in1 d \<and> n1 d' = n1 d"
proof -
  define e where "e = write_hw (CdReg 0 1) (d\<lparr>reg3 := k, IREG := IREG d OR IRQ_CDROM, s_lastIREG := IREG d OR IRQ_CDROM\<rparr>)"
  define d' where "d' = flush_vector (write_hw (CdReg 3 7) (write_hw (CdReg 0 1) (e\<lparr>s_irqFlags := k\<rparr>)))"
  have k: "k AND 7 = k" "k AND 0x18 = 0" "k \<noteq> 0" using assms(2) by auto
  have "raise k d = dispatch k d'"
    using assms k raised [of "IREG d"]
    by (simp add: raise_def cdromIOVerifier_def enabled_def Let_def e_def d'_def dispatch_def)
  moreover have "view d' = view d"
    by (simp add: view_def d'_def e_def flush_vector_def write_hw_def eval_nat_numeral)
  ultimately show ?thesis
    by (intro exI [of _ d']) (simp add: d'_def e_def flush_vector_def write_hw_def eval_nat_numeral)
qed

lemma view_eq:
  "view d' = view d \<longleftrightarrow> s_currentState d' = s_currentState d \<and> s_preemptedState d' = s_preemptedState d \<and>
     s_sectorCounter d' = s_sectorCounter d \<and> s_dmaCounter d' = s_dmaCounter d \<and> s_readBuffer d' = s_readBuffer d \<and>
     s_wordsToRead d' = s_wordsToRead d \<and> s_mode d' = s_mode d \<and> s_gotInt5 d' = s_gotInt5 d \<and> calls d' = calls d \<and>
     madrs (out d') = madrs (out d) \<and> commands (out d') = commands (out d) \<and> IMASK d' = IMASK d"
  by (simp add: view_def)

lemma enabled_view: "view d' = view d \<Longrightarrow> enabled d' = enabled d"
  by (simp add: view_eq enabled_def)

definition reading :: "cd \<Rightarrow> bool" where
  "reading d \<longleftrightarrow> (s_currentState d = READN \<or> s_currentState d = READS) \<and> s_preemptedState d = IDLE"

lemma idle_not_reading: "IDLE \<noteq> READN" "IDLE \<noteq> READS" "IDLE \<noteq> 0xe6" "IDLE \<noteq> 0xeb"
  by (simp_all add: cd_states)

lemma dataReady_reading:
  assumes "reading d" and "1 \<le> s_sectorCounter d"
  shows "view (dataReady d) = (view d)
    \<lparr>v_sectors := s_sectorCounter d - 1, v_madrs := madrs (out d) @ [s_readBuffer d],
     v_buffer := s_readBuffer d + of_nat (4 * s_wordsToRead d),
     v_state := (if s_sectorCounter d = 1 then PAUSING else s_currentState d),
     v_commands := commands (out d) @ (if s_sectorCounter d = 1 then [CDL_PAUSE] else [])\<rparr>"
proof -
  have "dataReady d = initiateDMA (skip1 d)"
    using assms(1) by (auto simp: dataReady_def read1_def skip1_def reading_def idle_not_reading)
  then show ?thesis
    using assms(2) by (simp add: view_def initiateDMA_def setDMA_def Let_def)
qed

lemma raise1_reading:
  assumes "enabled d" "reading d" "1 \<le> s_sectorCounter d"
  shows "view (raise 1 d) = (view d)
    \<lparr>v_sectors := s_sectorCounter d - 1, v_madrs := madrs (out d) @ [s_readBuffer d],
     v_buffer := s_readBuffer d + of_nat (4 * s_wordsToRead d),
     v_state := (if s_sectorCounter d = 1 then PAUSING else s_currentState d),
     v_commands := commands (out d) @ (if s_sectorCounter d = 1 then [CDL_PAUSE] else [])\<rparr>"
proof -
  obtain d' where d': "raise 1 d = dispatch 1 d'" "view d' = view d"
    using raise_dispatch [OF assms(1), of 1] by auto
  have "reading d'" "1 \<le> s_sectorCounter d'" using d'(2) assms by (simp_all add: view_eq reading_def)
  from dataReady_reading [OF this] show ?thesis
    using d' by (simp add: dispatch_def view_def)
qed

text \<open>The machine after the first sectors of a read.\<close>

lemma raise1_reading_n:
  assumes "enabled d" "reading d" "s_sectorCounter d = int n" "k \<le> n" "0 < n"
  shows "view ((raise 1 ^^ k) d) = (view d)
    \<lparr>v_sectors := int n - int k,
     v_madrs := madrs (out d) @ map (\<lambda>i. s_readBuffer d + of_nat (4 * s_wordsToRead d * i)) [0..<k],
     v_buffer := s_readBuffer d + of_nat (4 * s_wordsToRead d * k),
     v_state := (if k = n then PAUSING else s_currentState d),
     v_commands := commands (out d) @ (if k = n then [CDL_PAUSE] else [])\<rparr>"
  using assms(4)
proof (induction k)
  case 0
  then show ?case using assms by (simp add: view_def)
next
  case (Suc k)
  define dk where "dk = (raise 1 ^^ k) d"
  have v: "view dk = (view d)
    \<lparr>v_sectors := int n - int k,
     v_madrs := madrs (out d) @ map (\<lambda>i. s_readBuffer d + of_nat (4 * s_wordsToRead d * i)) [0..<k],
     v_buffer := s_readBuffer d + of_nat (4 * s_wordsToRead d * k)\<rparr>"
    using Suc by (simp add: dk_def view_def)
  then have f: "s_currentState dk = s_currentState d" "s_preemptedState dk = s_preemptedState d"
    "s_sectorCounter dk = int n - int k" "s_wordsToRead dk = s_wordsToRead d"
    "s_readBuffer dk = s_readBuffer d + of_nat (4 * s_wordsToRead d * k)" "IMASK dk = IMASK d"
    "madrs (out dk) = madrs (out d) @ map (\<lambda>i. s_readBuffer d + of_nat (4 * s_wordsToRead d * i)) [0..<k]"
    "commands (out dk) = commands (out d)"
    by (simp_all add: view_def)
  have "enabled dk" "reading dk" "1 \<le> s_sectorCounter dk"
    using assms f Suc.prems by (simp_all add: enabled_def reading_def)
  from raise1_reading [OF this] show ?case
    using v f Suc.prems by (auto simp: dk_def [symmetric] algebra_simps)
qed

lemma raise3_views:
  assumes "enabled d"
  shows "s_currentState d = READ_SETMODE \<Longrightarrow> view (raise 3 d) = (view d)
      \<lparr>v_state := (if s_mode d AND 0x100 = 0 then READN else READS),
       v_commands := commands (out d) @ [if s_mode d AND 0x100 = 0 then CDL_READN else CDL_READS]\<rparr>"
    and "s_currentState d \<in> {READN, READS, PAUSING, GOT_ERROR_AND_REINIT} \<Longrightarrow> view (raise 3 d) = view d"
proof -
  obtain d' where d': "raise 3 d = dispatch 3 d'" "view d' = view d"
    using raise_dispatch [OF assms, of 3] by auto
  have r: "raise 3 d = acknowledge d'" using d'(1) by (simp add: dispatch_def)
  show "view (raise 3 d) = (view d)
      \<lparr>v_state := (if s_mode d AND 0x100 = 0 then READN else READS),
       v_commands := commands (out d) @ [if s_mode d AND 0x100 = 0 then CDL_READN else CDL_READS]\<rparr>"
    if "s_currentState d = READ_SETMODE"
  proof -
    have s: "s_currentState d' = READ_SETMODE" "s_mode d' = s_mode d" using d'(2) that by (simp_all add: view_eq)
    then have "acknowledge d' = readSetModeResponse (skip1 d')"
      by (simp add: acknowledge_def read1_def skip1_def cd_states)
    then show ?thesis
      using r s d'(2) by (simp add: readSetModeResponse_def Let_def view_def)
  qed
  show "view (raise 3 d) = view d" if "s_currentState d \<in> {READN, READS, PAUSING, GOT_ERROR_AND_REINIT}"
  proof -
    have s: "s_currentState d' \<in> {READN, READS, PAUSING, GOT_ERROR_AND_REINIT}" using d'(2) that by (simp add: view_eq)
    then have "acknowledge d' = skip1 d' \<or> acknowledge d' = (skip1 d')\<lparr>s_gotInt3 := True\<rparr>"
      by (auto simp: acknowledge_def read1_def skip1_def cd_states)
    then show ?thesis using r d'(2) by (auto simp: view_def)
  qed
qed

lemma raise2_views:
  assumes "enabled d"
  shows "s_currentState d = PAUSING \<Longrightarrow>
      view (raise 2 d) = (view d)\<lparr>v_state := IDLE, v_calls := calls d @ [Deliver 0x20]\<rparr>"
    and "s_currentState d = GOT_ERROR_AND_REINIT \<Longrightarrow>
      view (raise 2 d) = (view d)\<lparr>v_state := IDLE, v_int5 := False, v_calls := calls d @ [Deliver 0x8000]\<rparr>"
proof -
  obtain d' where d': "raise 2 d = dispatch 2 d'" "view d' = view d"
    using raise_dispatch [OF assms, of 2] by auto
  have r: "raise 2 d = complete d'" using d'(1) by (simp add: dispatch_def)
  show "view (raise 2 d) = (view d)\<lparr>v_state := IDLE, v_calls := calls d @ [Deliver 0x20]\<rparr>" if "s_currentState d = PAUSING"
  proof -
    have "s_currentState d' = PAUSING" using d'(2) that by (simp add: view_eq)
    then show ?thesis using r d'(2)
      by (simp add: complete_def Let_def view_def go_idle_def deliver_def) (simp add: cd_states)
  qed
  show "view (raise 2 d) = (view d)\<lparr>v_state := IDLE, v_int5 := False, v_calls := calls d @ [Deliver 0x8000]\<rparr>"
    if "s_currentState d = GOT_ERROR_AND_REINIT"
  proof -
    have "s_currentState d' = GOT_ERROR_AND_REINIT" using d'(2) that by (simp add: view_eq)
    then show ?thesis using r d'(2)
      by (simp add: complete_def Let_def view_def go_idle_def deliver_def) (simp add: cd_states)
  qed
qed

definition words_of_mode :: "u32 \<Rightarrow> nat" where
  "words_of_mode mode = (if mode AND 0x10 = 0 then if mode AND 0x20 = 0 then 0x200 else 0x249 else 0x246)"

lemma cdromRead_accepted:
  assumes "cdromRead c buf mode d = (1, d0)"
  shows "0 < c" "s_currentState d = IDLE"
    "view d0 = (view d)\<lparr>v_state := READ_SETMODE, v_sectors := c, v_dmas := c, v_buffer := buf,
       v_words := words_of_mode mode, v_mode := mode, v_commands := commands (out d) @ [CDL_SETMODE],
       v_calls := calls d @ map Undeliver [0x40, 0x10, 0x20, 0x80, 0x8000, 0x100, 0x200]\<rparr>"
  using assms
  by (auto simp: cdromRead_def Let_def view_def words_of_mode_def cdromUndeliverAll_def split: if_splits)

text \<open>
  C15: The course of a read. Once a read of \<open>n\<close> sectors is accepted, the acknowledges of its two commands start
  it; each sector that arrives is sent by DMA to the next place of the buffer, in steps of the sector size the
  mode asks for, and the pause command goes out with the last one and no sooner. The pause acknowledged and
  complete, the machine is idle, has given the controller just the three commands and the caller just one
  completion event.
\<close>

theorem read_protocol:
  assumes "cdromRead (int n) buf mode d = (1, d0)" and "s_preemptedState d = IDLE" and "IMASK d AND IRQ_CDROM \<noteq> 0"
    and "d2 = raise 3 (raise 3 d0)" and "e = raise 2 (raise 3 ((raise 1 ^^ n) d2))"
  shows "(\<forall>k \<le> n. madrs (out ((raise 1 ^^ k) d2)) =
             madrs (out d) @ map (\<lambda>i. buf + of_nat (4 * words_of_mode mode * i)) [0..<k] \<and>
           (s_currentState ((raise 1 ^^ k) d2) = PAUSING \<longleftrightarrow> k = n)) \<and>
    s_currentState e = IDLE \<and>
    commands (out e) = commands (out d) @
      [CDL_SETMODE, if mode AND 0x100 = 0 then CDL_READN else CDL_READS, CDL_PAUSE] \<and>
    calls e = calls d @ map Undeliver [0x40, 0x10, 0x20, 0x80, 0x8000, 0x100, 0x200] @ [Deliver 0x20]"
proof -
  note a = cdromRead_accepted [OF assms(1)]
  have e0: "enabled d0" using a(3) assms(3) by (simp add: enabled_def view_def)
  have s0: "s_currentState d0 = READ_SETMODE" "s_mode d0 = mode" using a(3) by (simp_all add: view_def)
  note v1 = raise3_views(1) [OF e0 s0(1)]
  define d1 where "d1 = raise 3 d0"
  have e1: "enabled d1" using v1 e0 by (simp add: d1_def enabled_def view_def)
  have s1: "s_currentState d1 = (if mode AND 0x100 = 0 then READN else READS)"
    using v1 s0 by (simp add: d1_def view_def)
  have v2: "view d2 = view d1"
    using raise3_views(2) [OF e1] s1 assms(4) by (simp add: d1_def)
  have d2: "enabled d2" "reading d2" "s_sectorCounter d2 = int n" "s_readBuffer d2 = buf"
    "s_wordsToRead d2 = words_of_mode mode" "madrs (out d2) = madrs (out d)"
    "commands (out d2) = commands (out d) @ [CDL_SETMODE, if mode AND 0x100 = 0 then CDL_READN else CDL_READS]"
    "calls d2 = calls d @ map Undeliver [0x40, 0x10, 0x20, 0x80, 0x8000, 0x100, 0x200]"
    using v2 v1 a(3) s0 s1 e1 assms(2)
    by (simp_all add: d1_def view_eq enabled_def reading_def) (simp_all add: view_def)
  note n = raise1_reading_n [OF d2(1-3)]
  have n0: "0 < n" using a(1) by simp
  define dn where "dn = (raise 1 ^^ n) d2"
  have vn: "view dn = (view d2)\<lparr>v_sectors := 0,
      v_madrs := madrs (out d2) @ map (\<lambda>i. buf + of_nat (4 * words_of_mode mode * i)) [0..<n],
      v_buffer := buf + of_nat (4 * words_of_mode mode * n), v_state := PAUSING,
      v_commands := commands (out d2) @ [CDL_PAUSE]\<rparr>"
    using n [of n] n0 d2 by (simp add: dn_def)
  have en: "enabled dn" "s_currentState dn = PAUSING" using vn d2(1) by (simp_all add: enabled_def view_def)
  have v3: "view (raise 3 dn) = view dn" using raise3_views(2) [OF en(1)] en(2) by simp
  have e3: "enabled (raise 3 dn)" "s_currentState (raise 3 dn) = PAUSING"
    using v3 en by (simp_all add: view_eq enabled_def)
  note v4 = raise2_views(1) [OF e3]
  have "e = raise 2 (raise 3 dn)" using assms(5) by (simp add: dn_def)
  then have fin: "s_currentState e = IDLE"
    "commands (out e) = commands (out d) @ [CDL_SETMODE, if mode AND 0x100 = 0 then CDL_READN else CDL_READS, CDL_PAUSE]"
    "calls e = calls d @ map Undeliver [0x40, 0x10, 0x20, 0x80, 0x8000, 0x100, 0x200] @ [Deliver 0x20]"
    using v4 v3 vn d2 by (simp_all add: view_def)
  have "madrs (out ((raise 1 ^^ k) d2)) = madrs (out d) @ map (\<lambda>i. buf + of_nat (4 * words_of_mode mode * i)) [0..<k] \<and>
      (s_currentState ((raise 1 ^^ k) d2) = PAUSING \<longleftrightarrow> k = n)" if "k \<le> n" for k
  proof -
    have "READN \<noteq> PAUSING" "READS \<noteq> PAUSING" by (simp_all add: cd_states)
    then show ?thesis using n [OF that n0] d2 by (auto simp: view_def reading_def)
  qed
  then show ?thesis using fin by blast
qed

text \<open>The machine before anything ran, on a controller that is ready and answers \<open>f\<close>.\<close>

definition cd_init :: "(nat \<Rightarrow> u8) \<Rightarrow> cd" where
  "cd_init f =
     \<lparr>s_currentState = 0, s_preemptedState = 0, s_gotInt3 = False, s_gotInt5 = False, s_wordsToRead = 0,
      s_sectorCounter = 0, s_dmaCounter = 0, s_readBuffer = 0, s_initialReadBuffer = 0, s_mode = 0,
      s_initializationComplete = 0, s_err1 = 0, s_err2 = 0, s_getStatusResponsePtr = 0, s_idResponsePtr = 0,
      s_getLocResponsePtr = 0, s_testAckPtr = 0, s_tracksInformationPtr = 0, s_getParamResultsPtr = 0,
      s_getIDerrPtr = 0, s_getTDtrackNum = 0, s_numberOfTracks = 0, s_firstTrack = 0,
      s_audioResp = replicate 8 0, s_lastIREG = 0, s_irqFlags = 0, s_autoAckIO = False, s_autoAckDMA = False,
      mem = (\<lambda>a. 0), in1 = f, n1 = 0, reg0 = 0x10, reg3 = 0, IMASK = 0, IREG = 0, DICR = 0, DPCR = 0,
      out = [], calls = []\<rparr>"

definition cd_idle :: cd where
  "cd_idle = (cd_init (\<lambda>n. 2))\<lparr>s_currentState := IDLE, s_preemptedState := IDLE, IMASK := 12\<rparr>"

theorem read_protocol_witness:
  "\<exists>d0. cdromRead 2 0x80010000 0x80 cd_idle = (1, d0) \<and>
     (let e = raise 2 (raise 3 ((raise 1 ^^ 2) (raise 3 (raise 3 d0))))
      in s_currentState e = IDLE \<and> commands (out e) = [CDL_SETMODE, CDL_READN, CDL_PAUSE])"
proof -
  obtain d0 where d0: "cdromRead (int 2) 0x80010000 0x80 cd_idle = (1, d0)"
    by (simp add: cdromRead_def cd_idle_def cd_init_def busy0_def cdromUndeliverAll_def sys_def Let_def)
  show ?thesis
    using read_protocol [OF d0 _ _ refl refl] d0 by (simp add: cd_idle_def cd_init_def IRQ_CDROM_def Let_def)
qed

lemma raise_reach: "cd_reach d0 d \<Longrightarrow> cd_reach d0 (raise k d)"
proof -
  assume "cd_reach d0 d"
  then have "cd_reach d0 (d\<lparr>in1 := in1 d, n1 := n1 d, reg0 := reg0 d, reg3 := k, IREG := IREG d OR IRQ_CDROM,
      DICR := DICR d\<rparr>)"
    by (rule cd_next [OF _ hardware])
  then have "cd_reach d0 (snd (cdromIOVerifier (d\<lparr>in1 := in1 d, n1 := n1 d, reg0 := reg0 d, reg3 := k,
      IREG := IREG d OR IRQ_CDROM, DICR := DICR d\<rparr>)))"
    by (rule cd_next [OF _ io_irq])
  moreover have "d\<lparr>in1 := in1 d, n1 := n1 d, reg0 := reg0 d, reg3 := k, IREG := IREG d OR IRQ_CDROM, DICR := DICR d\<rparr> =
      d\<lparr>reg3 := k, IREG := IREG d OR IRQ_CDROM\<rparr>" by simp
  ultimately show ?thesis unfolding raise_def by simp
qed

text \<open>The machine once initialised.\<close>

definition cd_ready :: cd where
  "cd_ready = raise 2 (raise 3 (init_start (cd_init (\<lambda>n. 2))))"

lemma cd_ready_reach: "cd_reach (cd_init (\<lambda>n. 2)) cd_ready"
  unfolding cd_ready_def by (intro raise_reach cd_start)

lemma cd_ready_state: "s_currentState cd_ready = IDLE" "IMASK cd_ready AND IRQ_CDROM \<noteq> 0" "\<not> busy0 cd_ready"
proof -
  define i where "i = init_start (cd_init (\<lambda>n. 2))"
  have i: "s_currentState i = INITIALIZING" "IMASK i = 12" "reg0 i = 0x10"
    by (simp_all add: i_def init_start_def cd_init_def set_mask_def enableAllCDRomIRQs_def resetAllCDRomIRQs_def
        Let_def upt_rec IRQ_CDROM_def IRQ_DMA_def)
  obtain d' where d': "raise 3 i = dispatch 3 d'" "view d' = view i" "reg0 d' = reg0 i"
    using raise_dispatch [of i 3] i by (auto simp: enabled_def IRQ_CDROM_def)
  have "s_currentState d' = INITIALIZING" using d'(2) i by (simp add: view_eq)
  then have "acknowledge d' = skip1 d'" by (simp add: acknowledge_def read1_def skip1_def cd_states)
  then have j: "s_currentState (raise 3 i) = INITIALIZING" "IMASK (raise 3 i) = 12" "reg0 (raise 3 i) = 0x10"
    using d' i by (simp_all add: dispatch_def view_eq) (simp add: skip1_def read1_def)
  obtain e' where e': "raise 2 (raise 3 i) = dispatch 2 e'" "view e' = view (raise 3 i)" "reg0 e' = reg0 (raise 3 i)"
    using raise_dispatch [of "raise 3 i" 2] j by (auto simp: enabled_def IRQ_CDROM_def)
  have "s_currentState e' = INITIALIZING" using e'(2) j by (simp add: view_eq)
  then have "complete e' = (skip1 e')\<lparr>s_currentState := IDLE, s_initializationComplete := 1\<rparr>"
    by (simp add: complete_def Let_def cd_states)
  then have r: "cd_ready = (skip1 e')\<lparr>s_currentState := IDLE, s_initializationComplete := 1\<rparr>"
    using e'(1) by (simp add: cd_ready_def i_def dispatch_def)
  show "s_currentState cd_ready = IDLE" "IMASK cd_ready AND IRQ_CDROM \<noteq> 0" "\<not> busy0 cd_ready"
    using e' j unfolding r by (simp_all add: view_eq busy0_def IRQ_CDROM_def) (simp add: skip1_def read1_def)
qed

theorem dead_states_unreachable_witness: "s_preemptedState cd_ready = IDLE"
  using dead_states_unreachable [OF cd_ready_reach] by simp

section \<open>Completion of the transfers\<close>

definition raise_dma :: "cd \<Rightarrow> cd" where
  "raise_dma d = snd (cdromDMAVerifier (d\<lparr>IREG := IREG d OR IRQ_DMA\<rparr>))"

lemma raised_dma: "((w :: u32) OR IRQ_DMA) AND IRQ_DMA \<noteq> 0"
proof -
  have "bit ((w OR IRQ_DMA) AND IRQ_DMA) 3" by (simp add: IRQ_DMA_def bit_simps)
  then show ?thesis by auto
qed

lemma raise_dma_view:
  assumes "IMASK d AND IRQ_DMA \<noteq> 0"
  shows "view (raise_dma d) = (view d)\<lparr>v_dmas := s_dmaCounter d - 1,
     v_calls := calls d @ (if s_dmaCounter d = 1 then [Deliver 0x10] else [])\<rparr>"
  using assms raised_dma [of "IREG d"]
  by (simp add: raise_dma_def cdromDMAVerifier_def Let_def view_def deliver_def)

text \<open>
  The completion of the transfers. Of the DMA interrupts after a read of \<open>n\<close> sectors, the \<open>n\<close>-th and only
  that one signals the caller that the data is in memory.
\<close>

theorem dma_completion_once:
  assumes "s_dmaCounter d = int n" and "0 < n" and "IMASK d AND IRQ_DMA \<noteq> 0"
  shows "calls ((raise_dma ^^ k) d) = calls d @ (if n \<le> k then [Deliver 0x10] else [])"
proof -
  have "view ((raise_dma ^^ k) d) = (view d)\<lparr>v_dmas := int n - int k,
      v_calls := calls d @ (if n \<le> k then [Deliver 0x10] else [])\<rparr>"
  proof (induction k)
    case 0 then show ?case using assms by (simp add: view_def)
  next
    case (Suc k)
    then have "s_dmaCounter ((raise_dma ^^ k) d) = int n - int k" "IMASK ((raise_dma ^^ k) d) = IMASK d"
      "calls ((raise_dma ^^ k) d) = calls d @ (if n \<le> k then [Deliver 0x10] else [])"
      by (simp_all add: view_def)
    then show ?case
      using raise_dma_view [of "(raise_dma ^^ k) d"] assms(3) Suc by (auto simp: view_def)
  qed
  then show ?thesis by (simp add: view_def)
qed

theorem dma_completion_once_witness:
  "calls ((raise_dma ^^ 3) (cd_idle\<lparr>s_dmaCounter := 2\<rparr>)) = [Deliver 0x10]"
  using dma_completion_once [where d = "cd_idle\<lparr>s_dmaCounter := 2\<rparr>" and n = 2 and k = 3]
  by (simp add: cd_idle_def cd_init_def IRQ_DMA_def)

section \<open>Errors\<close>

lemma raise5_views:
  assumes "enabled d" and "s_currentState d \<noteq> 0x1a" and "s_currentState d \<noteq> INITIALIZING"
  shows "s_err1 (raise 5 d) = in1 d (n1 d) \<and> s_err2 (raise 5 d) = in1 d (n1 d + 1) \<and>
    view (raise 5 d) = (if s_gotInt5 d
      then (view d)\<lparr>v_state := IDLE, v_preempted := IDLE, v_int5 := False, v_calls := calls d @ [Deliver 0x8000]\<rparr>
      else (view d)\<lparr>v_state := GOT_ERROR_AND_REINIT, v_preempted := IDLE, v_int5 := True,
             v_commands := commands (out d) @ [CDL_INIT]\<rparr>)"
proof -
  obtain d' where d': "raise 5 d = dispatch 5 d'" "view d' = view d" "in1 d' = in1 d" "n1 d' = n1 d"
    using raise_dispatch [OF assms(1), of 5] by auto
  have "s_currentState d' = s_currentState d" "s_gotInt5 d' = s_gotInt5 d" using d'(2) by (simp_all add: view_eq)
  then show ?thesis
    using d' assms(2,3)
    by (simp add: dispatch_def discError_def read1_def Let_def view_def go_idle_def deliver_def sys_def write_hw_def)
qed

lemma raise5_init:
  assumes "enabled d" and "s_currentState d = INITIALIZING"
  shows "s_err1 (raise 5 d) = in1 d (n1 d) \<and> s_err2 (raise 5 d) = in1 d (n1 d + 1) \<and> calls (raise 5 d) = calls d \<and>
    s_currentState (raise 5 d) = INITIALIZING \<and> s_initializationComplete (raise 5 d) = 2 \<and> commands (out (raise 5 d)) = commands (out d)"
proof -
  obtain d' where d': "raise 5 d = dispatch 5 d'" "view d' = view d" "in1 d' = in1 d" "n1 d' = n1 d"
    using raise_dispatch [OF assms(1), of 5] by auto
  have "s_currentState d' = INITIALIZING" "calls d' = calls d" "commands (out d') = commands (out d)"
    using d'(2) assms(2) by (simp_all add: view_eq)
  then show ?thesis using d' by (simp add: dispatch_def discError_def read1_def Let_def cd_states)
qed

text \<open>Between an error and the end of the recovery the machine is in the recovery state, and only then.\<close>

definition recovering :: "cd \<Rightarrow> bool" where
  "recovering d \<longleftrightarrow> live d \<and> (s_gotInt5 d \<longleftrightarrow> s_currentState d = GOT_ERROR_AND_REINIT)"


lemma undeliver_int5 [simp]:
  "s_gotInt5 (cdromUndeliverAll d) = s_gotInt5 d" "s_gotInt5 (cdromUndeliverAllExceptAckAndRdy d) = s_gotInt5 d"
  by (simp_all add: cdromUndeliverAll_def cdromUndeliverAllExceptAckAndRdy_def)

lemma distinct_states:
  "GOT_ERROR_AND_REINIT \<notin> {GETSTATUS, SETMODE, SEEKL, SEEKP, SEEKL_SETLOC, READN, READS, READ_SETMODE,
     INITIALIZING, PAUSING, IDLE, 0xe6, 0xeb, 3, 4, 5, 8, 9, 0x1a, 0x12}"
  by (simp add: cd_states)

lemma int5_entry:
  assumes "recovering d"
  shows "recovering (snd (cdromSeekL m s f d))" "recovering (snd (cdromGetStatus p d))"
    "recovering (snd (cdromRead c b mode d))" "recovering (snd (cdromSetMode mode d))"
proof -
  have l: "live d" and i: "s_gotInt5 d \<longleftrightarrow> s_currentState d = GOT_ERROR_AND_REINIT"
    using assms by (simp_all add: recovering_def)
  have "s_currentState d \<noteq> 0xe6" "s_currentState d \<noteq> 0xeb"
    using l by (auto simp: live_def live_states_def cd_states)
  then show "recovering (snd (cdromSeekL m s f d))" "recovering (snd (cdromGetStatus p d))"
    "recovering (snd (cdromRead c b mode d))" "recovering (snd (cdromSetMode mode d))"
    using entry_live [OF l] i distinct_states
    by (simp_all add: recovering_def)
      (auto simp: cdromSeekL_def cdromGetStatus_def cdromRead_def cdromSetMode_def Let_def split: if_splits)
qed

lemma int5_handlers:
  assumes "recovering d"
  shows "recovering (dataReady d)" "recovering (complete d)" "recovering (acknowledge d)" "recovering (data_end d)"
    "recovering (discError d)"
proof -
  have l: "live d" and i: "s_gotInt5 d \<longleftrightarrow> s_currentState d = GOT_ERROR_AND_REINIT"
    using assms by (simp_all add: recovering_def)
  have n: "s_currentState d \<notin> {0x10, 0x11, 0x12, 0x19, 0x1a, 3, 4, 5, 8, 9, 12, 0x14, 15, 0x13, 0x50, 0xeb, 0xe6, 0xe2, 0xee, 0xf14}"
    "s_preemptedState d = IDLE"
    using l by (auto simp: live_def live_states_def cd_states)
  show "recovering (dataReady d)"
  proof (cases "s_currentState d = READN \<or> s_currentState d = READS")
    case True
    then have "dataReady d = initiateDMA (skip1 d)"
      using n(2) by (auto simp: dataReady_def read1_def skip1_def idle_not_reading)
    moreover have "s_gotInt5 (initiateDMA (skip1 d)) = s_gotInt5 d"
      "s_currentState (initiateDMA (skip1 d)) \<in> {s_currentState d, PAUSING}"
      by (simp_all add: initiateDMA_def setDMA_def Let_def)
    ultimately show ?thesis
      using dataReady_live [OF l] i True distinct_states by (auto simp: recovering_def)
  next
    case False
    then have "dataReady d = deliver 0x200 (skip1 d)"
      using n by (auto simp: dataReady_def read1_def skip1_def idle_not_reading)
    then show ?thesis using dataReady_live [OF l] i by (simp add: recovering_def deliver_def)
  qed
  show "recovering (complete d)"
  proof -
    have "s_currentState (complete d) = IDLE" "s_gotInt5 (complete d) \<longleftrightarrow>
        s_gotInt5 d \<and> s_currentState d \<noteq> GOT_ERROR_AND_REINIT"
      using n i by (simp_all add: complete_def Let_def go_idle_def deliver_def cd_states)
    then show ?thesis using complete_live [OF l] i distinct_states by (auto simp: recovering_def)
  qed
  show "recovering (acknowledge d)"
  proof -
    have "s_gotInt5 (acknowledge d) = s_gotInt5 d"
      using n by (simp add: acknowledge_def Let_def go_idle_def deliver_def read1_def ack_def getStatusAck_def
        readSetModeResponse_def issueSeekAfterSetLoc_def)
    moreover have "s_currentState (acknowledge d) = GOT_ERROR_AND_REINIT \<longleftrightarrow> s_currentState d = GOT_ERROR_AND_REINIT"
      using n by (simp add: acknowledge_def Let_def go_idle_def deliver_def read1_def ack_def getStatusAck_def
        readSetModeResponse_def issueSeekAfterSetLoc_def cd_states)
    ultimately show ?thesis using acknowledge_live [OF l] i by (simp add: recovering_def)
  qed
  show "recovering (data_end d)"
  proof -
    have idle: "IDLE \<noteq> 3" "IDLE \<noteq> 4" "IDLE \<noteq> 5" by (simp_all add: cd_states)
    have "s_gotInt5 (data_end d) = s_gotInt5 d \<and>
        (if s_currentState d = READN \<or> s_currentState d = READS then s_currentState (data_end d) = IDLE
         else s_currentState (data_end d) = s_currentState d)"
    proof (cases "s_currentState d = READN \<or> s_currentState d = READS")
      case True
      then show ?thesis using n(2) idle idle_not_reading by (auto simp add: data_end_def Let_def deliver_def)
    next
      case False
      then show ?thesis using n idle_not_reading by (simp add: data_end_def Let_def deliver_def)
    qed
    then show ?thesis using data_end_live [OF l] i distinct_states by (auto simp: recovering_def split: if_splits)
  qed
  show "recovering (discError d)"
  proof -
    have "s_gotInt5 (discError d) \<longleftrightarrow> s_currentState (discError d) = GOT_ERROR_AND_REINIT"
      using n i by (simp add: discError_def Let_def deliver_def go_idle_def read1_def cd_states)
    then show ?thesis using discError_live [OF l] by (simp add: recovering_def)
  qed
qed

lemma recovering_frame:
  "recovering (write_hw w d) = recovering d" "recovering (d\<lparr>s_lastIREG := i\<rparr>) = recovering d"
  "recovering (d\<lparr>s_irqFlags := j\<rparr>) = recovering d" "recovering (flush_vector d) = recovering d"
  "recovering (d\<lparr>s_dmaCounter := k\<rparr>) = recovering d" "recovering (sys c d) = recovering d"
  by (simp_all add: recovering_def live_frame)

lemma step_recovering: "cd_step d d' \<Longrightarrow> recovering d \<Longrightarrow> recovering d'"
proof (induction rule: cd_step.induct)
  case (io_irq d)
  then show ?case
    by (auto simp: cdromIOVerifier_def Let_def recovering_frame intro!: int5_handlers)
next
  case (dma_irq d)
  then show ?case by (auto simp: cdromDMAVerifier_def Let_def recovering_frame deliver_def)
next
  case (initialise d)
  have "\<not> s_gotInt5 (init_start d)" "s_currentState (init_start d) = INITIALIZING"
    by (simp_all add: init_start_def Let_def set_mask_def enableAllCDRomIRQs_def resetAllCDRomIRQs_def
        upt_rec eval_nat_numeral)
  then show ?case using init_start_live [of d] distinct_states by (auto simp: recovering_def)
next
  case (hardware d f n r0 r3 i j)
  then show ?case using others_live(5) by (simp add: recovering_def)
qed (simp_all add: int5_entry, (simp add: recovering_def others_live, simp add: cdromIOHandler_def cdromDMAHandler_def getLastCDRomError_def
      setCDRomIRQAutoAck_def)+)

lemma reach_recovering: "cd_reach d0 d \<Longrightarrow> recovering d"
proof (induction rule: cd_reach.induct)
  case cd_start
  have "\<not> s_gotInt5 (init_start d0)" "s_currentState (init_start d0) = INITIALIZING"
    by (simp_all add: init_start_def Let_def set_mask_def enableAllCDRomIRQs_def resetAllCDRomIRQs_def
        upt_rec eval_nat_numeral)
  then show ?case using init_start_live [of d0] distinct_states by (auto simp: recovering_def)
next
  case (cd_next d d')
  then show ?case using step_recovering by blast
qed

text \<open>
  C17: Errors are reported. With the interrupt of the controller enabled, an error interrupt keeps the two bytes of
  the controller. During the initialisation it makes the wait for it fail (\<open>s_initializationComplete\<close> is 2), and the
  caller is told nothing. In any other state but the recovery itself it starts one recovery, without a word to the
  caller; the recovery acknowledged and complete, or stopped by a second error, the caller gets the error event, just
  once, and the machine is idle.
\<close>

theorem errors_reported:
  assumes "cd_reach d0 d" and "IMASK d AND IRQ_CDROM \<noteq> 0"
    and "s_currentState d \<noteq> GOT_ERROR_AND_REINIT"
  shows "s_err1 (raise 5 d) = in1 d (n1 d) \<and> s_err2 (raise 5 d) = in1 d (n1 d + 1) \<and> calls (raise 5 d) = calls d \<and>
    (if s_currentState d = INITIALIZING
     then s_currentState (raise 5 d) = INITIALIZING \<and> s_initializationComplete (raise 5 d) = 2 \<and> commands (out (raise 5 d)) = commands (out d)
     else s_currentState (raise 5 d) = GOT_ERROR_AND_REINIT \<and> commands (out (raise 5 d)) = commands (out d) @ [CDL_INIT] \<and>
       (\<forall>e \<in> {raise 2 (raise 3 (raise 5 d)), raise 5 (raise 5 d)}.
          s_currentState e = IDLE \<and> calls e = calls d @ [Deliver 0x8000] \<and> \<not> s_gotInt5 e))"
proof (cases "s_currentState d = INITIALIZING")
  case True
  then show ?thesis using raise5_init [of d] assms(2) by (simp add: enabled_def)
next
  case False
  have "recovering d" by (rule reach_recovering [OF assms(1)])
  then have i: "\<not> s_gotInt5 d" "live d" using assms(3) by (auto simp: recovering_def)
  have en: "enabled d" using assms(2) by (simp add: enabled_def)
  have n: "s_currentState d \<noteq> 0x1a" "s_currentState d \<noteq> INITIALIZING"
    using i(2) assms(3) False by (auto simp: live_def live_states_def cd_states)
  note v = raise5_views [OF en n]
  define e where "e = raise 5 d"
  have e: "s_currentState e = GOT_ERROR_AND_REINIT" "s_gotInt5 e" "enabled e" "calls e = calls d"
    "commands (out e) = commands (out d) @ [CDL_INIT]"
    using v i en by (simp_all add: e_def view_def enabled_def)
  have v3: "view (raise 3 e) = view e" using raise3_views(2) [OF e(3)] e(1) by simp
  have e3: "enabled (raise 3 e)" "s_currentState (raise 3 e) = GOT_ERROR_AND_REINIT"
    using v3 e by (simp_all add: view_eq enabled_def)
  have f: "s_currentState (raise 2 (raise 3 e)) = IDLE" "calls (raise 2 (raise 3 e)) = calls d @ [Deliver 0x8000]"
    "\<not> s_gotInt5 (raise 2 (raise 3 e))"
    using raise2_views(2) [OF e3] v3 e by (simp_all add: view_def)
  have "s_currentState e \<noteq> 0x1a" "s_currentState e \<noteq> INITIALIZING" using e(1) by (simp_all add: cd_states)
  from raise5_views [OF e(3) this] have g: "s_currentState (raise 5 e) = IDLE"
    "calls (raise 5 e) = calls d @ [Deliver 0x8000]" "\<not> s_gotInt5 (raise 5 e)"
    using e by (simp_all add: view_def)
  show ?thesis using v e f g False by (simp add: e_def)
qed

theorem errors_reported_witness:
  "s_currentState (raise 5 cd_ready) = GOT_ERROR_AND_REINIT \<and> s_currentState (raise 5 (raise 5 cd_ready)) = IDLE"
proof -
  have "s_currentState cd_ready \<notin> {INITIALIZING, GOT_ERROR_AND_REINIT}"
    using cd_ready_state(1) by (simp add: cd_states)
  then show ?thesis using errors_reported [OF cd_ready_reach cd_ready_state(2)] by simp
qed

text \<open>
  The entry points are guarded. A read is accepted exactly when it asks for at least one sector, the machine
  is idle and the controller can take parameters, a seek and a change of mode exactly under the last two, and
  a status request whenever the machine is idle; on a machine that is not idle all four are refused and change
  nothing.
\<close>

theorem entry_points_guarded:
  assumes "cd_reach d0 d"
  shows "(fst (cdromRead c b mode d) = 1 \<longleftrightarrow> s_currentState d = IDLE \<and> 0 < c \<and> \<not> busy0 d) \<and>
    (fst (cdromSeekL m s f d) = 1 \<longleftrightarrow> s_currentState d = IDLE \<and> \<not> busy0 d) \<and>
    (fst (cdromSetMode mode d) = 1 \<longleftrightarrow> s_currentState d = IDLE \<and> \<not> busy0 d) \<and>
    (fst (cdromGetStatus p d) = 1 \<longleftrightarrow> s_currentState d = IDLE) \<and>
    (s_currentState d \<noteq> IDLE \<longrightarrow> cdromRead c b mode d = (0, d) \<and> cdromSeekL m s f d = (0, d) \<and>
       cdromSetMode mode d = (0, d) \<and> cdromGetStatus p d = (0, d))"
proof -
  have "live d" using reach_recovering [OF assms] by (simp add: recovering_def)
  then have "s_currentState d \<noteq> 0xe6" "s_currentState d \<noteq> 0xeb"
    by (auto simp: live_def live_states_def cd_states)
  moreover have "busy0 (cdromUndeliverAll d) = busy0 d" by (simp add: busy0_def)
  moreover have "busy0 (x\<lparr>s_gotInt3 := a1, s_wordsToRead := a2, s_sectorCounter := a3, s_dmaCounter := a4, s_readBuffer := a5, s_mode := a6\<rparr>) = busy0 x"
    "busy0 (x\<lparr>s_mode := a6\<rparr>) = busy0 x" for x a1 a2 a3 a4 a5 a6 by (simp_all add: busy0_def)
  ultimately show ?thesis
    by (auto simp: cdromRead_def cdromSeekL_def cdromSetMode_def cdromGetStatus_def Let_def)
qed

theorem entry_points_guarded_witness:
  "fst (cdromRead 1 0x80010000 0x80 cd_ready) = 1 \<and> fst (cdromRead 0 0x80010000 0x80 cd_ready) \<noteq> 1"
  using entry_points_guarded [OF cd_ready_reach, of 1 "0x80010000" "0x80"]
    entry_points_guarded [OF cd_ready_reach, of 0 "0x80010000" "0x80"] cd_ready_state
  by simp


end
