(* ===== verification/Kernel_Heap.thy ===== *)
theory Kernel_Heap
  imports Prelude
begin

text \<open>
  The allocator of OpenBIOS (\<open>openbios/kernel/alloc.c\<close>), on a word-addressed memory with 32-bit pointers. A
  free block is two words, the link and the size; an allocated one keeps its size in the second word. Both
  heaps run the same code and share the end marker, a static object whose address is \<open>marker\<close>. A null
  pointer is the address 0.
\<close>

section \<open>State\<close>

datatype heap = HEAP_USER | HEAP_KERNEL

record memory =
  mem :: "u32 \<Rightarrow> u32"
  user_heap_head :: u32
  kern_heap_head :: u32
  marker :: u32

definition head :: "heap \<Rightarrow> memory \<Rightarrow> u32" where
  "head h s = (case h of HEAP_USER \<Rightarrow> user_heap_head s | HEAP_KERNEL \<Rightarrow> kern_heap_head s)"

definition set_head :: "heap \<Rightarrow> u32 \<Rightarrow> memory \<Rightarrow> memory" where
  "set_head h p s = (case h of HEAP_USER \<Rightarrow> s\<lparr>user_heap_head := p\<rparr> | HEAP_KERNEL \<Rightarrow> s\<lparr>kern_heap_head := p\<rparr>)"

definition next_at :: "memory \<Rightarrow> u32 \<Rightarrow> u32" where "next_at s p = mem s p"
definition size_at :: "memory \<Rightarrow> u32 \<Rightarrow> u32" where "size_at s p = mem s (p + 4)"

definition set_next :: "u32 \<Rightarrow> u32 \<Rightarrow> memory \<Rightarrow> memory" where
  "set_next p v s = s\<lparr>mem := (mem s)(p := v)\<rparr>"

definition set_size :: "u32 \<Rightarrow> u32 \<Rightarrow> memory \<Rightarrow> memory" where
  "set_size p v s = s\<lparr>mem := (mem s)(p + 4 := v)\<rparr>"

definition ALIGN_TO :: "u32 \<Rightarrow> u32" where
  "ALIGN_TO x = (x + 7) AND NOT 7"

section \<open>Allocation\<close>

text \<open>
  The search for the smallest block that is large enough, cut short by an exact fit, and by a link that goes
  backwards: the blocks kept are the best so far and the one before it.
\<close>

function find_fit :: "memory \<Rightarrow> u32 \<Rightarrow> u32 \<Rightarrow> u32 \<Rightarrow> u32 \<Rightarrow> u32 \<Rightarrow> u32 \<Rightarrow> u32 \<times> u32" where
  "find_fit s sz curr_size cur prev best_fit best_fit_prev =
     (if curr_size = sz \<or> cur = marker s then (best_fit, best_fit_prev)
      else
        let curr_size = size_at s cur;
            (best_fit, best_fit_prev) =
              (if curr_size \<ge> sz \<and> (best_fit = 0 \<or> curr_size < size_at s best_fit) then (cur, prev)
               else (best_fit, best_fit_prev));
            prev = cur; cur = next_at s cur
        in if cur \<noteq> marker s \<and> cur \<le> prev then (best_fit, best_fit_prev)
           else find_fit s sz curr_size cur prev best_fit best_fit_prev)"
  by pat_completeness auto
termination
proof (relation "measure (\<lambda>(s, sz, curr_size, cur, prev, best, best_prev).
    if cur = marker s then 0 else 2 ^ 32 - unat cur)", goal_cases)
  case (2 s sz curr_size cur prev best_fit best_fit_prev)
  then show ?case
    using unat_u32_less [of cur] by (auto simp: word_le_nat_alt not_le intro!: diff_less_mono2 split: if_splits)
qed simp

declare find_fit.simps [simp del]

definition multi_malloc :: "u32 \<Rightarrow> heap \<Rightarrow> memory \<Rightarrow> u32 \<times> memory" where
  "multi_malloc request h s =
     (let sz = ALIGN_TO (request + 8);
          (best_fit, best_fit_prev) = find_fit s sz 0 (head h s) 0 0 0
      in if best_fit = 0 then (0, s)
         else
           let best_fit_size = size_at s best_fit;
               s = (if best_fit_size = sz
                    then if best_fit_prev = 0 then set_head h (next_at s best_fit) s
                         else set_next best_fit_prev (next_at s best_fit) s
                    else
                      let new_block = best_fit + sz; s = set_next new_block (next_at s best_fit) s;
                          s = set_size new_block (best_fit_size - sz) s
                      in if best_fit_prev = 0 then set_head h new_block s else set_next best_fit_prev new_block s);
               s = set_size best_fit sz s
           in (best_fit + 8, s))"

section \<open>Release\<close>

text \<open>Where a walk along the free list ends: at its last block, between two, or at a broken link.\<close>

datatype walk = AtEnd u32 | Between u32 u32 | Broken

function free_walk :: "memory \<Rightarrow> u32 \<Rightarrow> u32 \<Rightarrow> walk" where
  "free_walk s block cur =
     (let nxt = next_at s cur
      in if nxt = marker s then AtEnd cur
         else if nxt \<le> cur then Broken
         else if nxt \<le> block then free_walk s block nxt
         else Between cur nxt)"
  by pat_completeness auto
termination
proof (relation "measure (\<lambda>(s, block, cur). 2 ^ 32 - unat cur)", goal_cases)
  case (2 s block cur nxt)
  then show ?case
    using unat_u32_less [of nxt] by (auto simp: word_less_nat_alt not_le intro!: diff_less_mono2)
qed simp

declare free_walk.simps [simp del]

definition multi_free :: "u32 \<Rightarrow> heap \<Rightarrow> memory \<Rightarrow> memory" where
  "multi_free ptr h s =
     (if ptr = 0 then s
      else
        let block = ptr - 8; sz = size_at s block; first = head h s
        in if first = marker s then set_next block (marker s) (set_head h block s)
           else if first = 0 then s
           else if first > block
           then set_head h block
                  (if block + sz = first
                   then set_next block (next_at s first) (set_size block (size_at s first + sz) s)
                   else set_next block first s)
           else
             case free_walk s block first of
               Broken \<Rightarrow> s
             | Between cur nxt \<Rightarrow>
                 if cur + size_at s cur = block
                 then let s = set_size cur (size_at s cur + sz) s
                      in if cur + size_at s cur = nxt
                         then set_next cur (next_at s nxt) (set_size cur (size_at s cur + size_at s nxt) s)
                         else s
                 else if block + sz = nxt
                 then let s = set_next block (next_at s nxt) s; s = set_size block (sz + size_at s nxt) s
                      in set_next cur block s
                 else set_next cur block (set_next block nxt s)
             | AtEnd cur \<Rightarrow>
                 if cur + size_at s cur = block then set_size cur (size_at s cur + sz) s
                 else set_next cur block (set_next block (marker s) s))"

section \<open>Reallocation\<close>

text \<open>The walk of a reallocation has no guard against broken links: \<open>None\<close> when it never ends.\<close>

partial_function (option) realloc_walk :: "memory \<Rightarrow> u32 \<Rightarrow> u32 \<Rightarrow> (u32 \<times> u32) option" where
  "realloc_walk s block cur =
     (let nxt = next_at s cur
      in if nxt \<noteq> 0 \<and> nxt \<le> block \<and> nxt \<noteq> marker s then realloc_walk s block nxt else Some (cur, nxt))"

text \<open>Copying the words of a block; the count is unsigned, a multiple of four.\<close>

fun copy_words :: "u32 \<Rightarrow> u32 \<Rightarrow> nat \<Rightarrow> memory \<Rightarrow> memory" where
  "copy_words dst src 0 s = s"
| "copy_words dst src (Suc n) s = copy_words (dst + 4) (src + 4) n (s\<lparr>mem := (mem s)(dst := mem s src)\<rparr>)"

definition realloc_move :: "u32 \<Rightarrow> u32 \<Rightarrow> u32 \<Rightarrow> heap \<Rightarrow> memory \<Rightarrow> u32 \<times> memory" where
  "realloc_move ptr request old_size h s =
     (let (new_ptr, s) = multi_malloc request h s
      in if new_ptr = 0 then (0, s)
         else let s = copy_words new_ptr ptr (unat (old_size - 8) div 4) s in (new_ptr, multi_free ptr h s))"

definition multi_realloc :: "u32 \<Rightarrow> u32 \<Rightarrow> heap \<Rightarrow> memory \<Rightarrow> (u32 \<times> memory) option" where
  "multi_realloc ptr request h s =
     (if ptr = 0 then Some (multi_malloc request h s)
      else if request = 0 then Some (0, multi_free ptr h s)
      else
        let sz = ALIGN_TO (request + 8); block = ptr - 8; old_size = size_at s block; first = head h s;
            new_block = block + sz
        in if sz = old_size then Some (ptr, s)
           else if first = marker s
           then if sz < old_size
                then let s = set_next new_block (marker s) s; s = set_size new_block (old_size - sz) s;
                         s = set_head h new_block s
                     in Some (ptr, set_size block sz s)
                else Some (0, s)
           else if block < first
           then if sz < old_size
                then let s = (if first = block + old_size
                              then set_size new_block (size_at s first + (old_size - sz)) (set_next new_block (next_at s first) s)
                              else set_size new_block (old_size - sz) (set_next new_block first s));
                         s = set_head h new_block s
                     in Some (ptr, set_size block sz s)
                else if block + old_size = first \<and> size_at s first \<ge> sz - old_size
                then let delta = sz - old_size;
                         s = (if size_at s first = delta then set_head h (next_at s first) s
                              else let hs = size_at s first; s = set_next new_block (next_at s first) s;
                                       s = set_size new_block (hs - delta) s
                                   in set_head h new_block s)
                     in Some (ptr, set_size block sz s)
                else Some (realloc_move ptr request old_size h s)
           else
             case realloc_walk s block first of
               None \<Rightarrow> None
             | Some (cur, nxt) \<Rightarrow>
                 if sz < old_size
                 then let s = (if nxt \<noteq> marker s \<and> block + old_size = nxt
                               then set_size new_block (old_size - sz + size_at s nxt) (set_next new_block (next_at s nxt) s)
                               else set_size new_block (old_size - sz) (set_next new_block nxt s));
                          s = set_next cur new_block s
                      in Some (ptr, set_size block sz s)
                 else let delta = sz - old_size
                      in if nxt \<noteq> marker s \<and> block + old_size = nxt \<and> size_at s nxt \<ge> delta
                         then let s = (if size_at s nxt = delta then set_next cur (next_at s nxt) s
                                       else let ns = size_at s nxt; s = set_next new_block (next_at s nxt) s;
                                                s = set_size new_block (ns - delta) s
                                            in set_next cur new_block s)
                              in Some (ptr, set_size block sz s)
                         else Some (realloc_move ptr request old_size h s))"

section \<open>The entry points\<close>

definition user_malloc where "user_malloc request = multi_malloc request HEAP_USER"
definition user_free where "user_free ptr = multi_free ptr HEAP_USER"
definition user_realloc where "user_realloc ptr request = multi_realloc ptr request HEAP_USER"
definition kern_malloc where "kern_malloc request = multi_malloc request HEAP_KERNEL"
definition kern_free where "kern_free ptr = multi_free ptr HEAP_KERNEL"
definition kern_realloc where "kern_realloc ptr request = multi_realloc ptr request HEAP_KERNEL"

definition initheap :: "heap \<Rightarrow> u32 \<Rightarrow> u32 \<Rightarrow> memory \<Rightarrow> memory" where
  "initheap h base sz s =
     (let p = ALIGN_TO base; s = set_head h p s; s = set_next p (marker s) s
      in set_size p (ALIGN_TO (sz - 8)) s)"

definition user_initheap where "user_initheap base sz = initheap HEAP_USER base sz"
definition kern_initheap where "kern_initheap base sz = initheap HEAP_KERNEL base sz"

end
