(* ===== verification/Heap_Lists.thy ===== *)
theory Heap_Lists
  imports Kernel_Heap
begin

text \<open>
  What the allocator of \<open>Kernel_Heap\<close> promises. A heap is seen as the list of its free blocks, addresses and
  sizes as numbers, in the order of the links. The abstract operations are \<open>min_fit\<close> and \<open>carve\<close> for an
  allocation and \<open>give_back\<close> for a release; the code's pointer operations refine them on every well-formed heap.
\<close>

type_synonym free_list = "(nat \<times> nat) list"

section \<open>The heap as a list\<close>

fun seg :: "memory \<Rightarrow> u32 \<Rightarrow> free_list \<Rightarrow> u32 \<Rightarrow> bool" where
  "seg s p [] q \<longleftrightarrow> p = q"
| "seg s p ((a, n) # L) q \<longleftrightarrow> p = of_nat a \<and> size_at s p = of_nat n \<and> seg s (next_at s p) L q"

definition in_block :: "nat \<Rightarrow> nat \<times> nat \<Rightarrow> bool" where
  "in_block x b \<longleftrightarrow> fst b \<le> x \<and> x < fst b + snd b"

definition block_ok :: "memory \<Rightarrow> nat \<times> nat \<Rightarrow> bool" where
  "block_ok s b \<longleftrightarrow> 0 < fst b \<and> 8 dvd fst b \<and> 8 dvd snd b \<and> 0 < snd b \<and> fst b + snd b < 2 ^ 32 \<and>
     \<not> in_block (unat (marker s)) b"

abbreviation before :: "nat \<times> nat \<Rightarrow> nat \<times> nat \<Rightarrow> bool" where
  "before b c \<equiv> fst b + snd b \<le> fst c"

text \<open>No two free blocks touch: what a release leaves when it merges.\<close>

abbreviation before_gap :: "nat \<times> nat \<Rightarrow> nat \<times> nat \<Rightarrow> bool" where
  "before_gap b c \<equiv> fst b + snd b < fst c"

definition blocks_ok :: "memory \<Rightarrow> free_list \<Rightarrow> bool" where
  "blocks_ok s L \<longleftrightarrow> list_all (block_ok s) L \<and> sorted_wrt before L"

definition heap_ok :: "heap \<Rightarrow> memory \<Rightarrow> free_list \<Rightarrow> bool" where
  "heap_ok h s L \<longleftrightarrow> seg s (head h s) L (marker s) \<and> blocks_ok s L"

section \<open>The abstract operations\<close>

text \<open>The first of the smallest blocks with room.\<close>

fun min_fit :: "nat \<Rightarrow> free_list \<Rightarrow> (nat \<times> nat) option" where
  "min_fit want [] = None"
| "min_fit want (b # L) =
     (case min_fit want L of
        None \<Rightarrow> if want \<le> snd b then Some b else None
      | Some c \<Rightarrow> if want \<le> snd b \<and> snd b \<le> snd c then Some b else Some c)"

text \<open>The front of the block at an address is taken, the block leaves the list when nothing is left of it.\<close>

fun carve :: "nat \<Rightarrow> nat \<Rightarrow> free_list \<Rightarrow> free_list" where
  "carve a want [] = []"
| "carve a want (b # L) =
     (if fst b = a then (if snd b = want then L else (a + want, snd b - want) # L) else b # carve a want L)"

text \<open>A block goes back to its place, and merges with the neighbours it touches.\<close>

fun merge_next :: "nat \<times> nat \<Rightarrow> free_list \<Rightarrow> free_list" where
  "merge_next b [] = [b]"
| "merge_next b (c # L) = (if fst b + snd b = fst c then (fst b, snd b + snd c) # L else b # c # L)"

fun give_back :: "nat \<times> nat \<Rightarrow> free_list \<Rightarrow> free_list" where
  "give_back b [] = [b]"
| "give_back b (c # L) =
     (if fst b < fst c then merge_next b (c # L)
      else if fst c + snd c = fst b then merge_next (fst c, snd c + snd b) L
      else c # give_back b L)"

section \<open>Addresses\<close>

lemma of_nat_u32_eq: "a < 4294967296 \<Longrightarrow> b < 4294967296 \<Longrightarrow> (of_nat a :: u32) = of_nat b \<longleftrightarrow> a = b"
  by (metis unat_of_nat_u32)

lemma block_okD:
  assumes "block_ok s (a, n)"
  shows "0 < a" "8 \<le> n" "a + n < 4294967296" "8 dvd a" "8 dvd n" "of_nat a \<noteq> marker s" "(of_nat a :: u32) \<noteq> 0"
    "unat (of_nat a :: u32) = a" "unat (of_nat n :: u32) = n"
proof -
  show *: "0 < a" "8 \<le> n" "a + n < 4294967296" "8 dvd a" "8 dvd n"
    using assms by (auto simp: block_ok_def dvd_imp_le)
  show u: "unat (of_nat a :: u32) = a" "unat (of_nat n :: u32) = n" using * by (intro unat_of_nat_u32; linarith)+
  show "of_nat a \<noteq> marker s"
  proof
    assume "of_nat a = marker s"
    then have "unat (marker s) = a" using u by simp
    then show False using assms * by (simp add: block_ok_def in_block_def)
  qed
  show "(of_nat a :: u32) \<noteq> 0" using u * by (metis not_gr0 unat_0)
qed

lemma words_apart:
  assumes "a + 8 \<le> b \<or> b + 8 \<le> a" "a + 8 < 4294967296" "b + 8 < 4294967296"
  shows "(of_nat a :: u32) \<noteq> of_nat b" "(of_nat a :: u32) + 4 \<noteq> of_nat b" "(of_nat a :: u32) \<noteq> of_nat b + 4"
    "(of_nat a :: u32) + 4 \<noteq> of_nat b + 4"
proof -
  have e: "(of_nat a :: u32) + 4 = of_nat (a + 4)" "(of_nat b :: u32) + 4 = of_nat (b + 4)" by simp_all
  show "(of_nat a :: u32) \<noteq> of_nat b" "(of_nat a :: u32) + 4 \<noteq> of_nat b" "(of_nat a :: u32) \<noteq> of_nat b + 4"
    "(of_nat a :: u32) + 4 \<noteq> of_nat b + 4"
    unfolding e using assms by (auto simp: of_nat_u32_eq simp del: of_nat_add of_nat_numeral)
qed

section \<open>Segments\<close>

lemma seg_append: "seg s p (xs @ ys) q \<longleftrightarrow> (\<exists>r. seg s p xs r \<and> seg s r ys q)"
  by (induction xs arbitrary: p) auto

definition same_words :: "memory \<Rightarrow> memory \<Rightarrow> nat \<times> nat \<Rightarrow> bool" where
  "same_words s s' b \<longleftrightarrow> mem s' (of_nat (fst b)) = mem s (of_nat (fst b)) \<and> mem s' (of_nat (fst b) + 4) = mem s (of_nat (fst b) + 4)"

lemma seg_frame: "\<forall>b\<in>set L. same_words s s' b \<Longrightarrow> seg s' p L q = seg s p L q"
  by (induction s p L q rule: seg.induct) (auto simp: next_at_def size_at_def same_words_def)

text \<open>The links of a list, with the last one redirected.\<close>

lemma seg_relink:
  assumes "seg s p (xs @ [(a, n)]) r" "mem s' (of_nat a) = q" "mem s' (of_nat a + 4) = mem s (of_nat a + 4)"
    "\<forall>b\<in>set xs. same_words s s' b"
  shows "seg s' p (xs @ [(a, n)]) q"
  using assms seg_frame [of xs s s'] by (auto simp: seg_append next_at_def size_at_def)

lemma blocks_ok_append:
  "blocks_ok s (xs @ ys) \<longleftrightarrow> blocks_ok s xs \<and> blocks_ok s ys \<and> (\<forall>b\<in>set xs. \<forall>c\<in>set ys. before b c)"
  by (auto simp: blocks_ok_def sorted_wrt_append)

lemma blocks_ok_Cons:
  "blocks_ok s (b # L) \<longleftrightarrow> block_ok s b \<and> blocks_ok s L \<and> (\<forall>c\<in>set L. before b c)"
  by (auto simp: blocks_ok_def)

lemma blocks_ok_Nil [simp]: "blocks_ok s []"
  by (simp add: blocks_ok_def)

lemma blocks_ok_mem: "blocks_ok s L \<Longrightarrow> b \<in> set L \<Longrightarrow> block_ok s b"
  by (simp add: blocks_ok_def list_all_iff)

section \<open>The search\<close>

definition last_addr :: "free_list \<Rightarrow> u32" where
  "last_addr xs = (if xs = [] then 0 else of_nat (fst (last xs)))"

lemma last_addr_Nil [simp]: "last_addr [] = 0"
  by (simp add: last_addr_def)

lemma last_addr_snoc [simp]: "last_addr (xs @ [(a, n)]) = of_nat a"
  by (simp add: last_addr_def)

text \<open>The two pointers of the search, after the blocks \<open>P\<close>.\<close>

definition chosen :: "nat \<Rightarrow> free_list \<Rightarrow> u32 \<Rightarrow> u32 \<Rightarrow> bool" where
  "chosen want P best best_prev \<longleftrightarrow>
     (case min_fit want P of
        None \<Rightarrow> best = 0
      | Some (a, n) \<Rightarrow> best = of_nat a \<and> (\<exists>xs ys. P = xs @ (a, n) # ys \<and> best_prev = last_addr xs))"

definition sizes :: "memory \<Rightarrow> free_list \<Rightarrow> bool" where
  "sizes s L \<longleftrightarrow> (\<forall>(a, n) \<in> set L. size_at s (of_nat a) = of_nat n)"

lemma seg_sizes: "seg s p L q \<Longrightarrow> sizes s L"
  by (induction s p L q rule: seg.induct) (auto simp: sizes_def)

lemma min_fit_None: "min_fit want L = None \<longleftrightarrow> (\<forall>b\<in>set L. snd b < want)"
  by (induction L) (auto split: option.splits)

lemma min_fit_snoc:
  "min_fit want (L @ [b]) =
     (case min_fit want L of
        None \<Rightarrow> if want \<le> snd b then Some b else None
      | Some c \<Rightarrow> if want \<le> snd b \<and> snd b < snd c then Some b else Some c)"
  by (induction L) (auto split: option.splits)

lemma min_fit_Some:
  "min_fit want L = Some b \<Longrightarrow> b \<in> set L \<and> want \<le> snd b \<and> (\<forall>c\<in>set L. want \<le> snd c \<longrightarrow> snd b \<le> snd c)"
  by (induction L arbitrary: b) (fastforce split: option.splits if_splits simp: min_fit_None not_less)+

lemma min_fit_exact:
  "min_fit want P = Some (a, want) \<Longrightarrow> min_fit want (P @ R) = Some (a, want)"
proof (induction R arbitrary: P)
  case (Cons b R)
  have "min_fit want (P @ [b]) = Some (a, want)" using Cons.prems by (auto simp: min_fit_snoc)
  from Cons.IH [OF this] show ?case by simp
qed simp

lemma chosen_step:
  assumes c: "chosen want P best best_prev" and ok: "blocks_ok s (P @ [(a, n)])" and sz: "sizes s P"
    and w: "unat (w :: u32) = want"
  defines "better \<equiv> w \<le> of_nat n \<and> (best = 0 \<or> of_nat n < size_at s best)"
  shows "chosen want (P @ [(a, n)]) (if better then of_nat a else best) (if better then last_addr P else best_prev)"
proof (cases "min_fit want P")
  case None
  have b: "block_ok s (a, n)" using ok by (simp add: blocks_ok_mem)
  have "best = 0" using c None by (simp add: chosen_def)
  moreover have "better \<longleftrightarrow> want \<le> n"
    using w \<open>best = 0\<close> by (simp add: better_def word_le_nat_alt block_okD(9) [OF b])
  ultimately show ?thesis using None by (auto simp: chosen_def min_fit_snoc)
next
  case (Some d)
  obtain a' n' where d: "d = (a', n')" by (cases d)
  obtain xs ys where P: "P = xs @ (a', n') # ys" "best_prev = last_addr xs" and best: "best = of_nat a'"
    using c Some d by (auto simp: chosen_def)
  have b: "block_ok s (a, n)" "block_ok s (a', n')" using ok P by (auto simp: blocks_ok_mem)
  have "best \<noteq> 0" "size_at s best = of_nat n'" using block_okD(7) [OF b(2)] best sz P by (auto simp: sizes_def)
  then have better: "better \<longleftrightarrow> want \<le> n \<and> n < n'"
    using w by (simp add: better_def word_le_nat_alt word_less_nat_alt block_okD(9) [OF b(1)] block_okD(9) [OF b(2)])
  have m: "min_fit want (P @ [(a, n)]) = Some (if better then (a, n) else (a', n'))"
    using Some d better by (simp add: min_fit_snoc)
  have "\<exists>us vs. P @ [(a, n)] = us @ (a', n') # vs \<and> best_prev = last_addr us"
    using P by (intro exI [of _ xs] exI [of _ "ys @ [(a, n)]"]) simp
  then show ?thesis using best by (auto simp: chosen_def m)
qed

lemma find_fit_chosen:
  assumes "blocks_ok s (P @ R)" "sizes s (P @ R)" "seg s cur R (marker s)" "chosen want P best best_prev"
    "unat w = want" "cs = w \<Longrightarrow> \<exists>a. min_fit want P = Some (a, want)"
  shows "case find_fit s w cs cur (last_addr P) best best_prev of (b, bp) \<Rightarrow> chosen want (P @ R) b bp"
  using assms
proof (induction R arbitrary: P cs cur best best_prev)
  case Nil
  then show ?case by (simp add: find_fit.simps)
next
  case (Cons c R)
  obtain a n where c: "c = (a, n)" by (cases c)
  have cur: "cur = of_nat a" "size_at s cur = of_nat n" "seg s (next_at s cur) R (marker s)"
    using Cons.prems(3) by (auto simp: c)
  have ok: "block_ok s (a, n)" using Cons.prems(1) by (simp add: c blocks_ok_mem)
  have cm: "cur \<noteq> marker s" using block_okD(6) [OF ok] cur by simp
  show ?case
  proof (cases "cs = w")
    case True
    then obtain a' where m: "min_fit want P = Some (a', want)" using Cons.prems(6) by blast
    have "chosen want (P @ c # R) best best_prev"
      using Cons.prems(4) m min_fit_exact [OF m, of "c # R"] by (simp add: chosen_def) (metis append_assoc append_Cons)
    then show ?thesis using True by (simp add: find_fit.simps)
  next
    case False
    define better where "better \<longleftrightarrow> w \<le> of_nat n \<and> (best = 0 \<or> of_nat n < size_at s best)"
    let ?b = "if better then of_nat a else best" let ?bp = "if better then last_addr P else best_prev"
    have ok': "blocks_ok s (P @ [(a, n)])" "blocks_ok s ((P @ [(a, n)]) @ R)"
      using Cons.prems(1) by (auto simp: blocks_ok_append blocks_ok_Cons c)
    have ch: "chosen want (P @ [(a, n)]) ?b ?bp"
      unfolding better_def using Cons.prems(2,4,5) ok'(1) by (intro chosen_step) (auto simp: sizes_def)
    have fwd: "\<not> (next_at s cur \<noteq> marker s \<and> next_at s cur \<le> cur)"
    proof (cases R)
      case (Cons d R')
      obtain a' n' where d: "d = (a', n')" by (cases d)
      have "block_ok s (a', n')" "a + n \<le> a'" "0 < n"
        using ok'(2) block_okD(2) [OF ok] by (auto simp: Cons d blocks_ok_append blocks_ok_Cons)
      then show ?thesis
        using cur block_okD(8) [OF ok] block_okD(8) [of s a' n'] by (simp add: Cons d word_le_nat_alt)
    qed (use cur in simp)
    have ex: "of_nat n = w \<Longrightarrow> \<exists>a'. min_fit want (P @ [(a, n)]) = Some (a', want)"
      using block_okD(9) [OF ok] Cons.prems(5) min_fit_Some [of want P]
      by (fastforce simp: min_fit_snoc split: option.splits)
    have step: "find_fit s w cs cur (last_addr P) best best_prev =
        find_fit s w (of_nat n) (next_at s cur) (last_addr (P @ [(a, n)])) ?b ?bp"
      using False cm fwd cur(2)
      by (subst find_fit.simps) (auto simp: Let_def better_def cur(1) split: if_splits)
    show ?thesis
      unfolding step using Cons.IH [OF ok'(2) _ cur(3) ch Cons.prems(5) ex] Cons.prems(2) by (simp add: c sizes_def)
  qed
qed

end
