(* ===== verification/Heap_Ops.thy ===== *)
theory Heap_Ops
  imports Heap_Lists
begin

text \<open>
  The allocator's operations refine the abstract ones: an allocation carves its block out of the smallest free
  block with room, a release puts it back and merges, and the release of what was allocated restores the heap.
\<close>

section \<open>State updates\<close>

lemma heap_updates [simp]:
  "mem (set_next p v s) = (mem s)(p := v)" "mem (set_size p v s) = (mem s)(p + 4 := v)" "mem (set_head h p s) = mem s"
  "marker (set_next p v s) = marker s" "marker (set_size p v s) = marker s" "marker (set_head h p s) = marker s"
  "head h (set_next p v s) = head h s" "head h (set_size p v s) = head h s"
  "head h (set_head h' p s) = (if h = h' then p else head h s)"
  by (simp_all add: set_next_def set_size_def set_head_def head_def split: heap.splits)

lemma reads [simp]:
  "next_at (set_next p v s) x = (if x = p then v else next_at s x)"
  "size_at (set_size p v s) x = (if x = p then v else size_at s x)"
  "next_at (set_size p v s) x = (if x = p + 4 then v else next_at s x)"
  "size_at (set_next p v s) x = (if x + 4 = p then v else size_at s x)"
  "next_at (set_head h p s) x = next_at s x" "size_at (set_head h p s) x = size_at s x"
  by (simp_all add: next_at_def size_at_def)

section \<open>Frames\<close>

text \<open>Nothing changes outside a block, one link apart.\<close>

definition only_in :: "nat \<times> nat \<Rightarrow> u32 set \<Rightarrow> memory \<Rightarrow> memory \<Rightarrow> bool" where
  "only_in b links s s' \<longleftrightarrow> (\<forall>x. \<not> in_block (unat x) b \<and> x \<notin> links \<longrightarrow> mem s' x = mem s x)"

lemma only_in_same_words:
  assumes "only_in b links s s'" "block_ok s c" "before b c \<or> before c b" "of_nat (fst c) \<notin> links" "of_nat (fst c) + 4 \<notin> links"
  shows "same_words s s' c"
proof -
  obtain a n where c: "c = (a, n)" by (cases c)
  note ok = block_okD [OF assms(2) [unfolded c]]
  have u: "unat (of_nat a :: u32) = a" "unat (of_nat a + 4 :: u32) = a + 4"
    using ok unat_of_nat_u32 [of "a + 4"] by simp_all
  show ?thesis using assms ok(2) u unfolding only_in_def same_words_def in_block_def by (force simp: c)
qed

lemma block_words_apart:
  assumes "block_ok s b" "block_ok s c" "before b c \<or> before c b"
  shows "(of_nat (fst b) :: u32) \<noteq> of_nat (fst c)" "(of_nat (fst b) :: u32) + 4 \<noteq> of_nat (fst c)"
    "(of_nat (fst b) :: u32) \<noteq> of_nat (fst c) + 4" "(of_nat (fst b) :: u32) + 4 \<noteq> of_nat (fst c) + 4"
proof -
  have "block_ok s (fst b, snd b)" "block_ok s (fst c, snd c)" using assms by simp_all
  note bounds = block_okD(2,3) [OF this(1)] block_okD(2,3) [OF this(2)]
  have a: "fst b + 8 \<le> fst c \<or> fst c + 8 \<le> fst b" "fst b + 8 < 4294967296" "fst c + 8 < 4294967296"
    using assms(3) bounds by linarith+
  show "(of_nat (fst b) :: u32) \<noteq> of_nat (fst c)" "(of_nat (fst b) :: u32) + 4 \<noteq> of_nat (fst c)"
    "(of_nat (fst b) :: u32) \<noteq> of_nat (fst c) + 4" "(of_nat (fst b) :: u32) + 4 \<noteq> of_nat (fst c) + 4"
    using words_apart [OF a] by simp_all
qed

text \<open>The blocks around a place where the memory changes, and the link that leads to it.\<close>

abbreviation link_to :: "free_list \<Rightarrow> u32 set" where
  "link_to xs \<equiv> (if xs = [] then {} else {of_nat (fst (last xs))})"

lemma around_same:
  assumes "blocks_ok s (xs @ ys)" "block_ok s b" "\<forall>c\<in>set xs. before c b" "\<forall>c\<in>set ys. before b c"
    "only_in b (link_to xs) s s'"
  shows "\<forall>c\<in>set ys. same_words s s' c" "\<forall>c\<in>set (butlast xs). same_words s s' c"
    "xs \<noteq> [] \<Longrightarrow> mem s' (last_addr xs + 4) = mem s (last_addr xs + 4)"
proof -
  show "\<forall>c\<in>set ys. same_words s s' c"
  proof
    fix c assume c: "c \<in> set ys"
    have "of_nat (fst c) \<notin> link_to xs \<and> of_nat (fst c) + 4 \<notin> link_to xs"
    proof (cases "xs = []")
      case False
      then have "block_ok s (last xs)" "block_ok s c" "before (last xs) c"
        using assms(1) c by (auto simp: blocks_ok_append blocks_ok_mem)
      from block_words_apart [of s "last xs" c] this show ?thesis using False by auto
    qed simp
    then show "same_words s s' c"
      using assms c by (intro only_in_same_words [of b "link_to xs"]) (auto simp: blocks_ok_append blocks_ok_mem)
  qed
  show "\<forall>c\<in>set (butlast xs). same_words s s' c"
  proof
    fix c assume c: "c \<in> set (butlast xs)"
    obtain zs z where xs: "xs = zs @ [z]" using c by (cases xs rule: rev_cases) auto
    have "block_ok s z" "block_ok s c" "before c z" "before c b"
      using assms(1,3) c xs by (auto simp: blocks_ok_append blocks_ok_mem)
    then show "same_words s s' c"
      using assms(5) block_words_apart [of s c z] xs by (intro only_in_same_words [of b "link_to xs"]) auto
  qed
  assume ne: "xs \<noteq> []"
  obtain z k where z: "last xs = (z, k)" by (cases "last xs")
  have "(z, k) \<in> set xs" using ne z by (metis last_in_set)
  then have "block_ok s (z, k)" "before (z, k) b" using assms(1,3) by (auto simp: blocks_ok_append blocks_ok_mem)
  note zd = block_okD [OF this(1)]
  have "unat (of_nat z + 4 :: u32) = z + 4" using zd unat_of_nat_u32 [of "z + 4"] by simp
  then have "\<not> in_block (unat (of_nat z + 4 :: u32)) b" using \<open>before (z, k) b\<close> zd by (simp add: in_block_def)
  then show "mem s' (last_addr xs + 4) = mem s (last_addr xs + 4)"
    using assms(5) ne by (simp add: only_in_def last_addr_def z)
qed

lemma seg_splice:
  assumes "seg s p xs e" "seg s r ys q" "\<forall>b\<in>set ys. same_words s s' b" "seg s' m R r"
    "xs = [] \<Longrightarrow> p' = m"
    "xs \<noteq> [] \<Longrightarrow> p' = p \<and> mem s' (last_addr xs) = m \<and> mem s' (last_addr xs + 4) = mem s (last_addr xs + 4) \<and>
       (\<forall>b\<in>set (butlast xs). same_words s s' b)"
  shows "seg s' p' (xs @ R @ ys) q"
proof -
  have ys: "seg s' r ys q" using assms(2,3) seg_frame [of ys s s'] by simp
  have "seg s' p' xs m"
  proof (cases xs rule: rev_cases)
    case (snoc zs b)
    obtain a n where b: "b = (a, n)" by (cases b)
    show ?thesis using assms(1,6) snoc b by (auto intro!: seg_relink [of s p zs a n e])
  qed (use assms in simp)
  then show ?thesis using ys assms(4) by (auto simp: seg_append)
qed

section \<open>Sizes\<close>

definition block_size :: "u32 \<Rightarrow> nat" where
  "block_size request = (unat request + 15) div 8 * 8"

lemma unat_ALIGN_TO:
  assumes "unat x + 7 < 4294967296"
  shows "unat (ALIGN_TO x) = (unat x + 7) div 8 * 8"
proof -
  have "(y :: u32) AND NOT 7 = push_bit 3 (drop_bit 3 y)" for y
  proof -
    have m: "(7 :: u32) = mask 3" by (simp add: mask_eq_exp_minus_1)
    show ?thesis unfolding m by (rule bit_word_eqI, unfold bit_simps) auto
  qed
  moreover have "unat (x + 7) = unat x + 7" using assms by (intro unat_plus_small [of x 7, simplified]) simp
  moreover have "unat (push_bit 3 (drop_bit 3 y)) = unat y div 8 * 8" for y :: u32
    using le_less_trans [OF div_times_less_eq_dividend [of "unat y" 8] unat_u32_less]
    by (simp add: push_bit_eq_mult unat_word_ariths u_simps)
  ultimately show ?thesis by (simp add: ALIGN_TO_def)
qed

lemma unat_request:
  assumes "unat request + 15 < 4294967296"
  shows "unat (ALIGN_TO (request + 8)) = block_size request"
proof -
  have "unat (request + 8) = unat request + 8" using assms by (intro unat_plus_small [of request 8, simplified]) simp
  then show ?thesis using assms unat_ALIGN_TO [of "request + 8"] by (simp add: block_size_def)
qed

lemma block_size_dvd [simp]: "8 dvd block_size request" "8 \<le> block_size request"
  by (simp_all add: block_size_def)

section \<open>Allocation\<close>

lemma last_addr_0: "blocks_ok s xs \<Longrightarrow> last_addr xs = 0 \<longleftrightarrow> xs = []"
proof (cases xs rule: rev_cases)
  case (snoc zs b)
  assume "blocks_ok s xs"
  then have "block_ok s (fst b, snd b)" by (simp add: snoc blocks_ok_mem)
  then show ?thesis using block_okD(7) [of s "fst b" "snd b"] by (simp add: snoc last_addr_def)
qed (simp add: last_addr_def)

lemma find_fit_heap:
  assumes "heap_ok h s L" "unat w = want" "0 < want"
  shows "case find_fit s w 0 (head h s) 0 0 0 of (b, bp) \<Rightarrow> chosen want L b bp"
proof -
  have "seg s (head h s) L (marker s)" "blocks_ok s L" using assms(1) by (simp_all add: heap_ok_def)
  moreover have "sizes s L" using calculation(1) by (rule seg_sizes)
  moreover have "chosen want [] 0 0" "last_addr [] = 0" by (simp_all add: chosen_def last_addr_def)
  moreover have "(0 :: u32) \<noteq> w" using assms(2,3) by auto
  ultimately show ?thesis using find_fit_chosen [of s "[]" L "head h s" want 0 0 w 0] assms(2) by simp
qed

lemma carve_mid:
  assumes "blocks_ok s (xs @ (a, n) # ys)"
  shows "carve a want (xs @ (a, n) # ys) = xs @ (if n = want then [] else [(a + want, n - want)]) @ ys"
proof -
  have "\<forall>b\<in>set xs. fst b < a"
  proof
    fix b assume "b \<in> set xs"
    then have "block_ok s (fst b, snd b)" "fst b + snd b \<le> a"
      using assms by (auto simp: blocks_ok_append blocks_ok_Cons blocks_ok_mem)
    then show "fst b < a" using block_okD(2) by fastforce
  qed
  then show ?thesis by (induction xs) auto
qed

text \<open>What carving does to the words of a heap.\<close>

lemma carve_effect:
  fixes w :: u32
  assumes ok: "heap_ok h s (xs @ (a, n) # ys)" and w: "unat w = want" "8 dvd want" "0 < want" "want \<le> n"
  defines "nb \<equiv> of_nat a + w"
  defines "m \<equiv> (if n = want then next_at s (of_nat a) else nb)"
  defines "s1 \<equiv> (if n = want then s else set_size nb (of_nat n - w) (set_next nb (next_at s (of_nat a)) s))"
  defines "s2 \<equiv> (if xs = [] then set_head h m s1 else set_next (last_addr xs) m s1)"
  defines "s3 \<equiv> set_size (of_nat a) w s2"
  shows "heap_ok h s3 (carve a want (xs @ (a, n) # ys))" "size_at s3 (of_nat a) = w"
    "only_in (a, n) (link_to xs) s s3"
proof -
  have blk: "blocks_ok s (xs @ (a, n) # ys)" using ok by (simp add: heap_ok_def)
  have b: "block_ok s (a, n)" using blk by (simp add: blocks_ok_mem)
  note bd = block_okD [OF b]
  have nb: "nb = of_nat (a + want)" by (simp add: nb_def flip: w(1))
  have rest: "n \<noteq> want \<Longrightarrow> 8 \<le> n - want \<and> 8 dvd n - want" using w bd(5) by (auto intro!: dvd_imp_le)
  have ua: "unat (of_nat a + 4 :: u32) = a + 4" using bd unat_of_nat_u32 [of "a + 4"] by simp
  have un: "unat nb = a + want" "n \<noteq> want \<Longrightarrow> unat (nb + 4) = a + want + 4"
    using bd w rest unat_of_nat_u32 [of "a + want"] unat_of_nat_u32 [of "a + want + 4"] by (simp_all add: nb)
  have mk: "marker s3 = marker s" by (simp add: s3_def s2_def s1_def)
  show only: "only_in (a, n) (link_to xs) s s3"
    unfolding only_in_def
  proof (intro allI impI)
    fix x assume x: "\<not> in_block (unat x) (a, n) \<and> x \<notin> link_to xs"
    have "x \<noteq> of_nat a" "x \<noteq> of_nat a + 4" "n \<noteq> want \<Longrightarrow> x \<noteq> nb" "n \<noteq> want \<Longrightarrow> x \<noteq> nb + 4"
      using x bd ua un rest w(4) by (auto simp: in_block_def)
    then show "mem s3 x = mem s x"
      using x by (auto simp: s3_def s2_def s1_def last_addr_def split: if_splits)
  qed
  show "size_at s3 (of_nat a) = w" by (simp add: s3_def)
  obtain e where e: "seg s (head h s) xs e" "seg s (next_at s (of_nat a)) ys (marker s)"
    using ok by (auto simp: heap_ok_def seg_append)
  have ord: "blocks_ok s (xs @ ys)" "\<forall>c\<in>set xs. before c (a, n)" "\<forall>c\<in>set ys. before (a, n) c"
    using blk by (auto simp: blocks_ok_append blocks_ok_Cons)
  note same = around_same [OF ord(1) b ord(2,3) only]
  let ?R = "if n = want then [] else [(a + want, n - want)]"
  have l: "xs \<noteq> [] \<Longrightarrow> unat (last_addr xs) < a"
  proof -
    assume ne: "xs \<noteq> []"
    then have "last xs \<in> set xs" by simp
    then have "block_ok s (fst (last xs), snd (last xs))" "fst (last xs) + snd (last xs) \<le> a"
      using ord by (auto simp: blocks_ok_append blocks_ok_mem)
    then show ?thesis using block_okD(2,8) ne by (fastforce simp: last_addr_def)
  qed
  have R: "seg s3 m ?R (next_at s (of_nat a))"
  proof (cases "n = want")
    case False
    have d: "nb \<noteq> of_nat a + 4" "nb + 4 \<noteq> of_nat a + 4" "xs \<noteq> [] \<Longrightarrow> nb \<noteq> last_addr xs" "xs \<noteq> [] \<Longrightarrow> nb + 4 \<noteq> last_addr xs"
      using un False ua l w(2,3) by (auto dest!: dvd_imp_le)
    have "of_nat n - w = of_nat (n - want)" using w(4) by (simp add: of_nat_diff flip: w(1))
    then show ?thesis using False d by (auto simp: m_def s3_def s2_def s1_def nb next_at_def size_at_def)
  qed (simp add: m_def)
  have lnk: "xs \<noteq> [] \<Longrightarrow> mem s3 (last_addr xs) = m"
    using l ua by (auto simp: s3_def s2_def)
  have "seg s3 (head h s3) (xs @ ?R @ ys) (marker s)"
    using same lnk by (intro seg_splice [OF e same(1) R]) (auto simp: s3_def s2_def s1_def)
  moreover have "block_ok s3 = block_ok s" by (simp add: block_ok_def mk fun_eq_iff)
  then have "blocks_ok s3 (xs @ ?R @ ys)"
    using blk rest w by (auto simp: blocks_ok_def sorted_wrt_append block_ok_def in_block_def)
  ultimately show "heap_ok h s3 (carve a want (xs @ (a, n) # ys))"
    using carve_mid [OF blk] mk by (simp add: heap_ok_def)
qed

definition fits :: "u32 \<Rightarrow> bool" where
  "fits request \<longleftrightarrow> unat request + 15 < 2 ^ 32"

text \<open>Nothing outside the free blocks changes, and the other heap keeps its head.\<close>

definition only_free :: "heap \<Rightarrow> free_list \<Rightarrow> memory \<Rightarrow> memory \<Rightarrow> bool" where
  "only_free h L s s' \<longleftrightarrow> (\<forall>x. (\<forall>c\<in>set L. \<not> in_block (unat x) c) \<longrightarrow> mem s' x = mem s x) \<and>
     (\<forall>h'. h' \<noteq> h \<longrightarrow> head h' s' = head h' s) \<and> marker s' = marker s"

lemma only_in_free:
  assumes "only_in b (link_to xs) s s'" "b \<in> set L" "set xs \<subseteq> set L" "blocks_ok s xs"
    "\<forall>h'. h' \<noteq> h \<longrightarrow> head h' s' = head h' s" "marker s' = marker s"
  shows "only_free h L s s'"
proof -
  have "mem s' x = mem s x" if x: "\<forall>c\<in>set L. \<not> in_block (unat x) c" for x
  proof -
    have "x \<notin> link_to xs"
    proof
      assume a: "x \<in> link_to xs"
      then have l: "last xs \<in> set xs" by (cases "xs = []") auto
      then have "block_ok s (fst (last xs), snd (last xs))" using assms(4) by (simp add: blocks_ok_mem)
      from block_okD(2,8) [OF this] have "in_block (unat x) (last xs)" using a by (auto simp: in_block_def split: if_splits)
      then show False using x l assms(3) by blast
    qed
    then show ?thesis using x assms(1,2) by (auto simp: only_in_def)
  qed
  then show ?thesis using assms(5,6) by (simp add: only_free_def)
qed

lemma malloc_effect:
  assumes ok: "heap_ok h s L" and w: "unat (ALIGN_TO (request + 8)) = want" "8 dvd want" and bs: "0 < want"
  shows "case min_fit want L of
      None \<Rightarrow> multi_malloc request h s = (0, s)
    | Some (a, n) \<Rightarrow> \<exists>s'. multi_malloc request h s = (of_nat a + 8, s') \<and>
        heap_ok h s' (carve a want L) \<and> unat (size_at s' (of_nat a)) = want \<and>
        only_free h L s s'"
proof -
  define w where "w = ALIGN_TO (request + 8)"
  have w: "unat w = want" "8 dvd want" using w by (simp_all add: w_def)
  obtain b bp where ff: "find_fit s w 0 (head h s) 0 0 0 = (b, bp)" by fastforce
  have ch: "chosen want L b bp" using find_fit_heap [OF ok w(1) bs] ff by simp
  show ?thesis
  proof (cases "min_fit want L")
    case None
    then show ?thesis using ch ff by (simp add: multi_malloc_def chosen_def Let_def flip: w_def)
  next
    case (Some d)
    obtain a n where d: "d = (a, n)" by (cases d)
    obtain xs ys where L: "L = xs @ (a, n) # ys" and bp: "bp = last_addr xs" and b: "b = of_nat a"
      using ch Some d by (auto simp: chosen_def)
    have blk: "blocks_ok s L" using ok by (simp add: heap_ok_def)
    have bd: "block_ok s (a, n)" using blk by (simp add: L blocks_ok_mem)
    have b0: "(of_nat a :: u32) \<noteq> 0" by (rule block_okD(7) [OF bd])
    have xs0: "last_addr xs = 0 \<longleftrightarrow> xs = []" using blk by (intro last_addr_0 [of s]) (simp add: L blocks_ok_append)
    have le: "want \<le> n" using min_fit_Some [OF Some] d by simp
    have sz: "size_at s (of_nat a) = of_nat n" using seg_sizes [of s "head h s" L] ok by (auto simp: heap_ok_def L sizes_def)
    have eq: "of_nat n = w \<longleftrightarrow> n = want" using w(1) block_okD(9) [OF bd] by (metis word_unat_eq_iff)
    define nb where "nb = of_nat a + w"
    define m where "m = (if n = want then next_at s (of_nat a) else nb)"
    define s1 where "s1 = (if n = want then s
      else set_size nb (of_nat n - w) (set_next nb (next_at s (of_nat a)) s))"
    define s2 where "s2 = (if xs = [] then set_head h m s1 else set_next (last_addr xs) m s1)"
    define s3 where "s3 = set_size (of_nat a) w s2"
    note eff = carve_effect [OF ok [unfolded L] w bs le, folded nb_def, folded m_def s1_def,
        folded s2_def, folded s3_def]
    have "multi_malloc request h s = (of_nat a + 8, s3)"
      unfolding multi_malloc_def Let_def w_def [symmetric] ff b bp
      by (simp add: b0 xs0 sz eq s3_def s2_def s1_def m_def nb_def)
    moreover have "only_free h L s s3"
      using eff(3) blk by (rule_tac only_in_free [of "(a, n)" xs]) (auto simp: L blocks_ok_append s3_def s2_def s1_def)
    ultimately show ?thesis using Some d L eff(1,2) w(1) by auto
  qed
qed

section \<open>Release\<close>

text \<open>A block outside the heap, which a release can give back.\<close>

definition apart_from :: "free_list \<Rightarrow> nat \<times> nat \<Rightarrow> bool" where
  "apart_from L b \<longleftrightarrow> (\<forall>c\<in>set L. before b c \<or> before c b)"

lemma split_at_block:
  assumes "blocks_ok s L" "block_ok s b" "apart_from L b"
  obtains xs ys where "L = xs @ ys" "\<forall>c\<in>set xs. before c b" "\<forall>c\<in>set ys. before b c"
  using assms
proof (induction L arbitrary: thesis)
  case (Cons c L)
  obtain xs ys where l: "L = xs @ ys" "\<forall>d\<in>set xs. before d b" "\<forall>d\<in>set ys. before b d"
    using Cons by (auto simp: blocks_ok_Cons apart_from_def)
  have c: "block_ok s (fst c, snd c)" "\<forall>d\<in>set L. before c d" using Cons.prems(2) by (auto simp: blocks_ok_Cons)
  show ?case
  proof (cases "before c b")
    case True
    then show ?thesis using l by (intro Cons.prems(1) [of "c # xs" ys]) auto
  next
    case False
    then have "before b c" using Cons.prems(4) by (auto simp: apart_from_def)
    then have "\<forall>d\<in>set (c # L). before b d" using c by fastforce
    then show ?thesis by (intro Cons.prems(1) [of "[]" "c # L"]) auto
  qed
qed simp

lemma blocks_ok_positive: "blocks_ok s L \<Longrightarrow> c \<in> set L \<Longrightarrow> 0 < snd c"
  using block_okD(2) [of s "fst c" "snd c"] blocks_ok_mem [of s L c] by simp

lemma give_back_split:
  assumes "blocks_ok s (xs @ ys)" "block_ok s (a, n)" "\<forall>c\<in>set xs. before c (a, n)" "\<forall>c\<in>set ys. before (a, n) c"
  shows "give_back (a, n) (xs @ ys) =
    (if xs \<noteq> [] \<and> fst (last xs) + snd (last xs) = a
     then butlast xs @ merge_next (fst (last xs), snd (last xs) + n) ys else xs @ merge_next (a, n) ys)"
  using assms
proof (induction xs)
  case Nil
  have "0 < n" using block_okD(2) [OF Nil(2)] by simp
  then show ?case using Nil(4) by (cases ys) auto
next
  case (Cons c xs)
  have IH: "give_back (a, n) (xs @ ys) =
    (if xs \<noteq> [] \<and> fst (last xs) + snd (last xs) = a
     then butlast xs @ merge_next (fst (last xs), snd (last xs) + n) ys else xs @ merge_next (a, n) ys)"
    using Cons by (intro Cons.IH) (auto simp: blocks_ok_Cons)
  have c: "0 < snd c" "before c (a, n)" using Cons.prems(1,3) blocks_ok_positive [of s "(c # xs) @ ys" c] by auto
  show ?case
  proof (cases xs)
    case Nil
    then show ?thesis using c IH by (cases c) auto
  next
    case (Cons d zs)
    then have "before c d" "0 < snd d" "before d (a, n)"
      using Cons.prems(1,3) blocks_ok_positive [of s "(c # xs) @ ys" d] by (auto simp: blocks_ok_Cons)
    then have "\<not> a < fst c" "fst c + snd c \<noteq> a" by auto
    then have "give_back (a, n) ((c # xs) @ ys) = c # give_back (a, n) (xs @ ys)" by (simp add: not_less)
    then show ?thesis using IH Cons by simp
  qed
qed

lemma free_walk_heap:
  assumes "seg s p (xs @ ys) (marker s)" "blocks_ok s (xs @ ys)" "xs \<noteq> []" "block_ok s (a, n)"
    "\<forall>c\<in>set xs. before c (a, n)" "\<forall>c\<in>set ys. before (a, n) c"
  shows "free_walk s (of_nat a) p =
    (if ys = [] then AtEnd (last_addr xs) else Between (last_addr xs) (of_nat (fst (hd ys))))"
  using assms
proof (induction xs arbitrary: p)
  case (Cons c xs)
  obtain b m where c: "c = (b, m)" by (cases c)
  have p: "p = of_nat b" "seg s (next_at s p) (xs @ ys) (marker s)" using Cons.prems(1) by (auto simp: c)
  have nxt: "d # L = xs @ ys \<Longrightarrow> next_at s p = of_nat (fst d) \<and> next_at s p \<noteq> marker s \<and> \<not> next_at s p \<le> p \<and>
      (next_at s p \<le> of_nat a \<longleftrightarrow> fst d \<le> a)" for d L
  proof -
    assume dL: "d # L = xs @ ys"
    have "d \<in> set (xs @ ys)" by (simp flip: dL)
    then have blk: "block_ok s (fst d, snd d)" "block_ok s (b, m)" "b + m \<le> fst d"
      using Cons.prems(2) by (auto simp: c blocks_ok_Cons blocks_ok_mem)
    note D = block_okD [OF blk(1)] block_okD [OF blk(2)] block_okD [OF Cons.prems(4)]
    have "next_at s p = of_nat (fst d)" using p(2) dL by (cases d) (auto simp flip: dL)
    then show ?thesis using D blk(3) by (simp add: p(1) word_le_nat_alt)
  qed
  show ?case
  proof (cases "xs @ ys")
    case Nil
    then show ?thesis using p by (subst free_walk.simps) (simp add: c last_addr_def)
  next
    case (Cons d L)
    note n = nxt [OF Cons [symmetric]]
    show ?thesis
    proof (cases xs)
      case Nil
      then have "\<not> fst d \<le> a" using Cons Cons.prems(4,6) block_okD(2) [OF Cons.prems(4)] by auto
      then show ?thesis using n Nil Cons p by (subst free_walk.simps) (auto simp: c last_addr_def)
    next
      case (Cons e zs)
      then have "e = d" using \<open>xs @ ys = d # L\<close> by simp
      then have "fst d \<le> a" using Cons Cons.prems(5) by auto
      then have "next_at s p \<noteq> marker s" "\<not> next_at s p \<le> p" "next_at s p \<le> of_nat a" using n by blast+
      then have "free_walk s (of_nat a) p = free_walk s (of_nat a) (next_at s p)"
        by (subst free_walk.simps) (simp add: Let_def)
      also have "\<dots> = (if ys = [] then AtEnd (last_addr xs) else Between (last_addr xs) (of_nat (fst (hd ys))))"
        using Cons Cons.prems p(2) by (intro Cons.IH) (auto simp: blocks_ok_Cons)
      finally show ?thesis using Cons by (simp add: last_addr_def)
    qed
  qed
qed simp

text \<open>Replacing a stretch of the list by one block.\<close>

lemma replace_by_block:
  assumes ok: "heap_ok h s (xs @ Z @ ys)" and r: "seg s r ys (marker s)"
    and b: "block_ok s b" "\<forall>c\<in>set xs. before c b" "\<forall>c\<in>set ys. before b c" "only_in b (link_to xs) s s'"
    and R: "next_at s' (of_nat e) = r" "size_at s' (of_nat e) = of_nat k"
    and hd: "head h s' = (if xs = [] then of_nat e else head h s)"
    and lnk: "xs \<noteq> [] \<Longrightarrow> mem s' (last_addr xs) = of_nat e"
    and mk: "marker s' = marker s" and blk: "blocks_ok s (xs @ (e, k) # ys)"
  shows "heap_ok h s' (xs @ (e, k) # ys)"
proof -
  obtain q where q: "seg s (head h s) xs q" using ok by (auto simp: heap_ok_def seg_append)
  have "blocks_ok s (xs @ ys)" using ok by (auto simp: heap_ok_def blocks_ok_append)
  note same = around_same [OF this b(1-3) b(4)]
  have "seg s' (head h s') (xs @ [(e, k)] @ ys) (marker s)"
    using same lnk hd R by (intro seg_splice [OF q r same(1), of "of_nat e" "[(e, k)]"]) auto
  moreover have "block_ok s' = block_ok s" by (simp add: block_ok_def mk fun_eq_iff)
  then have "blocks_ok s' (xs @ (e, k) # ys)" using blk by (simp add: blocks_ok_def)
  ultimately show ?thesis by (simp add: heap_ok_def mk)
qed

lemma block_ok_merge: "block_ok s (a, n) \<Longrightarrow> block_ok s (a + n, m) \<Longrightarrow> block_ok s (a, n + m)"
  by (auto simp: block_ok_def in_block_def)

lemma only_in_writes:
  assumes "block_ok s (a, n)" "\<forall>x. x \<noteq> of_nat a \<and> x \<noteq> of_nat a + 4 \<and> x \<notin> ls \<longrightarrow> mem s' x = mem s x"
  shows "only_in (a, n) ls s s'"
proof -
  note bd = block_okD [OF assms(1)]
  have "unat (of_nat a + 4 :: u32) = a + 4" using bd unat_of_nat_u32 [of "a + 4"] by simp
  then have "\<not> in_block (unat x) (a, n) \<Longrightarrow> x \<noteq> of_nat a \<and> x \<noteq> of_nat a + 4" for x :: u32
    using bd by (auto simp: in_block_def)
  then show ?thesis using assms(2) by (auto simp: only_in_def)
qed

lemma link_word:
  assumes "block_ok s (a, n)" "blocks_ok s xs" "\<forall>c\<in>set xs. before c (a, n)" "xs \<noteq> []"
  shows "last_addr xs \<noteq> of_nat a" "last_addr xs \<noteq> of_nat a + 4" "last_addr xs + 4 \<noteq> of_nat a" "last_addr xs + 4 \<noteq> of_nat a + 4"
  using block_words_apart [of s "last xs" "(a, n)"] assms by (auto simp: last_addr_def blocks_ok_mem)

lemma merge_next_eq:
  "merge_next (a, n) ys =
     (case ys of [] \<Rightarrow> [(a, n)] | (b, m) # zs \<Rightarrow> if a + n = b then (a, n + m) # zs else (a, n) # ys)"
  by (cases ys) auto

text \<open>The first block after the place, as the code sees it.\<close>

definition first_of :: "memory \<Rightarrow> free_list \<Rightarrow> u32" where
  "first_of s ys = (case ys of [] \<Rightarrow> marker s | (b, m) # zs \<Rightarrow> of_nat b)"

lemma seg_first: "seg s r ys (marker s) \<Longrightarrow> r = first_of s ys"
  by (cases ys) (auto simp: first_of_def)

text \<open>A block that does not touch the one before it.\<close>

lemma link_block:
  assumes ok: "heap_ok h s (xs @ ys)" and b: "block_ok s (a, n)" "\<forall>c\<in>set xs. before c (a, n)" "\<forall>c\<in>set ys. before (a, n) c"
    and sz: "size_at s (of_nat a) = of_nat n"
    and s': "case ys of [] \<Rightarrow> t = set_next (of_nat a) (marker s) s
      | (c, m) # zs \<Rightarrow> t = (if a + n = c then set_next (of_nat a) (next_at s (of_nat c)) (set_size (of_nat a) (of_nat (n + m)) s)
                         else set_next (of_nat a) (of_nat c) s)"
    and u: "u = (if xs = [] then set_head h (of_nat a) t else set_next (last_addr xs) (of_nat a) t)"
  shows "heap_ok h u (xs @ merge_next (a, n) ys)" "only_in (a, n) (link_to xs) s u"
proof -
  note bd = block_okD [OF b(1)]
  have blk: "blocks_ok s (xs @ ys)" using ok by (simp add: heap_ok_def)
  then have lw: "xs \<noteq> [] \<Longrightarrow> last_addr xs \<noteq> of_nat a \<and> last_addr xs \<noteq> of_nat a + 4 \<and> last_addr xs + 4 \<noteq> of_nat a \<and> last_addr xs + 4 \<noteq> of_nat a + 4"
    using link_word [OF b(1) _ b(2)] by (auto simp: blocks_ok_append)
  have mk: "marker u = marker s" using s' by (auto simp: u split: list.splits prod.splits if_splits)
  obtain q where q: "seg s (head h s) xs q" "seg s q ys (marker s)" using ok by (auto simp: heap_ok_def seg_append)
  show only: "only_in (a, n) (link_to xs) s u"
    using s' by (intro only_in_writes [OF b(1)]) (auto simp: u last_addr_def split: list.splits if_splits)
  show "heap_ok h u (xs @ merge_next (a, n) ys)"
  proof (cases ys)
    case Nil
    have "heap_ok h u (xs @ (a, n) # [])"
      by (rule replace_by_block [where Z = "[]" and s = s and r = "marker s" and b = "(a, n)"])
        (use ok b blk only sz lw mk s' in \<open>auto simp: Nil u blocks_ok_append blocks_ok_Cons next_at_def size_at_def\<close>)
    then show ?thesis by (simp add: Nil)
  next
    case (Cons c zs)
    obtain b' m where c: "c = (b', m)" by (cases c)
    have qn: "q = of_nat b'" "seg s (next_at s (of_nat b')) zs (marker s)" using q by (auto simp: Cons c)
    show ?thesis
    proof (cases "a + n = b'")
      case True
      have mg: "block_ok s (a, n + m)" using blk True b(1) by (intro block_ok_merge) (auto simp: Cons c blocks_ok_append blocks_ok_Cons)
      have "heap_ok h u (xs @ (a, n + m) # zs)"
        by (rule replace_by_block [where Z = "[c]" and s = s and r = "next_at s (of_nat b')" and b = "(a, n)"])
          (use ok b blk only sz lw mk s' qn mg True in \<open>auto simp: Cons c u blocks_ok_append blocks_ok_Cons next_at_def size_at_def\<close>)
      then show ?thesis using True by (simp add: Cons c)
    next
      case False
      have "heap_ok h u (xs @ (a, n) # ys)"
        by (rule replace_by_block [where Z = "[]" and s = s and r = q and b = "(a, n)"])
          (use ok b blk only sz lw mk s' q qn False in \<open>auto simp: Cons c u blocks_ok_append blocks_ok_Cons next_at_def size_at_def\<close>)
      then show ?thesis using False by (simp add: Cons c)
    qed
  qed
qed

text \<open>A block that touches the one before it, which grows.\<close>

lemma grow_block:
  assumes ok: "heap_ok h s (xs @ (a, n) # ys)" and b: "block_ok s (a + n, m)" "\<forall>c\<in>set ys. before (a + n, m) c"
    and u: "case ys of [] \<Rightarrow> u = set_size (of_nat a) (of_nat (n + m)) s
      | (c, k) # zs \<Rightarrow> u = (if a + n + m = c
          then set_next (of_nat a) (next_at s (of_nat c)) (set_size (of_nat a) (of_nat (n + m + k)) (set_size (of_nat a) (of_nat (n + m)) s))
          else set_size (of_nat a) (of_nat (n + m)) s)"
  shows "heap_ok h u (xs @ merge_next (a, n + m) ys)" "only_in (a, n) (link_to xs) s u"
proof -
  have blk: "blocks_ok s (xs @ (a, n) # ys)" using ok by (simp add: heap_ok_def)
  then have an: "block_ok s (a, n)" "\<forall>c\<in>set xs. before c (a, n)" "\<forall>c\<in>set ys. before (a, n) c" "blocks_ok s xs"
    by (auto simp: blocks_ok_append blocks_ok_Cons)
  note lw = link_word [OF an(1) an(4) an(2)]
  have mk: "marker u = marker s" using u by (auto split: list.splits prod.splits if_splits)
  obtain q where q: "seg s (head h s) xs q" "q = of_nat a" "seg s (next_at s (of_nat a)) ys (marker s)"
    using ok by (auto simp: heap_ok_def seg_append)
  have hd: "xs = [] \<Longrightarrow> head h s = of_nat a" using q by simp
  have lnk: "xs \<noteq> [] \<Longrightarrow> mem s (last_addr xs) = of_nat a"
    using q(1,2) by (cases xs rule: rev_cases) (auto simp: seg_append next_at_def)
  show only: "only_in (a, n) (link_to xs) s u"
    using u by (intro only_in_writes [OF an(1)]) (auto split: list.splits if_splits)
  have mg: "block_ok s (a, n + m)" by (rule block_ok_merge [OF an(1) b(1)])
  show "heap_ok h u (xs @ merge_next (a, n + m) ys)"
  proof (cases ys)
    case Nil
    have "heap_ok h u (xs @ (a, n + m) # [])"
      by (rule replace_by_block [where Z = "[(a, n)]" and s = s and r = "marker s" and b = "(a, n)"])
        (use ok an blk only lw mk u mg q hd lnk in \<open>auto simp: Nil blocks_ok_append blocks_ok_Cons next_at_def size_at_def\<close>)
    then show ?thesis by (simp add: Nil)
  next
    case (Cons c zs)
    obtain b' k where c: "c = (b', k)" by (cases c)
    have qn: "next_at s (of_nat a) = of_nat b'" "seg s (next_at s (of_nat b')) zs (marker s)" using q by (auto simp: Cons c)
    show ?thesis
    proof (cases "a + n + m = b'")
      case True
      have mg2: "block_ok s (a, n + m + k)"
        using blk True by (intro block_ok_merge [OF mg]) (auto simp: Cons c blocks_ok_append blocks_ok_Cons add.assoc)
      have "heap_ok h u (xs @ (a, n + m + k) # zs)"
        by (rule replace_by_block [where Z = "[(a, n), c]" and s = s and r = "next_at s (of_nat b')" and b = "(a, n)"])
          (use ok an blk only lw mk u qn mg2 True hd lnk in \<open>auto simp: Cons c blocks_ok_append blocks_ok_Cons next_at_def size_at_def\<close>)
      then show ?thesis using True by (simp add: Cons c add.assoc)
    next
      case False
      have "heap_ok h u (xs @ (a, n + m) # ys)"
        by (rule replace_by_block [where Z = "[(a, n)]" and s = s and r = "next_at s (of_nat a)" and b = "(a, n)"])
          (use ok an b blk only lw mk u q qn mg False hd lnk in \<open>auto simp: Cons c blocks_ok_append blocks_ok_Cons next_at_def size_at_def\<close>)
      then show ?thesis using False by (simp add: Cons c add.assoc)
    qed
  qed
qed

lemma update_order:
  "set_next p v (set_head h q s) = set_head h q (set_next p v s)"
  "set_size p v (set_next p w s) = set_next p w (set_size p v s)"
  by (simp_all add: set_next_def set_size_def set_head_def fun_upd_twist split: heap.splits)

text \<open>A release with blocks before its place: the walk finds the last of them.\<close>

lemma free_after:
  assumes ok: "heap_ok h s (xs @ ys)" and b: "block_ok s (a, n)" "\<forall>c\<in>set xs. before c (a, n)" "\<forall>c\<in>set ys. before (a, n) c"
    and sz: "size_at s (of_nat a) = of_nat n" and ne: "xs \<noteq> []"
  shows "multi_free (of_nat a + 8) h s =
    (case free_walk s (of_nat a) (head h s) of
       Broken \<Rightarrow> s
     | Between cur nxt \<Rightarrow>
         if cur + size_at s cur = of_nat a
         then let s = set_size cur (size_at s cur + of_nat n) s
              in if cur + size_at s cur = nxt
                 then set_next cur (next_at s nxt) (set_size cur (size_at s cur + size_at s nxt) s) else s
         else if of_nat a + of_nat n = nxt
         then let s = set_next (of_nat a) (next_at s nxt) s; s = set_size (of_nat a) (of_nat n + size_at s nxt) s
              in set_next cur (of_nat a) s
         else set_next cur (of_nat a) (set_next (of_nat a) nxt s)
     | AtEnd cur \<Rightarrow>
         if cur + size_at s cur = of_nat a then set_size cur (size_at s cur + of_nat n) s
         else set_next cur (of_nat a) (set_next (of_nat a) (marker s) s))"
proof -
  obtain c zs where xs: "xs = c # zs" using ne by (cases xs) auto
  have "block_ok s (fst c, snd c)" "before c (a, n)"
    using ok b(2) by (auto simp: xs heap_ok_def blocks_ok_Cons)
  note bd = block_okD [OF this(1)] block_okD [OF b(1)]
  have "head h s = of_nat (fst c)" using ok by (cases c) (auto simp: xs heap_ok_def)
  then have "head h s \<noteq> marker s" "head h s \<noteq> 0" "\<not> of_nat a < head h s"
    using bd \<open>before c (a, n)\<close> by (auto simp: word_less_nat_alt)
  moreover have "(of_nat a + 8 :: u32) \<noteq> 0"
  proof -
    have "unat (of_nat (a + 8) :: u32) = a + 8" using bd by (intro unat_of_nat_u32) linarith
    then show ?thesis by auto
  qed
  ultimately show ?thesis unfolding multi_free_def Let_def add_diff_cancel_right' sz [symmetric] by simp
qed

lemma free_effect:
  assumes ok: "heap_ok h s L" and b: "block_ok s (a, n)" "apart_from L (a, n)" and sz: "size_at s (of_nat a) = of_nat n"
  shows "heap_ok h (multi_free (of_nat a + 8) h s) (give_back (a, n) L) \<and>
    only_free h ((a, n) # L) s (multi_free (of_nat a + 8) h s)"
proof -
  have blk: "blocks_ok s L" using ok by (simp add: heap_ok_def)
  obtain xs ys where L: "L = xs @ ys" and xs: "\<forall>c\<in>set xs. before c (a, n)" and ys: "\<forall>c\<in>set ys. before (a, n) c"
    by (rule split_at_block [OF blk b])
  note gb = give_back_split [OF blk [unfolded L] b(1) xs ys]
  note ba = block_okD [OF b(1)]
  have nz: "(of_nat a + 8 :: u32) \<noteq> 0"
    using unat_of_nat_u32 [of "a + 8"] ba by auto
  show ?thesis
  proof (cases xs rule: rev_cases)
    case Nil
    let ?t = "case ys of [] \<Rightarrow> set_next (of_nat a) (marker s) s
      | (c, m) # zs \<Rightarrow> (if a + n = c then set_next (of_nat a) (next_at s (of_nat c)) (set_size (of_nat a) (of_nat (n + m)) s)
                         else set_next (of_nat a) (of_nat c) s)"
    have "multi_free (of_nat a + 8) h s = set_head h (of_nat a) ?t"
    proof (cases ys)
      case Nil': Nil
      then show ?thesis using ok nz by (simp add: L Nil heap_ok_def multi_free_def Let_def update_order)
    next
      case (Cons c zs)
      obtain d m where c: "c = (d, m)" by (cases c)
      have h: "head h s = of_nat d" "size_at s (of_nat d) = of_nat m" "block_ok s (d, m)" "a + n \<le> d"
        using ok ys by (auto simp: L Nil Cons c heap_ok_def blocks_ok_Cons)
      note bd = block_okD [OF h(3)]
      have "(of_nat a + of_nat n :: u32) = of_nat d \<longleftrightarrow> a + n = d"
        using of_nat_u32_eq [of "a + n" d] ba bd by simp
      moreover have "(of_nat a :: u32) < of_nat d" using ba bd h(4) by (simp add: word_less_nat_alt)
      ultimately show ?thesis
        using nz h bd sz by (simp add: multi_free_def Let_def Cons c add.commute)
    qed
    moreover have "heap_ok h (set_head h (of_nat a) ?t) (give_back (a, n) L) \<and> only_free h ((a, n) # L) s (set_head h (of_nat a) ?t)"
      using link_block [OF ok [unfolded L] b(1) xs ys sz, of ?t] gb L
      by (auto simp: Nil split: list.splits intro!: only_in_free [of "(a, n)" "[]"])
    ultimately show ?thesis by simp
  next
    case (snoc us d)
    obtain c k where d: "d = (c, k)" by (cases d)
    have ne: "xs \<noteq> []" by (simp add: snoc)
    have ck: "block_ok s (c, k)" "size_at s (of_nat c) = of_nat k" "c + k \<le> a"
      using blk xs seg_sizes [of s "head h s" L] ok
      by (auto simp: L snoc d blocks_ok_append blocks_ok_Cons heap_ok_def sizes_def)
    note bc = block_okD [OF ck(1)]
    have later: "block_ok s (e, j)" "size_at s (of_nat e) = of_nat j" "a + n \<le> e" "before (c, k) (e, j)" if "ys = (e, j) # zs" for e j zs
      using blk ys ck(3) ba(2) seg_sizes [of s "head h s" L] ok that
      by (auto simp: L snoc d blocks_ok_append blocks_ok_Cons heap_ok_def sizes_def)
    have la: "last_addr xs = of_nat c" by (simp add: snoc d)
    have touch: "(of_nat c + of_nat k :: u32) = of_nat a \<longleftrightarrow> c + k = a"
      using of_nat_u32_eq [of "c + k" a] ba bc by simp
    have walk: "free_walk s (of_nat a) (head h s) =
        (if ys = [] then AtEnd (of_nat c) else Between (of_nat c) (of_nat (fst (hd ys))))"
      using free_walk_heap [OF _ blk [unfolded L] ne b(1) xs ys] ok la by (simp add: L heap_ok_def)
    note run = free_after [OF ok [unfolded L] b(1) xs ys sz ne, unfolded walk]
    show ?thesis
    proof (cases "c + k = a")
      case True
      let ?u = "case ys of [] \<Rightarrow> set_size (of_nat c) (of_nat (k + n)) s
        | (e, j) # zs \<Rightarrow> (if c + k + n = e
            then set_next (of_nat c) (next_at s (of_nat e)) (set_size (of_nat c) (of_nat (k + n + j)) (set_size (of_nat c) (of_nat (k + n)) s))
            else set_size (of_nat c) (of_nat (k + n)) s)"
      have "multi_free (of_nat a + 8) h s = ?u"
      proof (cases ys)
        case Nil
        then show ?thesis using run touch True ck(2) by simp
      next
        case (Cons f zs)
        obtain e j where f: "f = (e, j)" by (cases f)
        note l = later [OF Cons [unfolded f]]
        have "(of_nat c + (of_nat k + of_nat n) :: u32) = of_nat e \<longleftrightarrow> c + k + n = e"
          using of_nat_u32_eq [of "c + k + n" e] ba(3) block_okD(3) [OF l(1)] by (simp add: add.assoc flip: True)
        then show ?thesis
          using run touch True ck(2) l(2) block_words_apart [OF ck(1) l(1)] l(4)
          by (simp add: Cons f Let_def add.assoc)
      qed
      moreover have g: "heap_ok h ?u (us @ merge_next (c, k + n) ys)" "only_in (c, k) (link_to us) s ?u"
        using grow_block [of h s us c k ys n ?u] ok b ys True by (auto simp: L snoc d split: list.splits)
      moreover have "only_free h ((a, n) # L) s ?u"
        using blk by (intro only_in_free [OF g(2)]) (auto simp: L snoc d blocks_ok_append blocks_ok_Cons split: list.splits)
      ultimately show ?thesis using gb True by (simp add: L snoc d)
    next
      case False
      let ?t = "case ys of [] \<Rightarrow> set_next (of_nat a) (marker s) s
        | (c, m) # zs \<Rightarrow> (if a + n = c then set_next (of_nat a) (next_at s (of_nat c)) (set_size (of_nat a) (of_nat (n + m)) s)
                         else set_next (of_nat a) (of_nat c) s)"
      have "multi_free (of_nat a + 8) h s = set_next (of_nat c) (of_nat a) ?t"
      proof (cases ys)
        case Nil
        then show ?thesis using run touch False ck(2) by simp
      next
        case (Cons f zs)
        obtain e j where f: "f = (e, j)" by (cases f)
        note l = later [OF Cons [unfolded f]]
        have "(of_nat a + of_nat n :: u32) = of_nat e \<longleftrightarrow> a + n = e"
          using of_nat_u32_eq [of "a + n" e] ba block_okD(3) [OF l(1)] by simp
        then show ?thesis
          using run touch False ck(2) l(2,3) block_words_apart [OF b(1) l(1)]
          by (auto simp: Cons f Let_def update_order)
      qed
      moreover have g: "heap_ok h (set_next (of_nat c) (of_nat a) ?t) (xs @ merge_next (a, n) ys)"
          "only_in (a, n) (link_to xs) s (set_next (of_nat c) (of_nat a) ?t)"
        using link_block [OF ok [unfolded L] b(1) xs ys sz, of ?t "set_next (of_nat c) (of_nat a) ?t"] la ne
        by (auto split: list.splits)
      moreover have "only_free h ((a, n) # L) s (set_next (of_nat c) (of_nat a) ?t)"
        using blk by (intro only_in_free [OF g(2)]) (auto simp: L snoc d blocks_ok_append blocks_ok_Cons split: list.splits)
      ultimately show ?thesis using gb False by (simp add: L snoc d)
    qed
  qed
qed

section \<open>What a client sees\<close>

lemma carved_block:
  assumes blk: "blocks_ok s L" and mem: "(a, n) \<in> set L" and w: "want \<le> n" "0 < want" "8 dvd want"
  shows "block_ok s (a, want)" "apart_from (carve a want L) (a, want)"
proof -
  obtain xs ys where L: "L = xs @ (a, n) # ys" using mem by (meson split_list)
  show "block_ok s (a, want)"
    using blocks_ok_mem [OF blk mem] w by (auto simp: block_ok_def in_block_def)
  show "apart_from (carve a want L) (a, want)"
    using blk w(1) unfolding L carve_mid [OF blk [unfolded L]]
    by (fastforce simp: apart_from_def blocks_ok_append blocks_ok_Cons)
qed

text \<open>No two free blocks touch.\<close>

definition coalesced :: "free_list \<Rightarrow> bool" where
  "coalesced L \<longleftrightarrow> sorted_wrt before_gap L"

lemma give_back_carve:
  assumes blk: "blocks_ok s L" and co: "coalesced L" and mem: "(a, n) \<in> set L" and w: "want \<le> n" "0 < want" "8 dvd want"
  shows "give_back (a, want) (carve a want L) = L"
proof -
  obtain xs ys where L: "L = xs @ (a, n) # ys" using mem by (meson split_list)
  let ?R = "if n = want then [] else [(a + want, n - want)]"
  have cv: "carve a want L = xs @ ?R @ ys" using carve_mid [OF blk [unfolded L]] L by simp
  note ok = carved_block [OF blk mem w]
  have ord: "\<forall>c\<in>set xs. before c (a, want)" "\<forall>c\<in>set (?R @ ys). before (a, want) c" "blocks_ok s (xs @ ?R @ ys)"
    using blk w mem blocks_ok_mem [OF blk mem]
    by (auto simp: L blocks_ok_def sorted_wrt_append block_ok_def in_block_def)
  have no: "(xs \<noteq> [] \<and> fst (last xs) + snd (last xs) = a) = False"
    using co last_in_set [of xs] by (fastforce simp: coalesced_def L sorted_wrt_append)
  have m: "merge_next (a, want) (?R @ ys) = (a, n) # ys"
    using co w(1) by (cases ys) (auto simp: coalesced_def L sorted_wrt_append)
  show ?thesis unfolding cv give_back_split [OF ord(3) ok(1) ord(1,2)] no if_False m by (simp add: L)
qed

text \<open>
  C18: An allocation takes the front of the smallest free block with room, or changes nothing and answers null when
  there is none. The block has room for the request, lies outside the heap that is left, and no other memory changes.
\<close>

theorem malloc_correct:
  assumes "heap_ok h s L" "fits request"
  shows "case min_fit (block_size request) L of
      None \<Rightarrow> multi_malloc request h s = (0, s)
    | Some (a, n) \<Rightarrow> \<exists>s'. multi_malloc request h s = (of_nat a + 8, s') \<and>
        heap_ok h s' (carve a (block_size request) L) \<and> apart_from (carve a (block_size request) L) (a, block_size request) \<and>
        unat request + 8 \<le> block_size request \<and> unat (size_at s' (of_nat a)) = block_size request \<and> only_free h L s s'"
proof (cases "min_fit (block_size request) L")
  case None
  then show ?thesis using malloc_effect [OF assms(1), of request "block_size request"] assms(2) block_size_dvd [of request]
    by (simp add: fits_def unat_request)
next
  case (Some d)
  obtain a n where d: "d = (a, n)" by (cases d)
  have w: "unat (ALIGN_TO (request + 8)) = block_size request" using assms(2) by (simp add: fits_def unat_request)
  have pos: "0 < block_size request" using block_size_dvd(2) [of request] by linarith
  have "blocks_ok s L" "(a, n) \<in> set L" "block_size request \<le> n"
    using assms(1) min_fit_Some [OF Some] d by (auto simp: heap_ok_def)
  from carved_block(2) [OF this pos block_size_dvd(1)] show ?thesis
    using malloc_effect [OF assms(1) w block_size_dvd(1) pos] Some d by (auto simp: block_size_def)
qed

text \<open>
  C19: A release puts a block that lies outside the free list back in its place and merges it with the blocks it touches
  on either side; nothing outside the free blocks and the block changes.
\<close>

theorem free_correct:
  assumes "heap_ok h s L" "block_ok s (a, n)" "apart_from L (a, n)" "size_at s (of_nat a) = of_nat n"
  shows "heap_ok h (multi_free (of_nat a + 8) h s) (give_back (a, n) L) \<and>
    only_free h ((a, n) # L) s (multi_free (of_nat a + 8) h s)"
  using free_effect [OF assms] .

text \<open>Releasing what was just allocated restores a heap whose free blocks do not touch.\<close>

theorem malloc_free_restores:
  assumes "heap_ok h s L" "coalesced L" "fits request" "multi_malloc request h s = (p, s')" "p \<noteq> 0"
  shows "heap_ok h (multi_free p h s') L"
proof -
  have w: "unat (ALIGN_TO (request + 8)) = block_size request" using assms(3) by (simp add: fits_def unat_request)
  have pos: "0 < block_size request" using block_size_dvd(2) [of request] by linarith
  note eff = malloc_effect [OF assms(1) w block_size_dvd(1) pos]
  obtain a n where f: "min_fit (block_size request) L = Some (a, n)"
    using eff assms(4,5) by (cases "min_fit (block_size request) L") auto
  then have s': "p = of_nat a + 8" "heap_ok h s' (carve a (block_size request) L)"
      "unat (size_at s' (of_nat a)) = block_size request" "only_free h L s s'"
    using eff assms(4) by auto
  have blk: "blocks_ok s L" "(a, n) \<in> set L" "block_size request \<le> n"
    using assms(1) min_fit_Some [OF f] by (auto simp: heap_ok_def)
  note new = carved_block [OF blk pos block_size_dvd(1)]
  have "block_ok s' (a, block_size request)" using new(1) s'(4) by (simp add: only_free_def block_ok_def)
  moreover have "size_at s' (of_nat a) = of_nat (block_size request)" by (simp flip: s'(3))
  ultimately show ?thesis
    using free_effect [OF s'(2) _ new(2)] give_back_carve [OF blk(1) assms(2) blk(2,3) pos block_size_dvd(1)] s'(1) by simp
qed

lemma word_of_unat: "of_nat (unat (x :: u32)) = x"
  by simp

section \<open>Set-up\<close>

definition region_ok :: "memory \<Rightarrow> u32 \<Rightarrow> u32 \<Rightarrow> bool" where
  "region_ok s base n \<longleftrightarrow> 0 < unat base \<and> 16 \<le> unat n \<and> 4 dvd unat base \<and> 4 dvd unat n \<and>
     unat base + unat n < 2 ^ 32 \<and> \<not> in_block (unat (marker s)) (unat base, unat n)"

lemma initheap_effect:
  assumes "region_ok s base n"
  defines "a \<equiv> (unat base + 7) div 8 * 8" and "m \<equiv> (unat n - 1) div 8 * 8"
  shows "heap_ok h (initheap h base n s) [(a, m)]" "unat base \<le> a" "a + m \<le> unat base + unat n"
proof -
  have r: "0 < unat base" "16 \<le> unat n" "4 dvd unat base" "4 dvd unat n" "unat base + unat n < 4294967296"
    using assms(1) by (simp_all add: region_ok_def)
  have a: "unat (ALIGN_TO base) = a" using r unat_ALIGN_TO [of base] by (simp add: a_def)
  have "unat (n - 8) = unat n - 8" using r by (subst unat_sub) (auto simp: word_le_nat_alt)
  then have m: "unat (ALIGN_TO (n - 8)) = m" using r unat_ALIGN_TO [of "n - 8"] by (simp add: m_def)
  show lo: "unat base \<le> a" unfolding a_def by linarith
  show hi: "a + m \<le> unat base + unat n" using r(2-4) unfolding a_def m_def by (elim dvdE) presburger
  have "0 < m" "0 < a" using r unfolding a_def m_def by linarith+
  then have "block_ok s (a, m)"
    using assms(1) r lo hi by (auto simp: block_ok_def region_ok_def in_block_def a_def m_def)
  moreover have "ALIGN_TO base = of_nat a" "ALIGN_TO (n - 8) = of_nat m" by (simp_all flip: a m)
  ultimately show "heap_ok h (initheap h base n s) [(a, m)]"
    by (simp add: heap_ok_def initheap_def Let_def blocks_ok_Cons block_ok_def)
qed

text \<open>A heap of a page, on a memory of zeros.\<close>

definition page :: memory where
  "page = initheap HEAP_USER 65536 4096 \<lparr>mem = \<lambda>_. 0, user_heap_head = 0, kern_heap_head = 0, marker = 256\<rparr>"

lemma heap_page: "heap_ok HEAP_USER page [(65536, 4088)]"
proof -
  let ?z = "\<lparr>mem = \<lambda>_. 0, user_heap_head = 0, kern_heap_head = 0, marker = 256\<rparr> :: memory"
  have "region_ok ?z 65536 4096" by (simp add: region_ok_def in_block_def)
  from initheap_effect(1) [OF this] show ?thesis by (simp add: page_def)
qed

theorem malloc_correct_witness:
  "\<exists>s'. multi_malloc 100 HEAP_USER page = (65544, s') \<and> heap_ok HEAP_USER s' [(65648, 3976)]"
  using malloc_correct [OF heap_page, of 100] by (auto simp: fits_def block_size_def)

theorem malloc_free_restores_witness: "heap_ok HEAP_USER (multi_free 65544 HEAP_USER (snd (multi_malloc 100 HEAP_USER page))) [(65536, 4088)]"
proof -
  obtain s' where s': "multi_malloc 100 HEAP_USER page = (65544, s')"
    using malloc_effect [OF heap_page, of 100 112] by (auto simp: ALIGN_TO_def)
  show ?thesis
    using malloc_free_restores [OF heap_page _ _ s'] by (simp add: s' coalesced_def fits_def)
qed

text \<open>The block at the front of the page, with the rest of it free.\<close>

theorem free_correct_witness:
  "heap_ok HEAP_USER (multi_free 65544 HEAP_USER (snd (multi_malloc 100 HEAP_USER page))) [(65536, 4088)]"
proof -
  obtain s' where s': "multi_malloc 100 HEAP_USER page = (65544, s')" "heap_ok HEAP_USER s' [(65648, 3976)]"
      "unat (size_at s' 65536) = 112" "only_free HEAP_USER [(65536, 4088)] page s'"
    using malloc_effect [OF heap_page, of 100 112] by (auto simp: ALIGN_TO_def)
  have "block_ok s' (65536, 112)"
    using s'(4) heap_page by (auto simp: block_ok_def only_free_def heap_ok_def blocks_ok_Cons in_block_def)
  moreover have "size_at s' (of_nat 65536) = of_nat 112" using word_of_unat [of "size_at s' 65536"] s'(3) by simp
  ultimately show ?thesis
    using free_correct [OF s'(2), of 65536 112] by (simp add: s' apart_from_def)
qed

section \<open>Requests that wrap\<close>

text \<open>
  The seven largest requests wrap around in the rounding: they are answered with a block of eight bytes, which has
  no room beyond its header.
\<close>

theorem malloc_wraps:
  assumes "heap_ok h s L" "L \<noteq> []" "0xfffffff9 \<le> request"
  shows "\<exists>a s'. multi_malloc request h s = (of_nat a + 8, s') \<and> (of_nat a + 8 :: u32) \<noteq> 0 \<and> size_at s' (of_nat a) = 8"
proof -
  have big: "4294967289 \<le> unat request" using assms(3) by (simp add: word_le_nat_alt)
  have "unat (request + 8) = (unat request + 8) mod 4294967296" by (simp add: unat_word_ariths)
  also have "\<dots> = unat request + 8 - 4294967296"
    using big less_imp_diff_less [OF unat_u32_less, of request 4294967288] by (simp add: le_mod_geq)
  finally have small: "unat (request + 8) + 7 < 4294967296" "1 \<le> unat (request + 8)" "unat (request + 8) \<le> 7"
    using big unat_u32_less [of request] by linarith+
  then have w: "unat (ALIGN_TO (request + 8)) = 8" using unat_ALIGN_TO [of "request + 8"] by simp
  obtain b where "b \<in> set L" using assms(2) by (cases L) auto
  then have "min_fit 8 L \<noteq> None"
    using assms(1) block_okD(2) [of s "fst b" "snd b"] blocks_ok_mem [of s L b] by (auto simp: min_fit_None heap_ok_def not_less)
  then obtain a n where f: "min_fit 8 L = Some (a, n)" by auto
  have "block_ok s (a, n)" using min_fit_Some [OF f] assms(1) by (auto simp: heap_ok_def dest: blocks_ok_mem)
  then have "(of_nat a + 8 :: u32) \<noteq> 0" using block_okD [of s a n] unat_of_nat_u32 [of "a + 8"] by auto
  moreover obtain s' where "multi_malloc request h s = (of_nat a + 8, s')" "unat (size_at s' (of_nat a)) = 8"
    using malloc_effect [OF assms(1) w] f by force
  moreover have "size_at s' (of_nat a) = 8" using word_of_unat [of "size_at s' (of_nat a)"] calculation(3) by simp
  ultimately show ?thesis by blast
qed

theorem malloc_wraps_witness: "\<exists>a s'. multi_malloc 0xfffffff9 HEAP_USER page = (of_nat a + 8, s') \<and> size_at s' (of_nat a) = 8"
  using malloc_wraps [OF heap_page, where request = "0xfffffff9"] by auto

section \<open>Reallocation returns\<close>

lemma realloc_walk_returns:
  "seg s p (c # L) (marker s) \<Longrightarrow> blocks_ok s (c # L) \<Longrightarrow> realloc_walk s block p \<noteq> None"
proof (induction L arbitrary: p c)
  case Nil
  then show ?case by (cases c) (subst realloc_walk.simps, auto simp: Let_def)
next
  case (Cons d L)
  obtain a n b m where cd: "c = (a, n)" "d = (b, m)" by (cases c, cases d)
  have "realloc_walk s block (next_at s p) \<noteq> None"
    using Cons.prems by (intro Cons.IH [of _ d]) (auto simp: cd blocks_ok_Cons)
  then show ?case by (subst realloc_walk.simps) (simp add: Let_def)
qed

text \<open>On a well-formed heap a reallocation always returns.\<close>

lemma realloc_returns:
  assumes "heap_ok h s L"
  shows "multi_realloc ptr request h s \<noteq> None"
proof (cases L)
  case Nil
  then have "head h s = marker s" using assms by (simp add: heap_ok_def)
  then show ?thesis by (simp add: multi_realloc_def Let_def)
next
  case (Cons c L')
  then have "realloc_walk s (ptr - 8) (head h s) \<noteq> None"
    using assms realloc_walk_returns [of s "head h s" c L'] by (simp add: heap_ok_def)
  then show ?thesis by (auto simp: multi_realloc_def Let_def split: option.splits)
qed

end
