(* ===== verification/Monitor_Transport.thy ===== *)
theory Monitor_Transport
  imports Prelude "HOL-Library.Monad_Syntax"
begin

text \<open>
  The links and the frame layer of the debug monitor (\<open>monitor/link.h\<close>, \<open>monitor/link-*.h\<close>,
  \<open>monitor/transport.c\<close>). What the host sends is the input of the model: words on the DTL-H2000 channel,
  bytes on the two byte links, each byte with the number of polls that find nothing before it. A read that
  would wait for ever is \<open>None\<close>. Sending waits on the host, which is taken to read.
\<close>

section \<open>The links\<close>

datatype link = ATCONS | SIO1 | FT232H

abbreviation is_stream :: "link \<Rightarrow> bool" where "is_stream l \<equiv> l \<noteq> ATCONS"

record wire =
  inb :: "(nat \<times> u8) list"
  inw :: "u16 list"
  outb :: bytes
  outw :: "u16 list"
  rx_open :: bool
  rate :: u16
  dropped :: u32
  txS1 :: u32
  txS2 :: u32
  rxS1 :: u32
  rxS2 :: u32

definition linkInit :: "link \<Rightarrow> wire \<Rightarrow> wire" where
  "linkInit l s = (if l = SIO1 then s\<lparr>rate := 18, rx_open := False\<rparr> else s)"

definition linkRxOpen :: "link \<Rightarrow> wire \<Rightarrow> wire" where
  "linkRxOpen l s = (if l = SIO1 then s\<lparr>rx_open := True\<rparr> else s)"

definition linkRxClose :: "link \<Rightarrow> wire \<Rightarrow> wire" where
  "linkRxClose l s = (if l = SIO1 then s\<lparr>rx_open := False\<rparr> else s)"

definition linkGetByte :: "wire \<Rightarrow> (u8 \<times> wire) option" where
  "linkGetByte s = (case inb s of [] \<Rightarrow> None | (n, b) # p \<Rightarrow> Some (b, s\<lparr>inb := p\<rparr>))"

definition linkTryGetByte :: "wire \<Rightarrow> u8 option \<times> wire" where
  "linkTryGetByte s = (case inb s of
      [] \<Rightarrow> (None, s)
    | (0, b) # p \<Rightarrow> (Some b, s\<lparr>inb := p\<rparr>)
    | (Suc n, b) # p \<Rightarrow> (None, s\<lparr>inb := (n, b) # p\<rparr>))"

definition linkPutByte :: "u8 \<Rightarrow> wire \<Rightarrow> wire" where
  "linkPutByte b s = s\<lparr>outb := outb s @ [b]\<rparr>"

definition linkGetWord :: "link \<Rightarrow> wire \<Rightarrow> (u16 \<times> wire) option" where
  "linkGetWord l s =
     (if is_stream l then do {
        (lo, s) \<leftarrow> linkGetByte s;
        (hi, s) \<leftarrow> linkGetByte s;
        Some (ucast lo OR push_bit 8 (ucast hi), s)
      } else case inw s of [] \<Rightarrow> None | w # ws \<Rightarrow> Some (w, s\<lparr>inw := ws\<rparr>))"

definition linkPutWord :: "link \<Rightarrow> u16 \<Rightarrow> wire \<Rightarrow> wire" where
  "linkPutWord l w s =
     (if is_stream l then linkPutByte (ucast (drop_bit 8 w)) (linkPutByte (ucast (w AND 0xff)) s)
      else s\<lparr>outw := outw s @ [w]\<rparr>)"

definition linkGetRate :: "wire \<Rightarrow> u16" where "linkGetRate s = rate s"
definition linkSetRate :: "u16 \<Rightarrow> wire \<Rightarrow> wire" where "linkSetRate r s = s\<lparr>rate := r\<rparr>"

section \<open>Sending\<close>

definition FRAME_SYNC :: u16 where "FRAME_SYNC = 0x55AA"
definition CKSUM_NONE :: u32 where "CKSUM_NONE = 0"

datatype rc = TRANSPORT_OK | TRANSPORT_EBADLEN | TRANSPORT_ECKSUM

definition TRANSPORT_STREAM_MAX_LEN :: nat where "TRANSPORT_STREAM_MAX_LEN = 4096 + 16"

definition fletcherFinish :: "u32 \<Rightarrow> u32 \<Rightarrow> u32" where
  "fletcherFinish s1 s2 =
     (let ck = push_bit 16 (s2 mod 65535) OR (s1 mod 65535) in if ck = CKSUM_NONE then 0xffffffff else ck)"

definition transportSendWord :: "link \<Rightarrow> u16 \<Rightarrow> wire \<Rightarrow> wire" where
  "transportSendWord l w s =
     (let s = linkPutWord l w s; s = s\<lparr>txS1 := txS1 s + ucast w\<rparr> in s\<lparr>txS2 := txS2 s + txS1 s\<rparr>)"

definition transportSendBegin :: "link \<Rightarrow> u16 \<Rightarrow> u16 \<Rightarrow> wire \<Rightarrow> wire" where
  "transportSendBegin l ty len s =
     (let s = s\<lparr>txS1 := 0, txS2 := 0\<rparr>;
          s = (if is_stream l then linkPutByte 0 s else s);
          s = linkPutWord l FRAME_SYNC s
      in transportSendWord l len (transportSendWord l ty s))"

definition transportSendEnd :: "link \<Rightarrow> wire \<Rightarrow> wire" where
  "transportSendEnd l s =
     (let ck = fletcherFinish (txS1 s) (txS2 s)
      in linkPutWord l (ucast (drop_bit 16 ck AND 0xffff)) (linkPutWord l (ucast (ck AND 0xffff)) s))"

definition transportSendFrame :: "link \<Rightarrow> u16 \<Rightarrow> u16 list \<Rightarrow> wire \<Rightarrow> wire" where
  "transportSendFrame l ty payload s =
     transportSendEnd l (fold (transportSendWord l) payload (transportSendBegin l ty (of_nat (length payload)) s))"

text \<open>Bytes of memory as words, the last one padded. The loop compares pointers, so it is skipped when its end wraps around.\<close>

definition pair_at :: "(u32 \<Rightarrow> u8) \<Rightarrow> u32 \<Rightarrow> u16" where
  "pair_at m a = ucast (m a) OR push_bit 8 (ucast (m (a + 1)))"

definition transportSendBytes :: "link \<Rightarrow> (u32 \<Rightarrow> u8) \<Rightarrow> u32 \<Rightarrow> u32 \<Rightarrow> wire \<Rightarrow> wire" where
  "transportSendBytes l m src nbytes s =
     (let end_ptr = src + (nbytes AND NOT 1);
          pairs = (if src < end_ptr then unat (nbytes AND NOT 1) div 2 else 0);
          s = fold (\<lambda>i. transportSendWord l (pair_at m (src + 2 * of_nat i))) [0..<pairs] s
      in if nbytes AND 1 \<noteq> 0 then transportSendWord l (ucast (m (src + 2 * of_nat pairs))) s else s)"

section \<open>Receiving\<close>

definition rx_sum :: "u16 \<Rightarrow> wire \<Rightarrow> wire" where
  "rx_sum w s = (let s = s\<lparr>rxS1 := rxS1 s + ucast w\<rparr> in s\<lparr>rxS2 := rxS2 s + rxS1 s\<rparr>)"

lemma linkGetByte_shrinks: "linkGetByte s = Some (b, t) \<Longrightarrow> length (inb t) < length (inb s)"
  by (auto simp: linkGetByte_def split: list.splits)

lemma linkGetWord_shrinks: "is_stream l \<Longrightarrow> linkGetWord l s = Some (w, t) \<Longrightarrow> length (inb t) < length (inb s)"
  by (auto simp: linkGetWord_def bind_eq_Some_conv dest!: linkGetByte_shrinks)

function skip_zeros :: "wire \<Rightarrow> (u8 \<times> wire) option" where
  "skip_zeros s = do { (b, s) \<leftarrow> linkGetByte s; if b = 0 then skip_zeros s else Some (b, s) }"
  by pat_completeness auto
termination by (relation "measure (\<lambda>s. length (inb s))") (auto dest: linkGetByte_shrinks)

declare skip_zeros.simps [simp del]

lemma skip_zeros_shrinks: "skip_zeros s = Some (b, t) \<Longrightarrow> length (inb t) < length (inb s)"
proof (induction s rule: skip_zeros.induct)
  case (1 s)
  obtain c u where c: "linkGetByte s = Some (c, u)" "(if c = 0 then skip_zeros u else Some (c, u)) = Some (b, t)"
    using "1.prems" by (subst (asm) skip_zeros.simps) (auto simp: bind_eq_Some_conv)
  then show ?case using linkGetByte_shrinks [OF c(1)] "1.IH" [OF c(1) refl] by (fastforce split: if_splits)
qed

text \<open>The hunt for a frame on a byte link, with the last byte read.\<close>

function stream_hunt :: "link \<Rightarrow> u8 \<Rightarrow> wire \<Rightarrow> (u16 \<times> u16 \<times> wire) option" where
  "stream_hunt l b s =
     (if b \<noteq> 0 then do { (b, s) \<leftarrow> linkGetByte (s\<lparr>dropped := dropped s + 1\<rparr>); stream_hunt l b s }
      else do {
        (b, s) \<leftarrow> skip_zeros s;
        if b \<noteq> ucast (FRAME_SYNC AND 0xff) then stream_hunt l b s
        else do {
          (b, s) \<leftarrow> linkGetByte s;
          if b \<noteq> ucast (drop_bit 8 FRAME_SYNC) then stream_hunt l b s
          else do {
            (t, s) \<leftarrow> linkGetWord SIO1 s;
            (n, s) \<leftarrow> linkGetWord SIO1 s;
            if unat n \<le> TRANSPORT_STREAM_MAX_LEN then Some (t, n, s)
            else do { (b, s) \<leftarrow> linkGetByte s; stream_hunt l b s }
          }
        }
      })"
  by pat_completeness auto
termination
  by (relation "measure (\<lambda>(l, b, s). length (inb s))")
    (auto dest!: linkGetByte_shrinks linkGetWord_shrinks [of SIO1, simplified] skip_zeros_shrinks)

declare stream_hunt.simps [simp del]

fun atcons_hunt :: "u16 list \<Rightarrow> u16 list option" where
  "atcons_hunt [] = None"
| "atcons_hunt (w # ws) = (if w = FRAME_SYNC then Some ws else atcons_hunt ws)"

definition transportRecvBegin :: "link \<Rightarrow> wire \<Rightarrow> (u16 \<times> u16 \<times> wire) option" where
  "transportRecvBegin l s =
     (if is_stream l then do {
        (b, s) \<leftarrow> linkGetByte (linkRxOpen l s);
        (t, n, s) \<leftarrow> stream_hunt l b s;
        Some (t, n, rx_sum n (rx_sum t (s\<lparr>rxS1 := 0, rxS2 := 0\<rparr>)))
      } else do {
        ws \<leftarrow> atcons_hunt (inw s);
        (t, s) \<leftarrow> linkGetWord l (s\<lparr>inw := ws, rxS1 := 0, rxS2 := 0\<rparr>);
        (n, s) \<leftarrow> linkGetWord l (rx_sum t s);
        Some (t, n, rx_sum n s)
      })"

definition transportRecvWord :: "link \<Rightarrow> wire \<Rightarrow> (u16 \<times> wire) option" where
  "transportRecvWord l s = do { (w, s) \<leftarrow> linkGetWord l s; Some (w, rx_sum w s) }"

fun recv_words :: "link \<Rightarrow> nat \<Rightarrow> wire \<Rightarrow> (u16 list \<times> wire) option" where
  "recv_words l 0 s = Some ([], s)"
| "recv_words l (Suc n) s = do { (w, s) \<leftarrow> transportRecvWord l s; (ws, s) \<leftarrow> recv_words l n s; Some (w # ws, s) }"

definition transportRecvEnd :: "link \<Rightarrow> wire \<Rightarrow> (rc \<times> wire) option" where
  "transportRecvEnd l s = do {
     (lo, s) \<leftarrow> linkGetWord l s;
     (hi, s) \<leftarrow> linkGetWord l s;
     let rxck = ucast lo OR push_bit 16 (ucast hi);
     let s = linkRxClose l s;
     Some (if \<not> is_stream l \<and> rxck = CKSUM_NONE then TRANSPORT_OK
           else if rxck = fletcherFinish (rxS1 s) (rxS2 s) then TRANSPORT_OK else TRANSPORT_ECKSUM, s)
   }"

definition transportRecvFrame :: "link \<Rightarrow> u16 \<Rightarrow> wire \<Rightarrow> (rc \<times> (u16 \<times> u16 list) option \<times> wire) option" where
  "transportRecvFrame l maxLen s = do {
     (t, len, s) \<leftarrow> transportRecvBegin l s;
     (payload, s) \<leftarrow> recv_words l (unat len) s;
     (r, s) \<leftarrow> transportRecvEnd l s;
     Some (if len > maxLen then (TRANSPORT_EBADLEN, None, s) else if r \<noteq> TRANSPORT_OK then (r, None, s)
           else (TRANSPORT_OK, Some (t, payload), s))
   }"

text \<open>
  Payload words into memory, low byte first, as many bytes as asked for. As in sending, the loop over whole words
  compares pointers.
\<close>

definition store_word :: "u16 \<Rightarrow> u32 \<Rightarrow> (u32 \<Rightarrow> u8) \<Rightarrow> u32 \<Rightarrow> u8" where
  "store_word w a m = m(a := ucast w, a + 1 := ucast (drop_bit 8 w))"

fun recv_pairs :: "link \<Rightarrow> nat \<Rightarrow> u32 \<Rightarrow> (u32 \<Rightarrow> u8) \<Rightarrow> wire \<Rightarrow> ((u32 \<Rightarrow> u8) \<times> wire) option" where
  "recv_pairs l 0 dst m s = Some (m, s)"
| "recv_pairs l (Suc n) dst m s = do { (w, s) \<leftarrow> transportRecvWord l s; recv_pairs l n (dst + 2) (store_word w dst m) s }"

fun recv_tail :: "link \<Rightarrow> u32 \<Rightarrow> nat \<Rightarrow> u32 \<Rightarrow> u32 \<Rightarrow> (u32 \<Rightarrow> u8) \<Rightarrow> wire \<Rightarrow> ((u32 \<Rightarrow> u8) \<times> wire) option" where
  "recv_tail l nbytes 0 i dst m s = Some (m, s)"
| "recv_tail l nbytes (Suc n) i dst m s = do {
     (w, s) \<leftarrow> transportRecvWord l s;
     if i * 2 < nbytes then recv_tail l nbytes n (i + 1) (dst + 1) (m(dst := ucast w)) s
     else recv_tail l nbytes n (i + 1) dst m s
   }"

definition transportRecvBytes :: "link \<Rightarrow> u32 \<Rightarrow> u32 \<Rightarrow> u32 \<Rightarrow> (u32 \<Rightarrow> u8) \<Rightarrow> wire \<Rightarrow> ((u32 \<Rightarrow> u8) \<times> wire) option" where
  "transportRecvBytes l dst nbytes words m s =
     (let full = min (drop_bit 1 nbytes) words;
          end_ptr = dst + full * 2;
          pairs = (if dst < end_ptr then unat full else 0)
      in do {
        (m, s) \<leftarrow> recv_pairs l pairs dst m s;
        recv_tail l nbytes (unat (words - full)) full (dst + 2 * of_nat pairs) m s
      })"

section \<open>The host's stop request, and the line rate\<close>

definition MONITOR_STOP_QUIET_SPINS :: nat where "MONITOR_STOP_QUIET_SPINS = 20000"
definition MONITOR_RATE_WINDOW_SPINS :: nat where "MONITOR_RATE_WINDOW_SPINS = 3000000"

abbreviation polls_left :: "wire \<Rightarrow> nat" where
  "polls_left s \<equiv> sum_list (map (Suc \<circ> fst) (inb s))"

lemma linkTryGetByte_cases:
  "linkTryGetByte s = (x, t) \<Longrightarrow> polls_left t < polls_left s \<or> (x = None \<and> inb s = [] \<and> t = s)"
  by (auto simp: linkTryGetByte_def split: list.splits nat.splits)

function drain :: "bool \<Rightarrow> nat \<Rightarrow> u8 \<Rightarrow> wire \<Rightarrow> bool \<times> wire" where
  "drain stop quiet b s =
     (let (stop, s) = (if quiet = 0 then if b = 0 then (True, s) else if \<not> stop then (stop, s\<lparr>dropped := dropped s + 1\<rparr>) else (stop, s)
                       else (stop, s));
          (x, s) = linkTryGetByte s;
          (quiet, b) = (case x of Some b \<Rightarrow> (0, b) | None \<Rightarrow> (quiet + 1, b))
      in if quiet < MONITOR_STOP_QUIET_SPINS then drain stop quiet b s else (stop, s))"
  by pat_completeness auto
termination
proof (relation "measures [\<lambda>(stop, quiet, b, s). polls_left s, \<lambda>(stop, quiet, b, s). MONITOR_STOP_QUIET_SPINS - quiet]", goal_cases)
  case (2 stop quiet b s p stop' s' q x t r quiet' b')
  have "polls_left s' = polls_left s" "inb s' = inb s" using 2(1,2) by (auto split: if_splits)
  then show ?case using 2 linkTryGetByte_cases [of s' x t] by (auto split: option.splits)
qed simp

declare drain.simps [simp del]

definition transportStopPending :: "link \<Rightarrow> wire \<Rightarrow> bool \<times> wire" where
  "transportStopPending l s =
     (if \<not> is_stream l then (False, s)
      else case linkTryGetByte s of
        (None, s) \<Rightarrow> (False, s)
      | (Some b, s) \<Rightarrow> (case drain False 0 b (linkRxOpen l s) of (stop, s) \<Rightarrow> (stop, linkRxClose l s)))"

definition s_pingFrame :: bytes where
  "s_pingFrame = [0x00, 0xaa, 0x55, 0x01, 0x00, 0x00, 0x00, 0x01, 0x00, 0x02, 0x00]"

definition s_confirmFrame :: bytes where
  "s_confirmFrame = [0x00, 0xaa, 0x55, 0x01, 0x00, 0x01, 0x00, 0x01, 0x00, 0x03, 0x00, 0x06, 0x00]"

definition transportHasRate :: "link \<Rightarrow> bool" where
  "transportHasRate l \<longleftrightarrow> l = SIO1"

text \<open>The wait for an exact frame, one poll at a time.\<close>

fun await_spins :: "nat \<Rightarrow> bytes \<Rightarrow> nat \<Rightarrow> wire \<Rightarrow> bool \<times> wire" where
  "await_spins 0 f matched s = (False, s)"
| "await_spins (Suc n) f matched s =
     (case linkTryGetByte s of
        (None, s) \<Rightarrow> await_spins n f matched s
      | (Some b, s) \<Rightarrow>
          if b = f ! matched
          then if matched + 1 = length f then (True, s) else await_spins n f (matched + 1) s
          else await_spins n f (if b = f ! 0 then 1 else 0) s)"

definition awaitFrame :: "bytes \<Rightarrow> wire \<Rightarrow> bool \<times> wire" where
  "awaitFrame f s =
     (case await_spins MONITOR_RATE_WINDOW_SPINS f 0 (linkRxOpen SIO1 s) of (ok, s) \<Rightarrow> (ok, linkRxClose SIO1 s))"

text \<open>The answer is \<open>None\<close> where the code returns -1, on a link without a rate.\<close>

definition transportTryRate :: "link \<Rightarrow> u16 \<Rightarrow> u16 \<Rightarrow> u16 \<Rightarrow> wire \<Rightarrow> bool option \<times> wire" where
  "transportTryRate l reload pongType pongWord s =
     (if \<not> transportHasRate l then (None, s)
      else
        let old = linkGetRate s; s = linkSetRate reload s
        in case awaitFrame s_pingFrame s of
             (False, s) \<Rightarrow> (Some False, linkSetRate old s)
           | (True, s) \<Rightarrow>
               (case awaitFrame s_confirmFrame (transportSendFrame l pongType [pongWord] s) of
                  (False, s) \<Rightarrow> (Some False, linkSetRate old s)
                | (True, s) \<Rightarrow> (Some True, s)))"

end
