(* ===== verification/Frame_Layer.thy ===== *)
theory Frame_Layer
  imports Monitor_Transport
begin

text \<open>
  The frame layer of the monitor: what one side sends the other receives, whatever console text comes before it
  and however the bytes are spaced, and a frame with one damaged word is refused. Both links are brought to one
  view, the words that wait to be read.
\<close>

section \<open>Words on the wire\<close>

definition lo_hi :: "u16 \<Rightarrow> bytes" where
  "lo_hi w = [ucast (w AND 0xff), ucast (drop_bit 8 w)]"

fun pair_words :: "bytes \<Rightarrow> u16 list" where
  "pair_words (lo # hi # bs) = (ucast lo OR push_bit 8 (ucast hi)) # pair_words bs"
| "pair_words bs = []"

definition words_in :: "link \<Rightarrow> wire \<Rightarrow> u16 list" where
  "words_in l s = (if is_stream l then pair_words (map snd (inb s)) else inw s)"

definition advance :: "link \<Rightarrow> nat \<Rightarrow> wire \<Rightarrow> wire" where
  "advance l n s = (if is_stream l then s\<lparr>inb := drop (2 * n) (inb s)\<rparr> else s\<lparr>inw := drop n (inw s)\<rparr>)"

lemma word_of_lo_hi: "(ucast (ucast (w AND 0xff) :: u8) :: u16) OR push_bit 8 (ucast (ucast (drop_bit 8 w) :: u8)) = w"
proof -
  have m: "(0xff :: u16) = mask 8" by (simp add: mask_eq_exp_minus_1)
  show ?thesis unfolding m by (rule bit_word_eqI) (auto simp: bit_simps)
qed

lemma pair_words_lo_hi [simp]: "pair_words (concat (map lo_hi ws) @ bs) = ws @ pair_words bs"
  by (induction ws) (simp_all add: lo_hi_def word_of_lo_hi)

lemma length_lo_hi [simp]: "length (concat (map lo_hi ws)) = 2 * length ws"
  by (induction ws) (simp_all add: lo_hi_def)

lemma pair_words_drop: "pair_words (drop (2 * n) bs) = drop n (pair_words bs)"
proof (induction n arbitrary: bs)
  case (Suc n)
  then show ?case by (cases bs rule: pair_words.cases) simp_all
qed simp

lemma words_in_advance [simp]: "words_in l (advance l n s) = drop n (words_in l s)"
  by (simp add: words_in_def advance_def drop_map [symmetric] pair_words_drop)

lemma advance_0 [simp]: "advance l 0 s = s" by (simp add: advance_def)

lemma advance_advance [simp]: "advance l m (advance l n s) = advance l (n + m) s"
  by (simp add: advance_def add.commute)

lemma rx_sum_frame [simp]:
  "words_in l (rx_sum w s) = words_in l s" "rx_sum w (advance l n s) = advance l n (rx_sum w s)"
  "inb (rx_sum w s) = inb s" "inw (rx_sum w s) = inw s"
  by (simp_all add: rx_sum_def words_in_def advance_def Let_def)

lemma rx_sums_frame [simp]:
  "words_in l (fold rx_sum ws s) = words_in l s" "fold rx_sum ws (advance l n s) = advance l n (fold rx_sum ws s)"
  "inb (fold rx_sum ws s) = inb s" "inw (fold rx_sum ws s) = inw s"
  by (induction ws arbitrary: s) simp_all

lemma linkGetWord_eq:
  "linkGetWord l s = (case words_in l s of [] \<Rightarrow> None | w # ws \<Rightarrow> Some (w, advance l 1 s))"
proof (cases "is_stream l")
  case True
  then show ?thesis
    by (cases "map snd (inb s)" rule: pair_words.cases)
      (auto simp: linkGetWord_def linkGetByte_def words_in_def advance_def split: list.splits)
qed (auto simp: linkGetWord_def words_in_def advance_def drop_Suc split: list.splits)

lemma recv_words_eq:
  "recv_words l n s =
     (if n \<le> length (words_in l s)
      then Some (take n (words_in l s), advance l n (fold rx_sum (take n (words_in l s)) s)) else None)"
proof (induction n arbitrary: s)
  case (Suc n)
  show ?case
    by (cases "words_in l s") (auto simp: transportRecvWord_def linkGetWord_eq Suc.IH split: option.splits)
qed simp

section \<open>Checksums\<close>

definition sums :: "u16 list \<Rightarrow> u32 \<times> u32 \<Rightarrow> u32 \<times> u32" where
  "sums ws ab = fold (\<lambda>w (a, b). (a + ucast w, b + (a + ucast w))) ws ab"

definition checksum :: "u16 list \<Rightarrow> u32" where
  "checksum ws = fletcherFinish (fst (sums ws (0, 0))) (snd (sums ws (0, 0)))"

lemma rx_sums: "(rxS1 (fold rx_sum ws s), rxS2 (fold rx_sum ws s)) = sums ws (rxS1 s, rxS2 s)"
  unfolding sums_def by (induction ws arbitrary: s) (simp_all add: rx_sum_def Let_def)

lemma checksum_rx:
  "rxS1 s = 0 \<Longrightarrow> rxS2 s = 0 \<Longrightarrow> fletcherFinish (rxS1 (fold rx_sum ws s)) (rxS2 (fold rx_sum ws s)) = checksum ws"
  using rx_sums [of ws s] by (simp add: checksum_def) (metis fst_conv snd_conv)

lemma checksum_words:
  "(ucast (ucast (ck AND 0xffff) :: u16) :: u32) OR push_bit 16 (ucast (ucast (drop_bit 16 ck AND 0xffff) :: u16)) = ck"
proof -
  have m: "(0xffff :: u32) = mask 16" by (simp add: mask_eq_exp_minus_1)
  show ?thesis unfolding m by (rule bit_word_eqI) (auto simp: bit_simps)
qed

section \<open>Sending\<close>

text \<open>What has gone out, one number per byte on a byte link and one per word on the word channel.\<close>

definition raw_out :: "link \<Rightarrow> wire \<Rightarrow> u16 list" where
  "raw_out l s = (if is_stream l then map ucast (outb s) else outw s)"

definition raw_words :: "link \<Rightarrow> u16 list \<Rightarrow> u16 list" where
  "raw_words l ws = (if is_stream l then map ucast (concat (map lo_hi ws)) else ws)"

definition frame_body :: "u16 \<Rightarrow> u16 list \<Rightarrow> u16 list" where
  "frame_body ty payload = ty # of_nat (length payload) # payload"

definition ck_words :: "u32 \<Rightarrow> u16 list" where
  "ck_words ck = [ucast (ck AND 0xffff), ucast (drop_bit 16 ck AND 0xffff)]"

definition frame_words :: "u16 \<Rightarrow> u16 list \<Rightarrow> u16 list" where
  "frame_words ty payload = frame_body ty payload @ ck_words (checksum (frame_body ty payload))"

definition frame_start :: "link \<Rightarrow> u16" where
  "frame_start l = (if is_stream l then 0 else FRAME_SYNC)"

lemma raw_words_append: "raw_words l (xs @ ys) = raw_words l xs @ raw_words l ys"
  by (simp add: raw_words_def)

lemma linkPutWord_raw: "raw_out l (linkPutWord l w s) = raw_out l s @ raw_words l [w]"
  by (simp add: raw_out_def raw_words_def linkPutWord_def linkPutByte_def lo_hi_def)

lemma linkPutWord_tx [simp]: "txS1 (linkPutWord l w s) = txS1 s" "txS2 (linkPutWord l w s) = txS2 s"
  by (simp_all add: linkPutWord_def linkPutByte_def)

lemma raw_out_tx [simp]: "raw_out l (txS1_update f s) = raw_out l s" "raw_out l (txS2_update f s) = raw_out l s"
  by (simp_all add: raw_out_def)

lemma send_words:
  "raw_out l (fold (transportSendWord l) ws s) = raw_out l s @ raw_words l ws \<and>
   (txS1 (fold (transportSendWord l) ws s), txS2 (fold (transportSendWord l) ws s)) = sums ws (txS1 s, txS2 s)"
proof (induction ws arbitrary: s)
  case (Cons w ws)
  show ?case
    using Cons.IH [of "transportSendWord l w s"] raw_words_append [of l "[w]" ws]
    by (simp add: transportSendWord_def Let_def linkPutWord_raw sums_def)
qed (simp add: raw_words_def sums_def)

lemma sendEnd_raw: "raw_out l (transportSendEnd l s) = raw_out l s @ raw_words l (ck_words (fletcherFinish (txS1 s) (txS2 s)))"
  by (simp add: transportSendEnd_def Let_def linkPutWord_raw ck_words_def flip: raw_words_append)

lemma sent_frame:
  "raw_out l (transportSendFrame l ty payload s) =
     raw_out l s @ (if is_stream l then [0] else []) @ raw_words l (FRAME_SYNC # frame_words ty payload)"
proof -
  define s0 where "s0 = linkPutWord l FRAME_SYNC (if is_stream l then linkPutByte 0 (s\<lparr>txS1 := 0, txS2 := 0\<rparr>) else s\<lparr>txS1 := 0, txS2 := 0\<rparr>)"
  define A where "A = fold (transportSendWord l) (frame_body ty payload) s0"
  have frame: "transportSendFrame l ty payload s = transportSendEnd l A"
    by (simp add: transportSendFrame_def transportSendBegin_def frame_body_def Let_def A_def s0_def)
  have "raw_out l s0 = raw_out l s @ (if is_stream l then [0] else []) @ raw_words l [FRAME_SYNC]"
    unfolding s0_def linkPutWord_raw by (simp add: raw_out_def linkPutByte_def)
  moreover have z: "txS1 s0 = 0" "txS2 s0 = 0" by (simp_all add: s0_def linkPutByte_def)
  ultimately have raw: "raw_out l A = raw_out l s @ (if is_stream l then [0] else []) @ raw_words l [FRAME_SYNC] @ raw_words l (frame_body ty payload)"
    using send_words [of l "frame_body ty payload" s0] by (simp add: A_def)
  have "(txS1 A, txS2 A) = sums (frame_body ty payload) (0, 0)"
    using send_words [of l "frame_body ty payload" s0] z by (simp add: A_def)
  then have "fletcherFinish (txS1 A) (txS2 A) = checksum (frame_body ty payload)"
    unfolding checksum_def by (metis fst_conv snd_conv)
  then show ?thesis
    by (simp add: frame sendEnd_raw raw frame_words_def flip: raw_words_append)
qed

section \<open>Receiving\<close>

definition raw_in :: "link \<Rightarrow> wire \<Rightarrow> u16 list" where
  "raw_in l s = (if is_stream l then map (ucast \<circ> snd) (inb s) else inw s)"

text \<open>A frame on the wire, with any words in it.\<close>

definition frame_units :: "link \<Rightarrow> u16 list \<Rightarrow> u16 list" where
  "frame_units l ws = (if is_stream l then [0] else []) @ raw_words l (FRAME_SYNC # ws)"

lemma lo_hi_sync: "lo_hi FRAME_SYNC = [0xAA, 0x55]"
  by (simp add: lo_hi_def FRAME_SYNC_def)

lemma sync_bytes: "ucast (FRAME_SYNC AND 0xff) = (0xAA :: u8)" "ucast (drop_bit 8 FRAME_SYNC) = (0x55 :: u8)"
  by (simp_all add: FRAME_SYNC_def)

lemma skip_zeros_step:
  "inb s = (k, b) # p \<Longrightarrow> skip_zeros s = (if b = 0 then skip_zeros (s\<lparr>inb := p\<rparr>) else Some (b, s\<lparr>inb := p\<rparr>))"
  by (subst skip_zeros.simps) (simp add: linkGetByte_def)

lemma hunt_finds:
  assumes "b # map snd (inb s) = noise @ 0 # lo_hi FRAME_SYNC @ concat (map lo_hi [t, n]) @ bs" "0 \<notin> set noise"
    "unat n \<le> TRANSPORT_STREAM_MAX_LEN"
  shows "\<exists>s'. stream_hunt l b s = Some (t, n, s') \<and> map snd (inb s') = bs"
  using assms(1,2)
proof (induction noise arbitrary: b s)
  case Nil
  then obtain k1 k2 p where p: "inb s = (k1, 0xAA) # (k2, 0x55) # p" "b = 0" "map snd p = concat (map lo_hi [t, n]) @ bs"
    by (auto simp: lo_hi_sync Cons_eq_map_conv map_eq_Cons_conv)
  let ?s = "s\<lparr>inb := p\<rparr>"
  have w: "words_in SIO1 ?s = t # n # pair_words bs"
    using pair_words_lo_hi [of "[t, n]" bs] by (simp add: words_in_def p)
  have "map snd (inb (advance SIO1 (Suc (Suc 0)) ?s)) = bs" using p(3) by (simp add: advance_def lo_hi_def flip: drop_map)
  moreover have "stream_hunt l b s = Some (t, n, advance SIO1 (Suc (Suc 0)) ?s)"
    using assms(3) w words_in_advance [of SIO1 1 ?s]
    by (subst stream_hunt.simps)
      (simp add: p(1,2) skip_zeros_step sync_bytes linkGetByte_def linkGetWord_eq)
  ultimately show ?case by blast
next
  case (Cons c noise)
  then have "b \<noteq> 0" by auto
  then obtain k b' p where p: "inb s = (k, b') # p" using Cons.prems(1) by (cases "inb s"; cases noise) auto
  let ?s = "s\<lparr>dropped := dropped s + 1, inb := p\<rparr>"
  have "stream_hunt l b s = stream_hunt l b' ?s"
    using \<open>b \<noteq> 0\<close> by (subst stream_hunt.simps) (simp add: linkGetByte_def p)
  then show ?case using Cons.IH [of b' ?s] Cons.prems by (simp add: p)
qed

lemma atcons_finds: "FRAME_SYNC \<notin> set noise \<Longrightarrow> atcons_hunt (noise @ FRAME_SYNC # ws) = Some ws"
  by (induction noise) auto

lemma raw_words_ucast: "is_stream l \<Longrightarrow> raw_words l ws = map ucast (concat (map lo_hi ws))"
  by (simp add: raw_words_def)

lemma ucast_byte_inj: "inj (ucast :: u8 \<Rightarrow> u16)"
  by (rule injI) (metis unat_ucast_up(2) word_unat_eq_iff)

lemma ucast_byte_0: "(ucast (b :: u8) :: u16) = 0 \<longleftrightarrow> b = 0"
  by (metis inj_eq [OF ucast_byte_inj] ucast_0)

lemma map_split2: "map f xs = a @ b \<Longrightarrow> \<exists>fs rs. xs = fs @ rs \<and> map f fs = a \<and> map f rs = b"
  by (auto simp: map_eq_append_conv)

lemma map_split3:
  "map f xs = a @ b @ c \<Longrightarrow> \<exists>ns fs rs. xs = ns @ fs @ rs \<and> map f ns = a \<and> map f fs = b \<and> map f rs = c"
  by (metis map_eq_append_conv)

lemma receive_begin:
  assumes "raw_in l r = noise @ frame_units l (t # n # ws) @ rest" "frame_start l \<notin> set noise"
    "is_stream l \<Longrightarrow> unat n \<le> TRANSPORT_STREAM_MAX_LEN"
  shows "\<exists>s0. transportRecvBegin l r = Some (t, n, rx_sum n (rx_sum t s0)) \<and> rxS1 s0 = 0 \<and> rxS2 s0 = 0 \<and>
    raw_in l s0 = raw_words l ws @ rest"
proof (cases "is_stream l")
  case True
  let ?f = "0 # lo_hi FRAME_SYNC @ concat (map lo_hi [t, n])"
  have "map ucast (map snd (inb r)) = noise @ map (ucast :: u8 \<Rightarrow> u16) (?f @ concat (map lo_hi ws)) @ rest"
    using assms(1) True by (simp add: raw_in_def frame_units_def raw_words_def)
  then obtain ns fs rs where m: "map snd (inb r) = ns @ fs @ rs" "map ucast ns = noise"
      "map (ucast :: u8 \<Rightarrow> u16) fs = map ucast (?f @ concat (map lo_hi ws))" "map ucast rs = rest"
    using map_split3 [of ucast "map snd (inb r)" noise] by metis
  have f: "fs = ?f @ concat (map lo_hi ws)" using m(3) inj_map_eq_map [OF ucast_byte_inj] by blast
  have ns: "0 \<notin> set ns" using assms(2) m(2) True by (auto simp: frame_start_def ucast_byte_0)
  obtain b k p where p: "inb r = (k, b) # p" using m(1) f by (cases "inb r") auto
  let ?s = "(linkRxOpen l r)\<lparr>inb := p\<rparr>"
  have "b # map snd (inb ?s) = ns @ 0 # lo_hi FRAME_SYNC @ concat (map lo_hi [t, n]) @ concat (map lo_hi ws) @ rs"
    using m(1) f p by simp
  from hunt_finds [OF this ns assms(3) [OF True]] obtain s' where
    s': "stream_hunt l b ?s = Some (t, n, s')" "map snd (inb s') = concat (map lo_hi ws) @ rs" by blast
  have "linkGetByte (linkRxOpen l r) = Some (b, ?s)" using p by (simp add: linkGetByte_def linkRxOpen_def)
  then show ?thesis
    using True s' m(4) by (intro exI [of _ "s'\<lparr>rxS1 := 0, rxS2 := 0\<rparr>"])
      (simp add: transportRecvBegin_def raw_in_def raw_words_def flip: map_map)
next
  case False
  then have "atcons_hunt (inw r) = Some (t # n # ws @ rest)"
    using assms(1,2) atcons_finds [of noise "t # n # ws @ rest"]
    by (simp add: raw_in_def frame_units_def raw_words_def frame_start_def)
  moreover have "rx_sum t (advance l 1 s) = advance l 1 (rx_sum t s)" for s by simp
  ultimately show ?thesis
    using False by (intro exI [of _ "advance l 2 (r\<lparr>inw := t # n # ws @ rest, rxS1 := 0, rxS2 := 0\<rparr>)"])
      (simp add: transportRecvBegin_def linkGetWord_eq words_in_def raw_in_def raw_words_def advance_def rx_sum_def Let_def)
qed

lemma raw_in_words: "raw_in l s = raw_words l ws @ rest \<Longrightarrow> \<exists>more. words_in l s = ws @ more \<and> raw_in l (advance l (length ws) s) = rest"
proof (cases "is_stream l")
  case True
  assume a: "raw_in l s = raw_words l ws @ rest"
  have "map ucast (map snd (inb s)) = map (ucast :: u8 \<Rightarrow> u16) (concat (map lo_hi ws)) @ rest"
    using a True by (simp add: raw_in_def raw_words_def)
  then obtain fs rs where m: "map snd (inb s) = fs @ rs" "map (ucast :: u8 \<Rightarrow> u16) fs = map ucast (concat (map lo_hi ws))" "map ucast rs = rest"
    using map_split2 [of ucast "map snd (inb s)"] by blast
  have f: "fs = concat (map lo_hi ws)" using m(2) inj_map_eq_map [OF ucast_byte_inj] by blast
  have "words_in l s = ws @ pair_words rs" using True m(1) f by (simp add: words_in_def)
  moreover have "map snd (drop (2 * length ws) (inb s)) = rs" using m(1) f by (simp flip: drop_map)
  then have "raw_in l (advance l (length ws) s) = rest" using True m(3) by (simp add: raw_in_def advance_def flip: map_map)
  ultimately show ?thesis by blast
qed (simp add: words_in_def raw_in_def raw_words_def advance_def)

lemma raw_in_advance [simp]: "raw_in l (advance l n s) = drop (if is_stream l then 2 * n else n) (raw_in l s)"
  by (simp add: raw_in_def advance_def drop_map)

lemma raw_in_close [simp]: "raw_in l (linkRxClose l s) = raw_in l s"
  by (simp add: linkRxClose_def raw_in_def)

lemma raw_in_sum [simp]: "raw_in l (rx_sum w s) = raw_in l s" "raw_in l (fold rx_sum ws s) = raw_in l s"
  by (simp_all add: raw_in_def)

lemma rx_close_sums [simp]: "rxS1 (linkRxClose l s) = rxS1 s" "rxS2 (linkRxClose l s) = rxS2 s"
  by (simp_all add: linkRxClose_def)

lemma advance_sums [simp]: "rxS1 (advance l n s) = rxS1 s" "rxS2 (advance l n s) = rxS2 s"
  by (simp_all add: advance_def)

text \<open>The answer to a frame that arrives whole, whatever its words are.\<close>

definition frame_answer :: "link \<Rightarrow> u16 \<Rightarrow> u16 \<Rightarrow> u16 list \<Rightarrow> u32 \<Rightarrow> u16 \<Rightarrow> rc \<times> (u16 \<times> u16 list) option" where
  "frame_answer l t n payload ck maxLen =
     (if n > maxLen then (TRANSPORT_EBADLEN, None)
      else if (\<not> is_stream l \<and> ck = 0) \<or> ck = checksum (t # n # payload) then (TRANSPORT_OK, Some (t, payload))
      else (TRANSPORT_ECKSUM, None))"

lemma frame_heard:
  assumes "raw_in l r = noise @ frame_units l (t # n # payload @ ck_words ck) @ rest" "frame_start l \<notin> set noise"
    "is_stream l \<Longrightarrow> unat n \<le> TRANSPORT_STREAM_MAX_LEN" "unat n = length payload"
  shows "\<exists>r'. transportRecvFrame l maxLen r =
      Some (fst (frame_answer l t n payload ck maxLen), snd (frame_answer l t n payload ck maxLen), r') \<and> raw_in l r' = rest"
proof -
  obtain s0 where b: "transportRecvBegin l r = Some (t, n, rx_sum n (rx_sum t s0))" "rxS1 s0 = 0" "rxS2 s0 = 0"
      "raw_in l s0 = raw_words l (payload @ ck_words ck) @ rest"
    using receive_begin [OF assms(1-3)] by blast
  let ?s1 = "rx_sum n (rx_sum t s0)"
  obtain more where m: "words_in l ?s1 = payload @ ck_words ck @ more"
      "raw_in l (advance l (length (payload @ ck_words ck)) ?s1) = rest"
    using raw_in_words [of l ?s1 "payload @ ck_words ck" rest] b(4) by auto
  let ?s2 = "advance l (length payload) (fold rx_sum (t # n # payload) s0)"
  have "recv_words l (unat n) ?s1 = Some (payload, ?s2)"
    using assms(4) m(1) by (simp add: recv_words_eq)
  moreover have "words_in l ?s2 = ck_words ck @ more" using m(1) by simp
  then have "transportRecvEnd l ?s2 =
      Some (if \<not> is_stream l \<and> ck = 0 then TRANSPORT_OK
            else if ck = fletcherFinish (rxS1 ?s2) (rxS2 ?s2) then TRANSPORT_OK else TRANSPORT_ECKSUM,
            linkRxClose l (advance l 2 ?s2))"
    by (simp add: transportRecvEnd_def linkGetWord_eq ck_words_def checksum_words CKSUM_NONE_def numeral_2_eq_2 Let_def
        del: advance_advance) (simp add: numeral_2_eq_2)
  moreover have "fletcherFinish (rxS1 ?s2) (rxS2 ?s2) = checksum (t # n # payload)"
    using checksum_rx [OF b(2,3), of "t # n # payload"] by simp
  moreover have "raw_in l (linkRxClose l (advance l 2 ?s2)) = rest" using m(2) by (simp add: ck_words_def)
  ultimately show ?thesis
    by (simp add: transportRecvFrame_def b(1) frame_answer_def)
qed

section \<open>A damaged word\<close>

lemma sums_fst: "unat (fst (sums ws (a, b))) = (unat a + sum_list (map unat ws)) mod 2 ^ 32"
proof (induction ws arbitrary: a b)
  case (Cons w ws)
  have "unat (a + ucast w :: u32) = (unat a + unat w) mod 2 ^ 32" by (simp add: unat_word_ariths unat_ucast_up)
  then show ?case using Cons.IH [of "a + ucast w"] by (simp add: sums_def mod_simps add.assoc)
qed (simp add: sums_def)

lemma sum_words_bound: "length (ws :: u16 list) \<le> 65537 \<Longrightarrow> sum_list (map unat ws) < 4294967296"
proof -
  have "sum_list (map unat ws) \<le> length ws * 65535" for ws :: "u16 list"
  proof (induction ws)
    case (Cons w ws)
    moreover have "unat w \<le> 65535" using unat_u16_less [of w] by linarith
    ultimately show ?case by simp
  qed simp
  from this [of ws] show "length ws \<le> 65537 \<Longrightarrow> ?thesis" by linarith
qed

lemma fletcher_low: "unat (fletcherFinish a b) mod 65536 \<in> {unat a mod 65535, 65535}"
  "unat (fletcherFinish a b) mod 65536 = 65535 \<Longrightarrow> unat a mod 65535 = 0"
proof -
  have r: "unat (x mod 65535) = unat x mod 65535" for x :: u32 by (simp add: unat_mod_distrib)
  have low: "take_bit 16 (push_bit 16 (b mod 65535) OR (a mod 65535)) = a mod 65535"
  proof -
    have "take_bit 16 (a mod 65535) = a mod 65535"
      using r [of a] by (simp add: word_unat_eq_iff unat_take_bit)
    then show ?thesis by (simp add: take_bit_push_bit)
  qed
  then have "unat (push_bit 16 (b mod 65535) OR (a mod 65535)) mod 65536 = unat a mod 65535"
    using unat_take_bit [of 16 "push_bit 16 (b mod 65535) OR (a mod 65535)"] r [of a] by simp
  moreover have "push_bit 16 (b mod 65535) OR (a mod 65535) = 0 \<Longrightarrow> unat a mod 65535 = 0"
    using low r [of a] by (metis take_bit_of_0 unat_0)
  ultimately show "unat (fletcherFinish a b) mod 65536 \<in> {unat a mod 65535, 65535}"
    "unat (fletcherFinish a b) mod 65536 = 65535 \<Longrightarrow> unat a mod 65535 = 0"
    by (auto simp: fletcherFinish_def Let_def CKSUM_NONE_def split: if_splits)
qed

lemma mod_cancel: "(a + u + c) mod m = (a + v + c) mod m \<Longrightarrow> u mod m = v mod (m :: nat)"
proof -
  assume "(a + u + c) mod m = (a + v + c) mod m"
  then have "int (a + u + c) mod int m = int (a + v + c) mod int m" by (metis zmod_int)
  then have "int m dvd int u - int v" by (simp add: mod_eq_dvd_iff)
  then have "int u mod int m = int v mod int m" by (simp add: mod_eq_dvd_iff)
  then show "u mod m = v mod m" by (metis zmod_int of_nat_eq_iff)
qed

lemma checksum_detects:
  assumes "length (xs @ w # ys) \<le> 65537" "unat w mod 65535 \<noteq> unat w' mod 65535"
  shows "checksum (xs @ w # ys) \<noteq> checksum (xs @ w' # ys)"
proof
  assume eq: "checksum (xs @ w # ys) = checksum (xs @ w' # ys)"
  have s: "unat (fst (sums (xs @ v # ys) (0, 0))) = sum_list (map unat xs) + unat v + sum_list (map unat ys)" for v
    using sums_fst [of "xs @ v # ys" 0 0] sum_words_bound [of "xs @ v # ys"] assms(1) by simp
  let ?a = "fst (sums (xs @ w # ys) (0, 0))" and ?b = "fst (sums (xs @ w' # ys) (0, 0))"
  have "unat ?a mod 65535 = unat ?b mod 65535"
    using fletcher_low [of ?a "snd (sums (xs @ w # ys) (0, 0))"] fletcher_low [of ?b "snd (sums (xs @ w' # ys) (0, 0))"] eq
    unfolding checksum_def by auto
  then have "(sum_list (map unat xs) + unat w + sum_list (map unat ys)) mod 65535 =
      (sum_list (map unat xs) + unat w' + sum_list (map unat ys)) mod 65535" by (simp add: s)
  then show False using assms(2) mod_cancel by blast
qed

lemma checksum_nonzero: "checksum ws \<noteq> 0"
  by (simp add: checksum_def fletcherFinish_def Let_def CKSUM_NONE_def)

section \<open>What the layer promises\<close>

lemma sent_units:
  "drop (length (raw_out l s)) (raw_out l (transportSendFrame l ty payload s)) = frame_units l (frame_words ty payload)"
  by (simp add: sent_frame frame_units_def)

text \<open>
  C20: A frame that is sent is received. On every link, after any console text or noise in which no frame starts, the
  receiver gets the type and the payload that were sent, and is left at the first byte after the frame.
\<close>

theorem frame_roundtrip:
  assumes "raw_in l r = noise @ drop (length (raw_out l s)) (raw_out l (transportSendFrame l ty payload s)) @ rest"
    "frame_start l \<notin> set noise" "length payload \<le> unat maxLen"
    "is_stream l \<Longrightarrow> length payload \<le> TRANSPORT_STREAM_MAX_LEN"
  shows "\<exists>r'. transportRecvFrame l maxLen r = Some (TRANSPORT_OK, Some (ty, payload), r') \<and> raw_in l r' = rest"
proof -
  have n: "unat (of_nat (length payload) :: u16) = length payload"
    using le_less_trans [OF assms(3) unat_u16_less] by (simp add: unsigned_of_nat take_bit_nat_eq_self_iff)
  have "raw_in l r = noise @ frame_units l (ty # of_nat (length payload) # payload @ ck_words (checksum (frame_body ty payload))) @ rest"
    using assms(1) by (simp add: sent_units frame_words_def frame_body_def)
  from frame_heard [OF this assms(2) _ n, of maxLen] assms(4) n
  have "\<exists>r'. transportRecvFrame l maxLen r =
      Some (fst (frame_answer l ty (of_nat (length payload)) payload (checksum (frame_body ty payload)) maxLen),
        snd (frame_answer l ty (of_nat (length payload)) payload (checksum (frame_body ty payload)) maxLen), r') \<and> raw_in l r' = rest"
    by simp
  moreover have "frame_answer l ty (of_nat (length payload)) payload (checksum (frame_body ty payload)) maxLen =
      (TRANSPORT_OK, Some (ty, payload))"
    using assms(3) n by (simp add: frame_answer_def frame_body_def word_less_nat_alt)
  ultimately show ?thesis by simp
qed

text \<open>
  A damaged word is noticed. When one word of the type or the payload arrives as another (zero and 65535, which are
  one residue, apart), the frame is refused with ECKSUM and the receiver is left at the first byte after it.
\<close>

theorem damaged_word_refused:
  assumes "raw_in l r = noise @ frame_units l (body[i := w] @ ck_words (checksum body)) @ rest" "frame_start l \<notin> set noise"
    "body = frame_body ty payload" "i < length body" "i \<noteq> 1" "unat (body ! i) mod 65535 \<noteq> unat w mod 65535"
    "length payload \<le> unat maxLen" "is_stream l \<Longrightarrow> length payload \<le> TRANSPORT_STREAM_MAX_LEN"
  shows "\<exists>r'. transportRecvFrame l maxLen r = Some (TRANSPORT_ECKSUM, None, r') \<and> raw_in l r' = rest"
proof -
  have n: "unat (of_nat (length payload) :: u16) = length payload"
    using le_less_trans [OF assms(7) unat_u16_less] by (simp add: unsigned_of_nat take_bit_nat_eq_self_iff)
  obtain t' payload' where b: "body[i := w] = t' # of_nat (length payload) # payload'" "length payload' = length payload"
    using assms(3-5) by (cases i; cases "i - 1") (auto simp: frame_body_def)
  have e: "take i body @ body ! i # drop (Suc i) body = body" "body[i := w] = take i body @ w # drop (Suc i) body"
    using assms(4) by (simp_all add: upd_conv_take_nth_drop flip: id_take_nth_drop)
  have "length body \<le> 65537" using le_less_trans [OF assms(7) unat_u16_less] assms(3) by (simp add: frame_body_def)
  then have "checksum body \<noteq> checksum (body[i := w])"
    using checksum_detects [of "take i body" "body ! i" "drop (Suc i) body" w] assms(6) by (simp add: e)
  moreover have "raw_in l r = noise @ frame_units l (t' # of_nat (length payload) # payload' @ ck_words (checksum body)) @ rest"
    using assms(1) b(1) by simp
  from frame_heard [OF this assms(2)] have "\<exists>r'. transportRecvFrame l maxLen r =
      Some (fst (frame_answer l t' (of_nat (length payload)) payload' (checksum body) maxLen),
        snd (frame_answer l t' (of_nat (length payload)) payload' (checksum body) maxLen), r') \<and> raw_in l r' = rest"
    using n b(2) assms(8) by simp
  moreover have "frame_answer l t' (of_nat (length payload)) payload' (checksum body) maxLen = (TRANSPORT_ECKSUM, None)"
    using assms(7) n b(1) checksum_nonzero [of body] calculation(1) by (simp add: frame_answer_def word_less_nat_alt)
  ultimately show ?thesis by simp
qed

section \<open>Concrete frames\<close>

definition idle_wire :: wire where
  "idle_wire = \<lparr>inb = [], inw = [], outb = [], outw = [], rx_open = False, rate = 18, dropped = 0,
     txS1 = 0, txS2 = 0, rxS1 = 0, rxS2 = 0\<rparr>"

text \<open>A serial line on which bytes come in, each after three idle polls.\<close>

definition hears :: "bytes \<Rightarrow> wire" where
  "hears bs = idle_wire\<lparr>inb := map (Pair 3) bs\<rparr>"

lemma raw_in_hears: "raw_in SIO1 (hears bs) = map ucast bs"
  by (simp add: hears_def raw_in_def comp_def)

theorem frame_roundtrip_witness:
  "\<exists>r'. transportRecvFrame SIO1 16 (hears ([104, 105] @ outb (transportSendFrame SIO1 0x05 [2, 0xbeef, 0xdead] idle_wire))) =
     Some (TRANSPORT_OK, Some (0x05, [2, 0xbeef, 0xdead]), r')"
proof -
  have "raw_in SIO1 (hears ([104, 105] @ outb (transportSendFrame SIO1 0x05 [2, 0xbeef, 0xdead] idle_wire))) =
      [104, 105] @ drop (length (raw_out SIO1 idle_wire)) (raw_out SIO1 (transportSendFrame SIO1 0x05 [2, 0xbeef, 0xdead] idle_wire)) @ []"
    by (simp add: raw_in_hears) (simp add: raw_out_def idle_wire_def)
  from frame_roundtrip [OF this, of 16] show ?thesis by (simp add: frame_start_def TRANSPORT_STREAM_MAX_LEN_def) blast
qed

theorem damaged_word_refused_witness:
  "\<exists>r'. transportRecvFrame ATCONS 16
     (idle_wire\<lparr>inw := [7, FRAME_SYNC] @ (frame_body 0x05 [2, 3])[3 := 4] @ ck_words (checksum (frame_body 0x05 [2, 3]))\<rparr>) =
     Some (TRANSPORT_ECKSUM, None, r')"
proof -
  let ?r = "idle_wire\<lparr>inw := [7, FRAME_SYNC] @ (frame_body 0x05 [2, 3])[3 := 4] @ ck_words (checksum (frame_body 0x05 [2, 3]))\<rparr>"
  have "raw_in ATCONS ?r = [7] @ frame_units ATCONS ((frame_body 0x05 [2, 3])[3 := 4] @ ck_words (checksum (frame_body 0x05 [2, 3]))) @ []"
    by (simp add: raw_in_def frame_units_def raw_words_def)
  from damaged_word_refused [OF this _ refl, of 16] show ?thesis
    by (simp add: frame_body_def frame_start_def FRAME_SYNC_def) blast
qed

end
