(* ===== verification/Lz4.thy ===== *)
theory Lz4
  imports Prelude "HOL-Library.Monad_Syntax"
begin

text \<open>
  The two decoders of LZ4 blocks: \<open>lz4/lz4.c\<close>, which decodes a block that is in memory, and
  \<open>monitor/lz4stream.c\<close>, which is fed the bytes of a block one at a time. Both write into the memory they read
  matches from. A run that never ends is \<open>None\<close>. Format and decoders are compared with the meaning of a block
  as a list of sequences.
\<close>

type_synonym ram = "u32 \<Rightarrow> u8"

fun copy_bytes :: "nat \<Rightarrow> u32 \<Rightarrow> u32 \<Rightarrow> ram \<Rightarrow> ram" where
  "copy_bytes 0 src dst m = m"
| "copy_bytes (Suc n) src dst m = copy_bytes n (src + 1) (dst + 1) (m(dst := m src))"

section \<open>The block decoder\<close>

partial_function (option) ext_len :: "ram \<Rightarrow> u32 \<Rightarrow> u32 \<Rightarrow> (u32 \<times> u32) option" where
  "ext_len m source len =
     (if m source = 255 then ext_len m (source + 1) (len + ucast (m source)) else Some (source + 1, len + ucast (m source)))"

text \<open>One turn of the loop copies literals or, when \<open>state\<close> is set, a match.\<close>

partial_function (option) lz4_loop :: "bool \<Rightarrow> u8 \<Rightarrow> u32 \<Rightarrow> u32 \<Rightarrow> u32 \<Rightarrow> ram \<Rightarrow> ram option" where
  "lz4_loop state tok source sourceEnd dest m =
     (let tok = (if state then tok else m source);
          offset = (ucast (m source) OR push_bit 8 (ucast (m (source + 1))) :: u32);
          len = (if state then ucast (tok AND 0x0f) else ucast (drop_bit 4 tok)) :: u32;
          source = (if state then source + 2 else source + 1)
      in do {
        (source, len) \<leftarrow> (if len = 0x0f then ext_len m source len else Some (source, len));
        let ptr = (if state then dest - offset else source);
        let len = (if state then len + 4 else len);
        let m = copy_bytes (unat len) ptr dest m;
        let dest = dest + len;
        let source = (if state then source else ptr + len);
        if source < sourceEnd then lz4_loop (\<not> state) tok source sourceEnd dest m else Some m
      })"

definition lz4_decompress_block :: "u32 \<Rightarrow> u32 \<Rightarrow> u32 \<Rightarrow> ram \<Rightarrow> ram option" where
  "lz4_decompress_block source sourceEnd dest m = lz4_loop False 0 source sourceEnd dest m"

section \<open>The stream decoder\<close>

datatype lz_state = S_TOKEN | S_LITLEN | S_LITERALS | S_OFFLO | S_OFFHI | S_MATCHLEN

datatype lz_rc = LZ4S_OK | LZ4S_EBADOFFSET | LZ4S_ETRUNCATED

record Lz4Stream =
  lz_out :: u32
  lz_base :: u32
  lz_count :: u32
  lz_offset :: u16
  lz_token :: u8
  lz_state :: lz_state

definition lz4StreamInit :: "u32 \<Rightarrow> Lz4Stream \<Rightarrow> Lz4Stream" where
  "lz4StreamInit dest s = s\<lparr>lz_base := dest, lz_out := dest, lz_state := S_TOKEN\<rparr>"

text \<open>
  The bookkeeping of one byte, and the length of the match to copy. \<open>trusted\<close> is the build option that drops the
  checks.
\<close>

definition feed_state :: "u8 \<Rightarrow> Lz4Stream \<Rightarrow> ram \<Rightarrow> Lz4Stream \<times> nat \<times> ram" where
  "feed_state b s m = (case lz_state s of
      S_TOKEN \<Rightarrow>
        let n = ucast (drop_bit 4 b)
        in (s\<lparr>lz_token := b, lz_count := n, lz_state := (if n = 15 then S_LITLEN else if n \<noteq> 0 then S_LITERALS else S_OFFLO)\<rparr>, 0, m)
    | S_LITLEN \<Rightarrow>
        let n = lz_count s + ucast b
        in (s\<lparr>lz_count := n, lz_state := (if b \<noteq> 255 then if n \<noteq> 0 then S_LITERALS else S_OFFLO else S_LITLEN)\<rparr>, 0, m)
    | S_LITERALS \<Rightarrow>
        let n = lz_count s - 1
        in (s\<lparr>lz_out := lz_out s + 1, lz_count := n, lz_state := (if n = 0 then S_OFFLO else S_LITERALS)\<rparr>, 0, m(lz_out s := b))
    | S_OFFLO \<Rightarrow> (s\<lparr>lz_offset := ucast b, lz_state := S_OFFHI\<rparr>, 0, m)
    | S_OFFHI \<Rightarrow>
        (s\<lparr>lz_offset := lz_offset s OR push_bit 8 (ucast b),
           lz_state := (if lz_token s AND 15 = 15 then S_MATCHLEN else S_TOKEN)\<rparr>, unat (lz_token s AND 15) + 4, m)
    | S_MATCHLEN \<Rightarrow> (s\<lparr>lz_state := (if b \<noteq> 255 then S_TOKEN else S_MATCHLEN)\<rparr>, unat b, m))"

definition lz4StreamFeed :: "bool \<Rightarrow> u8 \<Rightarrow> Lz4Stream \<Rightarrow> ram \<Rightarrow> lz_rc \<times> Lz4Stream \<times> ram" where
  "lz4StreamFeed trusted b s0 m =
     (let (s, n, m) = feed_state b s0 m;
          offset = (ucast (lz_offset s) :: u32);
          rc = (if \<not> trusted \<and> lz_state s0 = S_OFFHI \<and> offset = 0 then LZ4S_EBADOFFSET else LZ4S_OK)
      in if n \<noteq> 0 \<and> rc = LZ4S_OK
         then if \<not> trusted \<and> lz_out s - lz_base s < offset then (LZ4S_EBADOFFSET, s, m)
              else (LZ4S_OK, s\<lparr>lz_out := lz_out s + of_nat n\<rparr>, copy_bytes n (lz_out s - offset) (lz_out s) m)
         else (rc, s, m))"

definition lz4StreamEndBlock :: "bool \<Rightarrow> Lz4Stream \<Rightarrow> lz_rc \<times> Lz4Stream" where
  "lz4StreamEndBlock trusted s =
     (if trusted \<or> lz_state s = S_OFFLO \<or> lz_state s = S_TOKEN then LZ4S_OK else LZ4S_ETRUNCATED, s\<lparr>lz_state := S_TOKEN\<rparr>)"

fun feed_all :: "bool \<Rightarrow> bytes \<Rightarrow> Lz4Stream \<Rightarrow> ram \<Rightarrow> lz_rc \<times> Lz4Stream \<times> ram" where
  "feed_all trusted [] s m = (LZ4S_OK, s, m)"
| "feed_all trusted (b # bs) s m =
     (case lz4StreamFeed trusted b s m of
        (LZ4S_OK, s, m) \<Rightarrow> feed_all trusted bs s m
      | r \<Rightarrow> r)"

section \<open>The format\<close>

text \<open>A block: sequences of literals and a match (offset and length), and the literals that end it.\<close>

record lz_seq =
  lits :: bytes
  off :: nat
  mlen :: nat

type_synonym lz_block = "lz_seq list \<times> bytes"

definition ext_bytes :: "nat \<Rightarrow> bytes" where
  "ext_bytes n = (if n < 15 then [] else replicate ((n - 15) div 255) 255 @ [of_nat ((n - 15) mod 255)])"

definition enc_seq :: "lz_seq \<Rightarrow> bytes" where
  "enc_seq q =
     of_nat (16 * min 15 (length (lits q)) + min 15 (mlen q - 4)) # ext_bytes (length (lits q)) @ lits q @
     [ucast (of_nat (off q) :: u16), ucast (drop_bit 8 (of_nat (off q) :: u16))] @ ext_bytes (mlen q - 4)"

definition enc_block :: "lz_block \<Rightarrow> bytes" where
  "enc_block b = concat (map enc_seq (fst b)) @ of_nat (16 * min 15 (length (snd b))) # ext_bytes (length (snd b)) @ snd b"

fun expand :: "nat \<Rightarrow> nat \<Rightarrow> bytes \<Rightarrow> bytes" where
  "expand d 0 h = h"
| "expand d (Suc n) h = expand d n (h @ [h ! (length h - d)])"

definition run_seq :: "lz_seq \<Rightarrow> bytes \<Rightarrow> bytes" where
  "run_seq q h = expand (off q) (mlen q) (h @ lits q)"

definition dec_block :: "lz_block \<Rightarrow> bytes" where
  "dec_block b = fold run_seq (fst b) [] @ snd b"

text \<open>A match reaches back into what has been decoded.\<close>

fun seqs_ok :: "lz_seq list \<Rightarrow> bytes \<Rightarrow> bool" where
  "seqs_ok [] h \<longleftrightarrow> True"
| "seqs_ok (q # qs) h \<longleftrightarrow> 0 < off q \<and> off q < 65536 \<and> off q \<le> length (h @ lits q) \<and> 4 \<le> mlen q \<and> seqs_ok qs (run_seq q h)"

end
