(* ===== verification/Monitor.thy ===== *)
theory Monitor
  imports Frame_Layer Lz4
begin

text \<open>
  The resident debug monitor (\<open>monitor/monitor.c\<close>): the commands the host sends while the target is halted, the
  command loop, and the exception entry that halts the target. One state holds the monitor's own (\<open>s_mon\<close>), the
  register frame of the current thread, the memory of the target, the debug registers of the processor and the
  link. The memory of the target does not contain the monitor's own. The register frame of a halted target is the
  one of the current thread, so the pointer \<open>s_mon.ctx\<close> is whether it is set. Boards with a watchdog build the same
  code with a timer saved and restored; that part is left out.
\<close>

section \<open>The protocol's numbers\<close>

definition MON_PING :: u16 where "MON_PING = 0x01"
definition MON_READ_MEM :: u16 where "MON_READ_MEM = 0x02"
definition MON_WRITE_MEM :: u16 where "MON_WRITE_MEM = 0x03"
definition MON_GET_REGS :: u16 where "MON_GET_REGS = 0x04"
definition MON_SET_REG :: u16 where "MON_SET_REG = 0x05"
definition MON_SET_BP :: u16 where "MON_SET_BP = 0x06"
definition MON_CLR_BP :: u16 where "MON_CLR_BP = 0x07"
definition MON_LOAD :: u16 where "MON_LOAD = 0x08"
definition MON_RUN :: u16 where "MON_RUN = 0x09"
definition MON_CONT :: u16 where "MON_CONT = 0x0A"
definition MON_STOP :: u16 where "MON_STOP = 0x0B"
definition MON_SET_BAUD :: u16 where "MON_SET_BAUD = 0x0D"
definition MON_LZ4 :: u16 where "MON_LZ4 = 0x8000"

lemmas mon_types = MON_PING_def MON_READ_MEM_def MON_WRITE_MEM_def MON_GET_REGS_def MON_SET_REG_def MON_SET_BP_def
  MON_CLR_BP_def MON_LOAD_def MON_RUN_def MON_CONT_def MON_STOP_def MON_SET_BAUD_def MON_LZ4_def

definition MON_CAP_LZ4 :: u16 where "MON_CAP_LZ4 = 0x0001"
definition MON_CAP_STOP :: u16 where "MON_CAP_STOP = 0x0002"
definition MON_CAP_SLOT :: u16 where "MON_CAP_SLOT = 0x0004"
definition MON_CAP_PIPELINE :: u16 where "MON_CAP_PIPELINE = 0x0008"
definition MON_FEAT_WATCHDOG :: u16 where "MON_FEAT_WATCHDOG = 0x0001"
definition MON_FEAT_DEFAULT :: u16 where "MON_FEAT_DEFAULT = MON_FEAT_WATCHDOG"

definition MON_ACK :: u16 where "MON_ACK = 0x40"
definition MON_DATA :: u16 where "MON_DATA = 0x41"
definition MON_REGS :: u16 where "MON_REGS = 0x42"
definition MON_PONG :: u16 where "MON_PONG = 0x43"
definition MON_ERROR :: u16 where "MON_ERROR = 0x4F"
definition MON_HELLO :: u16 where "MON_HELLO = 0x80"
definition MON_STOPPED :: u16 where "MON_STOPPED = 0x81"

definition MON_EBADCMD :: u16 where "MON_EBADCMD = 0x01"
definition MON_EBADSTATE :: u16 where "MON_EBADSTATE = 0x02"
definition MON_EBADREG :: u16 where "MON_EBADREG = 0x04"
definition MON_EBADLEN :: u16 where "MON_EBADLEN = 0x05"
definition MON_ECKSUM :: u16 where "MON_ECKSUM = 0x06"
definition MON_EDECODE :: u16 where "MON_EDECODE = 0x08"

lemmas mon_errors = MON_EBADCMD_def MON_EBADSTATE_def MON_EBADREG_def MON_EBADLEN_def MON_ECKSUM_def MON_EDECODE_def

definition MON_STOP_BREAKPOINT :: u16 where "MON_STOP_BREAKPOINT = 0x01"
definition MON_STOP_INTERRUPT :: u16 where "MON_STOP_INTERRUPT = 0x02"
definition MON_STOP_DATA_WATCH :: u16 where "MON_STOP_DATA_WATCH = 0x03"
definition MON_STOP_FAULT :: u16 where "MON_STOP_FAULT = 0x04"
definition MON_PROTO_VER :: u16 where "MON_PROTO_VER = 0x0002"

definition MON_CHUNK_BYTES :: u32 where "MON_CHUNK_BYTES = 8192"
definition MON_CMD_WORDS :: nat where "MON_CMD_WORDS = 16"
definition MON_RUN_SR :: u32 where "MON_RUN_SR = 0x40000404"
definition MONITOR_LZ4_MIN_RELOAD :: u16 where "MONITOR_LZ4_MIN_RELOAD = 4"

definition DCIC_DA :: u32 where "DCIC_DA = push_bit 2 1"
definition DCIC_DE :: u32 where "DCIC_DE = push_bit 23 1"
definition DCIC_PCE :: u32 where "DCIC_PCE = push_bit 24 1"
definition DCIC_DAE :: u32 where "DCIC_DAE = push_bit 25 1"
definition DCIC_DR :: u32 where "DCIC_DR = push_bit 26 1"
definition DCIC_DW :: u32 where "DCIC_DW = push_bit 27 1"
definition DCIC_KD :: u32 where "DCIC_KD = push_bit 29 1"
definition DCIC_UD :: u32 where "DCIC_UD = push_bit 30 1"
definition DCIC_TR :: u32 where "DCIC_TR = push_bit 31 1"

lemmas dcic_bits = DCIC_DA_def DCIC_DE_def DCIC_PCE_def DCIC_DAE_def DCIC_DR_def DCIC_DW_def DCIC_KD_def DCIC_UD_def DCIC_TR_def

section \<open>State\<close>

text \<open>What the build selects: the link, the LZ4 decoder, and whether SIO1 holds its RTS line up.\<close>

record build =
  b_link :: link
  b_lz4 :: bool
  b_rts_always :: bool

record Registers =
  GPR :: "u32 list"
  returnPC :: u32
  HI :: u32
  LO :: u32
  SR :: u32
  Cause :: u32

record mon =
  line :: wire
  ram :: ram
  thread_regs :: Registers
  cop0_BPC :: u32
  cop0_BPCM :: u32
  cop0_BDA :: u32
  cop0_BDAM :: u32
  cop0_DCIC :: u32
  cop0_BadVaddr :: u32
  s_cmd :: "u16 list"
  s_cmdLen :: u16
  s_features :: u16
  s_ctx :: bool
  s_badVaddr :: u32
  s_dcic :: u32
  s_watchAddr :: u32
  s_memWritten :: bool
  s_running :: bool
  s_lz :: Lz4Stream
  s_lzConsumed :: u32
  s_lzActive :: bool
  s_biosChecksum :: u32
  s_slot :: bool
  icache_flushes :: nat

definition on_line :: "(wire \<Rightarrow> wire) \<Rightarrow> mon \<Rightarrow> mon" where
  "on_line f s = s\<lparr>line := f (line s)\<rparr>"

definition MON_CAPS :: "build \<Rightarrow> u16" where
  "MON_CAPS b = (if b_lz4 b then MON_CAP_LZ4 else 0) OR (if is_stream (b_link b) then MON_CAP_STOP else 0)
     OR (if b_link b = FT232H then MON_CAP_PIPELINE else 0)"

definition monitorHalt :: "mon \<Rightarrow> mon" where
  "monitorHalt s = s\<lparr>s_running := False\<rparr>"

text \<open>Up to the return from the exception, which runs the target from the register frame.\<close>

definition monitorResume :: "mon \<Rightarrow> mon" where
  "monitorResume s =
     (let s = s\<lparr>s_running := True\<rparr>
      in if s_memWritten s then s\<lparr>s_memWritten := False, icache_flushes := icache_flushes s + 1\<rparr> else s)"

definition rd32 :: "u16 list \<Rightarrow> nat \<Rightarrow> u32" where
  "rd32 p i = ucast (p ! i) OR push_bit 16 (ucast (p ! (i + 1)))"

definition sendWord32 :: "link \<Rightarrow> u32 \<Rightarrow> wire \<Rightarrow> wire" where
  "sendWord32 l v s = transportSendWord l (ucast (drop_bit 16 v)) (transportSendWord l (ucast (v AND 0xffff)) s)"

text \<open>The answer to a command: a status still to be sent (0 is an ACK), an answer already sent, or the target running.\<close>

datatype reply = Status u16 | MON_REPLIED | Resumed

definition sendStatus :: "link \<Rightarrow> u16 \<Rightarrow> wire \<Rightarrow> wire" where
  "sendStatus l code s =
     (let s = transportSendBegin l (if code \<noteq> 0 then MON_ERROR else MON_ACK) (if code \<noteq> 0 then 1 else 0) s;
          s = (if code \<noteq> 0 then transportSendWord l code s else s)
      in transportSendEnd l s)"

definition emitIdentity :: "build \<Rightarrow> u16 \<Rightarrow> mon \<Rightarrow> mon" where
  "emitIdentity b ty s = on_line (\<lambda>w.
     let w = transportSendBegin (b_link b) ty 4 w;
         w = transportSendWord (b_link b) MON_PROTO_VER w;
         w = transportSendWord (b_link b) (MON_CAPS b OR (if s_slot s then MON_CAP_SLOT else 0)) w;
         w = sendWord32 (b_link b) (s_biosChecksum s) w
     in transportSendEnd (b_link b) w) s"

definition emitStopped :: "build \<Rightarrow> u16 \<Rightarrow> u32 \<Rightarrow> u32 \<Rightarrow> u32 \<Rightarrow> mon \<Rightarrow> mon" where
  "emitStopped b reason epc x y s = on_line (\<lambda>w.
     let w = transportSendBegin (b_link b) MON_STOPPED 7 w;
         w = transportSendWord (b_link b) reason w;
         w = sendWord32 (b_link b) epc w;
         w = sendWord32 (b_link b) x w;
         w = sendWord32 (b_link b) y w
     in transportSendEnd (b_link b) w) s"

section \<open>The commands\<close>

function read_chunks :: "link \<Rightarrow> ram \<Rightarrow> u32 \<Rightarrow> u32 \<Rightarrow> u32 \<Rightarrow> wire \<Rightarrow> wire" where
  "read_chunks l m src len ofs w =
     (let chunk = min (len - ofs) MON_CHUNK_BYTES;
          nwords = drop_bit 1 (chunk + 1);
          w = transportSendBegin l MON_DATA (ucast (2 + nwords)) w;
          w = sendWord32 l chunk w;
          w = transportSendBytes l m (src + ofs) chunk w;
          w = transportSendEnd l w;
          ofs = ofs + chunk
      in if ofs < len then read_chunks l m src len ofs w else w)"
  by pat_completeness auto
termination
proof (relation "measure (\<lambda>(l, m, src, len, ofs, w). unat (len - ofs))", goal_cases)
  case (2 l m src len ofs w chunk nwords w1 w2 w3 w4 ofs')
  have c: "chunk \<le> len - ofs" "ofs' = ofs + chunk" "ofs' < len" using 2 by auto
  have "chunk \<noteq> 0"
  proof
    assume "chunk = 0"
    then have "len - ofs = 0" "ofs < len" using 2 c by (auto simp: MON_CHUNK_BYTES_def min_def split: if_splits)
    then show False by simp
  qed
  have "unat (len - ofs') = unat (len - ofs) - unat chunk"
    using c(1,2) by (simp add: diff_diff_add [symmetric] unat_sub)
  moreover have "0 < unat chunk" using \<open>chunk \<noteq> 0\<close> by (simp add: unat_gt_0)
  moreover have "unat chunk \<le> unat (len - ofs)" using c(1) by (simp add: word_le_nat_alt)
  ultimately show ?case by simp
qed simp

declare read_chunks.simps [simp del]

definition cmdReadMem :: "build \<Rightarrow> u16 list \<Rightarrow> mon \<Rightarrow> reply \<times> mon" where
  "cmdReadMem b p s = (MON_REPLIED, on_line (read_chunks (b_link b) (ram s) (rd32 p 0) (rd32 p 2) 0) s)"

definition recvU32 :: "link \<Rightarrow> wire \<Rightarrow> (u32 \<times> wire) option" where
  "recvU32 l w = do {
     (x, w) \<leftarrow> transportRecvWord l w;
     (y, w) \<leftarrow> transportRecvWord l w;
     Some (ucast x OR push_bit 16 (ucast y), w)
   }"

text \<open>A frame that is read and dropped, whatever its checksum.\<close>

definition drain_frame :: "link \<Rightarrow> u16 \<Rightarrow> wire \<Rightarrow> wire option" where
  "drain_frame l n w = do {
     (ws, w) \<leftarrow> recv_words l (unat n) w;
     (r, w) \<leftarrow> transportRecvEnd l w;
     Some w
   }"

definition streamWriteMem :: "build \<Rightarrow> u16 \<Rightarrow> mon \<Rightarrow> (reply \<times> mon) option" where
  "streamWriteMem b frameWords s =
     (let l = b_link b
      in if frameWords < 4 then do {
           w \<leftarrow> drain_frame l frameWords (line s);
           Some (Status MON_EBADLEN, s\<lparr>line := w\<rparr>)
         } else do {
           (addr, w) \<leftarrow> recvU32 l (line s);
           (nbytes, w) \<leftarrow> recvU32 l w;
           (m, w) \<leftarrow> transportRecvBytes l addr nbytes (ucast frameWords - 4) (ram s) w;
           (r, w) \<leftarrow> transportRecvEnd l w;
           Some (Status (if r = TRANSPORT_OK then 0 else MON_ECKSUM), s\<lparr>s_memWritten := True, ram := m, line := w\<rparr>)
         })"

text \<open>
  The words of a slice of an LZ4 stream, from word \<open>w\<close> on; the decoder is built without its checks. \<open>bad\<close> is the
  error so far, 0 for none.
\<close>

definition feed_word :: "u32 \<Rightarrow> u32 \<Rightarrow> u16 \<Rightarrow> u16 \<times> Lz4Stream \<times> ram \<Rightarrow> u16 \<times> Lz4Stream \<times> ram" where
  "feed_word nbytes w word st =
     (let feed = (\<lambda>byte (bad, lz, m). if bad \<noteq> 0 then (bad, lz, m)
            else case lz4StreamFeed True byte lz m of (r, lz, m) \<Rightarrow> (if r \<noteq> LZ4S_OK then MON_EDECODE else bad, lz, m));
          st = (if w * 2 < nbytes then feed (ucast word) st else st)
      in if w * 2 < nbytes \<and> w * 2 + 1 < nbytes then feed (ucast (drop_bit 8 word)) st else st)"

fun feed_slice :: "link \<Rightarrow> u32 \<Rightarrow> nat \<Rightarrow> u32 \<Rightarrow> u16 \<times> Lz4Stream \<times> ram \<Rightarrow> wire \<Rightarrow> ((u16 \<times> Lz4Stream \<times> ram) \<times> wire) option" where
  "feed_slice l nbytes 0 i st w = Some (st, w)"
| "feed_slice l nbytes (Suc n) i st w = do {
     (word, w) \<leftarrow> transportRecvWord l w;
     feed_slice l nbytes n (i + 1) (if fst st \<noteq> 0 then st else feed_word nbytes i word st) w
   }"

definition lz4_header :: "link \<Rightarrow> u16 \<Rightarrow> mon \<Rightarrow> (u16 \<times> u32 \<times> u32 \<times> u32 \<times> u32 \<times> mon) option" where
  "lz4_header l frameWords s =
     (if frameWords < 10 then Some (MON_EBADLEN, 0, 0, 0, ucast frameWords, s)
      else do {
        (dest, w) \<leftarrow> recvU32 l (line s);
        (rawLen, w) \<leftarrow> recvU32 l w;
        (clen, w) \<leftarrow> recvU32 l w;
        (ofs, w) \<leftarrow> recvU32 l w;
        (nbytes, w) \<leftarrow> recvU32 l w;
        let nwords = ucast frameWords - 10;
        let s = s\<lparr>line := w\<rparr>;
        let (bad, s) = (if ofs = 0 then (0, s\<lparr>s_lz := lz4StreamInit dest (s_lz s), s_lzConsumed := 0, s_lzActive := True\<rparr>)
                        else if \<not> s_lzActive s \<or> ofs \<noteq> s_lzConsumed s then (MON_EBADSTATE, s) else (0, s));
        let bad = (if bad = 0 \<and> (nbytes > nwords * 2 \<or> ofs + nbytes > clen) then MON_EBADLEN else bad);
        Some (bad, rawLen, clen, nbytes, nwords, s)
      })"

definition lz4_finish :: "u16 \<Rightarrow> u32 \<Rightarrow> u32 \<Rightarrow> u32 \<Rightarrow> mon \<Rightarrow> u16 \<times> mon" where
  "lz4_finish bad rawLen clen nbytes s =
     (let (bad, s) =
        (if bad = 0 then
           let s = s\<lparr>s_lzConsumed := s_lzConsumed s + nbytes\<rparr>
           in if s_lzConsumed s = clen then
                let (r, lz) = lz4StreamEndBlock True (s_lz s); s = s\<lparr>s_lz := lz\<rparr>
                in (if r \<noteq> LZ4S_OK \<or> lz_out (s_lz s) - lz_base (s_lz s) \<noteq> rawLen then MON_EDECODE else bad, s\<lparr>s_lzActive := False\<rparr>)
              else (bad, s)
         else (bad, s))
      in (bad, if bad \<noteq> 0 then s\<lparr>s_lzActive := False\<rparr> else s))"

definition streamWriteMemLz4 :: "build \<Rightarrow> u16 \<Rightarrow> mon \<Rightarrow> (reply \<times> mon) option" where
  "streamWriteMemLz4 b frameWords s = do {
     let l = b_link b;
     (bad, rawLen, clen, nbytes, nwords, s) \<leftarrow> lz4_header l frameWords (s\<lparr>s_memWritten := True\<rparr>);
     ((bad, lz, m), w) \<leftarrow> feed_slice l nbytes (unat nwords) 0 (bad, s_lz s, ram s) (line s);
     (r, w) \<leftarrow> transportRecvEnd l w;
     let bad = (if r \<noteq> TRANSPORT_OK then MON_ECKSUM else bad);
     let (bad, s) = lz4_finish bad rawLen clen nbytes (s\<lparr>s_lz := lz, ram := m, line := w\<rparr>);
     Some (Status bad, s)
   }"

text \<open>The table of registers, in the order of the REGS reply: where entry \<open>idx\<close> lives.\<close>

datatype reg_slot = Slot_GPR nat | Slot_SR | Slot_LO | Slot_HI | Slot_BadVaddr | Slot_Cause | Slot_PC

definition regSlot :: "nat \<Rightarrow> reg_slot" where
  "regSlot idx =
     (if idx < 32 then Slot_GPR idx
      else if idx = 35 then Slot_BadVaddr
      else [Slot_SR, Slot_LO, Slot_HI, Slot_BadVaddr, Slot_Cause, Slot_PC] ! (idx - 32))"

fun get_slot :: "reg_slot \<Rightarrow> mon \<Rightarrow> u32" where
  "get_slot (Slot_GPR i) s = GPR (thread_regs s) ! i"
| "get_slot Slot_SR s = SR (thread_regs s)"
| "get_slot Slot_LO s = LO (thread_regs s)"
| "get_slot Slot_HI s = HI (thread_regs s)"
| "get_slot Slot_BadVaddr s = s_badVaddr s"
| "get_slot Slot_Cause s = Cause (thread_regs s)"
| "get_slot Slot_PC s = returnPC (thread_regs s)"

fun set_slot :: "reg_slot \<Rightarrow> u32 \<Rightarrow> mon \<Rightarrow> mon" where
  "set_slot (Slot_GPR i) v s = s\<lparr>thread_regs := (thread_regs s)\<lparr>GPR := (GPR (thread_regs s))[i := v]\<rparr>\<rparr>"
| "set_slot Slot_SR v s = s\<lparr>thread_regs := (thread_regs s)\<lparr>SR := v\<rparr>\<rparr>"
| "set_slot Slot_LO v s = s\<lparr>thread_regs := (thread_regs s)\<lparr>LO := v\<rparr>\<rparr>"
| "set_slot Slot_HI v s = s\<lparr>thread_regs := (thread_regs s)\<lparr>HI := v\<rparr>\<rparr>"
| "set_slot Slot_BadVaddr v s = s\<lparr>s_badVaddr := v\<rparr>"
| "set_slot Slot_Cause v s = s\<lparr>thread_regs := (thread_regs s)\<lparr>Cause := v\<rparr>\<rparr>"
| "set_slot Slot_PC v s = s\<lparr>thread_regs := (thread_regs s)\<lparr>returnPC := v\<rparr>\<rparr>"

definition reported_reg :: "mon \<Rightarrow> nat \<Rightarrow> u32" where
  "reported_reg s i = (if s_ctx s \<or> i = 35 then get_slot (regSlot i) s else 0)"

definition cmdGetRegs :: "build \<Rightarrow> mon \<Rightarrow> reply \<times> mon" where
  "cmdGetRegs b s = (MON_REPLIED, on_line (\<lambda>w.
     let w = transportSendBegin (b_link b) MON_REGS (38 * 2) w;
         w = fold (\<lambda>i. sendWord32 (b_link b) (reported_reg s i)) [0..<38] w
     in transportSendEnd (b_link b) w) s)"

definition cmdSetReg :: "u16 list \<Rightarrow> mon \<Rightarrow> reply \<times> mon" where
  "cmdSetReg p s =
     (let idx = p ! 0; val = rd32 p 1
      in if idx > 37 then (Status MON_EBADREG, s)
         else if \<not> s_ctx s then (Status MON_EBADSTATE, s)
         else (Status 0, if idx \<noteq> 0 then set_slot (regSlot (unat idx)) val s else s))"

definition cmdSetBp :: "u16 list \<Rightarrow> mon \<Rightarrow> reply \<times> mon" where
  "cmdSetBp p s =
     (let kind = p ! 0; addr = rd32 p 1; msk = rd32 p 3
      in if kind = 0 then
           let s = s\<lparr>cop0_BPC := addr, cop0_BPCM := msk\<rparr>;
               s = s\<lparr>s_dcic := s_dcic s OR (DCIC_DE OR DCIC_PCE OR DCIC_TR OR DCIC_KD OR DCIC_UD)\<rparr>
           in (Status 0, s\<lparr>cop0_DCIC := s_dcic s\<rparr>)
         else if kind \<le> 3 then
           let s = s\<lparr>cop0_BDA := addr, cop0_BDAM := msk, s_watchAddr := addr\<rparr>;
               s = s\<lparr>s_dcic := s_dcic s OR (DCIC_DE OR DCIC_DAE OR DCIC_TR OR DCIC_KD OR DCIC_UD OR ucast kind * DCIC_DR)\<rparr>
           in (Status 0, s\<lparr>cop0_DCIC := s_dcic s\<rparr>)
         else (Status MON_EBADCMD, s))"

definition cmdClrBp :: "u16 list \<Rightarrow> mon \<Rightarrow> reply \<times> mon" where
  "cmdClrBp p s =
     (let d = s_dcic s AND NOT (if p ! 0 = 0 then DCIC_PCE else DCIC_DAE OR DCIC_DR OR DCIC_DW);
          d = (if d AND (DCIC_PCE OR DCIC_DAE) = 0 then 0 else d)
      in (Status 0, s\<lparr>s_dcic := d, cop0_DCIC := d\<rparr>))"

definition cmdRun :: "build \<Rightarrow> u16 list \<Rightarrow> mon \<Rightarrow> reply \<times> mon" where
  "cmdRun b p s =
     (let pc = rd32 p 0; gp = rd32 p 2; sp = rd32 p 4;
          r = \<lparr>GPR = (replicate 32 0)[28 := gp, 29 := sp, 30 := sp], returnPC = pc, HI = 0, LO = 0, SR = MON_RUN_SR, Cause = 0\<rparr>;
          s = s\<lparr>thread_regs := r, s_features := (if s_cmdLen s \<ge> 7 then p ! 6 else MON_FEAT_DEFAULT), s_ctx := False\<rparr>
      in (Resumed, monitorResume (on_line (sendStatus (b_link b) 0) s)))"

definition cmdCont :: "build \<Rightarrow> mon \<Rightarrow> reply \<times> mon" where
  "cmdCont b s =
     (if \<not> s_ctx s then (Status MON_EBADSTATE, s)
      else (Resumed, monitorResume (on_line (sendStatus (b_link b) 0) (s\<lparr>s_ctx := False\<rparr>))))"

definition cmdSetBaud :: "build \<Rightarrow> u16 list \<Rightarrow> mon \<Rightarrow> reply \<times> mon" where
  "cmdSetBaud b p s =
     (let l = b_link b; reload = p ! 0
      in if reload = 0 then (Status MON_EBADLEN, s)
         else if \<not> transportHasRate l then (Status MON_EBADCMD, s)
         else (MON_REPLIED, on_line (\<lambda>w.
           let w = sendStatus l 0 w;
               (r, w) = transportTryRate l reload MON_PONG MON_PROTO_VER w
           in if r = Some True then transportSendFrame l MON_PONG [MON_PROTO_VER] w else w) s))"

definition dispatchCommand :: "build \<Rightarrow> u16 \<Rightarrow> u16 list \<Rightarrow> mon \<Rightarrow> reply \<times> mon" where
  "dispatchCommand b ty p s =
     (if ty = MON_PING then (MON_REPLIED, emitIdentity b MON_PONG s)
      else if ty = MON_READ_MEM then cmdReadMem b p s
      else if ty = MON_GET_REGS then cmdGetRegs b s
      else if ty = MON_SET_REG then cmdSetReg p s
      else if ty = MON_SET_BP then cmdSetBp p s
      else if ty = MON_CLR_BP then cmdClrBp p s
      else if ty = MON_RUN then cmdRun b p s
      else if ty = MON_CONT then cmdCont b s
      else if ty = MON_SET_BAUD then cmdSetBaud b p s
      else if ty = MON_STOP then (MON_REPLIED, s)
      else (Status MON_EBADCMD, s))"

section \<open>The command loop\<close>

text \<open>The bulk writes, which are decoded as they arrive, and the other commands, which are buffered.\<close>

definition bulk_frame :: "build \<Rightarrow> u16 \<Rightarrow> u16 \<Rightarrow> mon \<Rightarrow> (reply \<times> mon) option" where
  "bulk_frame b ty len s =
     (if ty AND MON_LZ4 = 0 then streamWriteMem b len s
      else if b_lz4 b \<and> \<not> (b_rts_always b \<and> transportHasRate (b_link b) \<and> linkGetRate (line s) < MONITOR_LZ4_MIN_RELOAD)
      then streamWriteMemLz4 b len s
      else do {
        w \<leftarrow> drain_frame (b_link b) len (line s);
        Some (Status MON_EBADCMD, s\<lparr>line := w\<rparr>)
      })"

definition small_frame :: "build \<Rightarrow> u16 \<Rightarrow> u16 \<Rightarrow> mon \<Rightarrow> (reply \<times> mon) option" where
  "small_frame b ty len s = do {
     (ws, w) \<leftarrow> recv_words (b_link b) (unat len) (line s);
     (r, w) \<leftarrow> transportRecvEnd (b_link b) w;
     let s = s\<lparr>line := w, s_cmd := take MON_CMD_WORDS ws @ drop (length ws) (s_cmd s)\<rparr>;
     Some (if r \<noteq> TRANSPORT_OK then (Status MON_ECKSUM, s)
           else if unat len > MON_CMD_WORDS then (Status MON_EBADLEN, s)
           else let s = s\<lparr>s_cmdLen := len\<rparr> in dispatchCommand b ty (s_cmd s) s)
   }"

text \<open>One frame. The answer says whether the target runs.\<close>

definition command :: "build \<Rightarrow> mon \<Rightarrow> (bool \<times> mon) option" where
  "command b s = do {
     (ty, len, w) \<leftarrow> transportRecvBegin (b_link b) (line s);
     let s = s\<lparr>line := w\<rparr>;
     let base = ty AND NOT MON_LZ4;
     (r, s) \<leftarrow> (if base = MON_WRITE_MEM \<or> base = MON_LOAD then bulk_frame b ty len s else small_frame b ty len s);
     Some (case r of
         Status code \<Rightarrow> (False, on_line (sendStatus (b_link b) code) s)
       | MON_REPLIED \<Rightarrow> (False, s)
       | Resumed \<Rightarrow> (True, s))
   }"

text \<open>The loop, up to the command that runs the target; it waits for ever when the host sends none.\<close>

partial_function (option) monitorCommandLoop :: "build \<Rightarrow> mon \<Rightarrow> mon option" where
  "monitorCommandLoop b s = do {
     (resumed, s) \<leftarrow> command b s;
     if resumed then Some s else monitorCommandLoop b s
   }"

section \<open>Exceptions of the target\<close>

definition CAUSE_EXCCODE :: "u32 \<Rightarrow> u32" where "CAUSE_EXCCODE cause = drop_bit 2 cause AND 0x1f"

definition EXCCODE_INT :: u32 where "EXCCODE_INT = 0x00"
definition EXCCODE_ADEL :: u32 where "EXCCODE_ADEL = 0x04"
definition EXCCODE_ADES :: u32 where "EXCCODE_ADES = 0x05"
definition EXCCODE_IBE :: u32 where "EXCCODE_IBE = 0x06"
definition EXCCODE_DBE :: u32 where "EXCCODE_DBE = 0x07"
definition EXCCODE_BP :: u32 where "EXCCODE_BP = 0x09"
definition EXCCODE_RI :: u32 where "EXCCODE_RI = 0x0a"
definition EXCCODE_CPU :: u32 where "EXCCODE_CPU = 0x0b"
definition EXCCODE_OVF :: u32 where "EXCCODE_OVF = 0x0c"

lemmas exccodes = EXCCODE_INT_def EXCCODE_ADEL_def EXCCODE_ADES_def EXCCODE_IBE_def EXCCODE_DBE_def EXCCODE_BP_def
  EXCCODE_RI_def EXCCODE_CPU_def EXCCODE_OVF_def

definition word_at :: "ram \<Rightarrow> u32 \<Rightarrow> u32" where
  "word_at m a = ucast (m a) OR push_bit 8 (ucast (m (a + 1))) OR push_bit 16 (ucast (m (a + 2))) OR push_bit 24 (ucast (m (a + 3)))"

text \<open>A stop, up to the command loop it ends in.\<close>

definition monitorStop :: "build \<Rightarrow> u16 \<Rightarrow> u32 \<Rightarrow> u32 \<Rightarrow> mon \<Rightarrow> mon" where
  "monitorStop b reason x y s =
     (let s = (monitorHalt s)\<lparr>s_ctx := True, s_badVaddr := (if reason = MON_STOP_FAULT then y else 0)\<rparr>
      in emitStopped b reason (returnPC (thread_regs s)) x y s)"

text \<open>What the exception entry does up to the command loop, and whether it enters it.\<close>

definition take_exception :: "build \<Rightarrow> mon \<Rightarrow> bool \<times> mon" where
  "take_exception b s =
     (let excode = CAUSE_EXCCODE (Cause (thread_regs s))
      in if excode = EXCCODE_BP then
           let insn = word_at (ram s) (returnPC (thread_regs s))
           in if insn AND 0x3f = 0x0d then
                if insn = push_bit 16 4 OR push_bit 6 1 OR 0x0d then (True, emitIdentity b MON_HELLO (monitorHalt s))
                else (True, monitorStop b MON_STOP_BREAKPOINT insn 0 s)
              else
                let dcic = cop0_DCIC s; s = s\<lparr>cop0_DCIC := 0, s_dcic := 0\<rparr>
                in if dcic AND DCIC_DA \<noteq> 0 then (True, monitorStop b MON_STOP_DATA_WATCH (s_watchAddr s) 0 s)
                   else (True, monitorStop b MON_STOP_BREAKPOINT 0 0 s)
         else if excode = EXCCODE_ADEL \<or> excode = EXCCODE_ADES then (True, monitorStop b MON_STOP_FAULT excode (cop0_BadVaddr s) s)
         else if excode \<in> {EXCCODE_IBE, EXCCODE_DBE, EXCCODE_RI, EXCCODE_CPU, EXCCODE_OVF} then (True, monitorStop b MON_STOP_FAULT excode 0 s)
         else if excode = EXCCODE_INT \<and> s_running s then
           case transportStopPending (b_link b) (line s) of
             (stop, w) \<Rightarrow> if stop then (True, monitorStop b MON_STOP_INTERRUPT 0 0 (s\<lparr>line := w\<rparr>)) else (False, s\<lparr>line := w\<rparr>)
         else (False, s))"

text \<open>The whole entry: whether the target was halted and has been resumed, or the exception is the kernel's.\<close>

definition monitorTake :: "build \<Rightarrow> mon \<Rightarrow> (bool \<times> mon) option" where
  "monitorTake b s = (case take_exception b s of
      (True, s) \<Rightarrow> map_option (Pair True) (monitorCommandLoop b s)
    | (False, s) \<Rightarrow> Some (False, s))"

text \<open>The start, up to the \<open>break\<close> that enters the monitor; the checksum and the patch slot are what it found.\<close>

definition monitorMain :: "build \<Rightarrow> u32 \<Rightarrow> bool \<Rightarrow> mon \<Rightarrow> mon" where
  "monitorMain b ck slot s =
     s\<lparr>line := linkInit (b_link b) (line s), s_ctx := False, s_badVaddr := 0, s_dcic := 0, s_watchAddr := 0,
       s_running := False, s_biosChecksum := ck, s_slot := slot\<rparr>"

definition monitorBiosChecksum :: "u32 list \<Rightarrow> u32" where
  "monitorBiosChecksum bios =
     (let (s1, s2) = fold (\<lambda>w (s1, s2).
            let s1 = s1 + (w AND 0xffff); s2 = s2 + s1; s1 = s1 + drop_bit 16 w; s2 = s2 + s1 in (s1, s2)) bios (0, 0)
      in push_bit 16 (s2 mod 65535) OR (s1 mod 65535))"

end
