(* ===== verification/Monitor_Replies.thy ===== *)
theory Monitor_Replies
  imports Monitor
begin

text \<open>
  What the monitor answers. Everything it sends is a sequence of whole frames, \<open>send_frames\<close>; the memory it sends
  is cut into DATA frames whose bytes, put together, are the memory. Every frame the host sends in the command loop,
  intact or damaged, is consumed whole and answered.
\<close>

section \<open>Frames sent\<close>

definition send_frames :: "link \<Rightarrow> (u16 \<times> u16 list) list \<Rightarrow> wire \<Rightarrow> wire" where
  "send_frames l fs w = fold (\<lambda>(ty, p). transportSendFrame l ty p) fs w"

definition words32 :: "u32 \<Rightarrow> u16 list" where
  "words32 v = [ucast (v AND 0xffff), ucast (drop_bit 16 v)]"

definition status_frame :: "u16 \<Rightarrow> u16 \<times> u16 list" where
  "status_frame code = (if code \<noteq> 0 then (MON_ERROR, [code]) else (MON_ACK, []))"

definition identity_words :: "build \<Rightarrow> mon \<Rightarrow> u16 list" where
  "identity_words b s = [MON_PROTO_VER, MON_CAPS b OR (if s_slot s then MON_CAP_SLOT else 0)] @ words32 (s_biosChecksum s)"

definition stopped_words :: "u16 \<Rightarrow> u32 \<Rightarrow> u32 \<Rightarrow> u32 \<Rightarrow> u16 list" where
  "stopped_words reason epc x y = reason # words32 epc @ words32 x @ words32 y"

lemma send_frames_simps [simp]:
  "send_frames l [] w = w" "send_frames l (f # fs) w = send_frames l fs (transportSendFrame l (fst f) (snd f) w)"
  "send_frames l (fs @ gs) w = send_frames l gs (send_frames l fs w)"
  by (simp_all add: send_frames_def case_prod_beta)

lemma length_words32 [simp]: "length (words32 v) = 2"
  by (simp add: words32_def)

lemma sendWord32_words: "sendWord32 l v w = fold (transportSendWord l) (words32 v) w"
  by (simp add: sendWord32_def words32_def)

lemma sendStatus_frame: "sendStatus l code w = send_frames l [status_frame code] w"
  by (simp add: sendStatus_def status_frame_def transportSendFrame_def Let_def)

lemma emitIdentity_frame: "emitIdentity b ty s = on_line (send_frames (b_link b) [(ty, identity_words b s)]) s"
  by (simp add: emitIdentity_def on_line_def identity_words_def transportSendFrame_def Let_def sendWord32_words numeral_eq_Suc)

lemma emitStopped_frame:
  "emitStopped b reason epc x y s = on_line (send_frames (b_link b) [(MON_STOPPED, stopped_words reason epc x y)]) s"
  by (simp add: emitStopped_def on_line_def stopped_words_def transportSendFrame_def Let_def sendWord32_words)

lemma fold_words: "fold (\<lambda>i. sendWord32 l (f i)) xs w = fold (transportSendWord l) (concat (map (\<lambda>i. words32 (f i)) xs)) w"
  by (induction xs arbitrary: w) (simp_all add: sendWord32_words)

lemma length_concat_words [simp]: "length (concat (map (\<lambda>i. words32 (f i)) xs)) = 2 * length xs"
  by (induction xs) simp_all

lemma cmdGetRegs_frame:
  "cmdGetRegs b s =
     (MON_REPLIED, on_line (send_frames (b_link b) [(MON_REGS, concat (map (\<lambda>i. words32 (reported_reg s i)) [0..<38]))]) s)"
  unfolding cmdGetRegs_def fold_words Let_def by (simp add: transportSendFrame_def on_line_def del: upt_rec_numeral)

section \<open>Memory sent\<close>

definition mem_bytes :: "ram \<Rightarrow> u32 \<Rightarrow> nat \<Rightarrow> bytes" where
  "mem_bytes m a n = map (\<lambda>i. m (a + of_nat i)) [0..<n]"

text \<open>Bytes as words, low byte first, an odd last byte with a zero; and back.\<close>

fun pack_bytes :: "bytes \<Rightarrow> u16 list" where
  "pack_bytes (x # y # bs) = (ucast x OR push_bit 8 (ucast y)) # pack_bytes bs"
| "pack_bytes [x] = [ucast x]"
| "pack_bytes [] = []"

definition unpack :: "nat \<Rightarrow> u16 list \<Rightarrow> bytes" where
  "unpack n ws = take n (concat (map lo_hi ws))"

lemma length_pack_bytes [simp]: "length (pack_bytes bs) = (length bs + 1) div 2"
  by (induction bs rule: pack_bytes.induct) simp_all

lemma lo_hi_pair: "lo_hi (ucast x OR push_bit 8 (ucast y)) = [x, y :: u8]"
proof -
  have m: "(0xff :: u16) = mask 8" by (simp add: mask_eq_exp_minus_1)
  show ?thesis unfolding lo_hi_def m
    by (auto intro!: bit_word_eqI simp: bit_simps dest: bit_imp_le_length)
qed

lemma lo_hi_single: "lo_hi (ucast (x :: u8)) = [x, 0]"
  using lo_hi_pair [of x 0] by simp

lemma unpack_pack: "unpack (length bs) (pack_bytes bs) = bs"
  unfolding unpack_def by (induction bs rule: pack_bytes.induct) (simp_all add: lo_hi_pair lo_hi_single)

lemma mem_bytes_cons: "mem_bytes m a (Suc n) = m a # mem_bytes m (a + 1) n"
  by (simp add: mem_bytes_def map_upt_Suc add.assoc del: upt_Suc)

lemma mem_bytes_split: "mem_bytes m a (i + j) = mem_bytes m a i @ mem_bytes m (a + of_nat i) j"
proof (induction i arbitrary: a)
  case (Suc i)
  then show ?case by (simp add: mem_bytes_cons add.assoc)
qed (simp add: mem_bytes_def)

lemma pack_bytes_append: "even (length xs) \<Longrightarrow> pack_bytes (xs @ ys) = pack_bytes xs @ pack_bytes ys"
  by (induction xs rule: pack_bytes.induct) simp_all

lemma length_mem_bytes [simp]: "length (mem_bytes m a n) = n"
  by (simp add: mem_bytes_def)

lemma fold_pairs:
  "fold (\<lambda>i. transportSendWord l (pair_at m (src + 2 * of_nat i))) [0..<k] w =
     fold (transportSendWord l) (pack_bytes (mem_bytes m src (2 * k))) w"
proof (induction k arbitrary: src w)
  case (Suc k)
  have "fold (\<lambda>i. transportSendWord l (pair_at m (src + 2 * of_nat i))) [0..<Suc k] w =
      fold (\<lambda>i. transportSendWord l (pair_at m (src + 2 + 2 * of_nat i))) [0..<k] (transportSendWord l (pair_at m src) w)"
    by (simp only: upt_conv_Cons zero_less_Suc fold_simps map_Suc_upt [symmetric] fold_map comp_def)
      (simp add: algebra_simps)
  then show ?case using Suc.IH [of "src + 2"] by (simp add: mem_bytes_cons pair_at_def add.assoc)
qed (simp add: mem_bytes_def)

lemma and_not_mask_eq: "(n :: u32) AND NOT (mask k) = push_bit k (drop_bit k n)"
  by (rule bit_word_eqI) (auto simp: bit_simps)

lemma sendBytes_words:
  assumes "unat src + unat n < 2 ^ 32"
  shows "transportSendBytes l m src n w = fold (transportSendWord l) (pack_bytes (mem_bytes m src (unat n))) w"
proof -
  define k where "k = unat n div 2"
  have e: "n AND NOT 1 = push_bit 1 (drop_bit 1 n)"
    using and_not_mask_eq [of n 1] by (simp only: mask_1)
  have "unat (drop_bit 1 n) = k" by (simp add: k_def unat_drop_bit)
  then have ev: "unat (n AND NOT 1) = 2 * k"
  proof -
    have "2 * k < 4294967296" unfolding k_def using unat_u32_less [of n] by linarith
    then show ?thesis using \<open>unat (drop_bit 1 n) = k\<close> unfolding e push_bit_eq_mult by (simp add: unat_word_ariths mult.commute)
  qed
  have odd: "n AND 1 = 0 \<longleftrightarrow> even (unat n)"
    by (simp add: and_one_eq word_unat_eq_iff unat_mod_distrib even_iff_mod_2_eq_zero)
  have "src < src + (n AND NOT 1) \<longleftrightarrow> k \<noteq> 0"
    using assms ev by (simp add: word_less_nat_alt unat_plus_small k_def)
  then have pairs: "(if src < src + (n AND NOT 1) then unat (n AND NOT 1) div 2 else 0) = k"
    unfolding ev by simp
  show ?thesis
  proof (cases "even (unat n)")
    case True
    then have "unat n = 2 * k" by (simp add: k_def)
    then show ?thesis using True odd unfolding transportSendBytes_def Let_def pairs fold_pairs by simp
  next
    case False
    then have n: "unat n = 2 * k + 1" by (simp add: k_def)
    have pk: "pack_bytes (mem_bytes m src (2 * k + 1)) = pack_bytes (mem_bytes m src (2 * k)) @ [ucast (m (src + 2 * of_nat k))]"
      by (simp only: mem_bytes_split) (simp add: pack_bytes_append mem_bytes_def)
    show ?thesis using False odd unfolding transportSendBytes_def Let_def pairs fold_pairs n pk by simp
  qed
qed

text \<open>The DATA frames for a range of memory, and the bytes such a frame carries.\<close>

function data_frames :: "ram \<Rightarrow> u32 \<Rightarrow> nat \<Rightarrow> (u16 \<times> u16 list) list" where
  "data_frames m a n =
     (MON_DATA, words32 (of_nat (min n 8192)) @ pack_bytes (mem_bytes m a (min n 8192))) #
     (if n > 8192 then data_frames m (a + 8192) (n - 8192) else [])"
  by pat_completeness auto
termination by (relation "measure (\<lambda>(m, a, n). n)") auto

declare data_frames.simps [simp del]

definition frame_data :: "u16 \<times> u16 list \<Rightarrow> bytes" where
  "frame_data f = unpack (unat (rd32 (snd f) 0)) (drop 2 (snd f))"

lemma rd32_words32: "rd32 (words32 v @ ws) 0 = v"
proof -
  have m: "(0xffff :: u32) = mask 16" by (simp add: mask_eq_exp_minus_1)
  show ?thesis unfolding rd32_def words32_def m by (rule bit_word_eqI) (auto simp: bit_simps)
qed

lemma words32_pair: "words32 (ucast x OR push_bit 16 (ucast y)) = [x, y]"
proof -
  have m: "(0xffff :: u32) = mask 16" by (simp add: mask_eq_exp_minus_1)
  show ?thesis unfolding words32_def m
    by (auto intro!: bit_word_eqI simp: bit_simps dest: bit_imp_le_length)
qed

lemma words32_rd32: "Suc i < length ws \<Longrightarrow> words32 (rd32 ws i) = [ws ! i, ws ! Suc i]"
  by (simp add: rd32_def words32_pair)

lemma unat_add_below: "unat (a :: u32) + unat b \<le> unat (c :: u32) \<Longrightarrow> unat (a + b) = unat a + unat b"
  using le_less_trans [OF _ unat_u32_less] by (intro unat_plus_small) simp

lemma data_frames_bytes: "concat (map frame_data (data_frames m a n)) = mem_bytes m a n"
proof (induction m a n rule: data_frames.induct)
  case (1 m a n)
  have "drop 2 (words32 x @ ws) = ws" for x ws by (simp add: words32_def)
  then have f: "frame_data (ty, words32 (of_nat k) @ pack_bytes (mem_bytes m a k)) = mem_bytes m a k" if "k \<le> 8192" for k ty
    using that unpack_pack [of "mem_bytes m a k"] by (simp add: frame_data_def rd32_words32 unat_of_nat_u32)
  show ?case
  proof (cases "n > 8192")
    case True
    then show ?thesis
      using "1.IH" f [of 8192] mem_bytes_split [of m a 8192 "n - 8192"] by (subst data_frames.simps) simp
  next
    case False
    then show ?thesis using f [of n] by (subst data_frames.simps) simp
  qed
qed

lemma data_frames_types: "\<forall>f\<in>set (data_frames m a n). fst f = MON_DATA"
  by (induction m a n rule: data_frames.induct) (subst data_frames.simps, simp)

lemma read_chunks_frames:
  assumes "unat src + unat len < 2 ^ 32" "ofs \<le> len"
  shows "read_chunks l m src len ofs w = send_frames l (data_frames m (src + ofs) (unat (len - ofs))) w"
  using assms
proof (induction l m src len ofs w rule: read_chunks.induct)
  case (1 l m src len ofs w)
  define c where "c = min (len - ofs) MON_CHUNK_BYTES"
  have left: "unat (len - ofs) = unat len - unat ofs" using "1.prems"(2) by (simp add: unat_sub)
  have c: "unat c = min (unat (len - ofs)) 8192" "c = of_nat (unat c)"
    by (simp_all add: c_def MON_CHUNK_BYTES_def min_def word_le_nat_alt)
  have "ofs \<le> len" by fact
  then have lo: "unat ofs \<le> unat len" by (simp add: word_le_nat_alt)
  have s: "unat (src + ofs) = unat src + unat ofs" using "1.prems"(1) lo by (intro unat_plus_small) simp
  have o: "unat (ofs + c) = unat ofs + unat c" 
  proof (rule unat_plus_small)
    have "unat ofs + unat c \<le> unat len" using c(1) left lo by simp
    from le_less_trans [OF this unat_u32_less] show "unat ofs + unat c < 2 ^ LENGTH(32)" by simp
  qed
  have words: "ucast (2 + drop_bit 1 (c + 1)) = (of_nat (2 + (unat c + 1) div 2) :: u16)"
  proof -
    have "unat (c + 1) = unat c + 1" using c(1) by (simp add: unat_plus_small)
    then have "unat (2 + drop_bit 1 (c + 1)) = 2 + (unat c + 1) div 2"
      using c(1) by (subst unat_plus_small) (simp_all add: unat_drop_bit)
    then show ?thesis by (metis of_nat_unat)
  qed
  let ?frame = "(MON_DATA, words32 c @ pack_bytes (mem_bytes m (src + ofs) (unat c)))"
  have one: "transportSendEnd l (transportSendBytes l m (src + ofs) c (sendWord32 l c (transportSendBegin l MON_DATA (ucast (2 + drop_bit 1 (c + 1))) w))) =
      send_frames l [?frame] w"
  proof -
    have "(of_nat (length (snd ?frame)) :: u16) = ucast (2 + drop_bit 1 (c + 1))"
      unfolding words by simp
    moreover have "unat (src + ofs) + unat c < 2 ^ 32" using s lo c(1) left "1.prems"(1) by simp
    ultimately show ?thesis
      unfolding send_frames_simps transportSendFrame_def fst_conv snd_conv sendWord32_words by (simp only: sendBytes_words fold_append comp_apply)
  qed
  define w' where "w' = send_frames l [?frame] w"
  have step: "read_chunks l m src len ofs w = (if ofs + c < len then read_chunks l m src len (ofs + c) w' else w')"
    by (subst read_chunks.simps) (simp only: Let_def c_def [symmetric] one w'_def)
  show ?case
  proof (cases "unat (len - ofs) > 8192")
    case True
    then have k: "ofs + c < len" "ofs + c \<le> len" "unat (len - (ofs + c)) = unat (len - ofs) - 8192" "src + (ofs + c) = src + ofs + 8192"
      using c left lo o by (auto simp: word_less_nat_alt word_le_nat_alt unat_sub)
    have "read_chunks l m src len (ofs + c) w' = send_frames l (data_frames m (src + (ofs + c)) (unat (len - (ofs + c)))) w'"
      using "1.IH" [OF refl refl refl refl refl refl refl, folded c_def, unfolded one, folded w'_def] k(1,2) "1.prems"(1) by blast
    then show ?thesis
      using True k c by (subst data_frames.simps) (simp add: step w'_def min_def)
  next
    case False
    then have "\<not> ofs + c < len" using c left lo o by (auto simp: word_less_nat_alt)
    then show ?thesis
      using False c by (subst data_frames.simps) (simp add: step w'_def min_def)
  qed
qed

end
