(* ===== verification/Monitor_Receive.thy ===== *)
theory Monitor_Receive
  imports Monitor_Replies
begin

text \<open>
  How the monitor reads a frame: \<open>in_frame\<close> says which words of it have been summed and which are still to come, and
  every reading operation takes one such state to the next. What the monitor has sent, and the rate of the line, no
  reading changes.
\<close>

section \<open>Reading leaves the sending side alone\<close>

definition tx :: "wire \<Rightarrow> bytes \<times> u16 list \<times> u16" where
  "tx w = (outb w, outw w, rate w)"

lemma tx_simps [simp]:
  "tx (linkRxOpen l w) = tx w" "tx (linkRxClose l w) = tx w" "tx (rx_sum x w) = tx w" "tx (advance l n w) = tx w"
  "tx (w\<lparr>inb := p\<rparr>) = tx w" "tx (w\<lparr>inw := q\<rparr>) = tx w" "tx (w\<lparr>dropped := d\<rparr>) = tx w" "tx (w\<lparr>rxS1 := a\<rparr>) = tx w"
  "tx (w\<lparr>rxS2 := a\<rparr>) = tx w" "tx (w\<lparr>rx_open := o1\<rparr>) = tx w"
  by (simp_all add: tx_def linkRxOpen_def linkRxClose_def rx_sum_def advance_def Let_def)

lemma tx_rx_sums [simp]: "tx (fold rx_sum ws w) = tx w"
  by (induction ws arbitrary: w) simp_all

lemma tx_linkGetByte: "linkGetByte w = Some (b, w') \<Longrightarrow> tx w' = tx w"
  by (auto simp: linkGetByte_def split: list.splits)

lemma tx_linkGetWord: "linkGetWord l w = Some (x, w') \<Longrightarrow> tx w' = tx w"
  by (auto simp: linkGetWord_eq split: list.splits)

lemma tx_skip_zeros: "skip_zeros w = Some (b, w') \<Longrightarrow> tx w' = tx w"
proof (induction w rule: skip_zeros.induct)
  case (1 w)
  then show ?case
    by (subst (asm) (2) skip_zeros.simps) (auto simp: bind_eq_Some_conv dest: tx_linkGetByte split: if_splits; metis tx_linkGetByte)
qed

lemma stream_hunt_cases:
  assumes "stream_hunt l b w = Some (t, n, w')"
  obtains (found) w1 w2 w3 b1 b2 where "skip_zeros w = Some (b1, w1)" "linkGetByte w1 = Some (b2, w2)"
      "linkGetWord SIO1 w2 = Some (t, w3)" "linkGetWord SIO1 w3 = Some (n, w')"
  | (again) b1 w1 where "stream_hunt l b1 w1 = Some (t, n, w')" "tx w1 = tx w" "length (inb w1) < length (inb w)"
proof (cases "b = 0")
  case False
  then obtain b1 w1 where "linkGetByte (w\<lparr>dropped := dropped w + 1\<rparr>) = Some (b1, w1)" "stream_hunt l b1 w1 = Some (t, n, w')"
    using assms by (subst (asm) stream_hunt.simps) (auto simp: bind_eq_Some_conv)
  then show ?thesis using again tx_linkGetByte linkGetByte_shrinks by fastforce
next
  case True
  then obtain b1 w1 where s: "skip_zeros w = Some (b1, w1)" "(if b1 \<noteq> ucast (FRAME_SYNC AND 0xff) then stream_hunt l b1 w1
        else do {
          (b, s) \<leftarrow> linkGetByte w1;
          if b \<noteq> ucast (drop_bit 8 FRAME_SYNC) then stream_hunt l b s
          else do {
            (t, s) \<leftarrow> linkGetWord SIO1 s;
            (n, s) \<leftarrow> linkGetWord SIO1 s;
            if unat n \<le> TRANSPORT_STREAM_MAX_LEN then Some (t, n, s)
            else do { (b, s) \<leftarrow> linkGetByte s; stream_hunt l b s }
          }
        }) = Some (t, n, w')"
    using assms by (subst (asm) stream_hunt.simps) (auto simp: bind_eq_Some_conv split: if_splits)
  note w1 = tx_skip_zeros [OF s(1)] skip_zeros_shrinks [OF s(1)]
  show ?thesis
  proof (cases "b1 = ucast (FRAME_SYNC AND 0xff)")
    case False
    then show ?thesis using again s(2) w1 by simp
  next
    case True
    then obtain b2 w2 where b2: "linkGetByte w1 = Some (b2, w2)" using s(2) by (auto simp: bind_eq_Some_conv)
    note w2 = tx_linkGetByte [OF b2] linkGetByte_shrinks [OF b2]
    show ?thesis
    proof (cases "b2 = ucast (drop_bit 8 FRAME_SYNC)")
      case False
      then show ?thesis using again s(2) w1 w2 b2 True by simp
    next
      case b2y: True
      then obtain t' n' w3 w4 where g: "linkGetWord SIO1 w2 = Some (t', w3)" "linkGetWord SIO1 w3 = Some (n', w4)"
          "(if unat n' \<le> TRANSPORT_STREAM_MAX_LEN then Some (t', n', w4)
            else do { (b, s) \<leftarrow> linkGetByte w4; stream_hunt l b s }) = Some (t, n, w')"
        using s(2) True b2 by (auto simp: bind_eq_Some_conv)
      note w4 = tx_linkGetWord [OF g(1)] tx_linkGetWord [OF g(2)] linkGetWord_shrinks [OF _ g(1)] linkGetWord_shrinks [OF _ g(2)]
      show ?thesis
      proof (cases "unat n' \<le> TRANSPORT_STREAM_MAX_LEN")
        case True
        then show ?thesis using found [OF s(1) b2] g by simp
      next
        case False
        then obtain b5 w5 where b5: "linkGetByte w4 = Some (b5, w5)" "stream_hunt l b5 w5 = Some (t, n, w')"
          using g(3) by (auto simp: bind_eq_Some_conv)
        then show ?thesis using again w1 w2 w4 tx_linkGetByte [OF b5(1)] linkGetByte_shrinks [OF b5(1)] by simp
      qed
    qed
  qed
qed

lemma tx_stream_hunt: "stream_hunt l b w = Some (t, n, w') \<Longrightarrow> tx w' = tx w"
proof (induction "length (inb w)" arbitrary: b w rule: less_induct)
  case less
  from less.prems show ?case
  proof (cases rule: stream_hunt_cases)
    case (found w1 w2 w3 b1 b2)
    then show ?thesis by (metis tx_skip_zeros tx_linkGetByte tx_linkGetWord)
  next
    case (again b1 w1)
    then show ?thesis using less.hyps by metis
  qed
qed

lemma tx_transportRecvBegin: "transportRecvBegin l w = Some (t, n, w') \<Longrightarrow> tx w' = tx w"
  by (auto simp: transportRecvBegin_def bind_eq_Some_conv dest!: tx_linkGetByte tx_stream_hunt tx_linkGetWord split: if_splits)

section \<open>Inside a frame\<close>

definition in_frame :: "link \<Rightarrow> u16 list \<Rightarrow> u16 list \<Rightarrow> u32 \<Rightarrow> u16 list \<Rightarrow> wire \<Rightarrow> bool" where
  "in_frame l ds ws ck rest w \<longleftrightarrow>
     (rxS1 w, rxS2 w) = sums ds (0, 0) \<and> raw_in l w = raw_words l (ws @ ck_words ck) @ rest"

text \<open>What the end of a frame answers to its checksum.\<close>

definition accepts :: "link \<Rightarrow> u16 list \<Rightarrow> u32 \<Rightarrow> bool" where
  "accepts l ds ck \<longleftrightarrow> (\<not> is_stream l \<and> ck = 0) \<or> ck = checksum ds"

lemma frame_begins:
  assumes "raw_in l w = noise @ frame_units l (t # n # ws @ ck_words ck) @ rest" "frame_start l \<notin> set noise"
    "is_stream l \<Longrightarrow> unat n \<le> TRANSPORT_STREAM_MAX_LEN"
  obtains w' where "transportRecvBegin l w = Some (t, n, w')" "in_frame l [t, n] ws ck rest w'" "tx w' = tx w"
proof -
  obtain s0 where b: "transportRecvBegin l w = Some (t, n, rx_sum n (rx_sum t s0))" "rxS1 s0 = 0" "rxS2 s0 = 0"
      "raw_in l s0 = raw_words l (ws @ ck_words ck) @ rest"
    using receive_begin [OF assms] by blast
  have "in_frame l [t, n] ws ck rest (rx_sum n (rx_sum t s0))"
    using b(2-4) rx_sums [of "[t, n]" s0] by (simp add: in_frame_def)
  then show ?thesis using that b(1) tx_transportRecvBegin [OF b(1)] by blast
qed

lemma frame_word:
  assumes "in_frame l ds (x # ws) ck rest w"
  obtains w' where "transportRecvWord l w = Some (x, w')" "in_frame l (ds @ [x]) ws ck rest w'" "tx w' = tx w"
proof -
  have r: "raw_in l w = raw_words l [x] @ raw_words l (ws @ ck_words ck) @ rest"
    using assms by (simp add: in_frame_def flip: raw_words_append append_assoc)
  then obtain more where "words_in l w = x # more" "raw_in l (advance l 1 w) = raw_words l (ws @ ck_words ck) @ rest"
    using raw_in_words [of l w "[x]"] by (auto simp del: raw_in_advance)
  moreover from this have "in_frame l (ds @ [x]) ws ck rest (rx_sum x (advance l 1 w))"
    using assms rx_sums [of "[x]" "advance l 1 w"] by (simp add: in_frame_def sums_def)
  ultimately show ?thesis using that by (simp add: transportRecvWord_def linkGetWord_eq)
qed

lemma frame_read:
  assumes "in_frame l ds (ws @ vs) ck rest w"
  obtains w' where "recv_words l (length ws) w = Some (ws, w')" "in_frame l (ds @ ws) vs ck rest w'" "tx w' = tx w"
  using assms
proof (induction ws arbitrary: ds w thesis)
  case (Cons x ws)
  obtain w1 where w1: "transportRecvWord l w = Some (x, w1)" "in_frame l (ds @ [x]) (ws @ vs) ck rest w1" "tx w1 = tx w"
    using Cons.prems(2) frame_word by (metis append_Cons)
  obtain w2 where "recv_words l (length ws) w1 = Some (ws, w2)" "in_frame l (ds @ x # ws) vs ck rest w2" "tx w2 = tx w1"
    using Cons.IH [OF _ w1(2)] by auto
  then show ?case using Cons.prems(1) w1 by simp
qed simp

lemma frame_ends:
  assumes "in_frame l ds [] ck rest w"
  obtains w' where "transportRecvEnd l w = Some (if accepts l ds ck then TRANSPORT_OK else TRANSPORT_ECKSUM, w')"
    "raw_in l w' = rest" "tx w' = tx w"
proof -
  have r: "raw_in l w = raw_words l (ck_words ck) @ rest" and s: "(rxS1 w, rxS2 w) = sums ds (0, 0)"
    using assms by (simp_all add: in_frame_def)
  obtain more where m: "words_in l w = ck_words ck @ more" "raw_in l (advance l 2 w) = rest"
    using raw_in_words [OF r] by (auto simp: ck_words_def simp flip: numeral_2_eq_2 simp del: raw_in_advance)
  have c: "fletcherFinish (rxS1 w) (rxS2 w) = checksum ds"
    using s unfolding checksum_def by (metis fst_conv snd_conv)
  have "transportRecvEnd l w =
      Some (if accepts l ds ck then TRANSPORT_OK else TRANSPORT_ECKSUM, linkRxClose l (advance l 2 w))"
    using m(1) c by (simp add: transportRecvEnd_def linkGetWord_eq ck_words_def checksum_words CKSUM_NONE_def accepts_def Let_def
        numeral_2_eq_2 del: advance_advance) (simp add: numeral_2_eq_2)
  then show ?thesis using that m(2) by simp
qed

lemma frame_drained:
  assumes "in_frame l ds ws ck rest w" "unat n = length ws"
  obtains w' where "drain_frame l n w = Some w'" "raw_in l w' = rest" "tx w' = tx w"
proof -
  have "in_frame l ds (ws @ []) ck rest w" using assms(1) by simp
  then obtain w1 where w1: "recv_words l (length ws) w = Some (ws, w1)" "in_frame l (ds @ ws) [] ck rest w1" "tx w1 = tx w"
    by (rule frame_read)
  obtain r w2 where "transportRecvEnd l w1 = Some (r, w2)" "raw_in l w2 = rest" "tx w2 = tx w1"
    using frame_ends [OF w1(2)] by metis
  then show ?thesis using that w1 assms(2) by (simp add: drain_frame_def)
qed

lemma frame_u32:
  assumes "in_frame l ds (words32 v @ ws) ck rest w"
  obtains w' where "recvU32 l w = Some (v, w')" "in_frame l (ds @ words32 v) ws ck rest w'" "tx w' = tx w"
proof -
  let ?x = "ucast (v AND 0xffff) :: u16" and ?y = "ucast (drop_bit 16 v) :: u16"
  have "in_frame l ds (?x # ?y # ws) ck rest w" using assms by (simp add: words32_def)
  then obtain w1 where w1: "transportRecvWord l w = Some (?x, w1)" "in_frame l (ds @ [?x]) (?y # ws) ck rest w1" "tx w1 = tx w"
    by (rule frame_word)
  obtain w2 where w2: "transportRecvWord l w1 = Some (?y, w2)" "in_frame l (ds @ [?x] @ [?y]) ws ck rest w2" "tx w2 = tx w1"
    using frame_word [OF w1(2)] unfolding append_assoc .
  have "rd32 (words32 v) 0 = v" using rd32_words32 [of v "[]"] by simp
  then have "ucast ?x OR push_bit 16 (ucast ?y) = (v :: u32)" by (simp add: rd32_def words32_def)
  then show ?thesis using that w1 w2 by (simp add: recvU32_def words32_def)
qed

section \<open>Bytes of a frame into memory\<close>

fun write_bytes :: "ram \<Rightarrow> u32 \<Rightarrow> bytes \<Rightarrow> ram" where
  "write_bytes m a [] = m"
| "write_bytes m a (b # bs) = write_bytes (m(a := b)) (a + 1) bs"

lemma write_bytes_append: "write_bytes m a (xs @ ys) = write_bytes (write_bytes m a xs) (a + of_nat (length xs)) ys"
  by (induction xs arbitrary: m a) (simp_all add: add.assoc)

lemma lo_hi_alt: "lo_hi x = [ucast x, ucast (drop_bit 8 x)]"
proof -
  have m: "(0xff :: u16) = mask 8" by (simp add: mask_eq_exp_minus_1)
  have "ucast (x AND 0xff) = (ucast x :: u8)" unfolding m by (rule bit_word_eqI) (auto simp: bit_simps)
  then show ?thesis by (simp add: lo_hi_def)
qed

lemma store_word_bytes: "store_word x a m = write_bytes m a (lo_hi x)"
  by (simp add: store_word_def lo_hi_alt)

lemma frame_pairs:
  assumes "in_frame l ds (xs @ ws) ck rest w"
  obtains w' where "recv_pairs l (length xs) a m w = Some (write_bytes m a (concat (map lo_hi xs)), w')"
    "in_frame l (ds @ xs) ws ck rest w'" "tx w' = tx w"
  using assms
proof (induction xs arbitrary: ds w a m thesis)
  case (Cons x xs)
  from Cons.prems(2) have "in_frame l ds (x # xs @ ws) ck rest w" by simp
  then obtain w1 where w1: "transportRecvWord l w = Some (x, w1)" "in_frame l (ds @ [x]) (xs @ ws) ck rest w1" "tx w1 = tx w"
    by (rule frame_word)
  obtain w2 where w2: "recv_pairs l (length xs) (a + 2) (store_word x a m) w1 =
        Some (write_bytes (store_word x a m) (a + 2) (concat (map lo_hi xs)), w2)"
      "in_frame l ((ds @ [x]) @ xs) ws ck rest w2" "tx w2 = tx w1"
    using Cons.IH [OF _ w1(2)] by blast
  have "write_bytes m a (concat (map lo_hi (x # xs))) = write_bytes (store_word x a m) (a + 2) (concat (map lo_hi xs))"
    by (simp add: write_bytes_append store_word_bytes) (simp add: lo_hi_def)
  then show ?case using Cons.prems(1) [of w2] w1 w2 by simp
qed simp

lemma frame_tail_none:
  assumes "in_frame l ds ws ck rest w" "unat nbytes \<le> 2 * unat i" "2 * (unat i + length ws) < 2 ^ 32"
  obtains w' where "recv_tail l nbytes (length ws) i a m w = Some (m, w')" "in_frame l (ds @ ws) [] ck rest w'" "tx w' = tx w"
  using assms
proof (induction ws arbitrary: ds w i thesis)
  case (Cons x ws)
  obtain w1 where w1: "transportRecvWord l w = Some (x, w1)" "in_frame l (ds @ [x]) ws ck rest w1" "tx w1 = tx w"
    using Cons.prems(2) by (rule frame_word)
  have i: "unat (i + 1) = unat i + 1" "unat (i * 2) = 2 * unat i" using Cons.prems(4) by (simp_all add: unat_plus_small unat_word_ariths)
  obtain w2 where w2: "recv_tail l nbytes (length ws) (i + 1) a m w1 = Some (m, w2)"
      "in_frame l ((ds @ [x]) @ ws) [] ck rest w2" "tx w2 = tx w1"
    using Cons.IH [OF _ w1(2), of "i + 1"] Cons.prems(3,4) i by auto
  have "\<not> i * 2 < nbytes" using i Cons.prems(3) by (simp add: word_less_nat_alt)
  then show ?case using Cons.prems(1) [of w2] w1 w2 by simp
qed simp

lemma frame_bytes:
  assumes f: "in_frame l ds ws ck rest w" and wrap: "unat a + 2 * length ws < 2 ^ 32" and n: "words = of_nat (length ws)"
  obtains w' where "transportRecvBytes l a nbytes words m w = Some (write_bytes m a (unpack (unat nbytes) ws), w')"
    "in_frame l (ds @ ws) [] ck rest w'" "tx w' = tx w"
proof -
  have uw: "unat words = length ws" using wrap n by (simp add: unat_of_nat_u32)
  define k where "k = min (unat nbytes div 2) (length ws)"
  define full where "full = min (drop_bit 1 nbytes) words"
  have full: "unat full = k" using uw by (simp add: full_def k_def min_def word_le_nat_alt unat_drop_bit)
  have "unat (full * 2) = 2 * k" using full wrap by (simp add: unat_word_ariths k_def mult.commute)
  then have "a < a + full * 2 \<longleftrightarrow> k \<noteq> 0" using wrap by (simp add: word_less_nat_alt unat_plus_small k_def)
  then have pairs: "(if a < a + full * 2 then unat full else 0) = k" using full by simp
  have rest_words: "unat (words - full) = length ws - k"
    using full uw by (simp add: unat_sub word_le_nat_alt k_def)
  have f1: "in_frame l ds (take k ws @ drop k ws) ck rest w" using f by simp
  have lk: "length (take k ws) = k" by (simp add: k_def)
  obtain w1 where w1: "recv_pairs l k a m w = Some (write_bytes m a (concat (map lo_hi (take k ws))), w1)"
      "in_frame l (ds @ take k ws) (drop k ws) ck rest w1" "tx w1 = tx w"
    using frame_pairs [OF f1, of a m] lk by auto
  let ?m1 = "write_bytes m a (concat (map lo_hi (take k ws)))"
  have "\<exists>w'. recv_tail l nbytes (length ws - k) full (a + 2 * of_nat k) ?m1 w1 = Some (write_bytes m a (unpack (unat nbytes) ws), w') \<and>
      in_frame l (ds @ ws) [] ck rest w' \<and> tx w' = tx w1"
  proof -
    have k2: "2 * k \<le> unat nbytes" by (simp add: k_def)
    have "concat (map lo_hi ws) = concat (map lo_hi (take k ws)) @ concat (map lo_hi (drop k ws))"
      by (simp flip: concat_append map_append)
    then have u: "unpack (unat nbytes) ws = concat (map lo_hi (take k ws)) @ take (unat nbytes - 2 * k) (concat (map lo_hi (drop k ws)))"
      using k2 lk by (simp add: unpack_def)
    have ld: "length (drop k ws) = length ws - k" by simp
    have b: "2 * (unat (full + 1) + (length ws - k - 1)) < 2 ^ 32" "2 * (unat full + length (drop k ws)) < 2 ^ 32" if "drop k ws \<noteq> []"
      using wrap full that by (auto simp: unat_plus_small k_def)
    consider "drop k ws = []" | "drop k ws \<noteq> []" "unat nbytes = 2 * k" | x vs where "drop k ws = x # vs" "unat nbytes = 2 * k + 1"
    proof (cases "drop k ws")
      case Nil
      then show ?thesis by (rule that(1))
    next
      case (Cons x vs)
      then have "k < length ws" by (metis drop_all leI list.distinct(1))
      then have "k = unat nbytes div 2" by (simp add: k_def min_def split: if_splits)
      then have "unat nbytes = 2 * k \<or> unat nbytes = 2 * k + 1" by presburger
      then show ?thesis
      proof
        assume "unat nbytes = 2 * k"
        with Cons show ?thesis by (intro that(2)) simp_all
      next
        assume "unat nbytes = 2 * k + 1"
        with Cons show ?thesis by (rule that(3))
      qed
    qed
    then show ?thesis
    proof cases
      case 1
      then have "take k ws = ws" "length ws - k = 0" by (simp_all add: k_def)
      then show ?thesis using w1(2) u 1 by (intro exI [of _ w1]) simp
    next
      case 2
      then show ?thesis
        using frame_tail_none [OF w1(2) _ b(2), of nbytes "a + 2 * of_nat k" ?m1] full u ld by (auto simp flip: append.assoc)
    next
      case (3 x vs)
      obtain w2 where w2: "transportRecvWord l w1 = Some (x, w2)" "in_frame l ((ds @ take k ws) @ [x]) vs ck rest w2" "tx w2 = tx w1"
        using w1(2) unfolding 3(1) by (rule frame_word)
      have vs: "length ws - k = Suc (length vs)" using ld 3(1) by simp
      have "unat (full + 1) = k + 1" using b(2) 3(1) full by (simp add: unat_plus_small)
      then obtain w3 where w3: "recv_tail l nbytes (length vs) (full + 1) (a + 2 * of_nat k + 1) (?m1(a + 2 * of_nat k := ucast x)) w2 =
          Some (?m1(a + 2 * of_nat k := ucast x), w3)" "in_frame l (((ds @ take k ws) @ [x]) @ vs) [] ck rest w3" "tx w3 = tx w2"
        using frame_tail_none [OF w2(2), of nbytes "full + 1"] 3(2) b(1) 3(1) vs by auto
      have "full * 2 < nbytes" using full 3(2) b(2) 3(1) by (simp add: word_less_nat_alt unat_word_ariths)
      moreover have "unpack (unat nbytes) ws = concat (map lo_hi (take k ws)) @ [ucast x]"
        using u 3 by (simp add: lo_hi_alt)
      moreover have "ds @ take k ws @ x # vs = ds @ ws" using 3(1) by (metis append_take_drop_id)
      ultimately show ?thesis using w2 w3 vs by (intro exI [of _ w3]) (simp add: write_bytes_append lk)
    qed
  qed
  then obtain w2 where w2: "recv_tail l nbytes (length ws - k) full (a + 2 * of_nat k) ?m1 w1 =
      Some (write_bytes m a (unpack (unat nbytes) ws), w2)" "in_frame l (ds @ ws) [] ck rest w2" "tx w2 = tx w1" by blast
  show ?thesis
  proof (rule that [OF _ w2(2)])
    show "transportRecvBytes l a nbytes words m w = Some (write_bytes m a (unpack (unat nbytes) ws), w2)"
      unfolding transportRecvBytes_def Let_def full_def [symmetric] pairs rest_words by (simp add: w1(1) w2(1))
  qed (simp add: w1(3) w2(3))
qed

lemma streamWriteMem_frame:
  assumes "in_frame (b_link b) [t, n] (words32 a @ words32 k @ ws) ck rest (line s)" "unat n = 4 + length ws"
    "unat a + 2 * length ws < 2 ^ 32"
  obtains w where "streamWriteMem b n s = Some (Status (if accepts (b_link b) (t # n # words32 a @ words32 k @ ws) ck then 0 else MON_ECKSUM),
      s\<lparr>s_memWritten := True, ram := write_bytes (ram s) a (unpack (unat k) ws), line := w\<rparr>)"
    "raw_in (b_link b) w = rest" "tx w = tx (line s)"
proof -
  obtain w1 where w1: "recvU32 (b_link b) (line s) = Some (a, w1)"
      "in_frame (b_link b) ([t, n] @ words32 a) (words32 k @ ws) ck rest w1" "tx w1 = tx (line s)"
    using assms(1) by (rule frame_u32)
  obtain w2 where w2: "recvU32 (b_link b) w1 = Some (k, w2)"
      "in_frame (b_link b) (([t, n] @ words32 a) @ words32 k) ws ck rest w2" "tx w2 = tx w1"
    using w1(2) by (rule frame_u32)
  have "\<not> n < 4" using assms(2) by (simp add: word_less_nat_alt)
  moreover have "(ucast n - 4 :: u32) = of_nat (length ws)"
  proof -
    have "(ucast n :: u32) = of_nat (unat n)" by (metis of_nat_unat unat_ucast_up(1))
    then show ?thesis using assms(2) by simp
  qed
  then obtain w3 where w3: "transportRecvBytes (b_link b) a k (ucast n - 4) (ram s) w2 =
        Some (write_bytes (ram s) a (unpack (unat k) ws), w3)"
      "in_frame (b_link b) ((([t, n] @ words32 a) @ words32 k) @ ws) [] ck rest w3" "tx w3 = tx w2"
    using frame_bytes [OF w2(2) assms(3)] by blast
  obtain w4 where "transportRecvEnd (b_link b) w3 =
        Some (if accepts (b_link b) ((([t, n] @ words32 a) @ words32 k) @ ws) ck then TRANSPORT_OK else TRANSPORT_ECKSUM, w4)"
      "raw_in (b_link b) w4 = rest" "tx w4 = tx w3"
    using w3(2) by (rule frame_ends)
  ultimately show ?thesis
    using that [of w4] w1 w2 w3 by (simp add: streamWriteMem_def Let_def)
qed

lemma streamWriteMem_short:
  assumes "in_frame (b_link b) [t, n] ws ck rest (line s)" "unat n = length ws" "length ws < 4"
  obtains w where "streamWriteMem b n s = Some (Status MON_EBADLEN, s\<lparr>line := w\<rparr>)"
    "raw_in (b_link b) w = rest" "tx w = tx (line s)"
proof -
  obtain w where "drain_frame (b_link b) n (line s) = Some w" "raw_in (b_link b) w = rest" "tx w = tx (line s)"
    using assms(1,2) by (rule frame_drained)
  moreover have "n < 4" using assms(2,3) by (simp add: word_less_nat_alt)
  ultimately show ?thesis using that by (simp add: streamWriteMem_def)
qed

text \<open>The words a command works on: its payload, and behind it what an earlier command left. And its answer.\<close>

definition cmd_words :: "u16 list \<Rightarrow> mon \<Rightarrow> u16 list" where
  "cmd_words ws s = take MON_CMD_WORDS ws @ drop (length ws) (s_cmd s)"

definition small_answer :: "build \<Rightarrow> u16 \<Rightarrow> u16 \<Rightarrow> u16 list \<Rightarrow> u32 \<Rightarrow> mon \<Rightarrow> reply \<times> mon" where
  "small_answer b t n ws ck s =
     (let s = s\<lparr>s_cmd := cmd_words ws s\<rparr>
      in if \<not> accepts (b_link b) (t # n # ws) ck then (Status MON_ECKSUM, s)
         else if length ws > MON_CMD_WORDS then (Status MON_EBADLEN, s)
         else dispatchCommand b t (s_cmd s) (s\<lparr>s_cmdLen := n\<rparr>))"

lemma small_frame_answer:
  assumes "in_frame (b_link b) [t, n] ws ck rest (line s)" "unat n = length ws"
  obtains w where "raw_in (b_link b) w = rest" "tx w = tx (line s)"
    "small_frame b t n s = Some (small_answer b t n ws ck (s\<lparr>line := w\<rparr>))"
proof -
  have "in_frame (b_link b) [t, n] (ws @ []) ck rest (line s)" using assms(1) by simp
  then obtain w1 where w1: "recv_words (b_link b) (length ws) (line s) = Some (ws, w1)"
      "in_frame (b_link b) ([t, n] @ ws) [] ck rest w1" "tx w1 = tx (line s)"
    by (rule frame_read)
  obtain w2 where w2: "transportRecvEnd (b_link b) w1 =
        Some (if accepts (b_link b) ([t, n] @ ws) ck then TRANSPORT_OK else TRANSPORT_ECKSUM, w2)"
      "raw_in (b_link b) w2 = rest" "tx w2 = tx w1"
    using w1(2) by (rule frame_ends)
  show ?thesis
    using that [of w2] w1 w2 assms(2) by (simp add: small_frame_def small_answer_def cmd_words_def Let_def)
qed

end
