(* ===== verification/Lz4_Decode.thy ===== *)
theory Lz4_Decode
  imports Lz4
begin

text \<open>
  Both LZ4 decoders decode: fed an encoded block they leave in memory what the block means, and touch nothing else.
\<close>

section \<open>Bytes in memory\<close>

definition holds :: "ram \<Rightarrow> u32 \<Rightarrow> bytes \<Rightarrow> bool" where
  "holds m a bs \<longleftrightarrow> (\<forall>i<length bs. m (a + of_nat i) = bs ! i)"

definition untouched :: "u32 \<Rightarrow> nat \<Rightarrow> nat \<Rightarrow> ram \<Rightarrow> ram \<Rightarrow> bool" where
  "untouched base lo hi m m' \<longleftrightarrow> (\<forall>x. (\<forall>i. lo \<le> i \<and> i < hi \<longrightarrow> x \<noteq> base + of_nat i) \<longrightarrow> m' x = m x)"

lemma untouched_refl [simp]: "untouched base lo hi m m"
  by (simp add: untouched_def)

lemma untouched_trans:
  "untouched base a b m m' \<Longrightarrow> untouched base b c m' m'' \<Longrightarrow> a \<le> b \<Longrightarrow> b \<le> c \<Longrightarrow> untouched base a c m m''"
  unfolding untouched_def by (metis le_trans less_le_trans order.strict_trans2)

lemma of_nat_u32_inj: "i < 4294967296 \<Longrightarrow> j < 4294967296 \<Longrightarrow> (of_nat i :: u32) = of_nat j \<longleftrightarrow> i = j"
proof -
  assume "i < 4294967296" "j < 4294967296"
  then have "unat (of_nat i :: u32) = i" "unat (of_nat j :: u32) = j"
    by (simp_all add: unsigned_of_nat take_bit_nat_eq_self_iff)
  then show ?thesis by metis
qed

lemma holds_append:
  "holds m a (xs @ ys) \<longleftrightarrow> holds m a xs \<and> holds m (a + of_nat (length xs)) ys"
proof -
  have "(\<forall>i<length xs + length ys. m (a + of_nat i) = (xs @ ys) ! i) \<longleftrightarrow>
      (\<forall>i<length xs. m (a + of_nat i) = xs ! i) \<and> (\<forall>i<length ys. m (a + of_nat (length xs) + of_nat i) = ys ! i)"
    (is "?l \<longleftrightarrow> ?r")
  proof
    assume ?l
    then show ?r by (auto simp: nth_append add.assoc dest: spec [where x = "length xs + _"])
  next
    assume r: ?r
    show ?l
    proof (intro allI impI)
      fix i assume i: "i < length xs + length ys"
      show "m (a + of_nat i) = (xs @ ys) ! i"
      proof (cases "i < length xs")
        case False
        then obtain j where "i = length xs + j" "j < length ys" using i by (metis add_less_cancel_left le_Suc_ex not_less)
        then show ?thesis using r by (simp add: add.assoc)
      qed (use r in \<open>simp add: nth_append\<close>)
    qed
  qed
  then show ?thesis by (simp add: holds_def)
qed

lemma holds_Nil [simp]: "holds m a []" by (simp add: holds_def)
lemma holds_single [simp]: "holds m a [b] \<longleftrightarrow> m a = b" by (simp add: holds_def)

lemma holds_Cons: "holds m a (b # bs) \<longleftrightarrow> m a = b \<and> holds m (a + 1) bs"
  using holds_append [of m a "[b]" bs] by simp

text \<open>One more byte at the end of what is held.\<close>

lemma holds_snoc:
  assumes "holds m base h" "length h < 4294967296"
  shows "holds (m(base + of_nat (length h) := b)) base (h @ [b])"
    "untouched base (length h) (Suc (length h)) m (m(base + of_nat (length h) := b))"
  using assms by (auto simp: holds_def untouched_def of_nat_u32_inj nth_append less_Suc_eq)

lemma length_expand [simp]: "length (expand d n h) = length h + n"
  by (induction d n h rule: expand.induct) simp_all

lemma expand_add: "expand d (a + b) h = expand d b (expand d a h)"
  by (induction a arbitrary: h) simp_all

lemma copy_match:
  assumes "holds m base h" "0 < d" "d \<le> length h" "length h + n < 4294967296"
  defines "m' \<equiv> copy_bytes n (base + of_nat (length h) - of_nat d) (base + of_nat (length h)) m"
  shows "holds m' base (expand d n h) \<and> untouched base (length h) (length h + n) m m'"
  using assms(1-4) unfolding m'_def
proof (induction n arbitrary: h m)
  case (Suc n)
  let ?dst = "base + of_nat (length h)" and ?src = "base + of_nat (length h) - of_nat d"
  let ?b = "h ! (length h - d)"
  define m1 where "m1 = m(?dst := ?b)"
  have e: "?src = base + of_nat (length h - d)" using Suc.prems(3) by (simp add: of_nat_diff)
  have b: "m ?src = ?b" unfolding e
    by (rule Suc.prems(1) [unfolded holds_def, rule_format]) (use Suc.prems(2,3) in simp)
  have len: "length h < 4294967296" using Suc.prems(4) by simp
  note snoc = holds_snoc [OF Suc.prems(1) len, of ?b, folded m1_def]
  have dst: "base + of_nat (length (h @ [?b])) = ?dst + 1" by simp
  have src: "?src + 1 = ?dst + 1 - of_nat d" by simp
  have step: "copy_bytes (Suc n) ?src ?dst m = copy_bytes n (?dst + 1 - of_nat d) (?dst + 1) m1"
    unfolding copy_bytes.simps b src m1_def ..
  have d: "d \<le> length (h @ [?b])" "length (h @ [?b]) + n < 4294967296" using Suc.prems(3,4) by simp_all
  have IH: "holds (copy_bytes n (?dst + 1 - of_nat d) (?dst + 1) m1) base (expand d n (h @ [?b]))"
      "untouched base (Suc (length h)) (length h + Suc n) m1 (copy_bytes n (?dst + 1 - of_nat d) (?dst + 1) m1)"
    using Suc.IH [OF snoc(1) Suc.prems(2) d, unfolded dst] by simp_all
  show ?case unfolding step using IH(1) untouched_trans [OF snoc(2) IH(2)] by simp
qed simp

text \<open>Literals, stored one by one or copied from a place apart.\<close>

lemma copy_lits:
  assumes "holds m base h" "holds m src ls" "length h + length ls < 4294967296"
    "\<And>i j. i < length ls \<Longrightarrow> j < length ls \<Longrightarrow> src + of_nat i \<noteq> base + of_nat (length h + j)"
  defines "m' \<equiv> copy_bytes (length ls) src (base + of_nat (length h)) m"
  shows "holds m' base (h @ ls) \<and> untouched base (length h) (length h + length ls) m m'"
  using assms(1-4) unfolding m'_def
proof (induction ls arbitrary: h m src)
  case (Cons b ls)
  let ?dst = "base + of_nat (length h)"
  define m1 where "m1 = m(?dst := b)"
  have len: "length h < 4294967296" using Cons.prems(3) by simp
  note snoc = holds_snoc [OF Cons.prems(1) len, of b, folded m1_def]
  have b: "m src = b" "holds m (src + 1) ls" using Cons.prems(2) by (simp_all add: holds_Cons)
  have apart: "src + 1 + of_nat i \<noteq> base + of_nat (length (h @ [b]) + j)" if "i < length ls" "j < length ls" for i j
    using Cons.prems(4) [of "Suc i" "Suc j"] that by (simp add: add.assoc)
  have "src + 1 + of_nat i \<noteq> ?dst" if "i < length ls" for i
    using Cons.prems(4) [of "Suc i" 0] that by (simp add: add.assoc)
  then have held: "holds m1 (src + 1) ls" using b(2) by (simp add: holds_def m1_def)
  have dst: "base + of_nat (length (h @ [b])) = ?dst + 1" by simp
  have room: "length (h @ [b]) + length ls < 4294967296" using Cons.prems(3) by simp
  have IH: "holds (copy_bytes (length ls) (src + 1) (?dst + 1) m1) base (h @ b # ls)"
      "untouched base (Suc (length h)) (length h + Suc (length ls)) m1 (copy_bytes (length ls) (src + 1) (?dst + 1) m1)"
    using Cons.IH [OF snoc(1) held room apart, unfolded dst] by simp_all
  show ?case using IH(1) untouched_trans [OF snoc(2) IH(2)] b(1) by (simp add: m1_def)
qed simp

section \<open>The bytes of the format\<close>

lemma token_fields:
  assumes "a \<le> 15" "b \<le> 15"
  shows "unat (drop_bit 4 (of_nat (16 * a + b) :: u8)) = a" "unat ((of_nat (16 * a + b) :: u8) AND 15) = b"
proof -
  have u: "unat (of_nat (16 * a + b) :: u8) = 16 * a + b"
    using assms by (simp only: unsigned_of_nat) (simp add: take_bit_nat_eq_self_iff)
  show "unat (drop_bit 4 (of_nat (16 * a + b) :: u8)) = a"
    using assms(2) by (simp only: unat_drop_bit u) simp
  have "(w :: u8) AND 15 = take_bit 4 w" for w by (simp add: take_bit_eq_mask mask_eq_exp_minus_1)
  then have "unat ((of_nat (16 * a + b) :: u8) AND 15) = unat (of_nat (16 * a + b) :: u8) mod 16"
    using unat_take_bit [of 4 "of_nat (16 * a + b) :: u8"] by (simp del: of_nat_add of_nat_mult)
  then show "unat ((of_nat (16 * a + b) :: u8) AND 15) = b" unfolding u using assms(2) by simp
qed

lemma ext_bytes_ge: "15 \<le> n \<Longrightarrow> ext_bytes n = replicate ((n - 15) div 255) 255 @ [of_nat ((n - 15) mod 255)]"
  by (simp add: ext_bytes_def)

lemma ext_bytes_less: "n < 15 \<Longrightarrow> ext_bytes n = []"
  by (simp add: ext_bytes_def)

lemma last_ext: "r < 255 \<Longrightarrow> unat (of_nat r :: u8) = r" "r < 255 \<Longrightarrow> (of_nat r :: u8) \<noteq> 255"
proof -
  show u: "r < 255 \<Longrightarrow> unat (of_nat r :: u8) = r" by (simp add: unsigned_of_nat take_bit_nat_eq_self_iff)
  assume "r < 255"
  then show "(of_nat r :: u8) \<noteq> 255" using u by auto
qed

lemma offset_u16: "(ucast (ucast (x :: u16) :: u8) :: u16) OR push_bit 8 (ucast (ucast (drop_bit 8 x) :: u8)) = x"
  by (rule bit_word_eqI) (auto simp: bit_simps)

lemma offset_u32: "(ucast (ucast (x :: u16) :: u8) :: u32) OR push_bit 8 (ucast (ucast (drop_bit 8 x) :: u8)) = ucast x"
  by (rule bit_word_eqI) (auto simp: bit_simps dest: bit_imp_le_length)

section \<open>The stream decoder\<close>

lemma feed_all_append:
  "feed_all tr (xs @ ys) s m = (case feed_all tr xs s m of (LZ4S_OK, s, m) \<Rightarrow> feed_all tr ys s m | r \<Rightarrow> r)"
  by (induction tr xs s m rule: feed_all.induct) (auto split: prod.splits lz_rc.splits)

lemma feed_token:
  assumes "lz_state s = S_TOKEN" "a \<le> 15" "b \<le> 15"
  shows "lz4StreamFeed tr (of_nat (16 * a + b)) s m =
    (LZ4S_OK, s\<lparr>lz_token := of_nat (16 * a + b), lz_count := of_nat a,
       lz_state := (if a = 15 then S_LITLEN else if a \<noteq> 0 then S_LITERALS else S_OFFLO)\<rparr>, m)"
proof -
  have "(ucast (drop_bit 4 (of_nat (16 * a + b) :: u8)) :: u32) = of_nat (unat (drop_bit 4 (of_nat (16 * a + b) :: u8)))"
    by simp
  also have "\<dots> = of_nat a" by (simp only: token_fields(1) [OF assms(2,3)])
  finally have n: "(ucast (drop_bit 4 (of_nat (16 * a + b) :: u8)) :: u32) = of_nat a" .
  have "(of_nat a :: u32) = 15 \<longleftrightarrow> a = 15" "(of_nat a :: u32) = 0 \<longleftrightarrow> a = 0"
    using of_nat_u32_inj [of a 15] of_nat_u32_inj [of a 0] assms(2) by simp_all
  then show ?thesis unfolding lz4StreamFeed_def feed_state_def assms(1) by (simp only: n Let_def lz_state.case) simp
qed

lemma feed_litlen:
  assumes "lz_state s = S_LITLEN" "r < 255" "lz_count s + of_nat (255 * k + r) \<noteq> 0"
  shows "feed_all tr (replicate k 255 @ [of_nat r]) s m =
    (LZ4S_OK, s\<lparr>lz_count := lz_count s + of_nat (255 * k + r), lz_state := S_LITERALS\<rparr>, m)"
  using assms(1,3)
proof (induction k arbitrary: s)
  case 0
  have "(ucast (of_nat r :: u8) :: u32) = of_nat (unat (of_nat r :: u8))" by simp
  also have "\<dots> = of_nat r" by (simp only: last_ext(1) [OF assms(2)])
  finally have "(ucast (of_nat r :: u8) :: u32) = of_nat r" .
  then show ?case
    using 0 last_ext(2) [OF assms(2)] by (simp add: lz4StreamFeed_def feed_state_def Let_def)
next
  case (Suc k)
  let ?s = "s\<lparr>lz_count := lz_count s + 255\<rparr>"
  have "lz4StreamFeed tr 255 s m = (LZ4S_OK, ?s, m)" using Suc.prems(1) by (simp add: lz4StreamFeed_def feed_state_def Let_def)
  then show ?case using Suc.IH [of ?s] Suc.prems by (simp add: add.assoc)
qed

lemma feed_literals:
  assumes "lz_state s = S_LITERALS" "ls \<noteq> []" "lz_count s = of_nat (length ls)" "lz_out s = base + of_nat (length h)"
    "holds m base h" "length h + length ls < 4294967296"
  shows "\<exists>m'. feed_all tr ls s m =
      (LZ4S_OK, s\<lparr>lz_out := base + of_nat (length (h @ ls)), lz_count := 0, lz_state := S_OFFLO\<rparr>, m') \<and>
    holds m' base (h @ ls) \<and> untouched base (length h) (length h + length ls) m m'"
  using assms
proof (induction ls arbitrary: s h m)
  case (Cons b ls)
  define m1 where "m1 = m(lz_out s := b)"
  define s1 where "s1 = s\<lparr>lz_out := lz_out s + 1, lz_count := lz_count s - 1,
    lz_state := (if lz_count s - 1 = 0 then S_OFFLO else S_LITERALS)\<rparr>"
  have f: "lz4StreamFeed tr b s m = (LZ4S_OK, s1, m1)"
    using Cons.prems(1) by (simp add: lz4StreamFeed_def feed_state_def Let_def s1_def m1_def)
  have len: "length h < 4294967296" using Cons.prems(6) by simp
  note snoc = holds_snoc [OF Cons.prems(5) len, of b, folded Cons.prems(4), folded m1_def]
  have c: "lz_count s - 1 = of_nat (length ls)" using Cons.prems(3) by simp
  show ?case
  proof (cases "ls = []")
    case True
    then show ?thesis using f snoc Cons.prems(4) c by (simp add: s1_def add.assoc)
  next
    case False
    then have "(of_nat (length ls) :: u32) \<noteq> 0"
      using of_nat_u32_inj [of "length ls" 0] Cons.prems(6) by simp
    then have s1: "lz_state s1 = S_LITERALS" "lz_count s1 = of_nat (length ls)" "lz_out s1 = base + of_nat (length (h @ [b]))"
      using c Cons.prems(4) by (simp_all add: s1_def)
    have room: "length (h @ [b]) + length ls < 4294967296" using Cons.prems(6) by simp
    obtain m' where m': "feed_all tr ls s1 m1 =
        (LZ4S_OK, s1\<lparr>lz_out := base + of_nat (length ((h @ [b]) @ ls)), lz_count := 0, lz_state := S_OFFLO\<rparr>, m')"
        "holds m' base ((h @ [b]) @ ls)" "untouched base (length (h @ [b])) (length (h @ [b]) + length ls) m1 m'"
      using Cons.IH [OF s1(1) False s1(2,3) snoc(1) room] by blast
    have "untouched base (length h) (length h + length (b # ls)) m m'"
      using untouched_trans [OF snoc(2), of "length h + length (b # ls)" m'] m'(3) by simp
    moreover have "s1\<lparr>lz_out := x, lz_count := 0, lz_state := S_OFFLO\<rparr> = s\<lparr>lz_out := x, lz_count := 0, lz_state := S_OFFLO\<rparr>" for x
      by (simp add: s1_def)
    ultimately show ?thesis using m'(1,2) f by simp
  qed
qed simp

text \<open>The literals of a sequence, with the token before them.\<close>

lemma feed_head:
  assumes "lz_state s = S_TOKEN" "b \<le> 15" "lz_out s = base + of_nat (length h)" "holds m base h"
    "length h + length ls < 4294967296"
  shows "\<exists>m'. feed_all tr (of_nat (16 * min 15 (length ls) + b) # ext_bytes (length ls) @ ls) s m =
      (LZ4S_OK, s\<lparr>lz_token := of_nat (16 * min 15 (length ls) + b), lz_out := base + of_nat (length (h @ ls)),
        lz_count := 0, lz_state := S_OFFLO\<rparr>, m') \<and>
    holds m' base (h @ ls) \<and> untouched base (length h) (length h + length ls) m m'"
proof -
  let ?t = "of_nat (16 * min 15 (length ls) + b) :: u8" and ?n = "length ls"
  note tok = feed_token [OF assms(1), of "min 15 ?n" b tr m]
  show ?thesis
  proof (cases "ls = []")
    case True
    then show ?thesis using tok assms(2-4) by (simp add: ext_bytes_def)
  next
    case False
    have ext: "feed_all tr (?t # ext_bytes ?n) s m = (LZ4S_OK, s\<lparr>lz_token := ?t, lz_count := of_nat ?n, lz_state := S_LITERALS\<rparr>, m)"
    proof (cases "?n < 15")
      case True
      then show ?thesis using tok assms(2) False by (simp add: ext_bytes_def)
    next
      case ge: False
      have n: "15 + (255 * ((?n - 15) div 255) + (?n - 15) mod 255) = ?n" using ge by simp
      have "(15 :: u32) + of_nat (255 * ((?n - 15) div 255) + (?n - 15) mod 255) = of_nat ?n"
        by (metis n of_nat_add of_nat_numeral)
      moreover have "(of_nat ?n :: u32) \<noteq> 0" using of_nat_u32_inj [of ?n 0] assms(5) False by simp
      ultimately show ?thesis
        using tok assms(2) ge feed_litlen [of "s\<lparr>lz_token := ?t, lz_count := 15, lz_state := S_LITLEN\<rparr>"
            "(?n - 15) mod 255" "(?n - 15) div 255" tr m]
        by (simp add: ext_bytes_ge min_absorb1)
    qed
    show ?thesis
      using feed_literals [of "s\<lparr>lz_token := ?t, lz_count := of_nat ?n, lz_state := S_LITERALS\<rparr>" ls base h m tr] assms False
      by (simp add: feed_all_append [of tr "?t # ext_bytes ?n" ls, simplified] ext [simplified])
  qed
qed

text \<open>A match, whose length may follow in more bytes.\<close>

definition at_history :: "Lz4Stream \<Rightarrow> u32 \<Rightarrow> bytes \<Rightarrow> ram \<Rightarrow> bool" where
  "at_history s base h m \<longleftrightarrow> lz_base s = base \<and> lz_out s = base + of_nat (length h) \<and> holds m base h"

lemma feed_copies:
  assumes f: "feed_state b s m = (s1, n, m)" and o: "lz_offset s1 = of_nat d" "0 < d" "d < 65536" "d \<le> length h"
    and h: "at_history s1 base h m" and len: "length h + n < 4294967296"
  shows "\<exists>m'. lz4StreamFeed tr b s m = (LZ4S_OK, s1\<lparr>lz_out := base + of_nat (length h + n)\<rparr>, m') \<and>
    holds m' base (expand d n h) \<and> untouched base (length h) (length h + n) m m'"
proof -
  have d: "(ucast (lz_offset s1) :: u32) = of_nat d"
  proof -
    have "(ucast (lz_offset s1) :: u32) = of_nat (unat (of_nat d :: u16))" by (simp add: o)
    moreover have "unat (of_nat d :: u16) = d" using o(3) by (simp add: unsigned_of_nat take_bit_nat_eq_self_iff)
    ultimately show ?thesis by simp
  qed
  have "(of_nat d :: u32) \<noteq> 0" using of_nat_u32_inj [of d 0] o(2,3) by simp
  moreover have "\<not> lz_out s1 - lz_base s1 < of_nat d"
  proof -
    have "unat (of_nat (length h) :: u32) = length h" "unat (of_nat d :: u32) = d"
      using len o(3) by (simp_all add: unsigned_of_nat take_bit_nat_eq_self_iff)
    then show ?thesis using h o(4) by (simp add: at_history_def word_less_nat_alt)
  qed
  ultimately have "lz4StreamFeed tr b s m =
      (LZ4S_OK, s1\<lparr>lz_out := lz_out s1 + of_nat n\<rparr>, copy_bytes n (lz_out s1 - of_nat d) (lz_out s1) m)"
    unfolding lz4StreamFeed_def f Let_def prod.case d by (cases n) simp_all
  then have "lz4StreamFeed tr b s m =
      (LZ4S_OK, s1\<lparr>lz_out := base + of_nat (length h + n)\<rparr>, copy_bytes n (base + of_nat (length h) - of_nat d) (base + of_nat (length h)) m)"
    using h by (simp add: at_history_def add.assoc)
  then show ?thesis using copy_match [of m base h d n] h o len by (simp add: at_history_def)
qed

lemma feed_matchlen:
  assumes "lz_state s = S_MATCHLEN" "r < 255" "lz_offset s = of_nat d" "0 < d" "d < 65536" "d \<le> length h"
    "at_history s base h m" "length h + (255 * k + r) < 4294967296"
  shows "\<exists>m'. feed_all tr (replicate k 255 @ [of_nat r]) s m =
      (LZ4S_OK, s\<lparr>lz_out := base + of_nat (length h + (255 * k + r)), lz_state := S_TOKEN\<rparr>, m') \<and>
    holds m' base (expand d (255 * k + r) h) \<and> untouched base (length h) (length h + (255 * k + r)) m m'"
  using assms(1,3,6-8)
proof (induction k arbitrary: s h m)
  case 0
  have "feed_state (of_nat r) s m = (s\<lparr>lz_state := S_TOKEN\<rparr>, r, m)"
    using 0 last_ext [OF assms(2)] by (simp add: feed_state_def)
  from feed_copies [OF this, of d h base tr] 0 assms(4,5) show ?case by (auto simp: at_history_def)
next
  case (Suc k)
  have "feed_state 255 s m = (s\<lparr>lz_state := S_MATCHLEN\<rparr>, 255, m)" using Suc.prems(1) by (simp add: feed_state_def)
  from feed_copies [OF this, of d h base tr] Suc.prems assms(4,5) obtain m1 where m1:
      "lz4StreamFeed tr 255 s m = (LZ4S_OK, s\<lparr>lz_state := S_MATCHLEN, lz_out := base + of_nat (length h + 255)\<rparr>, m1)"
      "holds m1 base (expand d 255 h)" "untouched base (length h) (length h + 255) m m1"
    by (auto simp: at_history_def)
  let ?s = "s\<lparr>lz_state := S_MATCHLEN, lz_out := base + of_nat (length h + 255)\<rparr>"
  have h1: "at_history ?s base (expand d 255 h) m1" using Suc.prems(4) m1(2) by (simp add: at_history_def)
  obtain m' where m': "feed_all tr (replicate k 255 @ [of_nat r]) ?s m1 =
      (LZ4S_OK, ?s\<lparr>lz_out := base + of_nat (length (expand d 255 h) + (255 * k + r)), lz_state := S_TOKEN\<rparr>, m')"
      "holds m' base (expand d (255 * k + r) (expand d 255 h))"
      "untouched base (length (expand d 255 h)) (length (expand d 255 h) + (255 * k + r)) m1 m'"
    using Suc.IH [of ?s "expand d 255 h" m1] h1 Suc.prems by auto
  have "untouched base (length h) (length h + (255 * Suc k + r)) m m'"
    using untouched_trans [OF m1(3), of "length h + (255 * Suc k + r)" m'] m'(3) by (simp add: add.assoc)
  then show ?case
    using m1(1) m'(1,2) expand_add [of d 255 "255 * k + r" h] by (simp add: add.assoc)
qed

lemma feed_match:
  assumes "lz_state s = S_OFFLO" "unat (lz_token s AND 15) = min 15 n" "0 < d" "d < 65536" "d \<le> length h"
    "at_history s base h m" "length h + (n + 4) < 4294967296"
  shows "\<exists>m'. feed_all tr ([ucast (of_nat d :: u16), ucast (drop_bit 8 (of_nat d :: u16))] @ ext_bytes n) s m =
      (LZ4S_OK, s\<lparr>lz_offset := of_nat d, lz_out := base + of_nat (length h + (n + 4)), lz_state := S_TOKEN\<rparr>, m') \<and>
    holds m' base (expand d (n + 4) h) \<and> untouched base (length h) (length h + (n + 4)) m m'"
proof -
  let ?lo = "ucast (of_nat d :: u16) :: u8" and ?hi = "ucast (drop_bit 8 (of_nat d :: u16)) :: u8"
  let ?s1 = "s\<lparr>lz_offset := ucast ?lo, lz_state := S_OFFHI\<rparr>"
  let ?st = "if 15 \<le> n then S_MATCHLEN else S_TOKEN"
  let ?s2 = "s\<lparr>lz_offset := of_nat d, lz_state := ?st\<rparr>"
  have lo: "lz4StreamFeed tr ?lo s m = (LZ4S_OK, ?s1, m)"
    using assms(1) by (simp add: lz4StreamFeed_def feed_state_def)
  have nib: "lz_token s AND 15 = 15 \<longleftrightarrow> 15 \<le> n" using assms(2) by (auto simp: word_unat_eq_iff)
  have "feed_state ?hi ?s1 m = (?s2, min 15 n + 4, m)"
    using assms(2) nib offset_u16 [of "of_nat d"] by (simp add: feed_state_def)
  moreover have "length h + (min 15 n + 4) < 4294967296" using assms(7) by (simp add: min_def)
  ultimately obtain m1 where m1:
      "lz4StreamFeed tr ?hi ?s1 m = (LZ4S_OK, ?s2\<lparr>lz_out := base + of_nat (length h + (min 15 n + 4))\<rparr>, m1)"
      "holds m1 base (expand d (min 15 n + 4) h)" "untouched base (length h) (length h + (min 15 n + 4)) m m1"
    using feed_copies [of ?hi ?s1 m ?s2 "min 15 n + 4" d h base tr] assms(3-6) by (auto simp: at_history_def)
  show ?thesis
  proof (cases "15 \<le> n")
    case False
    then show ?thesis using lo m1 by (simp add: ext_bytes_less min_def not_le)
  next
    case True
    let ?k = "(n - 15) div 255" and ?r = "(n - 15) mod 255"
    let ?s3 = "s\<lparr>lz_offset := of_nat d, lz_state := S_MATCHLEN, lz_out := base + of_nat (length h + 19)\<rparr>"
    let ?h = "expand d 19 h"
    have n: "length ?h + (255 * ?k + ?r) = length h + (n + 4)" using True by simp
    have h3: "at_history ?s3 base ?h m1" using m1(2) True assms(6) by (simp add: at_history_def)
    have "\<exists>m'. feed_all tr (replicate ?k 255 @ [of_nat ?r]) ?s3 m1 =
        (LZ4S_OK, ?s3\<lparr>lz_out := base + of_nat (length ?h + (255 * ?k + ?r)), lz_state := S_TOKEN\<rparr>, m') \<and>
        holds m' base (expand d (255 * ?k + ?r) ?h) \<and> untouched base (length ?h) (length ?h + (255 * ?k + ?r)) m1 m'"
      by (rule feed_matchlen [OF _ _ _ assms(3,4) _ h3]) (use assms(5,7) n in simp_all)
    then obtain m' where m': "feed_all tr (ext_bytes n) ?s3 m1 =
        (LZ4S_OK, ?s3\<lparr>lz_out := base + of_nat (length h + (n + 4)), lz_state := S_TOKEN\<rparr>, m')"
        "holds m' base (expand d (255 * ?k + ?r) ?h)" "untouched base (length ?h) (length h + (n + 4)) m1 m'"
      unfolding n ext_bytes_ge [OF True] by blast
    have "untouched base (length h) (length h + (n + 4)) m m'"
      using untouched_trans [OF m1(3), of "length h + (n + 4)" m'] m'(3) True by simp
    moreover have "expand d (255 * ?k + ?r) ?h = expand d (n + 4) h"
      using expand_add [of d 19 "255 * ?k + ?r" h] True by (simp add: add.commute)
    ultimately show ?thesis using lo m1(1) m'(1,2) True by simp
  qed
qed

lemma length_run_seq: "length (run_seq q h) = length h + length (lits q) + mlen q"
  by (simp add: run_seq_def)

lemma length_run_seqs: "length h \<le> length (fold run_seq qs h)"
proof (induction qs arbitrary: h)
  case (Cons q qs)
  show ?case using Cons.IH [of "run_seq q h"] by (simp add: length_run_seq)
qed simp

lemma feed_seq:
  assumes "at_history s base h m" "lz_state s = S_TOKEN" "seqs_ok (q # qs) h" "length (run_seq q h) < 4294967296"
  shows "\<exists>s' m'. feed_all tr (enc_seq q) s m = (LZ4S_OK, s', m') \<and> at_history s' base (run_seq q h) m' \<and>
    lz_state s' = S_TOKEN \<and> untouched base (length h) (length (run_seq q h)) m m'"
proof -
  let ?n = "mlen q - 4"
  let ?tok = "of_nat (16 * min 15 (length (lits q)) + min 15 ?n) :: u8"
  have len: "length h + length (lits q) + (?n + 4) < 4294967296" "?n + 4 = mlen q" using assms(3,4) by (simp_all add: length_run_seq)
  let ?s1 = "s\<lparr>lz_token := ?tok, lz_out := base + of_nat (length (h @ lits q)), lz_count := 0, lz_state := S_OFFLO\<rparr>"
  obtain m1 where m1: "feed_all tr (?tok # ext_bytes (length (lits q)) @ lits q) s m = (LZ4S_OK, ?s1, m1)"
      "holds m1 base (h @ lits q)" "untouched base (length h) (length h + length (lits q)) m m1"
    using feed_head [OF assms(2), of "min 15 ?n" base h m "lits q" tr] assms(1) len(1) by (auto simp: at_history_def)
  have h1: "at_history ?s1 base (h @ lits q) m1" using assms(1) m1(2) by (simp add: at_history_def)
  have t1: "unat (lz_token ?s1 AND 15) = min 15 ?n" using token_fields(2) [of "min 15 (length (lits q))" "min 15 ?n"] by simp
  let ?s2 = "?s1\<lparr>lz_offset := of_nat (off q), lz_out := base + of_nat (length (h @ lits q) + mlen q), lz_state := S_TOKEN\<rparr>"
  obtain m2 where m2: "feed_all tr ([ucast (of_nat (off q) :: u16), ucast (drop_bit 8 (of_nat (off q) :: u16))] @ ext_bytes ?n) ?s1 m1 = (LZ4S_OK, ?s2, m2)"
      "holds m2 base (run_seq q h)" "untouched base (length (h @ lits q)) (length (run_seq q h)) m1 m2"
    using feed_match [of ?s1 ?n "off q" "h @ lits q" base m1 tr] h1 t1 assms(3) len
    unfolding len(2) by (auto simp: run_seq_def add.assoc)
  have "enc_seq q = (?tok # ext_bytes (length (lits q)) @ lits q) @
      [ucast (of_nat (off q) :: u16), ucast (drop_bit 8 (of_nat (off q) :: u16))] @ ext_bytes ?n"
    by (simp add: enc_seq_def)
  then have "feed_all tr (enc_seq q) s m = (LZ4S_OK, ?s2, m2)"
    using feed_all_append [of tr "?tok # ext_bytes (length (lits q)) @ lits q"] by (simp only: m1(1) m2(1) prod.case lz_rc.case)
  moreover have "at_history ?s2 base (run_seq q h) m2"
    using h1 m2(2) by (simp add: at_history_def length_run_seq)
  moreover have "untouched base (length h) (length (run_seq q h)) m m2"
    using untouched_trans [OF m1(3), of "length (run_seq q h)" m2] m2(3) by (simp add: length_run_seq)
  ultimately show ?thesis by (intro exI [of _ ?s2] exI [of _ m2]) simp
qed

lemma feed_seqs:
  assumes "at_history s base h m" "lz_state s = S_TOKEN" "seqs_ok qs h" "length (fold run_seq qs h) < 4294967296"
  shows "\<exists>s' m'. feed_all tr (concat (map enc_seq qs)) s m = (LZ4S_OK, s', m') \<and> at_history s' base (fold run_seq qs h) m' \<and>
    lz_state s' = S_TOKEN \<and> untouched base (length h) (length (fold run_seq qs h)) m m'"
  using assms
proof (induction qs arbitrary: s h m)
  case (Cons q qs)
  have len: "length (run_seq q h) < 4294967296"
    using Cons.prems(4) length_run_seqs [of "run_seq q h" qs] by simp
  obtain s1 m1 where s1: "feed_all tr (enc_seq q) s m = (LZ4S_OK, s1, m1)" "at_history s1 base (run_seq q h) m1"
      "lz_state s1 = S_TOKEN" "untouched base (length h) (length (run_seq q h)) m m1"
    using feed_seq [OF Cons.prems(1-3) len, of tr] by blast
  obtain s2 m2 where s2: "feed_all tr (concat (map enc_seq qs)) s1 m1 = (LZ4S_OK, s2, m2)"
      "at_history s2 base (fold run_seq qs (run_seq q h)) m2" "lz_state s2 = S_TOKEN"
      "untouched base (length (run_seq q h)) (length (fold run_seq qs (run_seq q h))) m1 m2"
    using Cons.IH [OF s1(2,3)] Cons.prems(3,4) by auto
  have "untouched base (length h) (length (fold run_seq (q # qs) h)) m m2"
    using untouched_trans [OF s1(4) s2(4)] length_run_seqs [of "run_seq q h" qs] by (simp add: length_run_seq)
  then show ?case using s1(1) s2(1-3) by (simp add: feed_all_append)
qed (simp add: at_history_def)

lemma stream_decodes:
  assumes "seqs_ok (fst b) []" "length (dec_block b) < 4294967296"
  shows "\<exists>s' m'. feed_all tr (enc_block b) (lz4StreamInit dest s) m = (LZ4S_OK, s', m') \<and> holds m' dest (dec_block b) \<and>
    lz_out s' = dest + of_nat (length (dec_block b)) \<and> fst (lz4StreamEndBlock tr s') = LZ4S_OK \<and>
    untouched dest 0 (length (dec_block b)) m m'"
proof -
  let ?s = "lz4StreamInit dest s" and ?h = "fold run_seq (fst b) []" and ?ls = "snd b"
  have init: "at_history ?s dest [] m" "lz_state ?s = S_TOKEN" by (simp_all add: at_history_def lz4StreamInit_def)
  have len: "length ?h + length ?ls < 4294967296" using assms(2) by (simp add: dec_block_def)
  obtain s1 m1 where s1: "feed_all tr (concat (map enc_seq (fst b))) ?s m = (LZ4S_OK, s1, m1)" "at_history s1 dest ?h m1"
      "lz_state s1 = S_TOKEN" "untouched dest 0 (length ?h) m m1"
    using feed_seqs [OF init assms(1), of tr] len by auto
  obtain s2 m2 where s2: "feed_all tr (of_nat (16 * min 15 (length ?ls)) # ext_bytes (length ?ls) @ ?ls) s1 m1 = (LZ4S_OK, s2, m2)"
      "lz_out s2 = dest + of_nat (length (?h @ ?ls))" "lz_state s2 = S_OFFLO" "holds m2 dest (?h @ ?ls)"
      "untouched dest (length ?h) (length ?h + length ?ls) m1 m2"
    using feed_head [OF s1(3), of 0 dest ?h m1 ?ls tr] s1(2) len by (auto simp: at_history_def)
  have "untouched dest 0 (length (dec_block b)) m m2"
    using untouched_trans [OF s1(4) s2(5)] by (simp add: dec_block_def)
  then show ?thesis
    using s1(1) s2 by (simp add: enc_block_def feed_all_append dec_block_def lz4StreamEndBlock_def)
qed

section \<open>The block decoder\<close>

text \<open>The bytes still to be read: they end where the block ends and lie apart from where it is decoded to.\<close>

definition src_at :: "u32 \<Rightarrow> bytes \<Rightarrow> u32 \<Rightarrow> u32 \<Rightarrow> nat \<Rightarrow> ram \<Rightarrow> bool" where
  "src_at p bs p_end base room m \<longleftrightarrow> holds m p bs \<and> p_end = p + of_nat (length bs) \<and> unat p + length bs < 4294967296 \<and>
     (\<forall>i<length bs. \<forall>j<room. p + of_nat i \<noteq> base + of_nat j)"

lemma unat_plus_nat: "unat (p :: u32) + n < 4294967296 \<Longrightarrow> unat (p + of_nat n) = unat p + n"
  by (simp add: unat_word_ariths unsigned_of_nat take_bit_nat_def mod_simps)

lemma src_at_drop:
  assumes "src_at p (xs @ ys) p_end base room m"
  shows "src_at (p + of_nat (length xs)) ys p_end base room m"
proof -
  have "p + of_nat (length xs) + of_nat i \<noteq> base + of_nat j" if "i < length ys" "j < room" for i j
  proof -
    have "p + of_nat (length xs + i) \<noteq> base + of_nat j" using assms that by (simp add: src_at_def del: of_nat_add)
    then show ?thesis by (simp add: add.assoc)
  qed
  moreover have "unat (p + of_nat (length xs)) = unat p + length xs"
    using assms by (intro unat_plus_nat) (simp add: src_at_def)
  ultimately show ?thesis using assms by (auto simp: src_at_def holds_append add.assoc)
qed

lemma src_at_keep:
  assumes "src_at p bs p_end base room m" "untouched base lo hi m m'" "hi \<le> room"
  shows "src_at p bs p_end base room m'"
proof -
  have "m' (p + of_nat i) = m (p + of_nat i)" if "i < length bs" for i
    using assms that unfolding untouched_def src_at_def by (metis less_le_trans)
  then show ?thesis using assms(1) by (auto simp: src_at_def holds_def)
qed

lemma src_at_end: "src_at p bs p_end base room m \<Longrightarrow> p < p_end \<longleftrightarrow> bs \<noteq> []"
  using unat_plus_nat [of p "length bs"] by (auto simp: src_at_def word_less_nat_alt)

lemma ext_len_eq:
  assumes "holds m p (replicate k 255 @ of_nat r # bs)" "r < 255"
  shows "ext_len m p len = Some (p + of_nat (k + 1), len + of_nat (255 * k + r))"
  using assms(1)
proof (induction k arbitrary: p len)
  case 0
  have "(ucast (of_nat r :: u8) :: u32) = of_nat (unat (of_nat r :: u8))" by simp
  also have "\<dots> = of_nat r" by (simp only: last_ext(1) [OF assms(2)])
  finally show ?case using 0 last_ext(2) [OF assms(2)] by (subst ext_len.simps) (simp add: holds_Cons)
next
  case (Suc k)
  then show ?case by (subst ext_len.simps) (simp add: holds_Cons add.assoc)
qed

text \<open>The length that a nibble and its extension give.\<close>

lemma length_eq:
  assumes "holds m p (ext_bytes n @ bs)" "n < 4294967296" "w = of_nat (min 15 n)"
  shows "(if w = 0x0f then ext_len m p w else Some (p, w)) = Some (p + of_nat (length (ext_bytes n)), of_nat n)"
proof (cases "n < 15")
  case True
  then have "w \<noteq> 15" using assms(3) of_nat_u32_inj [of n 15] by (simp add: min_def)
  then show ?thesis using True assms(3) by (simp add: ext_bytes_less min_def)
next
  case False
  have n: "15 + (255 * ((n - 15) div 255) + (n - 15) mod 255) = n" using False by simp
  have "(15 :: u32) + of_nat (255 * ((n - 15) div 255) + (n - 15) mod 255) = of_nat n"
    by (metis n of_nat_add of_nat_numeral)
  then show ?thesis
    using False assms(1,3) ext_len_eq [of m p "(n - 15) div 255" "(n - 15) mod 255" bs w]
    by (simp add: ext_bytes_ge min_def)
qed

lemma lits_turn:
  assumes src: "src_at p (of_nat (16 * min 15 (length ls) + b) # ext_bytes (length ls) @ ls @ rest) p_end base room m"
    and b: "b \<le> 15" and h: "holds m base h" "length h + length ls \<le> room" "room < 4294967296"
  defines "tok \<equiv> of_nat (16 * min 15 (length ls) + b) :: u8"
  shows "\<exists>p' m'. src_at p' rest p_end base room m' \<and> holds m' base (h @ ls) \<and> untouched base (length h) (length h + length ls) m m' \<and>
    lz4_loop False t p p_end (base + of_nat (length h)) m =
      (if rest \<noteq> [] then lz4_loop True tok p' p_end (base + of_nat (length (h @ ls))) m' else Some m')"
proof -
  let ?n = "length ls"
  define p1 where "p1 = p + 1"
  define p2 where "p2 = p1 + of_nat (length (ext_bytes ?n))"
  define m' where "m' = copy_bytes ?n p2 (base + of_nat (length h)) m"
  have s1: "src_at p1 (ext_bytes ?n @ ls @ rest) p_end base room m"
    using src_at_drop [of p "[tok]" "ext_bytes ?n @ ls @ rest"] src by (simp add: tok_def p1_def)
  have s2: "src_at p2 (ls @ rest) p_end base room m" unfolding p2_def by (rule src_at_drop [OF s1])
  have lits: "holds m' base (h @ ls) \<and> untouched base (length h) (length h + ?n) m m'"
    unfolding m'_def
  proof (rule copy_lits [OF h(1)])
    show "holds m p2 ls" using s2 by (simp add: src_at_def holds_append)
    show "length h + ?n < 4294967296" using h(2,3) by simp
    show "p2 + of_nat i \<noteq> base + of_nat (length h + j)" if "i < ?n" "j < ?n" for i j
      using s2 that h(2) unfolding src_at_def by (metis add_less_cancel_left le_trans less_le_trans length_append trans_less_add1)
  qed
  have s3: "src_at (p2 + of_nat ?n) rest p_end base room m'"
    by (rule src_at_drop) (rule src_at_keep [OF s2 conjunct2 [OF lits] h(2)])
  have tok: "m p = tok" using src by (simp add: src_at_def holds_Cons tok_def)
  have nib: "(ucast (drop_bit 4 tok) :: u32) = of_nat (min 15 ?n)"
  proof -
    have "(ucast (drop_bit 4 tok) :: u32) = of_nat (unat (drop_bit 4 tok))" by simp
    then show ?thesis unfolding tok_def by (simp only: token_fields(1) [OF min.cobounded1 b])
  qed
  have len: "(if (of_nat (min 15 ?n) :: u32) = 0x0f then ext_len m p1 (of_nat (min 15 ?n)) else Some (p1, of_nat (min 15 ?n))) = Some (p2, of_nat ?n)"
    unfolding p2_def by (rule length_eq [of m p1 ?n "ls @ rest"]) (use s1 h in \<open>simp_all add: src_at_def\<close>)
  have n: "unat (of_nat ?n :: u32) = ?n" using h by (simp add: unsigned_of_nat take_bit_nat_eq_self_iff)
  have "lz4_loop False t p p_end (base + of_nat (length h)) m =
      (if p2 + of_nat ?n < p_end then lz4_loop True tok (p2 + of_nat ?n) p_end (base + of_nat (length h) + of_nat ?n) m' else Some m')"
    by (subst lz4_loop.simps)
      (simp only: Let_def if_False tok nib len Option.bind.simps prod.case n not_False_eq_True p1_def [symmetric] m'_def [symmetric])
  then show ?thesis using s3 lits src_at_end [OF s3] by (intro exI [of _ "p2 + of_nat ?n"] exI [of _ m']) (simp add: add.assoc)
qed

lemma match_turn:
  assumes src: "src_at p ([ucast (of_nat d :: u16), ucast (drop_bit 8 (of_nat d :: u16))] @ ext_bytes n @ rest) p_end base room m"
    and tok: "unat (tok AND 0x0f) = min 15 n" and d: "0 < d" "d < 65536" "d \<le> length h"
    and h: "holds m base h" "length h + (n + 4) \<le> room" "room < 4294967296"
  shows "\<exists>p' m'. src_at p' rest p_end base room m' \<and> holds m' base (expand d (n + 4) h) \<and>
    untouched base (length h) (length h + (n + 4)) m m' \<and>
    lz4_loop True tok p p_end (base + of_nat (length h)) m =
      (if rest \<noteq> [] then lz4_loop False tok p' p_end (base + of_nat (length (expand d (n + 4) h))) m' else Some m')"
proof -
  define p1 where "p1 = p + 2"
  define p2 where "p2 = p1 + of_nat (length (ext_bytes n))"
  define m' where "m' = copy_bytes (n + 4) (base + of_nat (length h) - of_nat d) (base + of_nat (length h)) m"
  have s1: "src_at p1 (ext_bytes n @ rest) p_end base room m"
    using src_at_drop [OF src] by (simp add: p1_def)
  have s2: "src_at p2 rest p_end base room m" unfolding p2_def by (rule src_at_drop [OF s1])
  have mt: "holds m' base (expand d (n + 4) h) \<and> untouched base (length h) (length h + (n + 4)) m m'"
    unfolding m'_def by (rule copy_match [OF h(1) d(1,3)]) (use h(2,3) in simp)
  have s3: "src_at p2 rest p_end base room m'" by (rule src_at_keep [OF s2 conjunct2 [OF mt] h(2)])
  have off: "(ucast (m p) OR push_bit 8 (ucast (m (p + 1))) :: u32) = of_nat d"
  proof -
    have "m p = ucast (of_nat d :: u16)" "m (p + 1) = ucast (drop_bit 8 (of_nat d :: u16))"
      using src by (simp_all add: src_at_def holds_Cons)
    then have "(ucast (m p) OR push_bit 8 (ucast (m (p + 1))) :: u32) = ucast (of_nat d :: u16)"
      using offset_u32 [of "of_nat d"] by simp
    also have "\<dots> = of_nat (unat (of_nat d :: u16))" by simp
    also have "unat (of_nat d :: u16) = d" using d(2) by (simp add: unsigned_of_nat take_bit_nat_eq_self_iff)
    finally show ?thesis .
  qed
  have nib: "(ucast (tok AND 0x0f) :: u32) = of_nat (min 15 n)"
  proof -
    have "(ucast (tok AND 0x0f) :: u32) = of_nat (unat (tok AND 0x0f))" by simp
    then show ?thesis by (simp only: tok)
  qed
  have len: "(if (of_nat (min 15 n) :: u32) = 0x0f then ext_len m p1 (of_nat (min 15 n)) else Some (p1, of_nat (min 15 n))) = Some (p2, of_nat n)"
    unfolding p2_def by (rule length_eq [of m p1 n rest]) (use s1 h in \<open>simp_all add: src_at_def\<close>)
  have n: "unat (of_nat n + 4 :: u32) = n + 4"
  proof -
    have "unat (of_nat (n + 4) :: u32) = n + 4" using h(2,3) by (simp only: unsigned_of_nat) (simp add: take_bit_nat_eq_self_iff)
    then show ?thesis by simp
  qed
  have "lz4_loop True tok p p_end (base + of_nat (length h)) m =
      (if p2 < p_end then lz4_loop False tok p2 p_end (base + of_nat (length h) + (of_nat n + 4)) m' else Some m')"
    by (subst lz4_loop.simps)
      (simp only: Let_def if_True off nib len Option.bind.simps prod.case n not_True_eq_False p1_def [symmetric] m'_def [symmetric])
  then show ?thesis using s3 mt src_at_end [OF s3] by (intro exI [of _ p2] exI [of _ m']) (simp add: add.assoc)
qed

lemma loop_seqs:
  assumes "src_at p (concat (map enc_seq qs) @ rest) p_end base room m" "rest \<noteq> []" "seqs_ok qs h" "holds m base h"
    "length (fold run_seq qs h) \<le> room" "room < 4294967296"
  shows "\<exists>p' m' t'. src_at p' rest p_end base room m' \<and> holds m' base (fold run_seq qs h) \<and>
    untouched base (length h) (length (fold run_seq qs h)) m m' \<and>
    lz4_loop False t p p_end (base + of_nat (length h)) m =
      lz4_loop False t' p' p_end (base + of_nat (length (fold run_seq qs h))) m'"
  using assms
proof (induction qs arbitrary: p m h t)
  case Nil
  then show ?case by (auto intro!: exI [of _ p] exI [of _ m] exI [of _ t])
next
  case (Cons q qs)
  let ?n = "mlen q - 4" and ?L = "length (lits q)"
  let ?tok = "of_nat (16 * min 15 ?L + min 15 ?n) :: u8"
  let ?mbytes = "[ucast (of_nat (off q) :: u16), ucast (drop_bit 8 (of_nat (off q) :: u16))] :: bytes"
  let ?more = "concat (map enc_seq qs) @ rest"
  have room: "length (run_seq q h) \<le> room" using Cons.prems(5) length_run_seqs [of "run_seq q h" qs] by simp
  have four: "?n + 4 = mlen q" using Cons.prems(3) by simp
  have src: "src_at p (?tok # ext_bytes ?L @ lits q @ ?mbytes @ ext_bytes ?n @ ?more) p_end base room m"
    using Cons.prems(1) by (simp add: enc_seq_def [of q])
  obtain p1 m1 where t1: "src_at p1 (?mbytes @ ext_bytes ?n @ ?more) p_end base room m1" "holds m1 base (h @ lits q)"
      "untouched base (length h) (length h + ?L) m m1"
      "lz4_loop False t p p_end (base + of_nat (length h)) m = lz4_loop True ?tok p1 p_end (base + of_nat (length (h @ lits q))) m1"
    using lits_turn [OF src _ Cons.prems(4) _ Cons.prems(6), of t] room by (auto simp: length_run_seq)
  have nib: "unat (?tok AND 0x0f) = min 15 ?n" by (rule token_fields(2)) simp_all
  obtain p2 m2 where t2: "src_at p2 ?more p_end base room m2" "holds m2 base (run_seq q h)"
      "untouched base (length (h @ lits q)) (length (run_seq q h)) m1 m2"
      "lz4_loop True ?tok p1 p_end (base + of_nat (length (h @ lits q))) m1 = lz4_loop False ?tok p2 p_end (base + of_nat (length (run_seq q h))) m2"
    using match_turn [OF t1(1) nib _ _ _ t1(2) _ Cons.prems(6)] Cons.prems(2,3) room four
    by (auto simp: run_seq_def add.assoc length_run_seq)
  obtain p3 m3 t3 where t3: "src_at p3 rest p_end base room m3" "holds m3 base (fold run_seq (q # qs) h)"
      "untouched base (length (run_seq q h)) (length (fold run_seq (q # qs) h)) m2 m3"
      "lz4_loop False ?tok p2 p_end (base + of_nat (length (run_seq q h))) m2 =
        lz4_loop False t3 p3 p_end (base + of_nat (length (fold run_seq (q # qs) h))) m3"
    using Cons.IH [OF t2(1) Cons.prems(2) _ t2(2) _ Cons.prems(6), of ?tok] Cons.prems(3,5) by auto
  have "untouched base (length h) (length (run_seq q h)) m m2"
    using untouched_trans [OF t1(3), of "length (run_seq q h)" m2] t2(3) by (simp add: length_run_seq)
  from untouched_trans [OF this t3(3)] have "untouched base (length h) (length (fold run_seq (q # qs) h)) m m3"
    using length_run_seqs [of "run_seq q h" qs] by (simp add: length_run_seq)
  then show ?case using t1(4) t2(4) t3 by metis
qed

lemma block_decodes:
  assumes "src_at p (enc_block b) p_end dest (length (dec_block b)) m" "seqs_ok (fst b) []" "length (dec_block b) < 4294967296"
  shows "\<exists>m'. lz4_decompress_block p p_end dest m = Some m' \<and> holds m' dest (dec_block b) \<and>
    untouched dest 0 (length (dec_block b)) m m'"
proof -
  let ?h = "fold run_seq (fst b) []" and ?ls = "snd b"
  let ?last = "of_nat (16 * min 15 (length ?ls)) # ext_bytes (length ?ls) @ ?ls"
  have len: "length (dec_block b) = length ?h + length ?ls" by (simp add: dec_block_def)
  obtain p1 m1 t1 where l: "src_at p1 ?last p_end dest (length (dec_block b)) m1" "holds m1 dest ?h"
      "untouched dest 0 (length ?h) m m1"
      "lz4_loop False 0 p p_end dest m = lz4_loop False t1 p1 p_end (dest + of_nat (length ?h)) m1"
    using loop_seqs [OF assms(1) [unfolded enc_block_def] _ assms(2) _ _ assms(3), of 0] len by auto
  obtain m2 where m2: "holds m2 dest (?h @ ?ls)" "untouched dest (length ?h) (length ?h + length ?ls) m1 m2"
      "lz4_loop False t1 p1 p_end (dest + of_nat (length ?h)) m1 = Some m2"
    using lits_turn [of p1 ?ls 0 "[]" p_end dest _ m1 ?h t1] l(1,2) len assms(3) by auto
  have "untouched dest 0 (length (dec_block b)) m m2" using untouched_trans [OF l(3) m2(2)] len by simp
  then show ?thesis using l(4) m2 by (simp add: lz4_decompress_block_def dec_block_def)
qed

section \<open>What the decoders promise\<close>

text \<open>A block in memory, apart from where it is decoded to and not at the very end of the address space.\<close>

definition block_at :: "u32 \<Rightarrow> u32 \<Rightarrow> lz_block \<Rightarrow> ram \<Rightarrow> bool" where
  "block_at p dest b m \<longleftrightarrow> holds m p (enc_block b) \<and> unat p + length (enc_block b) < 2 ^ 32 \<and>
     (\<forall>i<length (enc_block b). \<forall>j<length (dec_block b). p + of_nat i \<noteq> dest + of_nat j)"

text \<open>
  C21: The two decoders agree, and decode. On the encoding of any block whose matches reach back into what is decoded,
  the decoder of blocks in memory returns, the stream decoder, with or without its checks, accepts every byte and
  the end of the block, and both leave the same memory: the meaning of the block where it was to go, and every other
  byte as it was.
\<close>

theorem lz4_decoders_agree:
  assumes "block_at p dest b m" "seqs_ok (fst b) []" "length (dec_block b) < 2 ^ 32"
  shows "\<exists>m' s'. lz4_decompress_block p (p + of_nat (length (enc_block b))) dest m = Some m' \<and>
    feed_all trusted (enc_block b) (lz4StreamInit dest s) m = (LZ4S_OK, s', m') \<and>
    fst (lz4StreamEndBlock trusted s') = LZ4S_OK \<and> lz_out s' = dest + of_nat (length (dec_block b)) \<and>
    holds m' dest (dec_block b) \<and> untouched dest 0 (length (dec_block b)) m m'"
proof -
  have len: "length (dec_block b) < 4294967296" using assms(3) by simp
  have "src_at p (enc_block b) (p + of_nat (length (enc_block b))) dest (length (dec_block b)) m"
    using assms(1) by (simp add: block_at_def src_at_def)
  from block_decodes [OF this assms(2) len] obtain m1 where m1:
      "lz4_decompress_block p (p + of_nat (length (enc_block b))) dest m = Some m1" "holds m1 dest (dec_block b)"
      "untouched dest 0 (length (dec_block b)) m m1" by blast
  obtain s2 m2 where m2: "feed_all trusted (enc_block b) (lz4StreamInit dest s) m = (LZ4S_OK, s2, m2)"
      "holds m2 dest (dec_block b)" "lz_out s2 = dest + of_nat (length (dec_block b))"
      "fst (lz4StreamEndBlock trusted s2) = LZ4S_OK" "untouched dest 0 (length (dec_block b)) m m2"
    using stream_decodes [OF assms(2) len, of trusted dest s m] by blast
  have "m1 = m2"
  proof
    fix x
    show "m1 x = m2 x"
    proof (cases "\<exists>i<length (dec_block b). x = dest + of_nat i")
      case True
      then show ?thesis using m1(2) m2(2) by (auto simp: holds_def)
    next
      case False
      then show ?thesis using m1(3) m2(5) unfolding untouched_def by metis
    qed
  qed
  then show ?thesis using m1 m2 by blast
qed

text \<open>Three literals, a match of 20 bytes that overlaps itself, and two literals.\<close>

definition sample_block :: lz_block where
  "sample_block = ([\<lparr>lits = [97, 98, 99], off = 2, mlen = 20\<rparr>], [33, 34])"

definition sample_ram :: ram where
  "sample_ram = (\<lambda>a. if unat a < length (enc_block sample_block) then enc_block sample_block ! unat a else 0)"

lemma sample_enc: "enc_block sample_block = [63, 97, 98, 99, 2, 0, 1, 32, 33, 34]"
  by (simp add: enc_block_def enc_seq_def sample_block_def ext_bytes_def)

lemma sample_dec: "length (dec_block sample_block) = 25"
  by (simp add: dec_block_def sample_block_def length_run_seq)

theorem lz4_decoders_agree_witness:
  "\<exists>m'. lz4_decompress_block 0 10 4096 sample_ram = Some m' \<and> holds m' 4096 (dec_block sample_block)"
proof -
  have u: "unat (of_nat i :: u32) = i" if "i < 4294967296" for i using that by (simp add: unsigned_of_nat take_bit_nat_eq_self_iff)
  have "of_nat i \<noteq> (4096 :: u32) + of_nat j" if "i < 10" "j < 25" for i j
  proof -
    have "unat ((4096 :: u32) + of_nat j) = 4096 + j" using unat_plus_nat [of 4096 j] that by simp
    then show ?thesis using u [of i] that by auto
  qed
  moreover have "holds sample_ram 0 (enc_block sample_block)"
    using u by (auto simp: holds_def sample_ram_def sample_enc)
  ultimately have at: "block_at 0 4096 sample_block sample_ram"
    by (simp add: block_at_def sample_dec) (simp add: sample_enc)
  have "seqs_ok (fst sample_block) []" by (simp add: sample_block_def)
  from lz4_decoders_agree [OF at this, of True undefined] show ?thesis
    by (simp add: sample_dec sample_enc) blast
qed

end
