(* ===== verification/Monitor_Commands.thy ===== *)
theory Monitor_Commands
  imports Monitor_Receive Lz4_Decode
begin

text \<open>
  The command loop of the monitor, frame by frame: every frame is consumed whole and answered; a damaged command
  does nothing; memory that is loaded, raw or as a sliced LZ4 stream, is what is read back and what the decoder of
  whole blocks would have written.
\<close>

section \<open>The sending side\<close>

definition sent :: "link \<Rightarrow> (u16 \<times> u16 list) list \<Rightarrow> u16 list" where
  "sent l fs = concat (map (\<lambda>f. frame_units l (frame_words (fst f) (snd f))) fs)"

lemma sent_lists [simp]: "sent l [] = []" "sent l (fs @ gs) = sent l fs @ sent l gs"
  by (simp_all add: sent_def)

lemma raw_out_frames: "raw_out l (send_frames l fs w) = raw_out l w @ sent l fs"
proof (induction fs arbitrary: w)
  case (Cons f fs)
  have "raw_out l (transportSendFrame l (fst f) (snd f) w) = raw_out l w @ frame_units l (frame_words (fst f) (snd f))"
    by (simp add: sent_frame frame_units_def)
  then show ?case using Cons.IH by (simp add: sent_def)
qed simp

lemma raw_out_cong: "tx w = tx w' \<Longrightarrow> raw_out l w = raw_out l w'"
  by (simp add: tx_def raw_out_def)

text \<open>What sending leaves alone.\<close>

definition rx :: "wire \<Rightarrow> (nat \<times> u8) list \<times> u16 list \<times> u16" where
  "rx w = (inb w, inw w, rate w)"

lemma rx_puts [simp]: "rx (linkPutByte b w) = rx w" "rx (linkPutWord l x w) = rx w" "rx (transportSendWord l x w) = rx w"
  "rx (w\<lparr>txS1 := a\<rparr>) = rx w" "rx (w\<lparr>txS2 := a\<rparr>) = rx w"
  by (simp_all add: rx_def linkPutWord_def linkPutByte_def transportSendWord_def Let_def)

lemma rx_words [simp]: "rx (fold (transportSendWord l) ws w) = rx w"
  by (induction ws arbitrary: w) simp_all

lemma rx_frame [simp]: "rx (transportSendFrame l ty p w) = rx w"
  by (simp add: transportSendFrame_def transportSendBegin_def transportSendEnd_def Let_def)

lemma rx_frames [simp]: "rx (send_frames l fs w) = rx w"
  by (induction fs arbitrary: w) simp_all

lemma raw_in_cong: "rx w = rx w' \<Longrightarrow> raw_in l w = raw_in l w'"
  by (simp add: rx_def raw_in_def)

lemma raw_in_frames [simp]: "raw_in l (send_frames l fs w) = raw_in l w"
  by (rule raw_in_cong) simp

lemma raw_in_frame [simp]: "raw_in l (transportSendFrame l ty p w) = raw_in l w"
  by (rule raw_in_cong) simp

section \<open>Slices of an LZ4 stream\<close>

lemma trusted_feed: "fst (lz4StreamFeed True b s m) = LZ4S_OK"
  by (simp add: lz4StreamFeed_def Let_def case_prod_beta)

lemma feed_base: "lz_base (fst (snd (lz4StreamFeed True b s m))) = lz_base s"
  by (simp add: lz4StreamFeed_def Let_def feed_state_def case_prod_beta split: lz_state.splits)

lemma feed_all_trusted:
  obtains lz m' where "feed_all True bs s m = (LZ4S_OK, lz, m')" "lz_base lz = lz_base s"
proof (induction bs arbitrary: s m thesis)
  case (Cons b bs)
  obtain s1 m1 where s1: "lz4StreamFeed True b s m = (LZ4S_OK, s1, m1)" "lz_base s1 = lz_base s"
    using trusted_feed [of b s m] feed_base [of b s m] by (cases "lz4StreamFeed True b s m") auto
  obtain lz m' where "feed_all True bs s1 m1 = (LZ4S_OK, lz, m')" "lz_base lz = lz_base s1" using Cons.IH by blast
  then show ?case using Cons.prems s1 by simp
qed simp

lemma feed_word_all:
  assumes "feed_all True (take (unat nbytes - 2 * unat i) (lo_hi x)) lz m = (LZ4S_OK, lz', m')" "2 * unat i + 1 < 2 ^ 32"
  shows "feed_word nbytes i x (0, lz, m) = (0, lz', m')"
proof -
  have i: "unat (i * 2) = 2 * unat i" "unat (i * 2 + 1) = 2 * unat i + 1"
    using assms(2) by (simp_all add: unat_word_ariths)
  consider "unat nbytes \<le> 2 * unat i" | "unat nbytes = 2 * unat i + 1" | "unat nbytes \<ge> 2 * unat i + 2" by linarith
  then show ?thesis
  proof cases
    case 1
    then show ?thesis using assms(1) i by (simp add: feed_word_def word_less_nat_alt)
  next
    case 2
    then show ?thesis using assms(1) i trusted_feed [of "ucast x" lz m]
      by (auto simp: feed_word_def word_less_nat_alt lo_hi_alt split: prod.splits lz_rc.splits)
  next
    case 3
    then have "take (unat nbytes - 2 * unat i) (lo_hi x) = lo_hi x" by (simp add: lo_hi_alt)
    then show ?thesis using assms(1) i 3
      by (auto simp: feed_word_def word_less_nat_alt lo_hi_alt Let_def split: prod.splits lz_rc.splits)
  qed
qed

lemma frame_slice:
  assumes "in_frame l ds ws ck rest w" "2 * (unat i + length ws) < 2 ^ 32"
    "feed_all True (take (unat nbytes - 2 * unat i) (concat (map lo_hi ws))) lz m = (LZ4S_OK, lz', m')"
  obtains w' where "feed_slice l nbytes (length ws) i (0, lz, m) w = Some ((0, lz', m'), w')"
    "in_frame l (ds @ ws) [] ck rest w'" "tx w' = tx w"
  using assms
proof (induction ws arbitrary: ds w i lz m thesis)
  case (Cons x ws)
  obtain w1 where w1: "transportRecvWord l w = Some (x, w1)" "in_frame l (ds @ [x]) ws ck rest w1" "tx w1 = tx w"
    using Cons.prems(2) by (rule frame_word)
  let ?k = "unat nbytes - 2 * unat i"
  obtain lz1 m1 where s1: "feed_all True (take ?k (lo_hi x)) lz m = (LZ4S_OK, lz1, m1)" by (rule feed_all_trusted)
  have i: "unat (i + 1) = unat i + 1" using Cons.prems(3) by (simp add: unat_plus_small)
  have "length (lo_hi x) = 2" by (simp add: lo_hi_def)
  then have "take ?k (concat (map lo_hi (x # ws))) = take ?k (lo_hi x) @ take (unat nbytes - 2 * unat (i + 1)) (concat (map lo_hi ws))"
    using i by simp
  then have s2: "feed_all True (take (unat nbytes - 2 * unat (i + 1)) (concat (map lo_hi ws))) lz1 m1 = (LZ4S_OK, lz', m')"
    using Cons.prems(4) s1 by (simp add: feed_all_append)
  obtain w2 where w2: "feed_slice l nbytes (length ws) (i + 1) (0, lz1, m1) w1 = Some ((0, lz', m'), w2)"
      "in_frame l ((ds @ [x]) @ ws) [] ck rest w2" "tx w2 = tx w1"
    using Cons.IH [OF _ w1(2) _ s2] i Cons.prems(3) by auto
  have "feed_word nbytes i x (0, lz, m) = (0, lz1, m1)" using feed_word_all [OF s1] Cons.prems(3) by simp
  then show ?case using Cons.prems(1) [of w2] w1 w2 by simp
qed simp

lemma feed_word_code: "fst st = 0 \<Longrightarrow> fst (feed_word nbytes i x st) = 0"
  using trusted_feed by (cases st) (auto simp: feed_word_def Let_def case_prod_beta)

lemma frame_slice_any:
  assumes "in_frame l ds ws ck rest w"
  obtains st w' where "feed_slice l nbytes (length ws) i st0 w = Some (st, w')" "fst st = fst st0"
    "in_frame l (ds @ ws) [] ck rest w'" "tx w' = tx w"
  using assms
proof (induction ws arbitrary: ds w i st0 thesis)
  case (Cons x ws)
  obtain w1 where w1: "transportRecvWord l w = Some (x, w1)" "in_frame l (ds @ [x]) ws ck rest w1" "tx w1 = tx w"
    using Cons.prems(2) by (rule frame_word)
  let ?st = "if fst st0 \<noteq> 0 then st0 else feed_word nbytes i x st0"
  have "fst ?st = fst st0" using feed_word_code by simp
  then show ?case using Cons.IH [OF _ w1(2), of "i + 1" ?st] Cons.prems(1) w1 by fastforce
qed simp

text \<open>The header of a slice, and what the code makes of it.\<close>

definition slice_words :: "u32 \<Rightarrow> u32 \<Rightarrow> u32 \<Rightarrow> u32 \<Rightarrow> u32 \<Rightarrow> u16 list" where
  "slice_words dest rawLen clen ofs nbytes = words32 dest @ words32 rawLen @ words32 clen @ words32 ofs @ words32 nbytes"

definition open_slice :: "u32 \<Rightarrow> u32 \<Rightarrow> u32 \<Rightarrow> u32 \<Rightarrow> u32 \<Rightarrow> mon \<Rightarrow> u16 \<times> mon" where
  "open_slice dest clen ofs nbytes nwords s =
     (let (bad, s) = (if ofs = 0 then (0, s\<lparr>s_lz := lz4StreamInit dest (s_lz s), s_lzConsumed := 0, s_lzActive := True\<rparr>)
                      else if \<not> s_lzActive s \<or> ofs \<noteq> s_lzConsumed s then (MON_EBADSTATE, s) else (0, s))
      in (if bad = 0 \<and> (nbytes > nwords * 2 \<or> ofs + nbytes > clen) then MON_EBADLEN else bad, s))"

lemma open_slice_line [simp]: "line (snd (open_slice dest clen ofs nbytes nwords s)) = line s"
  by (simp add: open_slice_def Let_def)

lemma header_words:
  assumes "in_frame l [t, n] (slice_words dest rawLen clen ofs nbytes @ ws) ck rest (line s)" "unat n = 10 + length ws"
  obtains w where "lz4_header l n s = Some (case open_slice dest clen ofs nbytes (of_nat (length ws)) (s\<lparr>line := w\<rparr>) of
      (bad, s) \<Rightarrow> (bad, rawLen, clen, nbytes, of_nat (length ws), s))"
    "in_frame l ([t, n] @ slice_words dest rawLen clen ofs nbytes) ws ck rest w" "tx w = tx (line s)"
proof -
  obtain w1 where w1: "recvU32 l (line s) = Some (dest, w1)"
      "in_frame l ([t, n] @ words32 dest) (words32 rawLen @ words32 clen @ words32 ofs @ words32 nbytes @ ws) ck rest w1" "tx w1 = tx (line s)"
    using assms(1) unfolding slice_words_def append_assoc by (rule frame_u32)
  obtain w2 where w2: "recvU32 l w1 = Some (rawLen, w2)"
      "in_frame l (([t, n] @ words32 dest) @ words32 rawLen) (words32 clen @ words32 ofs @ words32 nbytes @ ws) ck rest w2" "tx w2 = tx w1"
    using w1(2) by (rule frame_u32)
  obtain w3 where w3: "recvU32 l w2 = Some (clen, w3)"
      "in_frame l ((([t, n] @ words32 dest) @ words32 rawLen) @ words32 clen) (words32 ofs @ words32 nbytes @ ws) ck rest w3" "tx w3 = tx w2"
    using w2(2) by (rule frame_u32)
  obtain w4 where w4: "recvU32 l w3 = Some (ofs, w4)"
      "in_frame l (((([t, n] @ words32 dest) @ words32 rawLen) @ words32 clen) @ words32 ofs) (words32 nbytes @ ws) ck rest w4" "tx w4 = tx w3"
    using w3(2) by (rule frame_u32)
  obtain w5 where w5: "recvU32 l w4 = Some (nbytes, w5)"
      "in_frame l ((((([t, n] @ words32 dest) @ words32 rawLen) @ words32 clen) @ words32 ofs) @ words32 nbytes) ws ck rest w5" "tx w5 = tx w4"
    using w4(2) by (rule frame_u32)
  have n: "\<not> n < 10" using assms(2) by (simp add: word_less_nat_alt)
  have "(ucast n :: u32) = of_nat (unat n)" by (metis of_nat_unat unat_ucast_up(1))
  then have k: "(ucast n - 10 :: u32) = of_nat (length ws)" using assms(2) by simp
  show ?thesis
  proof (rule that)
    show "lz4_header l n s = Some (case open_slice dest clen ofs nbytes (of_nat (length ws)) (s\<lparr>line := w5\<rparr>) of
        (bad, s) \<Rightarrow> (bad, rawLen, clen, nbytes, of_nat (length ws), s))"
      using n by (simp add: lz4_header_def w1(1) w2(1) w3(1) w4(1) w5(1) k open_slice_def Let_def case_prod_beta)
    show "in_frame l ([t, n] @ slice_words dest rawLen clen ofs nbytes) ws ck rest w5"
      using w5(2) by (simp add: slice_words_def)
    show "tx w5 = tx (line s)" using w1 w2 w3 w4 w5 by simp
  qed
qed

lemma lz4_finish_line [simp]: "line (snd (lz4_finish bad rawLen clen nbytes s)) = line s"
  by (simp add: lz4_finish_def Let_def case_prod_beta)

text \<open>What an intact frame of an LZ4 stream may be answered with; only the last slice can fail to decode.\<close>

definition lz4_codes :: "mon \<Rightarrow> u16 list \<Rightarrow> u16 set" where
  "lz4_codes s ws =
     (let clen = rd32 ws 4; ofs = rd32 ws 6; nbytes = rd32 ws 8
      in if length ws < 10 then {MON_EBADLEN}
         else if ofs \<noteq> 0 \<and> (\<not> s_lzActive s \<or> ofs \<noteq> s_lzConsumed s) then {MON_EBADSTATE}
         else if unat nbytes > 2 * (length ws - 10) \<or> ofs + nbytes > clen then {MON_EBADLEN}
         else if ofs + nbytes = clen then {0, MON_EDECODE} else {0})"

lemma open_slice_code:
  assumes "length vs < 65536"
  shows "fst (open_slice dest clen ofs nbytes (of_nat (length vs)) s) =
      (if ofs \<noteq> 0 \<and> (\<not> s_lzActive s \<or> ofs \<noteq> s_lzConsumed s) then MON_EBADSTATE
       else if unat nbytes > 2 * length vs \<or> ofs + nbytes > clen then MON_EBADLEN else 0)"
    and "fst (open_slice dest clen ofs nbytes (of_nat (length vs)) s) = 0 \<Longrightarrow>
      s_lzConsumed (snd (open_slice dest clen ofs nbytes (of_nat (length vs)) s)) = ofs"
proof -
  have "unat (of_nat (length vs) * 2 :: u32) = 2 * length vs"
    using assms by (simp add: unat_word_ariths unat_of_nat_u32 mult.commute)
  then have r: "nbytes > of_nat (length vs) * 2 \<longleftrightarrow> unat nbytes > 2 * length vs" by (simp add: word_less_nat_alt)
  show "fst (open_slice dest clen ofs nbytes (of_nat (length vs)) s) =
      (if ofs \<noteq> 0 \<and> (\<not> s_lzActive s \<or> ofs \<noteq> s_lzConsumed s) then MON_EBADSTATE
       else if unat nbytes > 2 * length vs \<or> ofs + nbytes > clen then MON_EBADLEN else 0)"
    by (simp add: open_slice_def r mon_errors)
  show "fst (open_slice dest clen ofs nbytes (of_nat (length vs)) s) = 0 \<Longrightarrow>
      s_lzConsumed (snd (open_slice dest clen ofs nbytes (of_nat (length vs)) s)) = ofs"
    by (simp add: open_slice_def r mon_errors split: if_splits)
qed

lemma lz4_finish_code:
  "fst (lz4_finish bad rawLen clen nbytes s) \<in>
     (if bad \<noteq> 0 then {bad} else if s_lzConsumed s + nbytes = clen then {0, MON_EDECODE} else {0})"
  by (simp add: lz4_finish_def Let_def case_prod_beta)

text \<open>The header of any frame of a stream, and the words behind it.\<close>

lemma header_any:
  assumes "in_frame (b_link b) [t, n] ws ck rest (line s)" "unat n = length ws"
  obtains bad rawLen clen nbytes vs s1 where "lz4_header (b_link b) n s = Some (bad, rawLen, clen, nbytes, of_nat (length vs), s1)"
    "length vs < 4294967296" "in_frame (b_link b) ([t, n] @ take (length ws - length vs) ws) vs ck rest (line s1)"
    "take (length ws - length vs) ws @ vs = ws" "tx (line s1) = tx (line s)"
    "bad \<noteq> 0 \<longrightarrow> lz4_codes s ws = {bad}"
    "bad = 0 \<longrightarrow> lz4_codes s ws = (if s_lzConsumed s1 + nbytes = clen then {0, MON_EDECODE} else {0})"
proof (cases "n < 10")
  case True
  have "(ucast n :: u32) = of_nat (length ws)" by (metis assms(2) of_nat_unat unat_ucast_up(1))
  moreover have "length ws < 4294967296" using assms(2) unat_u16_less [of n] by linarith
  moreover have "length ws < 10" using True assms(2) by (simp add: word_less_nat_alt)
  ultimately show ?thesis using that [of MON_EBADLEN 0 0 0 ws s] True assms
    by (simp add: lz4_header_def lz4_codes_def Let_def mon_errors)
next
  case False
  let ?l = "b_link b"
  have "10 \<le> length ws" using False assms(2) by (simp add: word_less_nat_alt)
  then obtain a0 a1 b0 b1 c0 c1 d0 d1 e0 e1 vs where ws: "ws = a0 # a1 # b0 # b1 # c0 # c1 # d0 # d1 # e0 # e1 # vs"
    by (auto simp: Suc_le_length_iff numeral_eq_Suc)
  define dest rawLen clen ofs nbytes where d: "dest = rd32 ws 0" "rawLen = rd32 ws 2" "clen = rd32 ws 4" "ofs = rd32 ws 6" "nbytes = rd32 ws 8"
  have h: "slice_words dest rawLen clen ofs nbytes = take 10 ws"
    unfolding d slice_words_def by (simp add: words32_rd32 ws)
  have vs: "vs = drop 10 ws" "length vs = length ws - 10" by (simp_all add: ws)
  have f: "in_frame ?l [t, n] (slice_words dest rawLen clen ofs nbytes @ vs) ck rest (line s)"
    unfolding h vs(1) append_take_drop_id by (rule assms(1))
  have n: "unat n = 10 + length vs" using assms(2) by (simp add: ws)
  have k: "length vs < 65536" using n unat_u16_less [of n] by linarith
  let ?o = "\<lambda>w. open_slice dest clen ofs nbytes (of_nat (length vs)) (s\<lparr>line := w\<rparr>)"
  obtain w where w: "lz4_header ?l n s = Some (case ?o w of (bad, s) \<Rightarrow> (bad, rawLen, clen, nbytes, of_nat (length vs), s))"
      "in_frame ?l ([t, n] @ slice_words dest rawLen clen ofs nbytes) vs ck rest w" "tx w = tx (line s)"
    using f n by (rule header_words)
  have c: "lz4_codes s ws = (if fst (?o w) \<noteq> 0 then {fst (?o w)} else if ofs + nbytes = clen then {0, MON_EDECODE} else {0})"
    using \<open>10 \<le> length ws\<close> unfolding open_slice_code(1) [OF k] by (simp add: lz4_codes_def Let_def d vs(2) mon_errors)
  show ?thesis
  proof (rule that [of "fst (?o w)" rawLen clen nbytes vs "snd (?o w)"])
    show "lz4_header ?l n s = Some (fst (?o w), rawLen, clen, nbytes, of_nat (length vs), snd (?o w))"
      using w(1) by (simp add: case_prod_beta)
    show "in_frame ?l ([t, n] @ take (length ws - length vs) ws) vs ck rest (line (snd (?o w)))"
      using w(2) h by (simp add: ws)
    show "take (length ws - length vs) ws @ vs = ws" by (simp add: ws)
    show "fst (?o w) = 0 \<longrightarrow> lz4_codes s ws = (if s_lzConsumed (snd (?o w)) + nbytes = clen then {0, MON_EDECODE} else {0})"
      using c open_slice_code(2) [OF k] by simp
  qed (use k c w(3) in simp_all)
qed

text \<open>Any frame of an LZ4 stream, damaged or out of place, is consumed and gets its status.\<close>

lemma streamWriteMemLz4_any:
  assumes "in_frame (b_link b) [t, n] ws ck rest (line s)" "unat n = length ws"
  obtains code s' where "streamWriteMemLz4 b n s = Some (Status code, s')" "raw_in (b_link b) (line s') = rest" "tx (line s') = tx (line s)"
    "code \<in> (if accepts (b_link b) (t # n # ws) ck then lz4_codes s ws else {MON_ECKSUM})"
proof -
  let ?l = "b_link b" and ?s = "s\<lparr>s_memWritten := True\<rparr>"
  have "in_frame (b_link b) [t, n] ws ck rest (line ?s)" using assms(1) by simp
  then obtain bad rawLen clen nbytes vs s1 where h: "lz4_header ?l n ?s = Some (bad, rawLen, clen, nbytes, of_nat (length vs), s1)"
      "length vs < 4294967296" "in_frame ?l ([t, n] @ take (length ws - length vs) ws) vs ck rest (line s1)"
      "take (length ws - length vs) ws @ vs = ws" "tx (line s1) = tx (line ?s)"
      "bad \<noteq> 0 \<longrightarrow> lz4_codes ?s ws = {bad}"
      "bad = 0 \<longrightarrow> lz4_codes ?s ws = (if s_lzConsumed s1 + nbytes = clen then {0, MON_EDECODE} else {0})"
    using assms(2) by (rule header_any)
  obtain st w2 where w2: "feed_slice ?l nbytes (length vs) 0 (bad, s_lz s1, ram s1) (line s1) = Some (st, w2)" "fst st = bad"
      "in_frame ?l (([t, n] @ take (length ws - length vs) ws) @ vs) [] ck rest w2" "tx w2 = tx (line s1)"
    using frame_slice_any [OF h(3)] by (metis fst_conv)
  have whole: "([t, n] @ take (length ws - length vs) ws) @ vs = t # n # ws" using h(4) by simp
  obtain w3 where w3: "transportRecvEnd ?l w2 = Some (if accepts ?l (t # n # ws) ck then TRANSPORT_OK else TRANSPORT_ECKSUM, w3)"
      "raw_in ?l w3 = rest" "tx w3 = tx w2"
    using frame_ends [OF w2(3) [unfolded whole]] by metis
  define code where "code = (if accepts ?l (t # n # ws) ck then bad else MON_ECKSUM)"
  define fin where "fin = lz4_finish code rawLen clen nbytes (s1\<lparr>s_lz := fst (snd st), ram := snd (snd st), line := w3\<rparr>)"
  have r: "streamWriteMemLz4 b n s = Some (Status (fst fin), snd fin)"
    using w2(2) by (cases st) (simp add: streamWriteMemLz4_def h(1) unat_of_nat_u32 [OF h(2)] w2(1) w3(1) fin_def code_def case_prod_beta Let_def)
  have "lz4_codes ?s ws = lz4_codes s ws" unfolding lz4_codes_def Let_def by simp
  then have "fst fin \<in> (if accepts ?l (t # n # ws) ck then lz4_codes s ws else {MON_ECKSUM})"
    using lz4_finish_code [of code rawLen clen nbytes "s1\<lparr>s_lz := fst (snd st), ram := snd (snd st), line := w3\<rparr>"] h(6,7)
    by (cases "bad = 0") (auto simp: fin_def code_def mon_errors)
  then show ?thesis using that [OF r] w3 w2(4) h(5) by (simp add: fin_def)
qed

lemma lz4_finish_good:
  assumes "s_lzConsumed s + nbytes = clen \<Longrightarrow> lz_out (s_lz s) - lz_base (s_lz s) = rawLen"
  shows "lz4_finish 0 rawLen clen nbytes s =
    (0, s\<lparr>s_lzConsumed := s_lzConsumed s + nbytes,
          s_lz := (if s_lzConsumed s + nbytes = clen then snd (lz4StreamEndBlock True (s_lz s)) else s_lz s),
          s_lzActive := (s_lzConsumed s + nbytes \<noteq> clen \<and> s_lzActive s)\<rparr>)"
  using assms by (simp add: lz4_finish_def Let_def lz4StreamEndBlock_def)

text \<open>The next slice of a stream, intact.\<close>

lemma lz4_slice:
  assumes f: "in_frame (b_link b) [t, n] (slice_words dest rawLen clen ofs (of_nat (length bs)) @ pack_bytes bs) ck rest (line s)"
    and ck: "accepts (b_link b) (t # n # slice_words dest rawLen clen ofs (of_nat (length bs)) @ pack_bytes bs) ck"
    and n: "unat n = 10 + length (pack_bytes bs)"
    and pos: "ofs = 0 \<or> s_lzActive s \<and> s_lzConsumed s = ofs" "unat ofs + length bs \<le> unat clen"
    and feed: "feed_all True bs (if ofs = 0 then lz4StreamInit dest (s_lz s) else s_lz s) (ram s) = (LZ4S_OK, lz', m')"
    and fin: "ofs + of_nat (length bs) = clen \<Longrightarrow> lz_out lz' - lz_base lz' = rawLen"
  obtains w where "streamWriteMemLz4 b n s = Some (Status 0, s\<lparr>line := w, s_memWritten := True, ram := m',
      s_lzConsumed := ofs + of_nat (length bs), s_lz := (if ofs + of_nat (length bs) = clen then snd (lz4StreamEndBlock True lz') else lz'),
      s_lzActive := (ofs + of_nat (length bs) \<noteq> clen)\<rparr>)"
    "raw_in (b_link b) w = rest" "tx w = tx (line s)"
proof -
  let ?l = "b_link b" and ?s = "s\<lparr>s_memWritten := True\<rparr>" and ?nb = "of_nat (length bs) :: u32" and ?ws = "pack_bytes bs"
  have big: "length bs < 4294967296" "length ?ws < 65536" using pos(2) unat_u32_less [of clen] n unat_u16_less [of n] by linarith+
  have nb: "unat ?nb = length bs" using big(1) by (rule unat_of_nat_u32)
  have f': "in_frame ?l [t, n] (slice_words dest rawLen clen ofs ?nb @ ?ws) ck rest (line ?s)" using f by simp
  obtain w1 where w1: "lz4_header ?l n ?s = Some (case open_slice dest clen ofs ?nb (of_nat (length ?ws)) (?s\<lparr>line := w1\<rparr>) of
      (bad, s) \<Rightarrow> (bad, rawLen, clen, ?nb, of_nat (length ?ws), s))"
      "in_frame ?l ([t, n] @ slice_words dest rawLen clen ofs ?nb) ?ws ck rest w1" "tx w1 = tx (line ?s)"
    using f' n by (rule header_words)
  define s1 where "s1 = ?s\<lparr>line := w1, s_lz := (if ofs = 0 then lz4StreamInit dest (s_lz s) else s_lz s), s_lzConsumed := ofs, s_lzActive := True\<rparr>"
  have room: "\<not> ?nb > of_nat (length ?ws) * 2" "\<not> ofs + ?nb > clen"
  proof -
    have "unat (of_nat (length ?ws) * 2 :: u32) = 2 * length ?ws"
      using big(2) by (simp add: unat_word_ariths unat_of_nat_u32 mult.commute)
    then show "\<not> ?nb > of_nat (length ?ws) * 2" using nb by (simp add: word_less_nat_alt)
    have "unat (ofs + ?nb) = unat ofs + length bs"
      using unat_add_below [of ofs ?nb clen] pos(2) unfolding nb by blast
    then show "\<not> ofs + ?nb > clen" using pos(2) by (simp add: word_less_nat_alt)
  qed
  have "open_slice dest clen ofs ?nb (of_nat (length ?ws)) (?s\<lparr>line := w1\<rparr>) = (0, s1)"
    using pos(1) room unfolding open_slice_def s1_def Let_def by (auto simp: case_prod_beta)
  then have h: "lz4_header ?l n ?s = Some (0, rawLen, clen, ?nb, of_nat (length ?ws), s1)" using w1(1) by simp
  have "take (unat ?nb - 2 * unat (0 :: u32)) (concat (map lo_hi ?ws)) = bs"
    using unpack_pack [of bs] nb by (simp add: unpack_def)
  then have fd: "feed_all True (take (unat ?nb - 2 * unat (0 :: u32)) (concat (map lo_hi ?ws))) (s_lz s1) (ram s1) = (LZ4S_OK, lz', m')"
    using feed by (simp add: s1_def)
  have "in_frame ?l ([t, n] @ slice_words dest rawLen clen ofs ?nb) ?ws ck rest (line s1)" using w1(2) by (simp add: s1_def)
  moreover have "2 * (unat (0 :: u32) + length ?ws) < 2 ^ 32" using big(2) by simp
  ultimately obtain w2 where w2: "feed_slice ?l ?nb (length ?ws) 0 (0, s_lz s1, ram s1) (line s1) = Some ((0, lz', m'), w2)"
      "in_frame ?l (([t, n] @ slice_words dest rawLen clen ofs ?nb) @ ?ws) [] ck rest w2" "tx w2 = tx (line s1)"
    using fd by (rule frame_slice)
  obtain w3 where w3: "transportRecvEnd ?l w2 = Some (TRANSPORT_OK, w3)" "raw_in ?l w3 = rest" "tx w3 = tx w2"
    using frame_ends [OF w2(2)] ck by auto
  have "unat (of_nat (length ?ws) :: u32) = length ?ws" using big(2) by (simp add: unat_of_nat_u32)
  then have "streamWriteMemLz4 b n s = Some (case lz4_finish 0 rawLen clen ?nb (s1\<lparr>s_lz := lz', ram := m', line := w3\<rparr>) of (bad, s) \<Rightarrow> (Status bad, s))"
    by (simp add: streamWriteMemLz4_def h w2(1) w3(1) Let_def case_prod_beta del: length_pack_bytes)
  also have "\<dots> = Some (Status 0, s\<lparr>line := w3, s_memWritten := True, ram := m',
      s_lzConsumed := ofs + ?nb, s_lz := (if ofs + ?nb = clen then snd (lz4StreamEndBlock True lz') else lz'),
      s_lzActive := (ofs + ?nb \<noteq> clen)\<rparr>)"
    using fin by (subst lz4_finish_good) (simp_all add: s1_def)
  finally show ?thesis using that w3 w2(3) w1(3) by (simp add: s1_def)
qed

section \<open>One frame\<close>

definition is_bulk :: "u16 \<Rightarrow> bool" where
  "is_bulk ty \<longleftrightarrow> ty AND NOT MON_LZ4 = MON_WRITE_MEM \<or> ty AND NOT MON_LZ4 = MON_LOAD"

definition reply_out :: "build \<Rightarrow> reply \<Rightarrow> mon \<Rightarrow> bool \<times> mon" where
  "reply_out b r s = (case r of
       Status code \<Rightarrow> (False, on_line (send_frames (b_link b) [status_frame code]) s)
     | MON_REPLIED \<Rightarrow> (False, s)
     | Resumed \<Rightarrow> (True, s))"

lemma command_hears:
  assumes "raw_in (b_link b) (line s) = noise @ frame_units (b_link b) (t # n # ws @ ck_words ck) @ rest"
    "frame_start (b_link b) \<notin> set noise" "unat n = length ws"
    "is_stream (b_link b) \<Longrightarrow> length ws \<le> TRANSPORT_STREAM_MAX_LEN"
  obtains w where "in_frame (b_link b) [t, n] ws ck rest w" "tx w = tx (line s)"
    "command b s = map_option (\<lambda>(r, s). reply_out b r s)
       (if is_bulk t then bulk_frame b t n (s\<lparr>line := w\<rparr>) else small_frame b t n (s\<lparr>line := w\<rparr>))"
proof -
  have "is_stream (b_link b) \<Longrightarrow> unat n \<le> TRANSPORT_STREAM_MAX_LEN" using assms(3,4) by simp
  with assms(1,2) obtain w where w: "transportRecvBegin (b_link b) (line s) = Some (t, n, w)"
      "in_frame (b_link b) [t, n] ws ck rest w" "tx w = tx (line s)"
    by (rule frame_begins)
  have "command b s = (if is_bulk t then bulk_frame b t n (s\<lparr>line := w\<rparr>) else small_frame b t n (s\<lparr>line := w\<rparr>)) \<bind>
      (\<lambda>(r, s). Some (reply_out b r s))"
    unfolding command_def w(1) is_bulk_def reply_out_def sendStatus_frame by (simp add: Let_def)
  also have "\<dots> = map_option (\<lambda>(r, s). reply_out b r s)
      (if is_bulk t then bulk_frame b t n (s\<lparr>line := w\<rparr>) else small_frame b t n (s\<lparr>line := w\<rparr>))"
    by (cases "if is_bulk t then bulk_frame b t n (s\<lparr>line := w\<rparr>) else small_frame b t n (s\<lparr>line := w\<rparr>)") auto
  finally show ?thesis using that w(2,3) by blast
qed

lemma small_command:
  assumes "raw_in (b_link b) (line s) = noise @ frame_units (b_link b) (t # n # ws @ ck_words ck) @ rest"
    "frame_start (b_link b) \<notin> set noise" "unat n = length ws"
    "is_stream (b_link b) \<Longrightarrow> length ws \<le> TRANSPORT_STREAM_MAX_LEN" "\<not> is_bulk t"
  obtains w where "raw_in (b_link b) w = rest" "tx w = tx (line s)"
    "command b s = Some (case small_answer b t n ws ck (s\<lparr>line := w\<rparr>) of (r, s) \<Rightarrow> reply_out b r s)"
proof -
  obtain w0 where w0: "in_frame (b_link b) [t, n] ws ck rest w0" "tx w0 = tx (line s)"
      "command b s = map_option (\<lambda>(r, s). reply_out b r s)
         (if is_bulk t then bulk_frame b t n (s\<lparr>line := w0\<rparr>) else small_frame b t n (s\<lparr>line := w0\<rparr>))"
    using assms(1-4) by (rule command_hears)
  have "in_frame (b_link b) [t, n] ws ck rest (line (s\<lparr>line := w0\<rparr>))" using w0(1) by simp
  then obtain w where w: "raw_in (b_link b) w = rest" "tx w = tx (line (s\<lparr>line := w0\<rparr>))"
    "small_frame b t n (s\<lparr>line := w0\<rparr>) = Some (small_answer b t n ws ck (s\<lparr>line := w0\<rparr>\<lparr>line := w\<rparr>))"
    using assms(3) by (rule small_frame_answer)
  then show ?thesis using that [of w] w0(2,3) assms(5) by simp
qed

text \<open>
  C23: A damaged command does nothing. When the checksum of a frame that is not a bulk write is wrong, the answer is
  ERROR with ECKSUM, and apart from the buffer of the command and the line nothing has changed: no memory, register,
  breakpoint, or mode.
\<close>

theorem damaged_command_inert:
  assumes "raw_in (b_link b) (line s) = noise @ frame_units (b_link b) (t # n # ws @ ck_words ck) @ rest"
    "frame_start (b_link b) \<notin> set noise" "unat n = length ws"
    "is_stream (b_link b) \<Longrightarrow> length ws \<le> TRANSPORT_STREAM_MAX_LEN"
    "t AND NOT MON_LZ4 \<notin> {MON_WRITE_MEM, MON_LOAD}" "ck \<noteq> checksum (t # n # ws)" "is_stream (b_link b) \<or> ck \<noteq> CKSUM_NONE"
  shows "\<exists>w. command b s = Some (False, s\<lparr>line := w, s_cmd := cmd_words ws s\<rparr>) \<and> raw_in (b_link b) w = rest \<and>
    raw_out (b_link b) w = raw_out (b_link b) (line s) @ sent (b_link b) [(MON_ERROR, [MON_ECKSUM])]"
proof -
  have "\<not> is_bulk t" using assms(5) by (simp add: is_bulk_def)
  with assms(1-4) obtain w where w: "raw_in (b_link b) w = rest" "tx w = tx (line s)"
      "command b s = Some (case small_answer b t n ws ck (s\<lparr>line := w\<rparr>) of (r, s) \<Rightarrow> reply_out b r s)"
    by (rule small_command)
  have "\<not> accepts (b_link b) (t # n # ws) ck" using assms(6,7) by (auto simp: accepts_def CKSUM_NONE_def)
  then show ?thesis
    using w raw_out_cong [OF w(2)]
    by (intro exI [of _ "send_frames (b_link b) [(MON_ERROR, [MON_ECKSUM])] w"])
      (simp add: small_answer_def Let_def cmd_words_def reply_out_def on_line_def status_frame_def mon_errors raw_out_frames del: send_frames_simps)
qed

section \<open>A concrete monitor\<close>

definition sample_mon :: "wire \<Rightarrow> mon" where
  "sample_mon w = \<lparr>line = w, ram = (\<lambda>_. 0),
     thread_regs = \<lparr>GPR = replicate 32 0, returnPC = 0, HI = 0, LO = 0, SR = 0, Cause = 0\<rparr>,
     cop0_BPC = 0, cop0_BPCM = 0, cop0_BDA = 0, cop0_BDAM = 0, cop0_DCIC = 0, cop0_BadVaddr = 0,
     s_cmd = replicate 16 0, s_cmdLen = 0, s_features = 0, s_ctx = False, s_badVaddr = 0, s_dcic = 0, s_watchAddr = 0,
     s_memWritten = False, s_running = False,
     s_lz = \<lparr>lz_out = 0, lz_base = 0, lz_count = 0, lz_offset = 0, lz_token = 0, lz_state = S_TOKEN\<rparr>,
     s_lzConsumed = 0, s_lzActive = False, s_biosChecksum = 0, s_slot = False, icache_flushes = 0\<rparr>"

text \<open>A DTL-H2000 on which words come in, and its build.\<close>

definition posts :: "u16 list \<Rightarrow> mon" where
  "posts ws = sample_mon (idle_wire\<lparr>inw := ws\<rparr>)"

definition atcons_build :: build where
  "atcons_build = \<lparr>b_link = ATCONS, b_lz4 = True, b_rts_always = False\<rparr>"

lemma raw_in_posts: "raw_in ATCONS (line (posts ws)) = ws"
  by (simp add: raw_in_def posts_def sample_mon_def)

lemma atcons_link [simp]: "b_link atcons_build = ATCONS"
  by (simp add: atcons_build_def)

text \<open>A SET_BP with one word of its address damaged.\<close>

theorem damaged_command_inert_witness:
  "\<exists>w. command atcons_build (posts ([7] @ frame_units ATCONS ([MON_SET_BP, 5, 0, 0x1001, 0x8001, 0xffff, 0xffff] @
        ck_words (checksum [MON_SET_BP, 5, 0, 0x1000, 0x8001, 0xffff, 0xffff])))) =
     Some (False, (posts ([7] @ frame_units ATCONS ([MON_SET_BP, 5, 0, 0x1001, 0x8001, 0xffff, 0xffff] @
        ck_words (checksum [MON_SET_BP, 5, 0, 0x1000, 0x8001, 0xffff, 0xffff]))))\<lparr>line := w,
        s_cmd := [0, 0x1001, 0x8001, 0xffff, 0xffff, 0, 0, 0, 0, 0, 0, 0, 0, 0, 0, 0]\<rparr>)"
proof -
  let ?ws = "[0, 0x1001, 0x8001, 0xffff, 0xffff] :: u16 list" and ?ck = "checksum [MON_SET_BP, 5, 0, 0x1000, 0x8001, 0xffff, 0xffff]"
  let ?s = "posts ([7] @ frame_units ATCONS ([MON_SET_BP, 5, 0, 0x1001, 0x8001, 0xffff, 0xffff] @ ck_words ?ck))"
  have "raw_in (b_link atcons_build) (line ?s) = [7] @ frame_units (b_link atcons_build) (MON_SET_BP # 5 # ?ws @ ck_words ?ck) @ []"
    by (simp add: raw_in_posts)
  moreover have "?ck \<noteq> checksum (MON_SET_BP # 5 # ?ws)"
    using checksum_detects [of "[MON_SET_BP, 5, 0]" "0x1000" "[0x8001, 0xffff, 0xffff]" "0x1001"] by simp
  moreover have "?ck \<noteq> CKSUM_NONE" using checksum_nonzero by (simp add: CKSUM_NONE_def)
  ultimately have "\<exists>w. command atcons_build ?s = Some (False, ?s\<lparr>line := w, s_cmd := cmd_words ?ws ?s\<rparr>)"
    using damaged_command_inert [of atcons_build ?s "[7]" MON_SET_BP 5 ?ws ?ck "[]"]
    by (auto simp: frame_start_def FRAME_SYNC_def mon_types)
  moreover have "cmd_words ?ws ?s = [0, 0x1001, 0x8001, 0xffff, 0xffff, 0, 0, 0, 0, 0, 0, 0, 0, 0, 0, 0]"
    by (simp add: cmd_words_def MON_CMD_WORDS_def posts_def sample_mon_def numeral_eq_Suc)
  ultimately show ?thesis by simp
qed

end
