(* ===== verification/Monitor_Protocol.thy ===== *)
theory Monitor_Protocol
  imports Monitor_Commands
begin

text \<open>
  What the host can rely on: memory that is loaded is memory that is read, and every frame gets exactly the frames that
  are due to it.
\<close>

section \<open>Several frames\<close>

text \<open>A number of frames, or fewer when one of them runs the target.\<close>

fun run_commands :: "build \<Rightarrow> nat \<Rightarrow> mon \<Rightarrow> (bool \<times> mon) option" where
  "run_commands b 0 s = Some (False, s)"
| "run_commands b (Suc n) s = do { (r, s) \<leftarrow> command b s; if r then Some (True, s) else run_commands b n s }"

lemma run_commands_loop: "run_commands b n s = Some (True, s') \<Longrightarrow> monitorCommandLoop b s = Some s'"
proof (induction n arbitrary: s)
  case (Suc n)
  then obtain r s1 where "command b s = Some (r, s1)" "(if r then Some (True, s1) else run_commands b n s1) = Some (True, s')"
    by (auto simp: bind_eq_Some_conv)
  then show ?case using Suc.IH [of s1] by (subst monitorCommandLoop.simps) (simp split: if_splits)
qed simp

lemma run_commands_add:
  "run_commands b m s = Some (False, s1) \<Longrightarrow> run_commands b (m + n) s = run_commands b n s1"
proof (induction m arbitrary: s)
  case (Suc m)
  then obtain s2 where "command b s = Some (False, s2)" "run_commands b m s2 = Some (False, s1)"
    by (auto simp: bind_eq_Some_conv split: if_splits)
  then show ?case using Suc.IH by simp
qed simp

lemma sent_Cons:
  "sent l ((t, ws) # fs) = frame_units l (t # of_nat (length ws) # ws @ ck_words (checksum (t # of_nat (length ws) # ws))) @ sent l fs"
  by (simp add: sent_def frame_words_def frame_body_def)

lemma accepts_intact [simp]: "accepts l ds (checksum ds)"
  by (simp add: accepts_def)

lemma unat_of_nat_u16: "n < 65536 \<Longrightarrow> unat (of_nat n :: u16) = n"
  by (simp add: unsigned_of_nat take_bit_nat_eq_self_iff)

text \<open>An intact small command, and an intact bulk write.\<close>

lemma intact_command:
  assumes "raw_in (b_link b) (line s) = sent (b_link b) ((t, ws) # fs) @ rest" "length ws \<le> MON_CMD_WORDS" "\<not> is_bulk t"
  obtains w where "raw_in (b_link b) w = sent (b_link b) fs @ rest" "tx w = tx (line s)"
    "command b s = Some (case dispatchCommand b t (cmd_words ws s) (s\<lparr>line := w, s_cmd := cmd_words ws s, s_cmdLen := of_nat (length ws)\<rparr>) of (r, s) \<Rightarrow> reply_out b r s)"
proof -
  let ?n = "of_nat (length ws) :: u16"
  have n: "unat ?n = length ws" using assms(2) by (intro unat_of_nat_u16) (simp add: MON_CMD_WORDS_def)
  have "raw_in (b_link b) (line s) = [] @ frame_units (b_link b) (t # ?n # ws @ ck_words (checksum (t # ?n # ws))) @ (sent (b_link b) fs @ rest)"
    using assms(1) by (simp add: sent_Cons)
  moreover have "frame_start (b_link b) \<notin> set []" by simp
  moreover note n
  moreover have "length ws \<le> TRANSPORT_STREAM_MAX_LEN" using assms(2) by (simp add: MON_CMD_WORDS_def TRANSPORT_STREAM_MAX_LEN_def)
  ultimately obtain w where w: "raw_in (b_link b) w = sent (b_link b) fs @ rest" "tx w = tx (line s)"
      "command b s = Some (case small_answer b t ?n ws (checksum (t # ?n # ws)) (s\<lparr>line := w\<rparr>) of (r, s) \<Rightarrow> reply_out b r s)"
    using assms(3) by (rule small_command) auto
  show ?thesis
    using that [of w] w assms(2) by (simp add: small_answer_def Let_def cmd_words_def)
qed

lemma intact_bulk:
  assumes "raw_in (b_link b) (line s) = sent (b_link b) ((t, ws) # fs) @ rest" "length ws \<le> TRANSPORT_STREAM_MAX_LEN" "is_bulk t"
  obtains w where "in_frame (b_link b) [t, of_nat (length ws)] ws (checksum (t # of_nat (length ws) # ws)) (sent (b_link b) fs @ rest) w"
    "tx w = tx (line s)" "unat (of_nat (length ws) :: u16) = length ws"
    "command b s = map_option (\<lambda>(r, s). reply_out b r s) (bulk_frame b t (of_nat (length ws)) (s\<lparr>line := w\<rparr>))"
proof -
  let ?n = "of_nat (length ws) :: u16"
  have n: "unat ?n = length ws" using assms(2) by (intro unat_of_nat_u16) (simp add: TRANSPORT_STREAM_MAX_LEN_def)
  have "raw_in (b_link b) (line s) = [] @ frame_units (b_link b) (t # ?n # ws @ ck_words (checksum (t # ?n # ws))) @ (sent (b_link b) fs @ rest)"
    using assms(1) by (simp add: sent_Cons)
  moreover have "frame_start (b_link b) \<notin> set []" by simp
  ultimately obtain w where w: "in_frame (b_link b) [t, ?n] ws (checksum (t # ?n # ws)) (sent (b_link b) fs @ rest) w" "tx w = tx (line s)"
    "command b s = map_option (\<lambda>(r, s). reply_out b r s)
       (if is_bulk t then bulk_frame b t ?n (s\<lparr>line := w\<rparr>) else small_frame b t ?n (s\<lparr>line := w\<rparr>))"
    using n assms(2) by (rule command_hears)
  then show ?thesis using that n assms(3) by simp
qed

lemma bulk_types:
  "is_bulk MON_LOAD" "is_bulk MON_WRITE_MEM" "is_bulk (MON_LOAD OR MON_LZ4)" "is_bulk (MON_WRITE_MEM OR MON_LZ4)" "\<not> is_bulk MON_READ_MEM"
  "MON_LOAD AND MON_LZ4 = 0" "MON_WRITE_MEM AND MON_LZ4 = 0" "(MON_LOAD OR MON_LZ4) AND MON_LZ4 \<noteq> 0" "(MON_WRITE_MEM OR MON_LZ4) AND MON_LZ4 \<noteq> 0"
  by (simp_all add: is_bulk_def mon_types)

section \<open>Loading and reading memory\<close>

lemma write_bytes_other:
  "(\<And>i. i < length bs \<Longrightarrow> x \<noteq> a + of_nat i) \<Longrightarrow> write_bytes m a bs x = m x"
proof (induction bs arbitrary: m a)
  case (Cons c bs)
  have "x \<noteq> a" using Cons.prems [of 0] by simp
  have "x \<noteq> a + 1 + of_nat i" if "i < length bs" for i
    using Cons.prems [of "Suc i"] that by (simp add: add.assoc)
  then have "write_bytes (m(a := c)) (a + 1) bs x = (m(a := c)) x" by (rule Cons.IH)
  then show ?case using \<open>x \<noteq> a\<close> by simp
qed simp

lemma mem_bytes_write: "unat a + length bs < 2 ^ 32 \<Longrightarrow> mem_bytes (write_bytes m a bs) a (length bs) = bs"
proof (induction bs arbitrary: m a)
  case (Cons c bs)
  have b: "unat a + Suc (length bs) < 4294967296" using Cons.prems by simp
  then have "unat (a + 1) = unat a + 1" using unat_plus_small [of a 1] by simp
  then have IH: "mem_bytes (write_bytes (m(a := c)) (a + 1) bs) (a + 1) (length bs) = bs"
    using Cons.IH b by simp
  have "a \<noteq> a + 1 + of_nat i" if "i < length bs" for i
  proof
    assume "a = a + 1 + of_nat i"
    then have "(of_nat (Suc i) :: u32) = 0" by (simp add: add.assoc)
    then have "unat (of_nat (Suc i) :: u32) = 0" by (metis unat_0)
    moreover have "Suc i < 4294967296" using that b by simp
    ultimately show False using unat_of_nat_u32 [of "Suc i"] by simp
  qed
  then have "write_bytes (m(a := c)) (a + 1) bs a = c" by (subst write_bytes_other) auto
  then show ?case using IH by (simp add: mem_bytes_cons)
qed (simp add: mem_bytes_def)

text \<open>A write and a read of memory, as frames of a session.\<close>

lemma write_command:
  assumes "raw_in (b_link b) (line s) = sent (b_link b) ((t, words32 a @ words32 (of_nat (length bs)) @ pack_bytes bs) # fs) @ rest"
    "t \<in> {MON_LOAD, MON_WRITE_MEM}" "length bs \<le> 8192" "unat a + length bs < 2 ^ 32 - 1"
  obtains w where "command b s = Some (False, s\<lparr>s_memWritten := True, ram := write_bytes (ram s) a bs, line := w\<rparr>)"
    "raw_in (b_link b) w = sent (b_link b) fs @ rest" "raw_out (b_link b) w = raw_out (b_link b) (line s) @ sent (b_link b) [(MON_ACK, [])]"
proof -
  let ?l = "b_link b" and ?k = "of_nat (length bs) :: u32"
  let ?ws = "words32 a @ words32 ?k @ pack_bytes bs"
  have k: "unat ?k = length bs" using assms(3) by (simp add: unat_of_nat_u32)
  have t: "is_bulk t" "t AND MON_LZ4 = 0" using assms(2) bulk_types by auto
  have "length ?ws \<le> TRANSPORT_STREAM_MAX_LEN" using assms(3) by (simp add: TRANSPORT_STREAM_MAX_LEN_def)
  with assms(1) obtain w1 where w1: "in_frame ?l [t, of_nat (length ?ws)] ?ws (checksum (t # of_nat (length ?ws) # ?ws)) (sent ?l fs @ rest) w1"
    "tx w1 = tx (line s)" "unat (of_nat (length ?ws) :: u16) = length ?ws"
    "command b s = map_option (\<lambda>(r, s). reply_out b r s) (bulk_frame b t (of_nat (length ?ws)) (s\<lparr>line := w1\<rparr>))"
    using t(1) by (rule intact_bulk)
  have f: "in_frame ?l [t, of_nat (length ?ws)] ?ws (checksum (t # of_nat (length ?ws) # ?ws)) (sent ?l fs @ rest) (line (s\<lparr>line := w1\<rparr>))"
    using w1(1) by simp
  have len: "unat (of_nat (length ?ws) :: u16) = 4 + length (pack_bytes bs)" using w1(3) by simp
  have top: "unat a + 2 * length (pack_bytes bs) < 2 ^ 32" using assms(4) by simp
  obtain w2 where w2: "streamWriteMem b (of_nat (length ?ws)) (s\<lparr>line := w1\<rparr>) =
      Some (Status (if accepts ?l (t # of_nat (length ?ws) # ?ws) (checksum (t # of_nat (length ?ws) # ?ws)) then 0 else MON_ECKSUM),
      (s\<lparr>line := w1\<rparr>)\<lparr>s_memWritten := True, ram := write_bytes (ram (s\<lparr>line := w1\<rparr>)) a (unpack (unat ?k) (pack_bytes bs)), line := w2\<rparr>)"
      "raw_in ?l w2 = sent ?l fs @ rest" "tx w2 = tx (line (s\<lparr>line := w1\<rparr>))"
    using f len top by (rule streamWriteMem_frame)
  show ?thesis
  proof (rule that)
    show "command b s = Some (False, s\<lparr>s_memWritten := True, ram := write_bytes (ram s) a bs, line := send_frames ?l [(MON_ACK, [])] w2\<rparr>)"
      unfolding w1(4) bulk_frame_def t(2) using w2(1) unpack_pack [of bs]
      by (simp add: reply_out_def on_line_def status_frame_def k)
    show "raw_in ?l (send_frames ?l [(MON_ACK, [])] w2) = sent ?l fs @ rest" using w2(2) by simp
    show "raw_out ?l (send_frames ?l [(MON_ACK, [])] w2) = raw_out ?l (line s) @ sent ?l [(MON_ACK, [])]"
      using raw_out_cong [OF w2(3)] raw_out_cong [OF w1(2)] by (simp add: raw_out_frames del: send_frames_simps)
  qed
qed

lemma read_command:
  assumes "raw_in (b_link b) (line s) = sent (b_link b) ((MON_READ_MEM, words32 a @ words32 (of_nat n)) # fs) @ rest" "unat a + n < 2 ^ 32"
  obtains w p k where "command b s = Some (False, s\<lparr>line := w, s_cmd := p, s_cmdLen := k\<rparr>)" "raw_in (b_link b) w = sent (b_link b) fs @ rest"
    "raw_out (b_link b) w = raw_out (b_link b) (line s) @ sent (b_link b) (data_frames (ram s) a n)"
proof -
  let ?l = "b_link b" and ?ps = "words32 a @ words32 (of_nat n)" and ?fs = "data_frames (ram s) a n"
  have n: "unat (of_nat n :: u32) = n" using assms(2) by (simp add: unat_of_nat_u32)
  have "length ?ps \<le> MON_CMD_WORDS" by (simp add: MON_CMD_WORDS_def)
  with assms(1) obtain w where w: "raw_in ?l w = sent ?l fs @ rest" "tx w = tx (line s)"
    "command b s = Some (case dispatchCommand b MON_READ_MEM (cmd_words ?ps s) (s\<lparr>line := w, s_cmd := cmd_words ?ps s, s_cmdLen := of_nat (length ?ps)\<rparr>) of (r, s) \<Rightarrow> reply_out b r s)"
    using bulk_types(5) by (rule intact_command)
  have cw: "rd32 (cmd_words ?ps s) 0 = a" "rd32 (cmd_words ?ps s) 2 = of_nat n"
    using rd32_words32 [of a "words32 (of_nat n) @ drop 4 (s_cmd s)"] rd32_words32 [of "of_nat n" "drop 4 (s_cmd s)"]
    by (simp_all add: cmd_words_def MON_CMD_WORDS_def words32_def rd32_def)
  have rd: "read_chunks ?l (ram s) a (of_nat n) 0 w = send_frames ?l ?fs w" for w
    using read_chunks_frames [of a "of_nat n" 0 ?l "ram s" w] assms(2) by (simp add: n)
  show ?thesis
  proof (rule that)
    show "command b s = Some (False, s\<lparr>line := send_frames ?l ?fs w, s_cmd := cmd_words ?ps s, s_cmdLen := of_nat (length ?ps)\<rparr>)"
      unfolding w(3) by (simp add: dispatchCommand_def mon_types cmdReadMem_def cw rd reply_out_def on_line_def)
  qed (use w(1) raw_out_cong [OF w(2)] in \<open>simp_all add: raw_out_frames\<close>)
qed

text \<open>
  C24: What is loaded is what is read. After a LOAD of at most 8192 bytes anywhere below the top of the address space,
  a READ_MEM of the same range is answered, after the ACK of the load, with DATA frames whose bytes are the ones
  loaded; outside the range memory is as it was, and the instruction cache will be flushed before the target runs.
\<close>

theorem memory_roundtrip:
  assumes "raw_in (b_link b) (line s) = sent (b_link b)
      [(MON_LOAD, words32 a @ words32 (of_nat (length bs)) @ pack_bytes bs), (MON_READ_MEM, words32 a @ words32 (of_nat (length bs)))] @ rest"
    "length bs \<le> 8192" "unat a + length bs < 2 ^ 32 - 1"
  shows "\<exists>s' fs. run_commands b 2 s = Some (False, s') \<and> raw_in (b_link b) (line s') = rest \<and>
    raw_out (b_link b) (line s') = raw_out (b_link b) (line s) @ sent (b_link b) ((MON_ACK, []) # fs) \<and>
    (\<forall>f\<in>set fs. fst f = MON_DATA) \<and> concat (map frame_data fs) = bs \<and>
    (\<forall>x. (\<forall>i<length bs. x \<noteq> a + of_nat i) \<longrightarrow> ram s' x = ram s x) \<and> s_memWritten s'"
proof -
  let ?l = "b_link b" and ?read = "(MON_READ_MEM, words32 a @ words32 (of_nat (length bs)))"
  define m where "m = write_bytes (ram s) a bs"
  have "MON_LOAD \<in> {MON_LOAD, MON_WRITE_MEM}" by simp
  with assms(1) obtain w1 where w1: "command b s = Some (False, s\<lparr>s_memWritten := True, ram := m, line := w1\<rparr>)"
      "raw_in ?l w1 = sent ?l [?read] @ rest" "raw_out ?l w1 = raw_out ?l (line s) @ sent ?l [(MON_ACK, [])]"
    unfolding m_def using assms(2,3) by (rule write_command)
  define s2 where "s2 = s\<lparr>s_memWritten := True, ram := m, line := w1\<rparr>"
  have s2: "line s2 = w1" "ram s2 = m" "s_memWritten s2" by (simp_all add: s2_def)
  have "raw_in ?l (line s2) = sent ?l [?read] @ rest" "unat a + length bs < 2 ^ 32" using w1(2) s2(1) assms(3) by simp_all
  then obtain w p k where w: "command b s2 = Some (False, s2\<lparr>line := w, s_cmd := p, s_cmdLen := k\<rparr>)" "raw_in ?l w = sent ?l [] @ rest"
      "raw_out ?l w = raw_out ?l (line s2) @ sent ?l (data_frames (ram s2) a (length bs))"
    by (rule read_command)
  have "run_commands b 2 s = Some (False, s2\<lparr>line := w, s_cmd := p, s_cmdLen := k\<rparr>)"
    using w1(1) w(1) by (simp add: numeral_2_eq_2 s2_def)
  moreover have "concat (map frame_data (data_frames m a (length bs))) = bs"
    unfolding data_frames_bytes m_def using mem_bytes_write assms(3) by simp
  moreover have "raw_out ?l w = raw_out ?l (line s) @ sent ?l ((MON_ACK, []) # data_frames m a (length bs))"
    using w(3) w1(3) s2 by (simp add: sent_def)
  moreover have "m x = ram s x" if "\<forall>i<length bs. x \<noteq> a + of_nat i" for x
    using write_bytes_other [of bs x a "ram s"] that by (simp add: m_def)
  ultimately show ?thesis using w(2) s2 data_frames_types [of m a "length bs"]
    by (intro exI [of _ "s2\<lparr>line := w, s_cmd := p, s_cmdLen := k\<rparr>"] exI [of _ "data_frames m a (length bs)"]) simp
qed

section \<open>Every frame is answered\<close>

text \<open>
  What the host is owed for a frame. A command of at most 16 words is answered from its words \<open>p\<close>, behind which the
  buffer keeps what an earlier command left, and from the state; a bulk write is answered with one status.
\<close>

definition command_code :: "u16 \<Rightarrow> u16 list \<Rightarrow> mon \<Rightarrow> u16" where
  "command_code t p s =
     (if t = MON_SET_REG then (if p ! 0 > 37 then MON_EBADREG else if \<not> s_ctx s then MON_EBADSTATE else 0)
      else if t = MON_SET_BP then (if p ! 0 \<le> 3 then 0 else MON_EBADCMD)
      else if t = MON_CLR_BP \<or> t = MON_RUN then 0
      else if t = MON_CONT then (if s_ctx s then 0 else MON_EBADSTATE)
      else if t = MON_SET_BAUD \<and> p ! 0 = 0 then MON_EBADLEN
      else MON_EBADCMD)"

definition command_reply :: "build \<Rightarrow> u16 \<Rightarrow> u16 list \<Rightarrow> mon \<Rightarrow> (u16 \<times> u16 list) list" where
  "command_reply b t p s =
     (if t = MON_STOP then []
      else if t = MON_PING then [(MON_PONG, identity_words b s)]
      else if t = MON_READ_MEM then data_frames (ram s) (rd32 p 0) (unat (rd32 p 2))
      else if t = MON_GET_REGS then [(MON_REGS, concat (map (\<lambda>i. words32 (reported_reg s i)) [0..<38]))]
      else [status_frame (command_code t p s)])"

definition takes_lz4 :: "build \<Rightarrow> mon \<Rightarrow> bool" where
  "takes_lz4 b s \<longleftrightarrow> b_lz4 b \<and> (b_rts_always b \<and> transportHasRate (b_link b) \<longrightarrow> rate (line s) \<ge> MONITOR_LZ4_MIN_RELOAD)"

definition bulk_codes :: "build \<Rightarrow> u16 \<Rightarrow> u16 list \<Rightarrow> bool \<Rightarrow> mon \<Rightarrow> u16 set" where
  "bulk_codes b t ws intact s =
     (if t AND MON_LZ4 \<noteq> 0 then (if \<not> takes_lz4 b s then {MON_EBADCMD} else if intact then lz4_codes s ws else {MON_ECKSUM})
      else if length ws < 4 then {MON_EBADLEN} else if intact then {0} else {MON_ECKSUM})"

definition reply_due :: "build \<Rightarrow> u16 \<Rightarrow> u16 list \<Rightarrow> bool \<Rightarrow> mon \<Rightarrow> (u16 \<times> u16 list) list \<Rightarrow> bool" where
  "reply_due b t ws intact s fs \<longleftrightarrow>
     (if is_bulk t then fs \<in> (\<lambda>code. [status_frame code]) ` bulk_codes b t ws intact s
      else fs = (if \<not> intact then [status_frame MON_ECKSUM] else if length ws > MON_CMD_WORDS then [status_frame MON_EBADLEN]
                 else command_reply b t (cmd_words ws s) s))"

text \<open>The frames that end the halt.\<close>

definition runs_target :: "u16 \<Rightarrow> u16 list \<Rightarrow> bool \<Rightarrow> mon \<Rightarrow> bool" where
  "runs_target t ws intact s \<longleftrightarrow> intact \<and> length ws \<le> MON_CMD_WORDS \<and> (t = MON_RUN \<or> t = MON_CONT \<and> s_ctx s)"

text \<open>
  What is left out: a range to read or write that wraps around the address space, which the code's pointers do not
  survive, and a SET_BAUD that changes the rate, which goes on to read a frame at the new rate.
\<close>

definition no_wrap :: "u16 \<Rightarrow> u16 list \<Rightarrow> mon \<Rightarrow> bool" where
  "no_wrap t ws s \<longleftrightarrow>
     (t = MON_READ_MEM \<longrightarrow> unat (rd32 (cmd_words ws s) 0) + unat (rd32 (cmd_words ws s) 2) < 2 ^ 32) \<and>
     (t \<in> {MON_WRITE_MEM, MON_LOAD} \<and> 4 \<le> length ws \<longrightarrow> unat (rd32 ws 0) + 2 * (length ws - 4) < 2 ^ 32)"

definition keeps_rate :: "build \<Rightarrow> u16 \<Rightarrow> u16 list \<Rightarrow> mon \<Rightarrow> bool" where
  "keeps_rate b t ws s \<longleftrightarrow> (t = MON_SET_BAUD \<longrightarrow> cmd_words ws s ! 0 = 0 \<or> \<not> transportHasRate (b_link b))"

definition gives :: "build \<Rightarrow> mon \<Rightarrow> u16 list \<Rightarrow> (u16 \<times> u16 list) list \<Rightarrow> bool \<Rightarrow> bool \<times> mon \<Rightarrow> bool" where
  "gives b s rest fs resumed rs \<longleftrightarrow> fst rs = resumed \<and> raw_in (b_link b) (line (snd rs)) = rest \<and>
     raw_out (b_link b) (line (snd rs)) = raw_out (b_link b) (line s) @ sent (b_link b) fs"

lemma gives_frames:
  assumes "raw_in (b_link b) (line s1) = rest" "tx (line s1) = tx (line s)"
    "line (snd rs) = send_frames (b_link b) fs (line s1)" "fst rs = resumed"
  shows "gives b s rest fs resumed rs"
  using assms raw_out_cong [OF assms(2)] by (auto simp: gives_def raw_out_frames)

lemma gives_status:
  assumes "raw_in (b_link b) (line s1) = rest" "tx (line s1) = tx (line s)"
  shows "gives b s rest [status_frame code] False (reply_out b (Status code) s1)"
  using assms by (intro gives_frames [OF assms]) (simp_all add: reply_out_def on_line_def)

lemma monitorResume_line [simp]: "line (monitorResume s) = line s"
  by (simp add: monitorResume_def Let_def)

lemma set_slot_line [simp]: "line (set_slot r v s) = line s"
  by (cases r) simp_all

lemma rate_tx: "tx w = tx w' \<Longrightarrow> rate w = rate w'"
  by (simp add: tx_def)

lemma bulk_answered:
  assumes "in_frame (b_link b) [t, n] ws ck rest (line s)" "unat n = length ws" "is_bulk t" "no_wrap t ws s"
  obtains code s1 where "bulk_frame b t n s = Some (Status code, s1)" "raw_in (b_link b) (line s1) = rest" "tx (line s1) = tx (line s)"
    "code \<in> bulk_codes b t ws (accepts (b_link b) (t # n # ws) ck) s"
proof -
  have "takes_lz4 b s \<longleftrightarrow> b_lz4 b \<and> \<not> (b_rts_always b \<and> transportHasRate (b_link b) \<and> linkGetRate (line s) < MONITOR_LZ4_MIN_RELOAD)"
    by (auto simp: takes_lz4_def linkGetRate_def)
  then have bf: "bulk_frame b t n s = (if t AND MON_LZ4 = 0 then streamWriteMem b n s else if takes_lz4 b s then streamWriteMemLz4 b n s
      else do { w \<leftarrow> drain_frame (b_link b) n (line s); Some (Status MON_EBADCMD, s\<lparr>line := w\<rparr>) })"
    by (simp only: bulk_frame_def)
  consider "t AND MON_LZ4 = 0" "length ws < 4" | "t AND MON_LZ4 = 0" "4 \<le> length ws"
    | "t AND MON_LZ4 \<noteq> 0" "takes_lz4 b s" | "t AND MON_LZ4 \<noteq> 0" "\<not> takes_lz4 b s"
    by linarith
  then show ?thesis
  proof cases
    case 1
    obtain w where "streamWriteMem b n s = Some (Status MON_EBADLEN, s\<lparr>line := w\<rparr>)" "raw_in (b_link b) w = rest" "tx w = tx (line s)"
      using assms(1,2) 1(2) by (rule streamWriteMem_short)
    then show ?thesis using 1 that [of MON_EBADLEN "s\<lparr>line := w\<rparr>"] by (simp add: bf bulk_codes_def)
  next
    case 2
    then obtain a0 a1 b0 b1 vs where ws: "ws = a0 # a1 # b0 # b1 # vs" by (auto simp: Suc_le_length_iff numeral_eq_Suc)
    have dec: "ws = words32 (rd32 ws 0) @ words32 (rd32 ws 2) @ vs" by (simp add: words32_rd32 ws)
    have "t AND NOT MON_LZ4 = t" using 2(1) by (auto simp: bit_eq_iff bit_simps)
    then have "t \<in> {MON_WRITE_MEM, MON_LOAD}" using assms(3) by (auto simp: is_bulk_def)
    then have top: "unat (rd32 ws 0) + 2 * length vs < 2 ^ 32" using assms(4) 2(2) by (simp add: no_wrap_def ws)
    have f: "in_frame (b_link b) [t, n] (words32 (rd32 ws 0) @ words32 (rd32 ws 2) @ vs) ck rest (line s)" using assms(1) dec by metis
    have n: "unat n = 4 + length vs" using assms(2) ws by simp
    obtain w where w: "streamWriteMem b n s =
          Some (Status (if accepts (b_link b) (t # n # words32 (rd32 ws 0) @ words32 (rd32 ws 2) @ vs) ck then 0 else MON_ECKSUM),
          s\<lparr>s_memWritten := True, ram := write_bytes (ram s) (rd32 ws 0) (unpack (unat (rd32 ws 2)) vs), line := w\<rparr>)"
        "raw_in (b_link b) w = rest" "tx w = tx (line s)"
      using f n top by (rule streamWriteMem_frame)
    show ?thesis
    proof (rule that)
      show "bulk_frame b t n s = Some (Status (if accepts (b_link b) (t # n # ws) ck then 0 else MON_ECKSUM),
          s\<lparr>s_memWritten := True, ram := write_bytes (ram s) (rd32 ws 0) (unpack (unat (rd32 ws 2)) vs), line := w\<rparr>)"
        using 2(1) w(1) unfolding dec [symmetric] by (simp add: bf)
    qed (use 2 w(2,3) in \<open>simp_all add: bulk_codes_def\<close>)
  next
    case 3
    obtain code s1 where "streamWriteMemLz4 b n s = Some (Status code, s1)" "raw_in (b_link b) (line s1) = rest" "tx (line s1) = tx (line s)"
        "code \<in> (if accepts (b_link b) (t # n # ws) ck then lz4_codes s ws else {MON_ECKSUM})"
      using assms(1,2) by (rule streamWriteMemLz4_any)
    then show ?thesis using 3 that by (simp add: bf bulk_codes_def)
  next
    case 4
    obtain w where "drain_frame (b_link b) n (line s) = Some w" "raw_in (b_link b) w = rest" "tx w = tx (line s)"
      using assms(1,2) by (rule frame_drained)
    then show ?thesis using 4 that [of MON_EBADCMD "s\<lparr>line := w\<rparr>"] by (simp add: bf bulk_codes_def)
  qed
qed

text \<open>The handlers that only set registers or breakpoints.\<close>

lemma status_commands:
  assumes "t \<in> {MON_SET_REG, MON_SET_BP, MON_CLR_BP} \<or> t = MON_CONT \<and> \<not> s_ctx s \<or> t = MON_SET_BAUD \<and> (p ! 0 = 0 \<or> \<not> transportHasRate (b_link b)) \<or>
    t \<notin> {MON_PING, MON_READ_MEM, MON_GET_REGS, MON_SET_REG, MON_SET_BP, MON_CLR_BP, MON_RUN, MON_CONT, MON_STOP, MON_SET_BAUD}"
  shows "fst (dispatchCommand b t p s) = Status (command_code t p s)" "line (snd (dispatchCommand b t p s)) = line s"
  using assms
  by (auto simp: dispatchCommand_def command_code_def cmdSetReg_def cmdSetBp_def cmdClrBp_def cmdCont_def cmdSetBaud_def Let_def mon_types)

lemma dispatch_answered:
  assumes "raw_in (b_link b) (line s1) = rest" "tx (line s1) = tx (line s)"
    "t = MON_READ_MEM \<Longrightarrow> unat (rd32 p 0) + unat (rd32 p 2) < 2 ^ 32"
    "t = MON_SET_BAUD \<Longrightarrow> p ! 0 = 0 \<or> \<not> transportHasRate (b_link b)"
  shows "gives b s rest (command_reply b t p s1) (t = MON_RUN \<or> t = MON_CONT \<and> s_ctx s1)
    (case dispatchCommand b t p s1 of (r, s) \<Rightarrow> reply_out b r s)"
proof -
  consider "t = MON_PING" | "t = MON_READ_MEM" | "t = MON_GET_REGS" | "t = MON_RUN \<or> t = MON_CONT \<and> s_ctx s1" | "t = MON_STOP"
    | "t \<in> {MON_SET_REG, MON_SET_BP, MON_CLR_BP} \<or> t = MON_CONT \<and> \<not> s_ctx s1 \<or> t = MON_SET_BAUD \<and> (p ! 0 = 0 \<or> \<not> transportHasRate (b_link b)) \<or>
        t \<notin> {MON_PING, MON_READ_MEM, MON_GET_REGS, MON_SET_REG, MON_SET_BP, MON_CLR_BP, MON_RUN, MON_CONT, MON_STOP, MON_SET_BAUD}"
    using assms(4) by blast
  then show ?thesis
  proof cases
    case 1
    then show ?thesis
      by (intro gives_frames [OF assms(1,2)])
        (simp_all add: dispatchCommand_def emitIdentity_frame reply_out_def on_line_def command_reply_def mon_types)
  next
    case 2
    have "read_chunks (b_link b) (ram s1) (rd32 p 0) (rd32 p 2) 0 w =
        send_frames (b_link b) (data_frames (ram s1) (rd32 p 0) (unat (rd32 p 2))) w" for w
      using read_chunks_frames [of "rd32 p 0" "rd32 p 2" 0] assms(3) [OF 2] by simp
    then show ?thesis using 2
      by (intro gives_frames [OF assms(1,2)])
        (simp_all add: dispatchCommand_def cmdReadMem_def reply_out_def on_line_def command_reply_def mon_types)
  next
    case 3
    then show ?thesis
      by (intro gives_frames [OF assms(1,2)])
        (simp_all add: dispatchCommand_def cmdGetRegs_frame reply_out_def on_line_def command_reply_def mon_types del: upt_rec_numeral)
  next
    case 4
    then show ?thesis
      by (intro gives_frames [OF assms(1,2)])
        (auto simp: dispatchCommand_def cmdRun_def cmdCont_def reply_out_def on_line_def command_reply_def command_code_def mon_types Let_def
          sendStatus_frame)
  next
    case 5
    then show ?thesis
      by (intro gives_frames [OF assms(1,2)]) (simp_all add: dispatchCommand_def reply_out_def command_reply_def mon_types)
  next
    case 6
    have "(case dispatchCommand b t p s1 of (r, s) \<Rightarrow> reply_out b r s) = reply_out b (Status (command_code t p s1)) (snd (dispatchCommand b t p s1))"
      using status_commands(1) [OF 6] by (simp add: case_prod_beta)
    moreover have "command_reply b t p s1 = [status_frame (command_code t p s1)]"
      using 6 by (auto simp: command_reply_def mon_types)
    moreover have "(t = MON_RUN \<or> t = MON_CONT \<and> s_ctx s1) \<longleftrightarrow> False" using 6 by (auto simp: mon_types)
    moreover have "gives b s rest [status_frame (command_code t p s1)] False (reply_out b (Status (command_code t p s1)) (snd (dispatchCommand b t p s1)))"
      using assms(1,2) status_commands(2) [OF 6] by (intro gives_status) simp_all
    ultimately show ?thesis by (simp only:)
  qed
qed

lemma command_reply_cong:
  "ram s' = ram s \<Longrightarrow> thread_regs s' = thread_regs s \<Longrightarrow> s_ctx s' = s_ctx s \<Longrightarrow> s_badVaddr s' = s_badVaddr s \<Longrightarrow>
    s_slot s' = s_slot s \<Longrightarrow> s_biosChecksum s' = s_biosChecksum s \<Longrightarrow> command_reply b t p s' = command_reply b t p s"
proof -
  assume a: "ram s' = ram s" "thread_regs s' = thread_regs s" "s_ctx s' = s_ctx s" "s_badVaddr s' = s_badVaddr s"
    "s_slot s' = s_slot s" "s_biosChecksum s' = s_biosChecksum s"
  have "get_slot r s' = get_slot r s" for r using a by (cases r) simp_all
  then have "reported_reg s' = reported_reg s" "command_code t p s' = command_code t p s" "identity_words b s' = identity_words b s"
    using a by (simp_all add: fun_eq_iff reported_reg_def command_code_def identity_words_def)
  then show ?thesis using a(1) by (simp only: command_reply_def)
qed


section \<open>Concrete sessions\<close>

definition load_then_read :: mon where
  "load_then_read = posts (sent ATCONS
     [(MON_LOAD, words32 0x80010000 @ words32 3 @ pack_bytes [1, 2, 3]), (MON_READ_MEM, words32 0x80010000 @ words32 3)])"

theorem memory_roundtrip_witness:
  "\<exists>s' fs. run_commands atcons_build 2 load_then_read = Some (False, s') \<and> concat (map frame_data fs) = [1, 2, 3] \<and> s_memWritten s'"
proof -
  have "raw_in (b_link atcons_build) (line load_then_read) = sent (b_link atcons_build)
      [(MON_LOAD, words32 0x80010000 @ words32 (of_nat (length [1, 2, 3 :: u8])) @ pack_bytes [1, 2, 3]),
       (MON_READ_MEM, words32 0x80010000 @ words32 (of_nat (length [1, 2, 3 :: u8])))] @ []"
    unfolding load_then_read_def atcons_link raw_in_posts by simp
  from memory_roundtrip [OF this] show ?thesis by auto
qed


end
