(* ===== verification/Monitor_Load.thy ===== *)
theory Monitor_Load
  imports Monitor_Protocol
begin

text \<open>
  A program loaded as an LZ4 stream in slices: the composition of the frame layer, the command loop and the stream
  decoder.
\<close>

fun slice_frames :: "u16 \<Rightarrow> u32 \<Rightarrow> u32 \<Rightarrow> u32 \<Rightarrow> u32 \<Rightarrow> bytes list \<Rightarrow> (u16 \<times> u16 list) list" where
  "slice_frames t dest rawLen clen ofs [] = []"
| "slice_frames t dest rawLen clen ofs (c # cs) =
     (t, slice_words dest rawLen clen ofs (of_nat (length c)) @ pack_bytes c) #
     slice_frames t dest rawLen clen (ofs + of_nat (length c)) cs"

lemma rate_frames [simp]: "rate (send_frames l fs w) = rate w"
  using rx_frames [of l fs w] by (simp add: rx_def)

lemma length_slice_words [simp]: "length (slice_words dest rawLen clen ofs nbytes) = 10"
  by (simp add: slice_words_def)

lemma one_slice:
  assumes t: "t \<in> {MON_LOAD OR MON_LZ4, MON_WRITE_MEM OR MON_LZ4}" and ok: "takes_lz4 b s"
    and raw: "raw_in (b_link b) (line s) = sent (b_link b) ((t, slice_words dest rawLen clen ofs (of_nat (length c)) @ pack_bytes c) # fs) @ rest"
    and c: "length c \<le> 8192"
    and pos: "ofs = 0 \<or> s_lzActive s \<and> s_lzConsumed s = ofs" "unat ofs + length c \<le> unat clen"
    and feed: "feed_all True c (if ofs = 0 then lz4StreamInit dest (s_lz s) else s_lz s) (ram s) = (LZ4S_OK, lz', m')"
    and fin: "ofs + of_nat (length c) = clen \<Longrightarrow> lz_out lz' - lz_base lz' = rawLen"
  obtains s' where "command b s = Some (False, s')" "raw_in (b_link b) (line s') = sent (b_link b) fs @ rest"
    "raw_out (b_link b) (line s') = raw_out (b_link b) (line s) @ sent (b_link b) [(MON_ACK, [])]" "takes_lz4 b s'"
    "ram s' = m'" "s_memWritten s'" "s_lzActive s' \<longleftrightarrow> ofs + of_nat (length c) \<noteq> clen"
    "s_lzConsumed s' = ofs + of_nat (length c)" "ofs + of_nat (length c) \<noteq> clen \<longrightarrow> s_lz s' = lz'"
proof -
  let ?l = "b_link b" and ?ws = "slice_words dest rawLen clen ofs (of_nat (length c)) @ pack_bytes c"
  have len: "length ?ws \<le> TRANSPORT_STREAM_MAX_LEN" using c by (simp add: TRANSPORT_STREAM_MAX_LEN_def)
  have bulk: "is_bulk t" "t AND MON_LZ4 \<noteq> 0" using t bulk_types by auto
  obtain w where w: "in_frame ?l [t, of_nat (length ?ws)] ?ws (checksum (t # of_nat (length ?ws) # ?ws)) (sent ?l fs @ rest) w"
    "tx w = tx (line s)" "unat (of_nat (length ?ws) :: u16) = length ?ws"
    "command b s = map_option (\<lambda>(r, s). reply_out b r s) (bulk_frame b t (of_nat (length ?ws)) (s\<lparr>line := w\<rparr>))"
    using raw len bulk(1) by (rule intact_bulk)
  have lzc: "b_lz4 b \<and> \<not> (b_rts_always b \<and> transportHasRate ?l \<and> linkGetRate (line (s\<lparr>line := w\<rparr>)) < MONITOR_LZ4_MIN_RELOAD)"
    using ok rate_tx [OF w(2)] by (auto simp: takes_lz4_def linkGetRate_def)
  have f: "in_frame ?l [t, of_nat (length ?ws)] ?ws (checksum (t # of_nat (length ?ws) # ?ws)) (sent ?l fs @ rest) (line (s\<lparr>line := w\<rparr>))"
    using w(1) by simp
  have n: "unat (of_nat (length ?ws) :: u16) = 10 + length (pack_bytes c)" using w(3) by simp
  have pos': "ofs = 0 \<or> s_lzActive (s\<lparr>line := w\<rparr>) \<and> s_lzConsumed (s\<lparr>line := w\<rparr>) = ofs" using pos(1) by simp
  have feed': "feed_all True c (if ofs = 0 then lz4StreamInit dest (s_lz (s\<lparr>line := w\<rparr>)) else s_lz (s\<lparr>line := w\<rparr>)) (ram (s\<lparr>line := w\<rparr>)) = (LZ4S_OK, lz', m')"
    using feed by (cases "ofs = 0") simp_all
  obtain w2 where w2: "streamWriteMemLz4 b (of_nat (length ?ws)) (s\<lparr>line := w\<rparr>) = Some (Status 0, (s\<lparr>line := w\<rparr>)\<lparr>line := w2, s_memWritten := True, ram := m',
      s_lzConsumed := ofs + of_nat (length c), s_lz := (if ofs + of_nat (length c) = clen then snd (lz4StreamEndBlock True lz') else lz'),
      s_lzActive := (ofs + of_nat (length c) \<noteq> clen)\<rparr>)"
    "raw_in ?l w2 = sent ?l fs @ rest" "tx w2 = tx (line (s\<lparr>line := w\<rparr>))"
    using f accepts_intact n pos' pos(2) feed' fin by (rule lz4_slice)
  define s' where "s' = s\<lparr>line := send_frames ?l [(MON_ACK, [])] w2, s_memWritten := True, ram := m',
      s_lzConsumed := ofs + of_nat (length c), s_lz := (if ofs + of_nat (length c) = clen then snd (lz4StreamEndBlock True lz') else lz'),
      s_lzActive := (ofs + of_nat (length c) \<noteq> clen)\<rparr>"
  show ?thesis
  proof (rule that [of s'])
    show "command b s = Some (False, s')"
      unfolding w(4) bulk_frame_def using bulk(2) lzc w2(1)
      by (simp add: reply_out_def on_line_def status_frame_def s'_def del: send_frames_simps)
    show "raw_in ?l (line s') = sent ?l fs @ rest" using w2(2) by (simp add: s'_def del: send_frames_simps)
    show "raw_out ?l (line s') = raw_out ?l (line s) @ sent ?l [(MON_ACK, [])]"
      using raw_out_cong [OF w2(3)] raw_out_cong [OF w(2)] by (simp add: s'_def raw_out_frames del: send_frames_simps)
    show "takes_lz4 b s'" using ok rate_tx [OF w2(3)] rate_tx [OF w(2)] by (simp add: takes_lz4_def s'_def del: send_frames_simps)
  qed (simp_all add: s'_def)
qed

lemma load_slices:
  assumes "t \<in> {MON_LOAD OR MON_LZ4, MON_WRITE_MEM OR MON_LZ4}" "takes_lz4 b s"
    "raw_in (b_link b) (line s) = sent (b_link b) (slice_frames t dest rawLen clen ofs cs) @ rest"
    "cs \<noteq> []" "\<forall>c\<in>set cs. c \<noteq> [] \<and> length c \<le> 8192" "unat ofs + length (concat cs) = unat clen"
    "ofs = 0 \<or> s_lzActive s \<and> s_lzConsumed s = ofs"
    "feed_all True (concat cs) (if ofs = 0 then lz4StreamInit dest (s_lz s) else s_lz s) (ram s) = (LZ4S_OK, lz', m')"
    "lz_out lz' - lz_base lz' = rawLen"
  shows "\<exists>s'. run_commands b (length cs) s = Some (False, s') \<and> raw_in (b_link b) (line s') = rest \<and>
    raw_out (b_link b) (line s') = raw_out (b_link b) (line s) @ sent (b_link b) (replicate (length cs) (MON_ACK, [])) \<and>
    ram s' = m' \<and> s_memWritten s' \<and> \<not> s_lzActive s'"
  using assms(2-8)
proof (induction cs arbitrary: s ofs)
  case (Cons c cs)
  let ?l = "b_link b" and ?lz = "if ofs = 0 then lz4StreamInit dest (s_lz s) else s_lz s" and ?ofs = "ofs + of_nat (length c) :: u32"
  obtain lz1 m1 where f1: "feed_all True c ?lz (ram s) = (LZ4S_OK, lz1, m1)" by (rule feed_all_trusted)
  then have f2: "feed_all True (concat cs) lz1 m1 = (LZ4S_OK, lz', m')" using Cons.prems(7) by (simp add: feed_all_append)
  have len: "unat ofs + length c \<le> unat clen" "length c \<le> 8192" "c \<noteq> []" using Cons.prems(4,5) by simp_all
  have o: "unat ?ofs = unat ofs + length c"
    using unat_add_below [of ofs "of_nat (length c)" clen] len by (simp add: unat_of_nat_u32)
  have last: "?ofs = clen \<longleftrightarrow> cs = []"
  proof -
    have "concat cs = [] \<longleftrightarrow> cs = []" using Cons.prems(4) by (cases cs) auto
    moreover have "?ofs = clen \<longleftrightarrow> length (concat cs) = 0" 
      using o Cons.prems(5) unfolding word_unat_eq_iff concat.simps length_append by linarith
    ultimately show ?thesis by (metis length_0_conv)
  qed
  have fin: "?ofs = clen \<Longrightarrow> lz_out lz1 - lz_base lz1 = rawLen" using last f2 assms(9) by simp
  have raw: "raw_in ?l (line s) = sent ?l ((t, slice_words dest rawLen clen ofs (of_nat (length c)) @ pack_bytes c) # slice_frames t dest rawLen clen ?ofs cs) @ rest"
    using Cons.prems(2) by simp
  obtain s1 where s1: "command b s = Some (False, s1)" "raw_in ?l (line s1) = sent ?l (slice_frames t dest rawLen clen ?ofs cs) @ rest"
    "raw_out ?l (line s1) = raw_out ?l (line s) @ sent ?l [(MON_ACK, [])]" "takes_lz4 b s1"
    "ram s1 = m1" "s_memWritten s1" "s_lzActive s1 \<longleftrightarrow> ?ofs \<noteq> clen"
    "s_lzConsumed s1 = ?ofs" "?ofs \<noteq> clen \<longrightarrow> s_lz s1 = lz1"
    using assms(1) Cons.prems(1) raw len(2) Cons.prems(6) len(1) f1 fin by (rule one_slice)
  show ?case
  proof (cases "cs = []")
    case True
    then show ?thesis using s1 f2 last by (intro exI [of _ s1]) simp
  next
    case False
    have nz: "?ofs \<noteq> 0" using o len(3) by auto
    have "feed_all True (concat cs) (if ?ofs = 0 then lz4StreamInit dest (s_lz s1) else s_lz s1) (ram s1) = (LZ4S_OK, lz', m')"
      using f2 nz s1(5,9) last False by simp
    moreover have "unat ?ofs + length (concat cs) = unat clen" using o Cons.prems(5) by simp
    moreover have "?ofs = 0 \<or> s_lzActive s1 \<and> s_lzConsumed s1 = ?ofs" using s1(7,8) last False by simp
    ultimately obtain s' where s': "run_commands b (length cs) s1 = Some (False, s')" "raw_in ?l (line s') = rest"
      "raw_out ?l (line s') = raw_out ?l (line s1) @ sent ?l (replicate (length cs) (MON_ACK, []))"
      "ram s' = m'" "s_memWritten s'" "\<not> s_lzActive s'"
      using Cons.IH [OF s1(4,2) False] Cons.prems(4) by auto
    then show ?thesis using s1(1,3) by (intro exI [of _ s']) (simp add: sent_def)
  qed
qed simp

text \<open>
  C25: A program loaded in slices is the program. When the host cuts the LZ4 encoding of a block into slices of at most
  8192 bytes and sends them as LOAD frames in order, each is acknowledged, the memory at the destination is what the
  block decodes to, no other memory has changed, and the instruction cache will be flushed before the target runs.
\<close>

theorem lz4_load_correct:
  assumes "takes_lz4 b s" "concat cs = enc_block blk" "\<forall>c\<in>set cs. c \<noteq> [] \<and> length c \<le> 8192"
    "seqs_ok (fst blk) []" "length (dec_block blk) < 2 ^ 32" "length (enc_block blk) < 2 ^ 32"
    "raw_in (b_link b) (line s) = sent (b_link b)
       (slice_frames (MON_LOAD OR MON_LZ4) dest (of_nat (length (dec_block blk))) (of_nat (length (enc_block blk))) 0 cs) @ rest"
  shows "\<exists>s'. run_commands b (length cs) s = Some (False, s') \<and> raw_in (b_link b) (line s') = rest \<and>
    raw_out (b_link b) (line s') = raw_out (b_link b) (line s) @ sent (b_link b) (replicate (length cs) (MON_ACK, [])) \<and>
    holds (ram s') dest (dec_block blk) \<and> untouched dest 0 (length (dec_block blk)) (ram s) (ram s') \<and> s_memWritten s'"
proof -
  have big: "length (dec_block blk) < 4294967296" "length (enc_block blk) < 4294967296" using assms(5,6) by simp_all
  obtain lz' m' where d: "feed_all True (enc_block blk) (lz4StreamInit dest (s_lz s)) (ram s) = (LZ4S_OK, lz', m')"
      "holds m' dest (dec_block blk)" "lz_out lz' = dest + of_nat (length (dec_block blk))"
      "untouched dest 0 (length (dec_block blk)) (ram s) m'"
    using stream_decodes [OF assms(4) big(1), of True dest "s_lz s" "ram s"] by blast
  have base: "lz_base lz' = dest"
    using feed_all_trusted [of "enc_block blk" "lz4StreamInit dest (s_lz s)" "ram s"] d(1) by (auto simp: lz4StreamInit_def)
  have "enc_block blk \<noteq> []" by (simp add: enc_block_def)
  then have "cs \<noteq> []" using assms(2) by auto
  then have "\<exists>s'. run_commands b (length cs) s = Some (False, s') \<and> raw_in (b_link b) (line s') = rest \<and>
    raw_out (b_link b) (line s') = raw_out (b_link b) (line s) @ sent (b_link b) (replicate (length cs) (MON_ACK, [])) \<and>
    ram s' = m' \<and> s_memWritten s' \<and> \<not> s_lzActive s'"
  proof (intro load_slices [of "MON_LOAD OR MON_LZ4" b s dest _ _ 0 cs rest lz' m'])
    show "unat (0 :: u32) + length (concat cs) = unat (of_nat (length (enc_block blk)) :: u32)"
      unfolding unat_of_nat_u32 [OF big(2)] assms(2) by simp
  qed (use assms(1-3,7) d(1,3) base in simp_all)
  then show ?thesis using d by blast
qed

text \<open>The sample block in two slices.\<close>

definition two_slices :: mon where
  "two_slices = posts (sent ATCONS (slice_frames (MON_LOAD OR MON_LZ4) 4096 (of_nat (length (dec_block sample_block)))
     (of_nat (length (enc_block sample_block))) 0 [[63, 97, 98, 99], [2, 0, 1, 32, 33, 34]]))"

theorem lz4_load_correct_witness:
  "\<exists>s'. run_commands atcons_build 2 two_slices = Some (False, s') \<and> holds (ram s') 4096 (dec_block sample_block)"
proof -
  have "takes_lz4 atcons_build two_slices" by (simp add: takes_lz4_def atcons_build_def)
  moreover have "concat [[63, 97, 98, 99], [2, 0, 1, 32, 33, 34]] = enc_block sample_block" by (simp add: sample_enc)
  moreover have "raw_in (b_link atcons_build) (line two_slices) = sent (b_link atcons_build)
      (slice_frames (MON_LOAD OR MON_LZ4) 4096 (of_nat (length (dec_block sample_block))) (of_nat (length (enc_block sample_block))) 0
        [[63, 97, 98, 99], [2, 0, 1, 32, 33, 34]]) @ []"
    unfolding two_slices_def atcons_link raw_in_posts by simp
  moreover have "seqs_ok (fst sample_block) []" by (simp add: sample_block_def)
  ultimately obtain s' where "run_commands atcons_build (length [[63, 97, 98, 99], [2, 0, 1, 32, 33, 34 :: u8]]) two_slices = Some (False, s')"
      "holds (ram s') 4096 (dec_block sample_block)"
    using lz4_load_correct [of atcons_build two_slices "[[63, 97, 98, 99], [2, 0, 1, 32, 33, 34]]" sample_block 4096 "[]"]
    by (auto simp: sample_dec sample_enc)
  then show ?thesis by (auto simp: numeral_2_eq_2)
qed

end
