(* ===== verification/Monitor_State.thy ===== *)
theory Monitor_State
  imports Monitor_Protocol
begin

text \<open>
  The monitor over time: the states that exceptions of the target and frames of the host can bring it to, the
  breakpoint registers in all of them, and the stops it reports.
\<close>

section \<open>Breakpoints\<close>

text \<open>
  The debug control word for a set of armed breakpoints: the exec breakpoint, and the data breakpoint for reads, for
  writes, or for both. With none of them the unit is off.
\<close>

definition dcic_image :: "bool \<Rightarrow> bool \<Rightarrow> bool \<Rightarrow> u32" where
  "dcic_image e r w =
     (if \<not> e \<and> \<not> r \<and> \<not> w then 0
      else DCIC_DE OR DCIC_TR OR DCIC_KD OR DCIC_UD OR (if e then DCIC_PCE else 0) OR (if r \<or> w then DCIC_DAE else 0)
        OR (if r then DCIC_DR else 0) OR (if w then DCIC_DW else 0))"

lemma kinds: "(k :: u16) \<le> 3 \<longleftrightarrow> k = 0 \<or> k = 1 \<or> k = 2 \<or> k = 3"
proof
  assume "k \<le> 3"
  then have "unat k \<le> 3" by (simp add: word_le_nat_alt)
  then have "unat k = 0 \<or> unat k = 1 \<or> unat k = 2 \<or> unat k = 3" by linarith
  then show "k = 0 \<or> k = 1 \<or> k = 2 \<or> k = 3" by (auto simp: word_unat_eq_iff)
qed auto

lemma set_exec_image: "dcic_image e r w OR (DCIC_DE OR DCIC_PCE OR DCIC_TR OR DCIC_KD OR DCIC_UD) = dcic_image True r w"
  by (cases e; cases r; cases w) (simp_all add: dcic_image_def dcic_bits)

lemma set_data_image:
  "dcic_image e r w OR (DCIC_DE OR DCIC_DAE OR DCIC_TR OR DCIC_KD OR DCIC_UD OR 1 * DCIC_DR) = dcic_image e True w"
  "dcic_image e r w OR (DCIC_DE OR DCIC_DAE OR DCIC_TR OR DCIC_KD OR DCIC_UD OR 2 * DCIC_DR) = dcic_image e r True"
  "dcic_image e r w OR (DCIC_DE OR DCIC_DAE OR DCIC_TR OR DCIC_KD OR DCIC_UD OR 3 * DCIC_DR) = dcic_image e True True"
  by (cases e; cases r; cases w; simp add: dcic_image_def dcic_bits)+

lemma clear_exec_image:
  "(let d = dcic_image e r w AND NOT DCIC_PCE in if d AND (DCIC_PCE OR DCIC_DAE) = 0 then 0 else d) = dcic_image False r w"
  by (cases e; cases r; cases w; simp add: dcic_image_def dcic_bits Let_def)

lemma clear_data_image:
  "(let d = dcic_image e r w AND NOT (DCIC_DAE OR DCIC_DR OR DCIC_DW) in if d AND (DCIC_PCE OR DCIC_DAE) = 0 then 0 else d) = dcic_image e False False"
  by (cases e; cases r; cases w; simp add: dcic_image_def dcic_bits Let_def)

lemma cmdClrBp_image:
  assumes "s_dcic s = dcic_image e r w" "d = (if p ! 0 = 0 then dcic_image False r w else dcic_image e False False)"
  shows "cmdClrBp p s = (Status 0, s\<lparr>s_dcic := d, cop0_DCIC := d\<rparr>)"
  using assms(2) unfolding clear_exec_image [of e r w, symmetric] clear_data_image [of e r w, symmetric]
  by (simp add: cmdClrBp_def assms(1) Let_def)

lemma cmdSetBp_exec:
  "s_dcic s = dcic_image e r w \<Longrightarrow> p ! 0 = 0 \<Longrightarrow>
     cmdSetBp p s = (Status 0, s\<lparr>cop0_BPC := rd32 p 1, cop0_BPCM := rd32 p 3, s_dcic := dcic_image True r w, cop0_DCIC := dcic_image True r w\<rparr>)"
  unfolding set_exec_image [of e r w, symmetric] by (simp add: cmdSetBp_def Let_def)

lemma cmdSetBp_data:
  assumes "s_dcic s = dcic_image e r w" "p ! 0 \<in> {1, 2, 3}" "d = dcic_image e (r \<or> p ! 0 \<in> {1, 3}) (w \<or> p ! 0 \<in> {2, 3})"
  shows "cmdSetBp p s = (Status 0, s\<lparr>cop0_BDA := rd32 p 1, cop0_BDAM := rd32 p 3, s_watchAddr := rd32 p 1, s_dcic := d, cop0_DCIC := d\<rparr>)"
proof -
  have "s_dcic s OR (DCIC_DE OR DCIC_DAE OR DCIC_TR OR DCIC_KD OR DCIC_UD OR ucast (p ! 0) * DCIC_DR) = d"
    using assms(2,3) set_data_image [of e r w] unfolding assms(1) by (elim insertE emptyE) simp_all
  moreover have "p ! 0 \<noteq> 0" "p ! 0 \<le> 3" using assms(2) kinds [of "p ! 0"] by auto
  ultimately show ?thesis by (simp add: cmdSetBp_def Let_def)
qed

lemma cmdSetBp_bad: "p ! 0 > 3 \<Longrightarrow> cmdSetBp p s = (Status MON_EBADCMD, s)"
  using kinds [of "p ! 0"] by (auto simp: cmdSetBp_def Let_def)

lemma kind_cases:
  obtains (exec) "(k :: u16) = 0" | (data) "k \<in> {1, 2, 3}" | (bad) "k > 3"
  using kinds [of k] by fastforce

text \<open>
  C26: The breakpoint commands implement a set of armed breakpoints. SET_BP adds the kind it names to the set and loads
  its address and mask, CLR_BP takes the kind out, and the control word, in the monitor and in the processor, is that
  of the new set; an unknown kind changes nothing and is refused.
\<close>

theorem breakpoints_refine:
  assumes "s_dcic s = dcic_image e r w"
  shows "(if p ! 0 > 3 then cmdSetBp p s = (Status MON_EBADCMD, s)
     else fst (cmdSetBp p s) = Status 0 \<and>
       s_dcic (snd (cmdSetBp p s)) = dcic_image (e \<or> p ! 0 = 0) (r \<or> p ! 0 \<in> {1, 3}) (w \<or> p ! 0 \<in> {2, 3}) \<and>
       cop0_DCIC (snd (cmdSetBp p s)) = s_dcic (snd (cmdSetBp p s)) \<and>
       (if p ! 0 = 0 then cop0_BPC (snd (cmdSetBp p s)) = rd32 p 1 \<and> cop0_BPCM (snd (cmdSetBp p s)) = rd32 p 3
        else cop0_BDA (snd (cmdSetBp p s)) = rd32 p 1 \<and> cop0_BDAM (snd (cmdSetBp p s)) = rd32 p 3 \<and> s_watchAddr (snd (cmdSetBp p s)) = rd32 p 1)) \<and>
    (fst (cmdClrBp p s) = Status 0 \<and>
       s_dcic (snd (cmdClrBp p s)) = (if p ! 0 = 0 then dcic_image False r w else dcic_image e False False) \<and>
       cop0_DCIC (snd (cmdClrBp p s)) = s_dcic (snd (cmdClrBp p s)))"
  by (cases rule: kind_cases [of "p ! 0"]; simp add: cmdSetBp_exec [OF assms] cmdSetBp_data [OF assms _ refl] cmdSetBp_bad cmdClrBp_image [OF assms refl]; auto)

theorem breakpoints_refine_witness:
  "s_dcic (snd (cmdSetBp [2, 0x1000, 0x8001, 0xffff, 0xffff] (sample_mon idle_wire))) = dcic_image False False True"
  using breakpoints_refine [of "sample_mon idle_wire" False False False "[2, 0x1000, 0x8001, 0xffff, 0xffff]"]
  by (simp add: dcic_image_def sample_mon_def)

section \<open>The states the monitor reaches\<close>

text \<open>
  While the target runs it may change its memory and registers, and the debug unit sets its status bits. While it is
  halted the host sends. The registers and the buffer are as long as they are declared, and nothing is armed at first.
\<close>

definition target_runs :: "mon \<Rightarrow> mon \<Rightarrow> bool" where
  "target_runs s s' \<longleftrightarrow> (\<exists>m r d v w. s' = s\<lparr>ram := m, thread_regs := r, cop0_DCIC := d, cop0_BadVaddr := v, line := w\<rparr> \<and>
     length (GPR r) = 32 \<and> d AND NOT 0x3f = cop0_DCIC s AND NOT 0x3f)"

definition fresh :: "mon \<Rightarrow> bool" where
  "fresh s \<longleftrightarrow> length (GPR (thread_regs s)) = 32 \<and> length (s_cmd s) = MON_CMD_WORDS \<and> \<not> s_memWritten s \<and>
     cop0_DCIC s AND NOT 0x3f = 0"

inductive mon_reach :: "build \<Rightarrow> bool \<Rightarrow> mon \<Rightarrow> bool" for b where
  start: "fresh s \<Longrightarrow> mon_reach b False (monitorMain b ck slot s)"
| exn: "mon_reach b False s \<Longrightarrow> target_runs s s1 \<Longrightarrow> take_exception b s1 = (halted, s2) \<Longrightarrow> mon_reach b halted s2"
| host: "mon_reach b True s \<Longrightarrow> command b (s\<lparr>line := w\<rparr>) = Some (resumed, s1) \<Longrightarrow> mon_reach b (\<not> resumed) s1"

definition mon_ok :: "bool \<Rightarrow> mon \<Rightarrow> bool" where
  "mon_ok halted s \<longleftrightarrow> length (GPR (thread_regs s)) = 32 \<and> length (s_cmd s) = MON_CMD_WORDS \<and>
     (halted \<longrightarrow> \<not> s_running s) \<and> (s_running s \<longrightarrow> \<not> s_ctx s) \<and> (\<not> halted \<longrightarrow> \<not> s_memWritten s) \<and>
     (\<exists>e r w. s_dcic s = dcic_image e r w) \<and> cop0_DCIC s AND NOT 0x3f = s_dcic s"

lemma image_high: "dcic_image e r w AND NOT 0x3f = dcic_image e r w"
  by (cases e; cases r; cases w; simp add: dcic_image_def dcic_bits)

lemma mon_ok_line [simp]: "mon_ok h (s\<lparr>line := w\<rparr>) \<longleftrightarrow> mon_ok h s" "mon_ok h (on_line f s) \<longleftrightarrow> mon_ok h s"
  by (simp_all add: mon_ok_def on_line_def)

lemma mon_ok_image0: "dcic_image False False False = 0"
  by (simp add: dcic_image_def)

text \<open>While halted, nothing is said about the target's view of memory; after a resume everything is.\<close>

lemma mon_ok_resume: "mon_ok True s \<Longrightarrow> \<not> s_ctx s \<Longrightarrow> mon_ok False (monitorResume s)"
  by (simp add: mon_ok_def monitorResume_def Let_def)

lemma set_slot_ok: "mon_ok True s \<Longrightarrow> mon_ok True (set_slot r v s)"
  by (cases r) (simp_all add: mon_ok_def)

lemma breakpoints_ok:
  assumes "mon_ok True s"
  shows "mon_ok True (snd (cmdSetBp p s))" "mon_ok True (snd (cmdClrBp p s))"
proof -
  obtain e r w where i: "s_dcic s = dcic_image e r w" using assms by (auto simp: mon_ok_def)
  show "mon_ok True (snd (cmdClrBp p s))"
    using assms image_high unfolding mon_ok_def cmdClrBp_image [OF i refl] by auto
  show "mon_ok True (snd (cmdSetBp p s))"
  proof (cases rule: kind_cases [of "p ! 0"])
    case exec
    then show ?thesis using assms image_high unfolding mon_ok_def cmdSetBp_exec [OF i exec] by auto
  next
    case data
    then show ?thesis using assms image_high unfolding mon_ok_def cmdSetBp_data [OF i data refl] by auto
  qed (simp add: cmdSetBp_bad assms)
qed

lemma dispatch_ok:
  assumes "mon_ok True s" "dispatchCommand b t p s = (r, s')"
  shows "mon_ok (r \<noteq> Resumed) s'"
proof -
  consider "t = MON_PING" | "t = MON_READ_MEM" | "t = MON_GET_REGS" | "t = MON_SET_REG" | "t = MON_SET_BP" | "t = MON_CLR_BP"
    | "t = MON_RUN" | "t = MON_CONT" | "t = MON_SET_BAUD" | "t = MON_STOP"
    | "t \<notin> {MON_PING, MON_READ_MEM, MON_GET_REGS, MON_SET_REG, MON_SET_BP, MON_CLR_BP, MON_RUN, MON_CONT, MON_STOP, MON_SET_BAUD}"
    by blast
  then show ?thesis
  proof cases
    case 4
    then show ?thesis using assms set_slot_ok
      by (auto simp: dispatchCommand_def mon_types cmdSetReg_def Let_def split: if_splits)
  next
    case 5
    then have "cmdSetBp p s = (r, s')" using assms(2) by (simp add: dispatchCommand_def mon_types)
    moreover have "fst (cmdSetBp p s) \<noteq> Resumed" by (simp add: cmdSetBp_def Let_def)
    ultimately show ?thesis using breakpoints_ok(1) [OF assms(1), of p] by simp
  next
    case 6
    then have "cmdClrBp p s = (r, s')" using assms(2) by (simp add: dispatchCommand_def mon_types)
    then show ?thesis using breakpoints_ok(2) [OF assms(1), of p] by (auto simp: cmdClrBp_def Let_def)
  next
    case 7
    then show ?thesis using assms
      by (auto simp: dispatchCommand_def mon_types cmdRun_def Let_def intro!: mon_ok_resume) (simp_all add: mon_ok_def on_line_def)
  next
    case 8
    then show ?thesis using assms
      by (auto simp: dispatchCommand_def mon_types cmdCont_def intro!: mon_ok_resume split: if_splits) (simp_all add: mon_ok_def on_line_def)
  qed (use assms in \<open>auto simp: dispatchCommand_def mon_types emitIdentity_def cmdReadMem_def cmdGetRegs_def cmdSetBaud_def Let_def split: if_splits\<close>)
qed

text \<open>What the invariant of a halted monitor looks at.\<close>

definition core :: "mon \<Rightarrow> Registers \<times> u16 list \<times> bool \<times> bool \<times> u32 \<times> u32" where
  "core s = (thread_regs s, s_cmd s, s_running s, s_ctx s, s_dcic s, cop0_DCIC s)"

lemma mon_ok_core: "core s' = core s \<Longrightarrow> mon_ok True s \<Longrightarrow> mon_ok True s'"
  by (simp add: core_def mon_ok_def)

lemma header_ok:
  assumes "lz4_header l n s = Some (bad, x, c, k, w, s')" "mon_ok True s"
  shows "mon_ok True s'"
proof (cases "n < 10")
  case True
  then show ?thesis using assms by (simp add: lz4_header_def)
next
  case False
  have eq: "lz4_header l n s = do {
      (dest, v) \<leftarrow> recvU32 l (line s); (rawLen, v) \<leftarrow> recvU32 l v; (clen, v) \<leftarrow> recvU32 l v; (ofs, v) \<leftarrow> recvU32 l v; (nbytes, v) \<leftarrow> recvU32 l v;
      Some (case open_slice dest clen ofs nbytes (ucast n - 10) (s\<lparr>line := v\<rparr>) of (bad, s) \<Rightarrow> (bad, rawLen, clen, nbytes, ucast n - 10, s)) }"
    using False by (simp add: lz4_header_def open_slice_def Let_def case_prod_beta)
  obtain d e f g v where "s' = snd (open_slice d e f g (ucast n - 10) (s\<lparr>line := v\<rparr>))"
    using assms(1) unfolding eq by (auto simp: bind_eq_Some_conv case_prod_beta)
  then have "core s' = core s" by (simp add: open_slice_def core_def Let_def case_prod_beta)
  then show ?thesis using assms(2) by (rule mon_ok_core)
qed

lemma bulk_ok:
  assumes "mon_ok True s" "bulk_frame b t n s = Some (r, s')"
  shows "mon_ok True s' \<and> r \<noteq> Resumed"
proof -
  have fin: "mon_ok True s1 \<Longrightarrow> mon_ok True (snd (lz4_finish x y c k s1))" for s1 c k x y
    by (rule mon_ok_core [of _ s1]) (simp_all add: lz4_finish_def core_def Let_def case_prod_beta)
  consider (raw) "streamWriteMem b n s = Some (r, s')" | (lz4) "streamWriteMemLz4 b n s = Some (r, s')"
    | (drained) "\<exists>w. r = Status MON_EBADCMD \<and> s' = s\<lparr>line := w\<rparr>"
    using assms(2) by (auto simp: bulk_frame_def bind_eq_Some_conv split: if_splits)
  then show ?thesis
  proof cases
    case raw
    then have "core s' = core s \<and> r \<noteq> Resumed" by (auto simp: streamWriteMem_def bind_eq_Some_conv Let_def core_def split: if_splits)
    then show ?thesis using mon_ok_core assms(1) by blast
  next
    case lz4
    then obtain bad x c k w s1 st v code f where h: "lz4_header (b_link b) n (s\<lparr>s_memWritten := True\<rparr>) = Some (bad, x, c, k, w, s1)"
        "r = Status code" "s' = snd (lz4_finish f x c k (s1\<lparr>s_lz := fst (snd st), ram := snd (snd st), line := v\<rparr>))"
      by (auto simp: streamWriteMemLz4_def bind_eq_Some_conv Let_def case_prod_beta)
    have "mon_ok True s1" using header_ok [OF h(1)] assms(1) by (simp add: mon_ok_def)
    then have "mon_ok True (s1\<lparr>s_lz := fst (snd st), ram := snd (snd st), line := v\<rparr>)" by (simp add: mon_ok_def)
    then show ?thesis using fin h(2,3) by simp
  qed (use assms(1) in auto)
qed

lemma small_ok:
  assumes "mon_ok True s" "small_frame b t n s = Some (r, s')"
  shows "mon_ok (r \<noteq> Resumed) s'"
proof -
  obtain ws v where 1: "recv_words (b_link b) (unat n) (line s) = Some (ws, v)"
    using assms(2) by (auto simp: small_frame_def bind_eq_Some_conv)
  obtain c w where 2: "transportRecvEnd (b_link b) v = Some (c, w)"
    using assms(2) 1 by (auto simp: small_frame_def bind_eq_Some_conv)
  have e: "(r, s') = (if c \<noteq> TRANSPORT_OK then (Status MON_ECKSUM, s\<lparr>line := w, s_cmd := cmd_words ws s\<rparr>)
      else if unat n > MON_CMD_WORDS then (Status MON_EBADLEN, s\<lparr>line := w, s_cmd := cmd_words ws s\<rparr>)
      else dispatchCommand b t (cmd_words ws s) (s\<lparr>line := w, s_cmd := cmd_words ws s, s_cmdLen := n\<rparr>))"
    using assms(2) [symmetric] unfolding small_frame_def 1 2 cmd_words_def Let_def Option.bind.simps prod.case option.inject by simp
  have k: "length (cmd_words ws s) = MON_CMD_WORDS" using assms(1) by (simp add: cmd_words_def mon_ok_def)
  have "mon_ok True (s\<lparr>line := w, s_cmd := cmd_words ws s\<rparr>)" "mon_ok True (s\<lparr>line := w, s_cmd := cmd_words ws s, s_cmdLen := n\<rparr>)"
    using assms(1) k by (simp_all add: mon_ok_def)
  then show ?thesis using e dispatch_ok by (auto split: if_splits)
qed

lemma command_ok:
  assumes "mon_ok True s" "command b s = Some (resumed, s')"
  shows "mon_ok (\<not> resumed) s'"
proof -
  obtain t n w r s1 where c: "(if is_bulk t then bulk_frame b t n (s\<lparr>line := w\<rparr>) else small_frame b t n (s\<lparr>line := w\<rparr>)) = Some (r, s1)"
      "(resumed, s') = (case r of Status code \<Rightarrow> (False, on_line (sendStatus (b_link b) code) s1) | MON_REPLIED \<Rightarrow> (False, s1) | Resumed \<Rightarrow> (True, s1))"
    using assms(2) unfolding command_def is_bulk_def by (auto simp: bind_eq_Some_conv Let_def)
  have "mon_ok (r \<noteq> Resumed) s1"
  proof (cases "is_bulk t")
    case True
    then show ?thesis using bulk_ok [of "s\<lparr>line := w\<rparr>" b t n r s1] assms(1) c(1) by simp
  next
    case False
    then show ?thesis using small_ok [of "s\<lparr>line := w\<rparr>" b t n r s1] assms(1) c(1) by simp
  qed
  then show ?thesis using c(2) by (cases r) auto
qed

lemma exception_ok:
  assumes "mon_ok False s" "take_exception b s = (halted, s')"
  shows "mon_ok halted s'"
proof -
  have stop: "mon_ok True (monitorStop b reason x y s1)" if "mon_ok False s1" for reason x y s1
    using that by (simp add: monitorStop_def monitorHalt_def emitStopped_def Let_def) (simp add: mon_ok_def)
  have hello: "mon_ok True (emitIdentity b ty (monitorHalt s))" for ty
    using assms(1) by (simp add: emitIdentity_def monitorHalt_def) (simp add: mon_ok_def)
  have off: "mon_ok False (s\<lparr>cop0_DCIC := 0, s_dcic := 0\<rparr>)"
    using assms(1) mon_ok_image0 [symmetric] by (auto simp: mon_ok_def)
  show ?thesis
    using assms(2) stop hello stop [OF off] assms(1) stop [of "s\<lparr>line := w\<rparr>" for w]
    unfolding take_exception_def Let_def by (auto split: if_splits prod.splits)
qed

text \<open>
  C27: What holds at all times. Whatever the target does and the host sends: the monitor's tables keep their sizes; a
  halted target does not run and a running one has no saved context, so that no command can touch the registers of a
  running target; memory the monitor wrote is never run from a stale instruction cache; and the debug unit has exactly
  the breakpoints armed that the monitor knows of.
\<close>

theorem monitor_invariant: "mon_reach b halted s \<Longrightarrow> mon_ok halted s"
proof (induction rule: mon_reach.induct)
  case (start s ck slot)
  then show ?case using mon_ok_image0 by (auto simp: fresh_def mon_ok_def monitorMain_def)
next
  case (exn s s1 halted s2)
  obtain m r d v w where s1: "s1 = s\<lparr>ram := m, thread_regs := r, cop0_DCIC := d, cop0_BadVaddr := v, line := w\<rparr>"
      "length (GPR r) = 32" "d AND NOT 0x3f = cop0_DCIC s AND NOT 0x3f"
    using exn.hyps(2) by (auto simp: target_runs_def)
  have "mon_ok False s1" using exn.IH s1(2,3) unfolding s1(1) mon_ok_def by simp
  then show ?case using exn.hyps(3) by (rule exception_ok)
next
  case (host s w resumed s1)
  then show ?case using command_ok [of "s\<lparr>line := w\<rparr>"] by simp
qed

lemma fresh_sample: "fresh (sample_mon idle_wire)"
  by (simp add: fresh_def sample_mon_def MON_CMD_WORDS_def)

text \<open>From the start through the \<open>break\<close> that enters the monitor.\<close>

theorem monitor_invariant_witness:
  "\<exists>s. mon_reach \<lparr>b_link = SIO1, b_lz4 = True, b_rts_always = False\<rparr> True s \<and> mon_ok True s"
proof -
  let ?b = "\<lparr>b_link = SIO1, b_lz4 = True, b_rts_always = False\<rparr>" and ?s = "monitorMain \<lparr>b_link = SIO1, b_lz4 = True, b_rts_always = False\<rparr> 0 True (sample_mon idle_wire)"
  define s0 where "s0 = ?s"
  define s1 where "s1 = s0\<lparr>ram := (\<lambda>_. 0)(0 := 0x4d, 2 := 4), thread_regs := (thread_regs s0)\<lparr>Cause := 36\<rparr>,
    cop0_DCIC := cop0_DCIC s0, cop0_BadVaddr := cop0_BadVaddr s0, line := line s0\<rparr>"
  have pc: "returnPC (thread_regs s0) = 0" "length (GPR (thread_regs s0)) = 32" by (simp_all add: s0_def monitorMain_def sample_mon_def)
  have r: "mon_reach ?b False s0" unfolding s0_def using fresh_sample by (rule mon_reach.start)
  have tr: "target_runs s0 s1" unfolding target_runs_def s1_def by ((rule exI)+, rule conjI [OF refl]) (simp add: pc(2))
  have "CAUSE_EXCCODE (Cause (thread_regs s1)) = EXCCODE_BP" by (simp add: CAUSE_EXCCODE_def EXCCODE_BP_def s1_def)
  moreover have "word_at (ram s1) (returnPC (thread_regs s1)) = 0x4004d"
    by (simp add: word_at_def s1_def pc)
  ultimately have "take_exception ?b s1 = (True, emitIdentity ?b MON_HELLO (monitorHalt s1))"
    by (simp add: take_exception_def Let_def)
  with r tr have "mon_reach ?b True (emitIdentity ?b MON_HELLO (monitorHalt s1))" by (rule mon_reach.exn)
  then show ?thesis using monitor_invariant by blast
qed

end
