(* ===== verification/Monitor_Stops.thy ===== *)
theory Monitor_Stops
  imports Monitor_State
begin

text \<open>
  How the monitor stops the target: when a STOP on the line is one, what is reported for each exception, and what a
  stopped target comes back to when the host goes on.
\<close>

section \<open>The host's request to stop\<close>

text \<open>
  The bytes that come before the line is quiet for \<open>MONITOR_STOP_QUIET_SPINS\<close> polls; \<open>q\<close> polls have found nothing
  already.
\<close>

fun burst :: "nat \<Rightarrow> (nat \<times> u8) list \<Rightarrow> bytes" where
  "burst q [] = []"
| "burst q ((n, b) # p) = (if q + n < MONITOR_STOP_QUIET_SPINS then b # burst 0 p else [])"

lemma drain_burst:
  assumes "q < MONITOR_STOP_QUIET_SPINS"
  shows "\<exists>s'. drain stop q b s = (stop \<or> (q = 0 \<and> b = 0) \<or> 0 \<in> set (burst q (inb s)), s') \<and>
    map snd (inb s') = drop (length (burst q (inb s))) (map snd (inb s)) \<and> tx s' = tx s"
  using assms
proof (induction stop q b s rule: drain.induct)
  case (1 stop q b s)
  define stop1 where "stop1 = (stop \<or> (q = 0 \<and> b = 0))"
  define s1 where "s1 = (if q = 0 \<and> b \<noteq> 0 \<and> \<not> stop then s\<lparr>dropped := dropped s + 1\<rparr> else s)"
  have s1: "inb s1 = inb s" "tx s1 = tx s" by (simp_all add: s1_def)
  have first: "(if q = 0 then if b = 0 then (True, s) else if \<not> stop then (stop, s\<lparr>dropped := dropped s + 1\<rparr>) else (stop, s) else (stop, s)) = (stop1, s1)"
    by (auto simp: stop1_def s1_def)
  consider (none) "inb s = []" | (now) y p where "inb s = (0, y) # p" | (later) n y p where "inb s = (Suc n, y) # p"
    by (metis list.exhaust old.nat.exhaust prod.exhaust)
  then show ?case
  proof cases
    case none
    then have t: "linkTryGetByte s1 = (None, s1)" using s1 by (simp add: linkTryGetByte_def)
    have step: "drain stop q b s = (if q + 1 < MONITOR_STOP_QUIET_SPINS then drain stop1 (q + 1) b s1 else (stop1, s1))"
      by (subst drain.simps) (simp only: first Let_def prod.case t option.case)
    show ?thesis
    proof (cases "q + 1 < MONITOR_STOP_QUIET_SPINS")
      case True
      then show ?thesis using "1.IH" [OF first [symmetric] refl t [symmetric] refl] none s1 t step by (simp add: stop1_def)
    next
      case False
      then show ?thesis using none s1 step by (simp add: stop1_def)
    qed
  next
    case (now y p)
    define s2 where "s2 = s1\<lparr>inb := p\<rparr>"
    then have t: "linkTryGetByte s1 = (Some y, s2)" using s1 now by (simp add: linkTryGetByte_def)
    have step: "drain stop q b s = drain stop1 0 y s2"
      by (subst drain.simps) (simp only: first Let_def prod.case t option.case, simp add: MONITOR_STOP_QUIET_SPINS_def)
    show ?thesis
      using "1.IH" [OF first [symmetric] refl t [symmetric] refl] now s1 t step "1.prems" by (auto simp: s2_def MONITOR_STOP_QUIET_SPINS_def stop1_def)
  next
    case (later n y p)
    define s2 where "s2 = s1\<lparr>inb := (n, y) # p\<rparr>"
    then have t: "linkTryGetByte s1 = (None, s2)" using s1 later by (simp add: linkTryGetByte_def)
    have step: "drain stop q b s = (if q + 1 < MONITOR_STOP_QUIET_SPINS then drain stop1 (q + 1) b s2 else (stop1, s2))"
      by (subst drain.simps) (simp only: first Let_def prod.case t option.case)
    show ?thesis
    proof (cases "q + 1 < MONITOR_STOP_QUIET_SPINS")
      case True
      then show ?thesis using "1.IH" [OF first [symmetric] refl t [symmetric] refl] later s1 t step by (auto simp: s2_def stop1_def)
    next
      case False
      then show ?thesis using later s1 step "1.prems" by (simp add: stop1_def s2_def)
    qed
  qed
qed

lemma stop_spec:
  "case transportStopPending l s of (stop, s') \<Rightarrow>
     (stop \<longleftrightarrow> is_stream l \<and> (\<exists>b p. inb s = (0, b) # p \<and> 0 \<in> set (b # burst 0 p))) \<and>
     (is_stream l \<and> (\<exists>b p. inb s = (0, b) # p) \<longrightarrow>
        map snd (inb s') = drop (1 + length (burst 0 (tl (inb s)))) (map snd (inb s))) \<and> tx s' = tx s"
proof -
  consider "\<not> is_stream l" | "is_stream l" "\<nexists>b p. inb s = (0, b) # p" | b p where "is_stream l" "inb s = (0, b) # p" by blast
  then show ?thesis
  proof cases
    case 1
    then show ?thesis by (simp add: transportStopPending_def)
  next
    case 2
    then have "\<exists>s'. linkTryGetByte s = (None, s') \<and> tx s' = tx s" by (auto simp: linkTryGetByte_def split: list.splits nat.splits)
    then show ?thesis using 2 by (auto simp: transportStopPending_def)
  next
    case (3 b p)
    define s1 where "s1 = linkRxOpen l (s\<lparr>inb := p\<rparr>)"
    have s1: "inb s1 = p" "tx s1 = tx s" by (simp_all add: s1_def) (simp add: linkRxOpen_def)
    obtain s' where "drain False 0 b s1 = (b = 0 \<or> 0 \<in> set (burst 0 p), s')" "map snd (inb s') = drop (length (burst 0 p)) (map snd p)" "tx s' = tx s1"
      using drain_burst [of 0 False b s1] by (auto simp: s1 MONITOR_STOP_QUIET_SPINS_def)
    moreover have "linkTryGetByte s = (Some b, s\<lparr>inb := p\<rparr>)" using 3(2) by (simp add: linkTryGetByte_def)
    moreover have "inb (linkRxClose l s') = inb s'" by (simp add: linkRxClose_def)
    ultimately show ?thesis using 3 s1 by (auto simp: transportStopPending_def s1_def)
  qed
qed

text \<open>
  When the host's bytes stop the target. The test on an interrupt says so exactly when the link can carry a stop,
  a byte is there, and among it and those that follow before the line falls quiet there is a zero; it returns on every
  input, and has read exactly those bytes.
\<close>

theorem stop_pending_correct:
  "case transportStopPending l s of (stop, s') \<Rightarrow>
     (stop \<longleftrightarrow> is_stream l \<and> (\<exists>b p. inb s = (0, b) # p \<and> 0 \<in> set (b # burst 0 p))) \<and>
     (is_stream l \<and> (\<exists>b p. inb s = (0, b) # p) \<longrightarrow>
        map snd (inb s') = drop (1 + length (burst 0 (tl (inb s)))) (map snd (inb s))) \<and> tx s' = tx s"
  by (rule stop_spec)

section \<open>What is reported\<close>

text \<open>When an exception of kind \<open>excode\<close> stops the target, and with which reason and arguments.\<close>

definition stop_reported :: "link \<Rightarrow> mon \<Rightarrow> u16 \<Rightarrow> u32 \<Rightarrow> u32 \<Rightarrow> bool" where
  "stop_reported l s reason x y \<longleftrightarrow>
     (let excode = CAUSE_EXCCODE (Cause (thread_regs s)); insn = word_at (ram s) (returnPC (thread_regs s))
      in (reason = MON_STOP_BREAKPOINT \<and> excode = 9 \<and> insn AND 0x3f = 0x0d \<and> x = insn \<and> y = 0) \<or>
         (reason = MON_STOP_BREAKPOINT \<and> excode = 9 \<and> insn AND 0x3f \<noteq> 0x0d \<and> cop0_DCIC s AND DCIC_DA = 0 \<and> x = 0 \<and> y = 0) \<or>
         (reason = MON_STOP_DATA_WATCH \<and> excode = 9 \<and> insn AND 0x3f \<noteq> 0x0d \<and> cop0_DCIC s AND DCIC_DA \<noteq> 0 \<and> x = s_watchAddr s \<and> y = 0) \<or>
         (reason = MON_STOP_FAULT \<and> excode \<in> {4, 5} \<and> x = excode \<and> y = cop0_BadVaddr s) \<or>
         (reason = MON_STOP_FAULT \<and> excode \<in> {6, 7, 10, 11, 12} \<and> x = excode \<and> y = 0) \<or>
         (reason = MON_STOP_INTERRUPT \<and> excode = 0 \<and> s_running s \<and> is_stream l \<and> x = 0 \<and> y = 0 \<and>
            (\<exists>c p. inb (line s) = (0, c) # p \<and> 0 \<in> set (c # burst 0 p))))"

lemma monitorStop_effect:
  "monitorStop b reason x y s = s\<lparr>s_running := False, s_ctx := True, s_badVaddr := (if reason = MON_STOP_FAULT then y else 0),
     line := send_frames (b_link b) [(MON_STOPPED, stopped_words reason (returnPC (thread_regs s)) x y)] (line s)\<rparr>"
  by (simp add: monitorStop_def monitorHalt_def emitStopped_frame on_line_def Let_def)

text \<open>What a stop leaves of the state.\<close>

definition stopped_state :: "build \<Rightarrow> mon \<Rightarrow> mon \<Rightarrow> bool" where
  "stopped_state b s s' \<longleftrightarrow> ram s' = ram s \<and> thread_regs s' = thread_regs s \<and> \<not> s_running s' \<and> s_ctx s' \<and>
     s_memWritten s' = s_memWritten s \<and> icache_flushes s' = icache_flushes s \<and>
     (\<exists>reason x y. stop_reported (b_link b) s reason x y \<and>
        raw_out (b_link b) (line s') = raw_out (b_link b) (line s) @
          sent (b_link b) [(MON_STOPPED, stopped_words reason (returnPC (thread_regs s)) x y)])"

lemma stops:
  assumes "stop_reported (b_link b) s reason x y" "tx w = tx (line s)" "s1 = s\<lparr>line := w\<rparr> \<or> s1 = s\<lparr>line := w, cop0_DCIC := 0, s_dcic := 0\<rparr>"
  shows "stopped_state b s (monitorStop b reason x y s1)"
proof -
  have "raw_out (b_link b) (send_frames (b_link b) [(MON_STOPPED, stopped_words reason (returnPC (thread_regs s)) x y)] w) =
      raw_out (b_link b) (line s) @ sent (b_link b) [(MON_STOPPED, stopped_words reason (returnPC (thread_regs s)) x y)]"
    using raw_out_cong [OF assms(2)] by (simp add: raw_out_frames del: send_frames_simps)
  then show ?thesis
    using assms(1,3) unfolding stopped_state_def
    by (intro conjI exI [of _ reason] exI [of _ x] exI [of _ y]) (auto simp: monitorStop_effect simp del: send_frames_simps)
qed

lemma exception_spec:
  "case take_exception b s of (halted, s') \<Rightarrow>
     if halted then
       (stopped_state b s s' \<or>
        CAUSE_EXCCODE (Cause (thread_regs s)) = 9 \<and> word_at (ram s) (returnPC (thread_regs s)) = 0x4004d \<and> \<not> s_running s' \<and>
        s' = s\<lparr>line := line s', s_running := False\<rparr> \<and>
        raw_out (b_link b) (line s') = raw_out (b_link b) (line s) @ sent (b_link b) [(MON_HELLO, identity_words b s)])
     else s' = s\<lparr>line := line s'\<rparr> \<and> tx (line s') = tx (line s) \<and> CAUSE_EXCCODE (Cause (thread_regs s)) \<notin> {4, 5, 6, 7, 9, 10, 11, 12} \<and>
       (\<forall>reason x y. \<not> stop_reported (b_link b) s reason x y)"
proof -
  let ?e = "CAUSE_EXCCODE (Cause (thread_regs s))" and ?i = "word_at (ram s) (returnPC (thread_regs s))"
  have id: "s = s\<lparr>line := line s\<rparr>" "s\<lparr>cop0_DCIC := 0, s_dcic := 0\<rparr> = s\<lparr>line := line s, cop0_DCIC := 0, s_dcic := 0\<rparr>" by simp_all
  consider (hello) "?e = 9" "?i = 0x4004d" | (break) "?e = 9" "?i \<noteq> 0x4004d" "?i AND 0x3f = 0x0d"
    | (watch) "?e = 9" "?i AND 0x3f \<noteq> 0x0d" "cop0_DCIC s AND DCIC_DA \<noteq> 0" | (hw) "?e = 9" "?i AND 0x3f \<noteq> 0x0d" "cop0_DCIC s AND DCIC_DA = 0"
    | (fault) "?e \<in> {4, 5}" | (fault2) "?e \<in> {6, 7, 10, 11, 12}" | (irq) "?e = 0" "s_running s" | (idle) "?e = 0" "\<not> s_running s"
    | (other) "?e \<notin> {0, 4, 5, 6, 7, 9, 10, 11, 12}"
    by blast
  then show ?thesis
  proof cases
    case hello
    have "raw_out (b_link b) (send_frames (b_link b) [(MON_HELLO, identity_words b s)] (line s)) = raw_out (b_link b) (line s) @ sent (b_link b) [(MON_HELLO, identity_words b s)]"
      by (rule raw_out_frames)
    moreover have "take_exception b s = (True, on_line (send_frames (b_link b) [(MON_HELLO, identity_words b s)]) (s\<lparr>s_running := False\<rparr>))"
      using hello by (simp add: take_exception_def Let_def exccodes emitIdentity_frame monitorHalt_def identity_words_def)
    ultimately show ?thesis using hello by (simp add: on_line_def del: send_frames_simps)
  next
    case break
    then have "take_exception b s = (True, monitorStop b MON_STOP_BREAKPOINT ?i 0 s)" by (simp add: take_exception_def Let_def exccodes)
    moreover have "stop_reported (b_link b) s MON_STOP_BREAKPOINT ?i 0" using break by (simp add: stop_reported_def)
    ultimately show ?thesis using stops [of b s _ _ _ "line s" s] by simp
  next
    case watch
    then have "take_exception b s = (True, monitorStop b MON_STOP_DATA_WATCH (s_watchAddr s) 0 (s\<lparr>cop0_DCIC := 0, s_dcic := 0\<rparr>))"
      by (simp add: take_exception_def Let_def exccodes)
    moreover have "stop_reported (b_link b) s MON_STOP_DATA_WATCH (s_watchAddr s) 0" using watch by (simp add: stop_reported_def)
    ultimately show ?thesis using stops [of b s _ _ _ "line s" "s\<lparr>cop0_DCIC := 0, s_dcic := 0\<rparr>"] by simp
  next
    case hw
    then have "take_exception b s = (True, monitorStop b MON_STOP_BREAKPOINT 0 0 (s\<lparr>cop0_DCIC := 0, s_dcic := 0\<rparr>))"
      by (simp add: take_exception_def Let_def exccodes)
    moreover have "stop_reported (b_link b) s MON_STOP_BREAKPOINT 0 0" using hw by (simp add: stop_reported_def)
    ultimately show ?thesis using stops [of b s _ _ _ "line s" "s\<lparr>cop0_DCIC := 0, s_dcic := 0\<rparr>"] by simp
  next
    case fault
    then have "take_exception b s = (True, monitorStop b MON_STOP_FAULT ?e (cop0_BadVaddr s) s)" by (auto simp: take_exception_def Let_def exccodes)
    moreover have "stop_reported (b_link b) s MON_STOP_FAULT ?e (cop0_BadVaddr s)" using fault by (auto simp: stop_reported_def)
    ultimately show ?thesis using stops [of b s _ _ _ "line s" s] by simp
  next
    case fault2
    then have "take_exception b s = (True, monitorStop b MON_STOP_FAULT ?e 0 s)" by (auto simp: take_exception_def Let_def exccodes)
    moreover have "stop_reported (b_link b) s MON_STOP_FAULT ?e 0" using fault2 by (auto simp: stop_reported_def)
    ultimately show ?thesis using stops [of b s _ _ _ "line s" s] by simp
  next
    case irq
    obtain stop w where w: "transportStopPending (b_link b) (line s) = (stop, w)" by fastforce
    have t: "take_exception b s = (if stop then (True, monitorStop b MON_STOP_INTERRUPT 0 0 (s\<lparr>line := w\<rparr>)) else (False, s\<lparr>line := w\<rparr>))"
      using irq w by (simp add: take_exception_def Let_def exccodes)
    have p: "stop \<longleftrightarrow> is_stream (b_link b) \<and> (\<exists>c p. inb (line s) = (0, c) # p \<and> 0 \<in> set (c # burst 0 p))" "tx w = tx (line s)"
      using stop_spec [of "b_link b" "line s"] unfolding w by auto
    have "stop \<Longrightarrow> stop_reported (b_link b) s MON_STOP_INTERRUPT 0 0" using irq p(1) by (simp add: stop_reported_def)
    moreover have "\<not> stop \<Longrightarrow> \<not> stop_reported (b_link b) s reason x y" for reason x y using irq p(1) by (auto simp: stop_reported_def Let_def)
    ultimately show ?thesis using t p(2) irq stops [of b s MON_STOP_INTERRUPT 0 0 w "s\<lparr>line := w\<rparr>"] by auto
  next
    case idle
    then show ?thesis by (auto simp: take_exception_def Let_def exccodes stop_reported_def)
  next
    case other
    then show ?thesis by (auto simp: take_exception_def Let_def exccodes stop_reported_def)
  qed
qed

text \<open>
  Every exception is answered for what it is. A \<open>break 4, 1\<close> enters the monitor with a HELLO; a software break, a
  hardware breakpoint, a watch, a fault and a requested stop halt the target with one STOPPED frame that says which,
  and leave its memory and registers alone; every other exception, and an interrupt without a stop on the line, goes to
  the kernel with nothing sent and nothing changed but the bytes read.
\<close>

theorem exceptions_reported:
  "case take_exception b s of (halted, s') \<Rightarrow>
     if halted then
       (stopped_state b s s' \<or>
        CAUSE_EXCCODE (Cause (thread_regs s)) = 9 \<and> word_at (ram s) (returnPC (thread_regs s)) = 0x4004d \<and> \<not> s_running s' \<and>
        s' = s\<lparr>line := line s', s_running := False\<rparr> \<and>
        raw_out (b_link b) (line s') = raw_out (b_link b) (line s) @ sent (b_link b) [(MON_HELLO, identity_words b s)])
     else s' = s\<lparr>line := line s'\<rparr> \<and> tx (line s') = tx (line s) \<and> CAUSE_EXCCODE (Cause (thread_regs s)) \<notin> {4, 5, 6, 7, 9, 10, 11, 12} \<and>
       (\<forall>reason x y. \<not> stop_reported (b_link b) s reason x y)"
  by (rule exception_spec)

section \<open>Stopping and going on\<close>

lemma cont_runs:
  assumes "s_ctx s" "raw_in (b_link b) (line s) = sent (b_link b) [(MON_CONT, [])] @ rest"
  obtains s' where "command b s = Some (True, s')" "raw_in (b_link b) (line s') = rest"
    "raw_out (b_link b) (line s') = raw_out (b_link b) (line s) @ sent (b_link b) [(MON_ACK, [])]"
    "ram s' = ram s" "thread_regs s' = thread_regs s" "s_running s'" "\<not> s_ctx s'" "\<not> s_memWritten s'"
    "icache_flushes s' = icache_flushes s + (if s_memWritten s then 1 else 0)"
proof -
  have "length ([] :: u16 list) \<le> MON_CMD_WORDS" "\<not> is_bulk MON_CONT" by (simp_all add: is_bulk_def mon_types)
  with assms(2) obtain w where w: "raw_in (b_link b) w = sent (b_link b) [] @ rest" "tx w = tx (line s)"
    "command b s = Some (case dispatchCommand b MON_CONT (cmd_words [] s) (s\<lparr>line := w, s_cmd := cmd_words [] s, s_cmdLen := of_nat (length ([] :: u16 list))\<rparr>) of (r, s) \<Rightarrow> reply_out b r s)"
    by (rule intact_command)
  define s1 where "s1 = monitorResume (s\<lparr>s_cmd := cmd_words [] s, s_cmdLen := 0, s_ctx := False, line := send_frames (b_link b) [(MON_ACK, [])] w\<rparr>)"
  have "command b s = Some (True, s1)"
    unfolding w(3) using assms(1)
    by (simp add: dispatchCommand_def mon_types cmdCont_def reply_out_def on_line_def sendStatus_frame status_frame_def s1_def del: send_frames_simps)
  moreover have "raw_out (b_link b) (line s1) = raw_out (b_link b) (line s) @ sent (b_link b) [(MON_ACK, [])]"
    using raw_out_cong [OF w(2)] by (simp add: s1_def raw_out_frames del: send_frames_simps)
  moreover have "raw_in (b_link b) (line s1) = rest" using w(1) by (simp add: s1_def del: send_frames_simps)
  ultimately show ?thesis using that [of s1] by (simp add: s1_def monitorResume_def Let_def)
qed

text \<open>What the host may do to a halted target before it goes on: write memory, with LOAD or WRITE_MEM, and read it.\<close>

datatype visit = Store u16 u32 bytes | Fetch u32 nat

fun visit_frame :: "visit \<Rightarrow> u16 \<times> u16 list" where
  "visit_frame (Store t a bs) = (t, words32 a @ words32 (of_nat (length bs)) @ pack_bytes bs)"
| "visit_frame (Fetch a n) = (MON_READ_MEM, words32 a @ words32 (of_nat n))"

fun visit_ok :: "visit \<Rightarrow> bool" where
  "visit_ok (Store t a bs) \<longleftrightarrow> t \<in> {MON_LOAD, MON_WRITE_MEM} \<and> length bs \<le> 8192 \<and> unat a + length bs < 2 ^ 32 - 1"
| "visit_ok (Fetch a n) \<longleftrightarrow> unat a + n < 2 ^ 32"

fun stores :: "visit \<Rightarrow> bool" where
  "stores (Store t a bs) \<longleftrightarrow> True"
| "stores (Fetch a n) \<longleftrightarrow> False"

text \<open>The memory behind a visit, and what all of them are answered with.\<close>

fun visit_ram :: "visit \<Rightarrow> ram \<Rightarrow> ram" where
  "visit_ram (Store t a bs) m = write_bytes m a bs"
| "visit_ram (Fetch a n) m = m"

fun visit_replies :: "ram \<Rightarrow> visit list \<Rightarrow> (u16 \<times> u16 list) list" where
  "visit_replies m [] = []"
| "visit_replies m (Store t a bs # vs) = (MON_ACK, []) # visit_replies (write_bytes m a bs) vs"
| "visit_replies m (Fetch a n # vs) = data_frames m a n @ visit_replies m vs"

lemma visits_run:
  assumes "\<forall>v\<in>set vs. visit_ok v" "raw_in (b_link b) (line s) = sent (b_link b) (map visit_frame vs @ fs) @ rest"
  shows "\<exists>s'. run_commands b (length vs) s = Some (False, s') \<and> raw_in (b_link b) (line s') = sent (b_link b) fs @ rest \<and>
    raw_out (b_link b) (line s') = raw_out (b_link b) (line s) @ sent (b_link b) (visit_replies (ram s) vs) \<and>
    ram s' = fold visit_ram vs (ram s) \<and> thread_regs s' = thread_regs s \<and> s_ctx s' = s_ctx s \<and>
    (s_memWritten s' \<longleftrightarrow> s_memWritten s \<or> (\<exists>v\<in>set vs. stores v)) \<and> icache_flushes s' = icache_flushes s"
  using assms
proof (induction vs arbitrary: s)
  case (Cons v vs)
  let ?l = "b_link b"
  have ok: "\<forall>v\<in>set vs. visit_ok v" using Cons.prems(1) by simp
  have "\<exists>s1 fs1. command b s = Some (False, s1) \<and> raw_in ?l (line s1) = sent ?l (map visit_frame vs @ fs) @ rest \<and>
      raw_out ?l (line s1) = raw_out ?l (line s) @ sent ?l fs1 \<and> visit_replies (ram s) (v # vs) = fs1 @ visit_replies (ram s1) vs \<and>
      ram s1 = visit_ram v (ram s) \<and> thread_regs s1 = thread_regs s \<and> s_ctx s1 = s_ctx s \<and>
      (s_memWritten s1 \<longleftrightarrow> s_memWritten s \<or> stores v) \<and> icache_flushes s1 = icache_flushes s"
  proof (cases v)
    case (Store t a bs)
    have raw: "raw_in ?l (line s) = sent ?l ((t, words32 a @ words32 (of_nat (length bs)) @ pack_bytes bs) # map visit_frame vs @ fs) @ rest"
      using Cons.prems(2) Store by simp
    have t: "t \<in> {MON_LOAD, MON_WRITE_MEM}" "length bs \<le> 8192" "unat a + length bs < 2 ^ 32 - 1" using Cons.prems(1) Store by simp_all
    obtain w where "command b s = Some (False, s\<lparr>s_memWritten := True, ram := write_bytes (ram s) a bs, line := w\<rparr>)"
        "raw_in ?l w = sent ?l (map visit_frame vs @ fs) @ rest" "raw_out ?l w = raw_out ?l (line s) @ sent ?l [(MON_ACK, [])]"
      using raw t by (rule write_command)
    then show ?thesis using Store
      by (intro exI [of _ "s\<lparr>s_memWritten := True, ram := write_bytes (ram s) a bs, line := w\<rparr>"] exI [of _ "[(MON_ACK, [])]"])
        (simp del: sent_lists)
  next
    case (Fetch a n)
    have raw: "raw_in ?l (line s) = sent ?l ((MON_READ_MEM, words32 a @ words32 (of_nat n)) # map visit_frame vs @ fs) @ rest"
      using Cons.prems(2) Fetch by simp
    have n: "unat a + n < 2 ^ 32" using Cons.prems(1) Fetch by simp
    obtain w p k where "command b s = Some (False, s\<lparr>line := w, s_cmd := p, s_cmdLen := k\<rparr>)" "raw_in ?l w = sent ?l (map visit_frame vs @ fs) @ rest"
        "raw_out ?l w = raw_out ?l (line s) @ sent ?l (data_frames (ram s) a n)"
      using raw n by (rule read_command)
    then show ?thesis using Fetch
      by (intro exI [of _ "s\<lparr>line := w, s_cmd := p, s_cmdLen := k\<rparr>"] exI [of _ "data_frames (ram s) a n"]) (simp del: sent_lists)
  qed
  then obtain s1 fs1 where s1: "command b s = Some (False, s1)" "raw_in ?l (line s1) = sent ?l (map visit_frame vs @ fs) @ rest"
      "raw_out ?l (line s1) = raw_out ?l (line s) @ sent ?l fs1" "visit_replies (ram s) (v # vs) = fs1 @ visit_replies (ram s1) vs"
      "ram s1 = visit_ram v (ram s)" "thread_regs s1 = thread_regs s" "s_ctx s1 = s_ctx s"
      "s_memWritten s1 \<longleftrightarrow> s_memWritten s \<or> stores v" "icache_flushes s1 = icache_flushes s" by blast
  obtain s' where s': "run_commands b (length vs) s1 = Some (False, s')" "raw_in ?l (line s') = sent ?l fs @ rest"
      "raw_out ?l (line s') = raw_out ?l (line s1) @ sent ?l (visit_replies (ram s1) vs)"
      "ram s' = fold visit_ram vs (ram s1)" "thread_regs s' = thread_regs s1" "s_ctx s' = s_ctx s1"
      "s_memWritten s' \<longleftrightarrow> s_memWritten s1 \<or> (\<exists>v\<in>set vs. stores v)" "icache_flushes s' = icache_flushes s1"
    using Cons.IH [OF ok s1(2)] by blast
  show ?case
  proof (intro exI [of _ s'] conjI)
    show "run_commands b (length (v # vs)) s = Some (False, s')" using s1(1) s'(1) by simp
    show "raw_out ?l (line s') = raw_out ?l (line s) @ sent ?l (visit_replies (ram s) (v # vs))"
      using s1(3,4) s'(3) by simp
  qed (use s1 s' in auto)
qed simp

text \<open>
  C28: A stop can be undone. When an exception has halted the target with a STOPPED frame and the host then writes and
  reads memory, any number of times and in any order (at most 8192 bytes a write, and no range past the top of the
  address space), and sends CONT, the exception entry returns to the target with the registers it had and the memory the
  writes leave; the writes and the CONT are acknowledged in order, the reads answered with the memory as it is between
  the writes, and the instruction cache is flushed, once, exactly when the host wrote memory in this halt or a write was
  left from before.
\<close>

theorem stop_and_continue:
  assumes "take_exception b s = (True, s1)" "s_ctx s1" "\<not> s_ctx s" "\<forall>v\<in>set vs. visit_ok v"
    "raw_in (b_link b) (line s1) = sent (b_link b) (map visit_frame vs @ [(MON_CONT, [])]) @ rest"
  shows "\<exists>s'. monitorTake b s = Some (True, s') \<and> ram s' = fold visit_ram vs (ram s) \<and> thread_regs s' = thread_regs s \<and>
    s_running s' \<and> \<not> s_ctx s' \<and> raw_in (b_link b) (line s') = rest \<and> (\<exists>reason x y. stop_reported (b_link b) s reason x y \<and>
      raw_out (b_link b) (line s') = raw_out (b_link b) (line s) @
        sent (b_link b) ((MON_STOPPED, stopped_words reason (returnPC (thread_regs s)) x y) # visit_replies (ram s) vs @ [(MON_ACK, [])])) \<and>
    icache_flushes s' = icache_flushes s + (if s_memWritten s \<or> (\<exists>v\<in>set vs. stores v) then 1 else 0) \<and> \<not> s_memWritten s'"
proof -
  let ?l = "b_link b"
  have "stopped_state b s s1"
  proof -
    have "s1 \<noteq> s\<lparr>line := line s1, s_running := False\<rparr>"
    proof
      assume "s1 = s\<lparr>line := line s1, s_running := False\<rparr>"
      then have "s_ctx s1 = s_ctx (s\<lparr>line := line s1, s_running := False\<rparr>)" by (rule arg_cong)
      then show False using assms(2,3) by simp
    qed
    then show ?thesis using exception_spec [of b s] unfolding assms(1) prod.case if_True by blast
  qed
  then obtain reason x y where st: "ram s1 = ram s" "thread_regs s1 = thread_regs s" "s_memWritten s1 = s_memWritten s"
      "icache_flushes s1 = icache_flushes s" "stop_reported ?l s reason x y"
      "raw_out ?l (line s1) = raw_out ?l (line s) @ sent ?l [(MON_STOPPED, stopped_words reason (returnPC (thread_regs s)) x y)]"
    by (auto simp: stopped_state_def)
  obtain s2 where s2: "run_commands b (length vs) s1 = Some (False, s2)" "raw_in ?l (line s2) = sent ?l [(MON_CONT, [])] @ rest"
      "raw_out ?l (line s2) = raw_out ?l (line s1) @ sent ?l (visit_replies (ram s1) vs)"
      "ram s2 = fold visit_ram vs (ram s1)" "thread_regs s2 = thread_regs s1" "s_ctx s2 = s_ctx s1"
      "s_memWritten s2 \<longleftrightarrow> s_memWritten s1 \<or> (\<exists>v\<in>set vs. stores v)" "icache_flushes s2 = icache_flushes s1"
    using visits_run [OF assms(4,5)] by blast
  have "s_ctx s2" using s2(6) assms(2) by simp
  then obtain s' where s': "command b s2 = Some (True, s')" "raw_in ?l (line s') = rest"
    "raw_out ?l (line s') = raw_out ?l (line s2) @ sent ?l [(MON_ACK, [])]"
    "ram s' = ram s2" "thread_regs s' = thread_regs s2" "s_running s'" "\<not> s_ctx s'" "\<not> s_memWritten s'"
    "icache_flushes s' = icache_flushes s2 + (if s_memWritten s2 then 1 else 0)"
    using s2(2) by (rule cont_runs)
  have "run_commands b (length vs + 1) s1 = Some (True, s')"
    unfolding run_commands_add [OF s2(1)] using s'(1) by simp
  then have "monitorTake b s = Some (True, s')"
    using assms(1) run_commands_loop [of b "length vs + 1" s1 s'] by (simp add: monitorTake_def del: run_commands.simps)
  moreover have "raw_out ?l (line s') = raw_out ?l (line s) @
      sent ?l ((MON_STOPPED, stopped_words reason (returnPC (thread_regs s)) x y) # visit_replies (ram s) vs @ [(MON_ACK, [])])"
    using s'(3) s2(3) st(1,6) by (simp add: sent_def)
  moreover have "icache_flushes s' = icache_flushes s + (if s_memWritten s \<or> (\<exists>v\<in>set vs. stores v) then 1 else 0)"
    using s'(9) s2(7,8) st(3,4) by simp
  ultimately show ?thesis
    using s'(2,4-8) s2(4,5) st(1,2,5) by (intro exI [of _ s'] conjI exI [of _ reason] exI [of _ x] exI [of _ y]) simp_all
qed

section \<open>Concrete stops\<close>

text \<open>A byte that waits, a zero soon after it, and a byte long after.\<close>

theorem stop_pending_correct_witness:
  "fst (transportStopPending FT232H (idle_wire\<lparr>inb := [(0, 7), (3, 0), (30000, 9)]\<rparr>))"
  using stop_pending_correct [of FT232H "idle_wire\<lparr>inb := [(0, 7), (3, 0), (30000, 9)]\<rparr>"]
  by (auto simp: MONITOR_STOP_QUIET_SPINS_def split: prod.splits)

definition patch_visits :: "visit list" where
  "patch_visits = [Store MON_WRITE_MEM 0x80010000 [1, 2, 3], Fetch 0x80010000 2]"

definition broken :: mon where
  "broken = (posts (sent ATCONS (map visit_frame patch_visits @ [(MON_CONT, [])])))\<lparr>s_running := True, ram := (\<lambda>_. 0)(0 := 0x0d),
     thread_regs := \<lparr>GPR = replicate 32 0, returnPC = 0, HI = 0, LO = 0, SR = 0, Cause = 36\<rparr>\<rparr>"

lemma broken_stops: "take_exception atcons_build broken = (True, monitorStop atcons_build MON_STOP_BREAKPOINT 0x0d 0 broken)"
proof -
  have "CAUSE_EXCCODE (Cause (thread_regs broken)) = EXCCODE_BP" by (simp add: CAUSE_EXCCODE_def EXCCODE_BP_def broken_def)
  moreover have "word_at (ram broken) (returnPC (thread_regs broken)) = 0x0d" by (simp add: word_at_def broken_def)
  ultimately show ?thesis by (simp add: take_exception_def Let_def)
qed

theorem stop_and_continue_witness:
  "\<exists>s'. monitorTake atcons_build broken = Some (True, s') \<and> ram s' = write_bytes (ram broken) 0x80010000 [1, 2, 3] \<and>
     s_running s' \<and> icache_flushes s' = 1"
proof -
  let ?s1 = "monitorStop atcons_build MON_STOP_BREAKPOINT 0x0d 0 broken"
  have "raw_in ATCONS (line broken) = sent ATCONS (map visit_frame patch_visits @ [(MON_CONT, [])])"
    using raw_in_posts [of "sent ATCONS (map visit_frame patch_visits @ [(MON_CONT, [])])"] by (simp add: broken_def del: sent_lists)
  then have "raw_in (b_link atcons_build) (line ?s1) = sent (b_link atcons_build) (map visit_frame patch_visits @ [(MON_CONT, [])]) @ []"
    by (simp add: monitorStop_effect del: send_frames_simps sent_lists)
  moreover have "s_ctx ?s1" "\<not> s_ctx broken" by (simp_all add: monitorStop_effect broken_def posts_def sample_mon_def)
  moreover have "\<forall>v\<in>set patch_visits. visit_ok v" by (simp add: patch_visits_def)
  moreover have "icache_flushes broken = 0" "\<exists>v\<in>set patch_visits. stores v"
    "fold visit_ram patch_visits m = write_bytes m 0x80010000 [1, 2, 3]" for m
    by (simp_all add: broken_def posts_def sample_mon_def patch_visits_def)
  ultimately show ?thesis using stop_and_continue [OF broken_stops, of patch_visits "[]"] by auto
qed

end
