(* ===== verification/Iso_Parser.thy ===== *)
theory Iso_Parser
  imports Prelude "HOL-Library.Monad_Syntax"
begin

text \<open>
  The ISO 9660 parser of psyqo (\<open>psyqo/src/iso9660-parser.cpp\<close>): finding a path with a cache of the last directory,
  and walking a directory. The device is a function from the number of the read and the sector to whether it worked
  and what is in the buffer then; only one operation is under way at a time, so each is a function that ends with the
  callback. The buffer is a function because the search of a damaged directory can read behind its 2048 bytes.
  The name of an entry has room for 15 characters in the code; the model keeps it whole, so it is the code for the names
  that fit.
\<close>

section \<open>State\<close>

datatype entry_type = INVALID | FILE | DIRECTORY | CURRENT_DIR | PARENT_DIR

record DirEntry =
  LBA :: u32
  dsize :: u32
  dname :: bytes
  dtype :: entry_type

type_synonym buffer = "nat \<Rightarrow> u8"
type_synonym device = "nat \<Rightarrow> u32 \<Rightarrow> bool \<times> buffer"

record parser =
  m_buffer :: buffer
  m_root :: DirEntry
  m_cachedEntry :: DirEntry
  m_cachedLBA :: u32
  m_cachedPath :: bytes
  m_initialized :: bool
  reads :: nat

text \<open>A read of one sector into the buffer.\<close>

definition read_sector :: "device \<Rightarrow> u32 \<Rightarrow> parser \<Rightarrow> bool \<times> parser" where
  "read_sector dev lba s =
     (case dev (reads s) lba of (ok, sec) \<Rightarrow>
        (ok, s\<lparr>reads := reads s + 1, m_buffer := (\<lambda>i. if i < 2048 then sec i else m_buffer s i)\<rparr>))"

section \<open>Directory records\<close>

definition le32 :: "buffer \<Rightarrow> nat \<Rightarrow> u32" where
  "le32 d i = push_bit 24 (ucast (d (i + 3))) OR push_bit 16 (ucast (d (i + 2))) OR push_bit 8 (ucast (d (i + 1))) OR ucast (d i)"

definition parseDirEntry :: "buffer \<Rightarrow> DirEntry" where
  "parseDirEntry data =
     (let len = unat (data 32); nm = map data [33..<33 + len]
      in if data 25 AND 2 = 0 then \<lparr>LBA = le32 data 2, dsize = le32 data 10, dname = nm, dtype = FILE\<rparr>
         else if len = 0 then \<lparr>LBA = le32 data 2, dsize = le32 data 10, dname = [0x2e], dtype = CURRENT_DIR\<rparr>
         else if len = 1 \<and> data 33 = 1 then \<lparr>LBA = le32 data 2, dsize = le32 data 10, dname = [0x2e, 0x2e], dtype = PARENT_DIR\<rparr>
         else \<lparr>LBA = le32 data 2, dsize = le32 data 10, dname = nm, dtype = DIRECTORY\<rparr>)"

definition getEntryName :: "buffer \<Rightarrow> bytes" where
  "getEntryName data =
     (if data 0 = 0 then []
      else if data 32 = 1 \<and> data 33 = 0 then [0x2e]
      else if data 32 = 1 \<and> data 33 = 1 then [0x2e, 0x2e]
      else map data [33..<33 + unat (data 32)])"

section \<open>Finding a path\<close>

text \<open>The search of the sector in the buffer for a name: the record found, by its offset.\<close>

definition data_at :: "buffer \<Rightarrow> nat \<Rightarrow> buffer" where
  "data_at buf offset = (\<lambda>i. buf (offset + i))"

function find_record :: "buffer \<Rightarrow> bytes \<Rightarrow> nat \<Rightarrow> buffer option" where
  "find_record buf name offset =
     (if offset < 2048 \<and> buf offset \<noteq> 0 then
        if getEntryName (data_at buf offset) = name then Some (data_at buf offset)
        else find_record buf name (offset + unat (buf offset))
      else None)"
  by pat_completeness auto
termination
  by (relation "measure (\<lambda>(buf, name, offset). 2048 - offset)") (auto simp: unat_gt_0 intro!: diff_less_mono2)

declare find_record.simps [simp del]

text \<open>The characters before the first slash, and those behind it.\<close>

definition slash :: u8 where "slash = 0x2f"

definition first_name :: "bytes \<Rightarrow> bytes" where
  "first_name path = takeWhile (\<lambda>c. c \<noteq> slash) path"

definition drop_slash :: "bytes \<Rightarrow> bytes" where
  "drop_slash path = (case path of [] \<Rightarrow> [] | c # cs \<Rightarrow> if c = slash then cs else path)"

definition rest_path :: "bytes \<Rightarrow> bytes" where
  "rest_path path = drop_slash (drop (length (first_name path)) path)"

text \<open>
  The result is what the callback is given, the entry, and the parser. \<open>entry\<close> is what the caller's entry holds before.
\<close>

partial_function (option) findDirEntry ::
    "device \<Rightarrow> bytes \<Rightarrow> DirEntry \<Rightarrow> parser \<Rightarrow> (bool \<times> DirEntry \<times> parser) option" where
  "findDirEntry dev path entry s =
     (if path = [] then Some (True, m_cachedEntry s, s)
      else if dtype (m_cachedEntry s) = INVALID then
        case read_sector dev (LBA (m_root s)) (s\<lparr>m_cachedPath := [], m_cachedLBA := 0\<rparr>) of (ok, s) \<Rightarrow>
          if \<not> ok then Some (False, entry, s)
          else findDirEntry dev path entry (s\<lparr>m_cachedLBA := LBA (m_root s), m_cachedEntry := m_root s\<rparr>)
      else if dtype (m_cachedEntry s) \<noteq> DIRECTORY then Some (True, entry, s)
      else case find_record (m_buffer s) (first_name path) 0 of
        Some data \<Rightarrow>
          if data 25 AND 2 = 0 then Some (True, parseDirEntry data, s)
          else
            let s = s\<lparr>m_cachedPath := m_cachedPath s @ [slash] @ first_name path, m_cachedEntry := parseDirEntry data, m_cachedLBA := 0\<rparr>
            in case read_sector dev (LBA (m_cachedEntry s)) s of (ok, s) \<Rightarrow>
                 if \<not> ok then Some (False, entry, s)
                 else findDirEntry dev (rest_path path) entry (s\<lparr>m_cachedLBA := LBA (m_cachedEntry s)\<rparr>)
      | None \<Rightarrow>
          let current = m_cachedLBA s - LBA (m_cachedEntry s); count = dsize (m_cachedEntry s) div 2048
          in if current + 1 < count then
               let sectorToRead = m_cachedLBA s + 1
               in case read_sector dev sectorToRead (s\<lparr>m_cachedLBA := 0\<rparr>) of (ok, s) \<Rightarrow>
                    if \<not> ok then Some (False, entry, s)
                    else findDirEntry dev path entry (s\<lparr>m_cachedLBA := sectorToRead\<rparr>)
             else Some (True, entry, s))"

text \<open>Whether the cached directory is a prefix of the path, and the rest of the path then.\<close>

definition cached_rest :: "bytes \<Rightarrow> bytes \<Rightarrow> bytes option" where
  "cached_rest cached path =
     (let c = drop_slash cached
      in if take (length c) path = c \<and> length path > length c \<and> path ! length c = slash
         then Some (drop (length c + 1) path) else None)"

definition getDirentry :: "device \<Rightarrow> bytes \<Rightarrow> DirEntry \<Rightarrow> parser \<Rightarrow> (bool \<times> DirEntry \<times> parser) option" where
  "getDirentry dev path entry s =
     (if \<not> m_initialized s then Some (False, entry, s)
      else if path = [] then Some (True, m_root s, s)
      else
        let path = drop_slash path;
            (path, s) = (case cached_rest (m_cachedPath s) path of
                Some p \<Rightarrow> (p, s)
              | None \<Rightarrow> (path, if m_cachedLBA s \<noteq> LBA (m_root s) then s\<lparr>m_cachedEntry := (m_cachedEntry s)\<lparr>dtype := INVALID\<rparr>\<rparr> else s));
            entry = entry\<lparr>dtype := INVALID\<rparr>
        in if dtype (m_cachedEntry s) = DIRECTORY \<and> m_cachedLBA s \<noteq> LBA (m_cachedEntry s) then
             case read_sector dev (LBA (m_cachedEntry s)) (s\<lparr>m_cachedLBA := 0\<rparr>) of (ok, s) \<Rightarrow>
               if \<not> ok then Some (False, entry, s)
               else findDirEntry dev path entry (s\<lparr>m_cachedLBA := LBA (m_cachedEntry s)\<rparr>)
           else findDirEntry dev path entry s)"

section \<open>Initialisation\<close>

definition init_parser :: "device \<Rightarrow> parser \<Rightarrow> bool \<times> parser" where
  "init_parser dev s =
     (case read_sector dev 16 s of (ok, s) \<Rightarrow>
        let s = s\<lparr>m_cachedLBA := 0, m_initialized := False\<rparr>
        in if \<not> ok \<or> le32 (m_buffer s) 0 \<noteq> 0x30444301 \<or> le32 (m_buffer s) 4 \<noteq> 0x00013130 then (False, s)
           else
             let root = parseDirEntry (data_at (m_buffer s) 156); s = s\<lparr>m_root := root, m_cachedEntry := root\<rparr>
             in case read_sector dev (LBA root) s of (ok, s) \<Rightarrow>
                  (ok, if ok then s\<lparr>m_cachedLBA := LBA (m_root s), m_cachedEntry := m_root s, m_cachedPath := [], m_initialized := True\<rparr> else s))"

section \<open>Walking a directory\<close>

text \<open>The records of a sector, as far as they hold together, and the visitor, whose state is threaded through.\<close>

function walk_records :: "('v \<Rightarrow> bytes \<Rightarrow> DirEntry \<Rightarrow> bool \<times> 'v) \<Rightarrow> buffer \<Rightarrow> nat \<Rightarrow> 'v \<Rightarrow> bool \<times> 'v" where
  "walk_records visitor buf offset v =
     (if offset < 2048 \<and> buf offset \<noteq> 0 then
        let data = data_at buf offset
        in if data 0 < 34 \<or> offset + unat (data 0) > 2048 \<or> 33 + unat (data 32) > unat (data 0) then (False, v)
           else case visitor v (getEntryName data) (parseDirEntry data) of
               (True, v) \<Rightarrow> (True, v)
             | (False, v) \<Rightarrow> walk_records visitor buf (offset + unat (data 0)) v
      else (False, v))"
  by pat_completeness auto
termination
  by (relation "measure (\<lambda>(visitor, buf, offset, v). 2048 - offset)")
    (auto simp: unat_gt_0 data_at_def intro!: diff_less_mono2)

declare walk_records.simps [simp del]

lemma next_sector: "a < (b :: u32) \<Longrightarrow> unat (a + 1) = unat a + 1"
  using unat_plus_small [of a 1] le_less_trans [OF _ unat_u32_less [of b], of "unat a + 1"] by (simp add: word_less_nat_alt)

function walkSector :: "device \<Rightarrow> ('v \<Rightarrow> bytes \<Rightarrow> DirEntry \<Rightarrow> bool \<times> 'v) \<Rightarrow> u32 \<Rightarrow> u32 \<Rightarrow> 'v \<Rightarrow> parser \<Rightarrow> bool \<times> 'v \<times> parser" where
  "walkSector dev visitor walkLBA walkEnd v s =
     (if walkLBA \<ge> walkEnd then (True, v, s)
      else case read_sector dev walkLBA s of (ok, s) \<Rightarrow>
        if \<not> ok then (False, v, s)
        else case walk_records visitor (m_buffer s) 0 v of
            (True, v) \<Rightarrow> (True, v, s)
          | (False, v) \<Rightarrow> walkSector dev visitor (walkLBA + 1) walkEnd v s)"
  by pat_completeness auto
termination
  by (relation "measure (\<lambda>(dev, visitor, walkLBA, walkEnd, v, s). unat walkEnd - unat walkLBA)")
    (auto simp: next_sector not_le word_less_nat_alt)

declare walkSector.simps [simp del]

definition walkDirectory ::
    "device \<Rightarrow> DirEntry \<Rightarrow> ('v \<Rightarrow> bytes \<Rightarrow> DirEntry \<Rightarrow> bool \<times> 'v) \<Rightarrow> 'v \<Rightarrow> parser \<Rightarrow> bool \<times> 'v \<times> parser" where
  "walkDirectory dev dir visitor v s =
     (if \<not> m_initialized s \<or> dtype dir \<notin> {DIRECTORY, CURRENT_DIR, PARENT_DIR} then (False, v, s)
      else walkSector dev visitor (LBA dir) (LBA dir + (dsize dir + 2047) div 2048) v
        (s\<lparr>m_cachedEntry := (m_cachedEntry s)\<lparr>dtype := INVALID\<rparr>, m_cachedLBA := 0, m_cachedPath := []\<rparr>))"

section \<open>Reading a file\<close>

text \<open>The request to the device: the first sector and their number.\<close>

definition scheduleReadRequest :: "DirEntry \<Rightarrow> u32 \<times> u32" where
  "scheduleReadRequest entry = (LBA entry, (dsize entry + 2047) div 2048)"

end
