(* ===== verification/Iso_Lookup.thy ===== *)
theory Iso_Lookup
  imports Iso_Parser
begin

text \<open>
  What the parser finds. A disc is a function from sectors to bytes; \<open>resolve\<close> says what a path means on it, with no
  cache and no buffer. On a disc whose directories hold together, a lookup answers what the path means, whatever was
  looked up before and whichever reads fail; three kinds of paths are left out, and for two of them the last section
  shows how the cache goes wrong.
\<close>

section \<open>What is on a disc\<close>

text \<open>The offsets of the records of a sector, and the records as names and entries.\<close>

function offsets :: "buffer \<Rightarrow> nat \<Rightarrow> nat list" where
  "offsets sec ofs = (if ofs < 2048 \<and> sec ofs \<noteq> 0 then ofs # offsets sec (ofs + unat (sec ofs)) else [])"
  by pat_completeness auto
termination by (relation "measure (\<lambda>(sec, ofs). 2048 - ofs)") (auto simp: unat_gt_0 intro!: diff_less_mono2)

declare offsets.simps [simp del]

definition records :: "buffer \<Rightarrow> nat \<Rightarrow> (bytes \<times> DirEntry) list" where
  "records sec ofs = map (\<lambda>i. (getEntryName (data_at sec i), parseDirEntry (data_at sec i))) (offsets sec ofs)"

definition sector_ok :: "buffer \<Rightarrow> nat \<Rightarrow> bool" where
  "sector_ok sec ofs \<longleftrightarrow> (\<forall>i\<in>set (offsets sec ofs). 34 \<le> unat (sec i) \<and> i + unat (sec i) \<le> 2048 \<and> 33 + unat (sec (i + 32)) \<le> unat (sec i))"

type_synonym disc = "u32 \<Rightarrow> buffer"

definition nsec :: "DirEntry \<Rightarrow> nat" where
  "nsec e = max 1 (unat (dsize e div 2048))"

definition dir_records :: "disc \<Rightarrow> DirEntry \<Rightarrow> (bytes \<times> DirEntry) list" where
  "dir_records img e = concat (map (\<lambda>i. records (img (LBA e + of_nat i)) 0) [0..<nsec e])"

lemma rest_path_shorter: "path \<noteq> [] \<Longrightarrow> length (rest_path path) < length path"
proof -
  assume "path \<noteq> []"
  define n where "n = length (first_name path)"
  have "n \<le> length path" by (simp add: n_def first_name_def length_takeWhile_le)
  show ?thesis
  proof (cases "drop n path")
    case Nil
    then show ?thesis using \<open>path \<noteq> []\<close> by (simp add: rest_path_def drop_slash_def n_def)
  next
    case (Cons c cs)
    then have "n < length path" by (metis drop_all leI list.distinct(1))
    then have "path ! n = c" using Cons by (metis hd_drop_conv_nth list.sel(1))
    then have "c = slash" using \<open>n < length path\<close> nth_length_takeWhile [of "\<lambda>c. c \<noteq> slash" path] by (simp add: n_def first_name_def)
    moreover have "length path = n + Suc (length cs)" using Cons \<open>n < length path\<close> by (metis add_diff_inverse_nat length_Cons length_drop less_imp_not_less)
    ultimately show ?thesis using Cons by (simp add: rest_path_def drop_slash_def n_def)
  qed
qed

text \<open>The entry a path names from a directory on. A file ends the path, whatever follows it.\<close>

function resolve :: "disc \<Rightarrow> DirEntry \<Rightarrow> bytes \<Rightarrow> DirEntry option" where
  "resolve img e path =
     (if path = [] then Some e
      else if dtype e \<noteq> DIRECTORY then None
      else case map_of (dir_records img e) (first_name path) of
          None \<Rightarrow> None
        | Some f \<Rightarrow> if dtype f = FILE then Some f else resolve img f (rest_path path))"
  by pat_completeness auto
termination by (relation "measure (\<lambda>(img, e, path). length path)") (auto simp: rest_path_shorter)

declare resolve.simps [simp del]

section \<open>The buffer and the sector\<close>

definition same_sector :: "buffer \<Rightarrow> buffer \<Rightarrow> bool" where
  "same_sector b1 b2 \<longleftrightarrow> (\<forall>i<2048. b1 i = b2 i)"

lemma offsets_same: "same_sector b1 b2 \<Longrightarrow> offsets b1 ofs = offsets b2 ofs"
proof (induction b2 ofs rule: offsets.induct)
  case (1 b2 ofs)
  then show ?case by (subst (1 2) offsets.simps) (auto simp: same_sector_def)
qed

lemma sector_ok_step:
  assumes "sector_ok sec ofs" "ofs < 2048" "sec ofs \<noteq> 0"
  shows "34 \<le> unat (sec ofs)" "ofs + unat (sec ofs) \<le> 2048" "33 + unat (sec (ofs + 32)) \<le> unat (sec ofs)" "sector_ok sec (ofs + unat (sec ofs))"
  using assms unfolding sector_ok_def by (subst (asm) offsets.simps; simp)+

lemma record_same:
  assumes "same_sector b1 b2" "ofs < 2048" "34 \<le> unat (b2 ofs)" "ofs + unat (b2 ofs) \<le> 2048" "33 + unat (b2 (ofs + 32)) \<le> unat (b2 ofs)"
  shows "getEntryName (data_at b1 ofs) = getEntryName (data_at b2 ofs)" "parseDirEntry (data_at b1 ofs) = parseDirEntry (data_at b2 ofs)"
proof -
  have b: "b1 (ofs + i) = b2 (ofs + i)" if "i < 34 \<or> i < 33 + unat (b2 (ofs + 32))" for i
  proof -
    have "ofs + i < 2048" using that assms(3-5) by linarith
    then show ?thesis using assms(1) by (simp add: same_sector_def)
  qed
  have m: "map (data_at b1 ofs) [33..<33 + unat (b2 (ofs + 32))] = map (data_at b2 ofs) [33..<33 + unat (b2 (ofs + 32))]"
    by (rule map_cong) (auto simp: data_at_def b)
  have f: "data_at b1 ofs i = data_at b2 ofs i" if "i < 34" for i using b that by (simp add: data_at_def)
  have le: "le32 (data_at b1 ofs) i = le32 (data_at b2 ofs) i" if "i < 30" for i using that by (simp add: le32_def f)
  have d32: "data_at b2 ofs 32 = b2 (ofs + 32)" by (simp add: data_at_def)
  show "getEntryName (data_at b1 ofs) = getEntryName (data_at b2 ofs)"
    using m by (simp add: getEntryName_def f d32)
  show "parseDirEntry (data_at b1 ofs) = parseDirEntry (data_at b2 ofs)"
    using m by (simp add: parseDirEntry_def Let_def f le d32)
qed

lemma find_record_spec:
  assumes "same_sector buf sec" "sector_ok sec ofs"
  shows "case find_record buf name ofs of
      None \<Rightarrow> map_of (records sec ofs) name = None
    | Some data \<Rightarrow> map_of (records sec ofs) name = Some (parseDirEntry data)"
  using assms
proof (induction buf name ofs rule: find_record.induct)
  case (1 buf name ofs)
  show ?case
  proof (cases "ofs < 2048 \<and> sec ofs \<noteq> 0")
    case True
    note ok = sector_ok_step [OF "1.prems"(2) True [THEN conjunct1] True [THEN conjunct2]]
    have b: "buf ofs = sec ofs" using "1.prems"(1) True by (simp add: same_sector_def)
    note r = record_same [OF "1.prems"(1) True [THEN conjunct1] ok(1-3)]
    have recs: "records sec ofs = (getEntryName (data_at sec ofs), parseDirEntry (data_at sec ofs)) # records sec (ofs + unat (sec ofs))"
      unfolding records_def using True by (subst offsets.simps) simp
    show ?thesis
    proof (cases "getEntryName (data_at buf ofs) = name")
      case hit: True
      have "find_record buf name ofs = Some (data_at buf ofs)" using True hit b by (subst find_record.simps) simp
      then show ?thesis using recs r hit by simp
    next
      case False
      then have "find_record buf name ofs = find_record buf name (ofs + unat (sec ofs))" using True b by (subst find_record.simps) simp
      moreover have "case find_record buf name (ofs + unat (buf ofs)) of None \<Rightarrow> map_of (records sec (ofs + unat (buf ofs))) name = None
          | Some data \<Rightarrow> map_of (records sec (ofs + unat (buf ofs))) name = Some (parseDirEntry data)"
        using "1.IH" True False b "1.prems"(1) ok(4) by simp
      moreover have "map_of (records sec ofs) name = map_of (records sec (ofs + unat (sec ofs))) name"
        unfolding recs using r(1) False by auto
      ultimately show ?thesis using b by (auto split: option.splits)
    qed
  next
    case False
    then have "find_record buf name ofs = None" "records sec ofs = []"
      using "1.prems"(1) by (subst find_record.simps, auto simp: same_sector_def) (simp_all add: records_def offsets.simps)
    then show ?thesis by simp
  qed
qed

lemma record_file: "data 25 AND 2 = 0 \<longleftrightarrow> dtype (parseDirEntry data) = FILE"
  by (simp add: parseDirEntry_def Let_def)

section \<open>Discs that hold together\<close>

text \<open>The components of a path, and paths without empty ones and without the names of the two dot records.\<close>

function components :: "bytes \<Rightarrow> bytes list" where
  "components path = (if path = [] then [] else first_name path # components (rest_path path))"
  by pat_completeness auto
termination by (relation "measure length") (auto simp: rest_path_shorter)

declare components.simps [simp del]

definition special_name :: "bytes \<Rightarrow> bool" where
  "special_name n \<longleftrightarrow> n = [] \<or> n = [0x2e] \<or> n = [0x2e, 0x2e]"

definition plain :: "bytes \<Rightarrow> bool" where
  "plain path \<longleftrightarrow> path \<noteq> [] \<and> (\<forall>n\<in>set (components path). \<not> special_name n)"

text \<open>
  The directories \<open>D\<close> of a disc: each has its sectors, whose records hold together; a directory inside one is one of
  them, and none but the root covers the first sector of the root.
\<close>

definition dir_ok :: "disc \<Rightarrow> DirEntry \<Rightarrow> DirEntry list \<Rightarrow> DirEntry \<Rightarrow> bool" where
  "dir_ok img root D e \<longleftrightarrow> dtype e = DIRECTORY \<and> LBA e \<noteq> 0 \<and> unat (LBA e) + nsec e \<le> 2 ^ 32 \<and>
     (\<forall>i\<in>set [0..<nsec e]. sector_ok (img (LBA e + of_nat i)) 0 \<and> (LBA e + of_nat i = LBA root \<longrightarrow> e = root)) \<and>
     (\<forall>(n, f)\<in>set (dir_records img e). \<not> special_name n \<longrightarrow> dtype f \<noteq> FILE \<longrightarrow> f \<in> set D)"

definition wf_disc :: "disc \<Rightarrow> DirEntry \<Rightarrow> DirEntry list \<Rightarrow> bool" where
  "wf_disc img root D \<longleftrightarrow> root \<in> set D \<and> (\<forall>e\<in>set D. dir_ok img root D e)"

text \<open>The drive: a read that works gives the sector of the disc; any read may fail.\<close>

definition reads_disc :: "device \<Rightarrow> disc \<Rightarrow> bool" where
  "reads_disc dev img \<longleftrightarrow> (\<forall>n lba. fst (dev n lba) \<longrightarrow> same_sector (snd (dev n lba)) (img lba))"

text \<open>What the cache promises.\<close>

definition join :: "bytes \<Rightarrow> bytes \<Rightarrow> bytes" where
  "join cached p = (if cached = [] then p else drop_slash cached @ slash # p)"

definition cached_dir_ok :: "disc \<Rightarrow> DirEntry list \<Rightarrow> parser \<Rightarrow> bool" where
  "cached_dir_ok img D s \<longleftrightarrow> m_cachedEntry s \<in> set D \<and> (m_cachedPath s = [] \<or> hd (m_cachedPath s) = slash) \<and>
     (\<forall>p. resolve img (m_root s) (join (m_cachedPath s) p) = resolve img (m_cachedEntry s) p)"

definition cache_ok :: "disc \<Rightarrow> DirEntry list \<Rightarrow> parser \<Rightarrow> bool" where
  "cache_ok img D s \<longleftrightarrow> m_initialized s \<and>
     (if dtype (m_cachedEntry s) = INVALID then m_cachedPath s = []
      else cached_dir_ok img D s \<and> (m_cachedLBA s = LBA (m_root s) \<longrightarrow> m_cachedEntry s = m_root s) \<and>
        (m_cachedLBA s = LBA (m_cachedEntry s) \<longrightarrow> same_sector (m_buffer s) (img (m_cachedLBA s))))"

text \<open>The parser with sector \<open>i\<close> of the cached directory in the buffer.\<close>

definition at_sector :: "disc \<Rightarrow> DirEntry list \<Rightarrow> parser \<Rightarrow> nat \<Rightarrow> bool" where
  "at_sector img D s i \<longleftrightarrow> m_initialized s \<and> cached_dir_ok img D s \<and> i < nsec (m_cachedEntry s) \<and>
     m_cachedLBA s = LBA (m_cachedEntry s) + of_nat i \<and> same_sector (m_buffer s) (img (m_cachedLBA s))"

text \<open>A lookup that ended without an error answers what the path means; one that failed did so at its last read.\<close>

definition failed_read :: "device \<Rightarrow> parser \<Rightarrow> parser \<Rightarrow> bool" where
  "failed_read dev s s' \<longleftrightarrow> reads s < reads s' \<and> (\<exists>lba. \<not> fst (dev (reads s' - 1) lba))"

definition answers :: "device \<Rightarrow> disc \<Rightarrow> DirEntry list \<Rightarrow> parser \<Rightarrow> DirEntry \<Rightarrow> DirEntry option \<Rightarrow> (bool \<times> DirEntry \<times> parser) option \<Rightarrow> bool" where
  "answers dev img D s entry want r =
     (case r of None \<Rightarrow> False
      | Some (ok, en, s') \<Rightarrow> cache_ok img D s' \<and> m_root s' = m_root s \<and> reads s \<le> reads s' \<and>
          (if ok then en = (case want of Some f \<Rightarrow> f | None \<Rightarrow> entry) else failed_read dev s s'))"

lemma dir_okD:
  assumes "wf_disc img root D" "e \<in> set D"
  shows "dtype e = DIRECTORY" "LBA e \<noteq> 0" "unat (LBA e) + nsec e \<le> 2 ^ 32"
    "i < nsec e \<Longrightarrow> sector_ok (img (LBA e + of_nat i)) 0"
    "i < nsec e \<Longrightarrow> LBA e + of_nat i = LBA root \<Longrightarrow> e = root"
    "map_of (dir_records img e) n = Some f \<Longrightarrow> \<not> special_name n \<Longrightarrow> dtype f \<noteq> FILE \<Longrightarrow> f \<in> set D"
  using assms unfolding wf_disc_def dir_ok_def by (auto dest!: map_of_SomeD)

lemma nsec_pos: "0 < nsec e"
  by (simp add: nsec_def)

lemma at_sector_cache:
  assumes "wf_disc img (m_root s) D" "at_sector img D s i"
  shows "cache_ok img D s"
proof -
  let ?e = "m_cachedEntry s"
  have e: "?e \<in> set D" using assms(2) by (simp add: at_sector_def cached_dir_ok_def)
  note d = dir_okD [OF assms(1) e]
  have i: "i < nsec ?e" "m_cachedLBA s = LBA ?e + of_nat i" using assms(2) by (auto simp: at_sector_def)
  show ?thesis using assms(2) d(1) d(5) [OF i(1)] i(2) by (auto simp: cache_ok_def at_sector_def)
qed

end
