(* ===== verification/Iso_Find.thy ===== *)
theory Iso_Find
  imports Iso_Lookup
begin

text \<open>The search of a path from the cached directory on, sector by sector and directory by directory.\<close>

section \<open>Paths\<close>

lemma slash_not_in_first: "slash \<notin> set (first_name path)"
  by (auto simp: first_name_def dest: set_takeWhileD)

lemma first_name_append: "slash \<notin> set n \<Longrightarrow> first_name (n @ slash # p) = n"
  by (simp add: first_name_def takeWhile_append takeWhile_eq_all_conv)

lemma rest_path_append: "slash \<notin> set n \<Longrightarrow> rest_path (n @ slash # p) = p"
  by (simp add: rest_path_def first_name_append drop_slash_def)

lemma join_step:
  assumes "c = [] \<or> hd c = slash"
  shows "join (c @ [slash] @ n) p = join c (n @ slash # p)"
  using assms by (cases c) (auto simp: join_def drop_slash_def)

lemma plainD:
  assumes "plain path"
  shows "path \<noteq> []" "\<not> special_name (first_name path)" "rest_path path = [] \<or> plain (rest_path path)"
proof -
  show ne: "path \<noteq> []" using assms by (simp add: plain_def)
  then have c: "components path = first_name path # components (rest_path path)" by (subst components.simps) simp
  show "\<not> special_name (first_name path)" "rest_path path = [] \<or> plain (rest_path path)"
    using assms c by (auto simp: plain_def)
qed

lemma resolve_step:
  assumes "path \<noteq> []" "dtype e = DIRECTORY"
  shows "resolve img e path = (case map_of (dir_records img e) (first_name path) of
      None \<Rightarrow> None | Some f \<Rightarrow> if dtype f = FILE then Some f else resolve img f (rest_path path))"
  using assms by (subst resolve.simps) simp

lemma resolve_Nil [simp]: "resolve img e [] = Some e"
  by (subst resolve.simps) simp

section \<open>A read\<close>

lemma read_sector_cases:
  assumes "reads_disc dev img" "read_sector dev lba s = (ok, s')"
  obtains b where "s' = s\<lparr>reads := reads s + 1, m_buffer := b\<rparr>" "ok \<longrightarrow> same_sector b (img lba)" "\<not> ok \<longrightarrow> failed_read dev s s'"
proof -
  obtain k sec where d: "dev (reads s) lba = (k, sec)" by (cases "dev (reads s) lba")
  have s': "s' = s\<lparr>reads := reads s + 1, m_buffer := (\<lambda>i. if i < 2048 then sec i else m_buffer s i)\<rparr>" "ok = k"
    using assms(2) d by (auto simp: read_sector_def)
  have "k \<longrightarrow> same_sector sec (img lba)" using assms(1) d unfolding reads_disc_def by (metis fst_conv snd_conv)
  then have "ok \<longrightarrow> same_sector (\<lambda>i. if i < 2048 then sec i else m_buffer s i) (img lba)" by (simp add: s'(2) same_sector_def)
  moreover have "\<not> ok \<longrightarrow> failed_read dev s s'"
  proof
    assume "\<not> ok"
    then have "\<not> fst (dev (reads s) lba)" using d s'(2) by simp
    then show "failed_read dev s s'" by (auto simp: failed_read_def s'(1))
  qed
  ultimately show ?thesis using that s'(1) by blast
qed

lemma failed_read_mono: "failed_read dev s1 s2 \<Longrightarrow> reads s \<le> reads s1 \<Longrightarrow> failed_read dev s s2"
  by (auto simp: failed_read_def)

lemma answers_mono:
  assumes "answers dev img D s1 entry want r" "reads s \<le> reads s1" "m_root s = m_root s1"
  shows "answers dev img D s entry want r"
  using assms failed_read_mono [of dev s1 _ s] unfolding answers_def
  by (auto split: option.splits if_splits)

lemma answers_failed:
  assumes "failed_read dev s s'" "cache_ok img D s'" "m_root s' = m_root s"
  shows "answers dev img D s entry want (Some (False, entry, s'))"
  using assms by (simp add: answers_def failed_read_def)

section \<open>Inside a directory\<close>

lemma map_of_concat_upt:
  assumes "i < n" "\<forall>j<i. map_of (f j) k = None"
  shows "map_of (concat (map f [0..<n])) k = (case map_of (f i) k of Some v \<Rightarrow> Some v | None \<Rightarrow> map_of (concat (map f [Suc i..<n])) k)"
proof -
  have "[0..<n] = [0..<i] @ i # [Suc i..<n]" 
    using assms(1) upt_add_eq_append [of 0 i "n - i"] by (simp add: upt_conv_Cons)
  moreover have "map_of (concat (map f [0..<i])) k = None"
    using assms(2) by (auto simp: map_of_eq_None_iff)
  ultimately show ?thesis by (auto simp: map_of_append map_add_def split: option.splits)
qed

definition none_before :: "disc \<Rightarrow> DirEntry \<Rightarrow> bytes \<Rightarrow> nat \<Rightarrow> bool" where
  "none_before img e name i \<longleftrightarrow> (\<forall>j<i. map_of (records (img (LBA e + of_nat j)) 0) name = None)"

lemma found_here:
  assumes "i < nsec e" "none_before img e name i" "map_of (records (img (LBA e + of_nat i)) 0) name = Some f"
  shows "map_of (dir_records img e) name = Some f"
  using map_of_concat_upt [OF assms(1), of "\<lambda>i. records (img (LBA e + of_nat i)) 0" name] assms
  by (simp add: dir_records_def none_before_def)

lemma none_in_dir:
  assumes "none_before img e name (nsec e)"
  shows "map_of (dir_records img e) name = None"
  using assms by (auto simp: dir_records_def none_before_def map_of_eq_None_iff)

lemma more_sectors:
  assumes "i < nsec e" "unat (LBA e) + nsec e \<le> 2 ^ 32"
  shows "(LBA e + of_nat i) - LBA e + 1 < dsize e div 2048 \<longleftrightarrow> Suc i < nsec e"
proof -
  have "nsec e \<le> 2 ^ 21"
  proof -
    have "unat (dsize e) div 2048 \<le> 2 ^ 21" using div_le_mono [OF less_imp_le [OF unat_u32_less [of "dsize e"]], of 2048] by simp
    then show ?thesis by (simp add: nsec_def unat_div)
  qed
  then have u: "unat (of_nat i + 1 :: u32) = Suc i" using assms(1) unat_of_nat_u32 [of "Suc i"] by (simp add: add.commute)
  have "(LBA e + of_nat i) - LBA e + 1 = (of_nat i + 1 :: u32)" by simp
  then show ?thesis using assms(1) unfolding word_less_nat_alt nsec_def by (auto simp: u)
qed

section \<open>The search\<close>

lemma enter_directory:
  assumes "cached_dir_ok img D s" "wf_disc img (m_root s) D" "map_of (dir_records img (m_cachedEntry s)) n = Some f"
    "\<not> special_name n" "dtype f \<noteq> FILE" "slash \<notin> set n"
    "m_cachedPath s1 = m_cachedPath s @ [slash] @ n" "m_cachedEntry s1 = f" "m_root s1 = m_root s"
  shows "cached_dir_ok img D s1"
proof -
  let ?e = "m_cachedEntry s"
  have e: "?e \<in> set D" "m_cachedPath s = [] \<or> hd (m_cachedPath s) = slash"
      "\<And>p. resolve img (m_root s) (join (m_cachedPath s) p) = resolve img ?e p"
    using assms(1) by (auto simp: cached_dir_ok_def)
  note d = dir_okD [OF assms(2) e(1)]
  have f: "f \<in> set D" using d(6) assms(3-5) by blast
  have "resolve img ?e (n @ slash # p) = resolve img f p" for p
    using resolve_step [of "n @ slash # p" ?e img] d(1) assms(3,5,6) by (simp add: first_name_append rest_path_append)
  then have "resolve img (m_root s) (join (m_cachedPath s @ [slash] @ n) p) = resolve img f p" for p
    using join_step [OF e(2)] e(3) by simp
  moreover have "hd (m_cachedPath s @ [slash] @ n) = slash" using e(2) by (cases "m_cachedPath s") auto
  ultimately show ?thesis using f assms(7-9) by (simp add: cached_dir_ok_def)
qed

lemma entered_failed:
  assumes "cached_dir_ok img D s" "m_initialized s" "wf_disc img (m_root s) D" "m_cachedLBA s = 0"
  shows "cache_ok img D s"
proof -
  have e: "m_cachedEntry s \<in> set D" and r: "m_root s \<in> set D"
    using assms(1,3) by (auto simp: cached_dir_ok_def wf_disc_def)
  show ?thesis using assms dir_okD(1,2) [OF assms(3) e] dir_okD(2) [OF assms(3) r] by (simp add: cache_ok_def)
qed

lemma at_first_sector:
  assumes "cached_dir_ok img D s" "m_initialized s" "m_cachedLBA s = LBA (m_cachedEntry s)" "same_sector (m_buffer s) (img (m_cachedLBA s))"
  shows "at_sector img D s 0"
  using assms by (simp add: at_sector_def nsec_pos)

text \<open>One step of the search: what the code does with the sector in the buffer, as the way it goes on.\<close>

lemma find_step:
  assumes wf: "wf_disc img (m_root s) D" and rd: "reads_disc dev img" and at: "at_sector img D s i" and pl: "plain path"
    and nb: "none_before img (m_cachedEntry s) (first_name path) i"
    and deeper: "\<And>s1. at_sector img D s1 0 \<Longrightarrow> m_root s1 = m_root s \<Longrightarrow>
      answers dev img D s1 entry (resolve img (m_cachedEntry s1) (rest_path path)) (findDirEntry dev (rest_path path) entry s1)"
    and onward: "\<And>s1. at_sector img D s1 (Suc i) \<Longrightarrow> m_root s1 = m_root s \<Longrightarrow> m_cachedEntry s1 = m_cachedEntry s \<Longrightarrow>
      Suc i < nsec (m_cachedEntry s) \<Longrightarrow> none_before img (m_cachedEntry s) (first_name path) (Suc i) \<Longrightarrow>
      answers dev img D s1 entry (resolve img (m_cachedEntry s1) path) (findDirEntry dev path entry s1)"
  shows "answers dev img D s entry (resolve img (m_cachedEntry s) path) (findDirEntry dev path entry s)"
proof -
  let ?e = "m_cachedEntry s" and ?n = "first_name path"
  have cd: "cached_dir_ok img D s" and init: "m_initialized s" and i: "i < nsec ?e"
    and lba: "m_cachedLBA s = LBA ?e + of_nat i" and buf: "same_sector (m_buffer s) (img (LBA ?e + of_nat i))"
    using at by (auto simp: at_sector_def)
  have e: "?e \<in> set D" using cd by (simp add: cached_dir_ok_def)
  note d = dir_okD [OF wf e] and p = plainD [OF pl] and r = resolve_step [OF plainD(1) [OF pl] dir_okD(1) [OF wf e], of img]
  note fr = find_record_spec [OF buf d(4) [OF i], of ?n]
  show ?thesis
  proof (cases "find_record (m_buffer s) ?n 0")
    case (Some data)
    let ?f = "parseDirEntry data"
    have m: "map_of (dir_records img ?e) ?n = Some ?f" using found_here [OF i nb] fr Some by simp
    show ?thesis
    proof (cases "dtype ?f = FILE")
      case True
      then have "findDirEntry dev path entry s = Some (True, ?f, s)"
        using p(1) d(1) Some by (subst findDirEntry.simps) (simp add: record_file)
      then show ?thesis using r m True at_sector_cache [OF wf at] by (simp add: answers_def)
    next
      case False
      define s1 where "s1 = s\<lparr>m_cachedPath := m_cachedPath s @ [slash] @ ?n, m_cachedEntry := ?f, m_cachedLBA := 0\<rparr>"
      obtain ok s2 where rs: "read_sector dev (LBA ?f) s1 = (ok, s2)" by (cases "read_sector dev (LBA ?f) s1")
      obtain b where s2: "s2 = s1\<lparr>reads := reads s1 + 1, m_buffer := b\<rparr>" "ok \<longrightarrow> same_sector b (img (LBA ?f))" "\<not> ok \<longrightarrow> failed_read dev s1 s2"
        using read_sector_cases [OF rd rs] by blast
      note en = enter_directory [OF cd wf m p(2) False slash_not_in_first]
      have eq: "findDirEntry dev path entry s = (if \<not> ok then Some (False, entry, s2)
          else findDirEntry dev (rest_path path) entry (s2\<lparr>m_cachedLBA := LBA ?f\<rparr>))"
        using p(1) d(1) Some False rs s2(1) unfolding s1_def by (subst findDirEntry.simps) (simp add: record_file Let_def)
      show ?thesis
      proof (cases ok)
        case True
        have "at_sector img D (s2\<lparr>m_cachedLBA := LBA ?f\<rparr>) 0"
          using init s2(2) True by (intro at_first_sector en) (simp_all add: s2(1) s1_def)
        then have "answers dev img D (s2\<lparr>m_cachedLBA := LBA ?f\<rparr>) entry (resolve img ?f (rest_path path)) (findDirEntry dev path entry s)"
          using deeper [of "s2\<lparr>m_cachedLBA := LBA ?f\<rparr>"] eq True by (simp add: s2(1) s1_def)
        then have "answers dev img D s entry (resolve img ?f (rest_path path)) (findDirEntry dev path entry s)"
          by (rule answers_mono) (simp_all add: s2(1) s1_def)
        then show ?thesis using r m \<open>dtype ?f \<noteq> FILE\<close> by simp
      next
        case False
        have "cache_ok img D s2"
          using init wf by (intro entered_failed en) (simp_all add: s2(1) s1_def)
        moreover have "failed_read dev s s2" using s2(3) False by (auto intro: failed_read_mono simp: s1_def)
        ultimately show ?thesis using eq False by (simp add: answers_failed s2(1) s1_def)
      qed
    qed
  next
    case None
    then have nb': "none_before img ?e ?n (Suc i)" using nb fr by (auto simp: none_before_def less_Suc_eq)
    have more: "m_cachedLBA s - LBA ?e + 1 < dsize ?e div 2048 \<longleftrightarrow> Suc i < nsec ?e" using more_sectors [OF i d(3)] lba by simp
    show ?thesis
    proof (cases "Suc i < nsec ?e")
      case True
      define l where "l = m_cachedLBA s + 1"
      obtain ok s2 where rs: "read_sector dev l (s\<lparr>m_cachedLBA := 0\<rparr>) = (ok, s2)" by (cases "read_sector dev l (s\<lparr>m_cachedLBA := 0\<rparr>)")
      obtain b where s2: "s2 = s\<lparr>m_cachedLBA := 0, reads := reads s + 1, m_buffer := b\<rparr>" "ok \<longrightarrow> same_sector b (img l)" "\<not> ok \<longrightarrow> failed_read dev (s\<lparr>m_cachedLBA := 0\<rparr>) s2"
        using read_sector_cases [OF rd rs] by auto
      have eq: "findDirEntry dev path entry s = (if \<not> ok then Some (False, entry, s2)
          else findDirEntry dev path entry (s2\<lparr>m_cachedLBA := l\<rparr>))"
        using p(1) d(1) None more True rs unfolding l_def by (subst findDirEntry.simps) (simp add: Let_def)
      show ?thesis
      proof (cases ok)
        case ok: True
        have "at_sector img D (s2\<lparr>m_cachedLBA := l\<rparr>) (Suc i)"
          using at True s2(2) ok lba by (simp add: at_sector_def cached_dir_ok_def s2(1) l_def add.commute add.left_commute)
        then have "answers dev img D (s2\<lparr>m_cachedLBA := l\<rparr>) entry (resolve img ?e path) (findDirEntry dev path entry s)"
          using onward [of "s2\<lparr>m_cachedLBA := l\<rparr>"] eq ok nb' True by (simp add: s2(1))
        then show ?thesis by (rule answers_mono) (simp_all add: s2(1))
      next
        case False
        have "cache_ok img D s2" using cd init wf by (intro entered_failed) (simp_all add: s2(1) cached_dir_ok_def)
        moreover have "failed_read dev s s2" using s2(3) False by (auto intro: failed_read_mono)
        ultimately show ?thesis using eq False by (simp add: answers_failed s2(1))
      qed
    next
      case False
      then have "findDirEntry dev path entry s = Some (True, entry, s)"
        using p(1) d(1) None more by (subst findDirEntry.simps) (simp add: Let_def)
      moreover have "map_of (dir_records img ?e) ?n = None" using nb' False i by (intro none_in_dir) (auto simp: none_before_def)
      ultimately show ?thesis using r at_sector_cache [OF wf at] by (simp add: answers_def)
    qed
  qed
qed

lemma findDirEntry_dir:
  assumes "wf_disc img root D" "reads_disc dev img" "m_root s = root" "at_sector img D s i" "path = [] \<or> plain path"
    "path \<noteq> [] \<Longrightarrow> none_before img (m_cachedEntry s) (first_name path) i"
  shows "answers dev img D s entry (resolve img (m_cachedEntry s) path) (findDirEntry dev path entry s)"
  using assms(3-6)
proof (induction "(length path, nsec (m_cachedEntry s) - i)" arbitrary: path s i rule: wf_induct_rule [OF wf_lex_prod [OF wf_less_than wf_less_than]])
  case 1
  show ?case
  proof (cases "path = []")
    case True
    have "findDirEntry dev path entry s = Some (True, m_cachedEntry s, s)" using True by (subst findDirEntry.simps) simp
    then show ?thesis using True at_sector_cache [of img s D i] assms(1) "1.prems" by (simp add: answers_def)
  next
    case False
    then have pl: "plain path" using "1.prems" by simp
    show ?thesis
    proof (rule find_step [OF _ assms(2) "1.prems"(2) pl "1.prems"(4) [OF False]])
      show "wf_disc img (m_root s) D" using assms(1) "1.prems" by simp
    next
      fix s1 assume "at_sector img D s1 0" "m_root s1 = m_root s"
      then show "answers dev img D s1 entry (resolve img (m_cachedEntry s1) (rest_path path)) (findDirEntry dev (rest_path path) entry s1)"
        using plainD(3) [OF pl] rest_path_shorter [OF False] "1.prems"(1) by (intro "1.hyps" [of _ _ 0]) (auto simp: none_before_def)
    next
      fix s1 assume a: "at_sector img D s1 (Suc i)" "m_root s1 = m_root s" "m_cachedEntry s1 = m_cachedEntry s"
        "Suc i < nsec (m_cachedEntry s)" "none_before img (m_cachedEntry s) (first_name path) (Suc i)"
      then show "answers dev img D s1 entry (resolve img (m_cachedEntry s1) path) (findDirEntry dev path entry s1)"
        using pl "1.prems"(1) by (intro "1.hyps" [of _ _ "Suc i"]) auto
    qed
  qed
qed

end
