(* ===== verification/Iso_Paths.thy ===== *)
theory Iso_Paths
  imports Iso_Find
begin

text \<open>Looking a path up with the cache of the last lookup, starting the parser, and walking a directory.\<close>

section \<open>From the root\<close>

lemma find_from_root:
  assumes "wf_disc img (m_root s) D" "reads_disc dev img" "m_initialized s" "dtype (m_cachedEntry s) = INVALID" "plain path"
  shows "answers dev img D s entry (resolve img (m_root s) path) (findDirEntry dev path entry s)"
proof -
  let ?s0 = "s\<lparr>m_cachedPath := [], m_cachedLBA := 0\<rparr>" and ?l = "LBA (m_root s)"
  obtain ok s2 where rs: "read_sector dev ?l ?s0 = (ok, s2)" by (cases "read_sector dev ?l ?s0")
  obtain b where s2: "s2 = ?s0\<lparr>reads := reads s + 1, m_buffer := b\<rparr>" "ok \<longrightarrow> same_sector b (img ?l)" "\<not> ok \<longrightarrow> failed_read dev ?s0 s2"
    using read_sector_cases [OF assms(2) rs] by auto
  have eq: "findDirEntry dev path entry s = (if \<not> ok then Some (False, entry, s2)
      else findDirEntry dev path entry (s2\<lparr>m_cachedLBA := ?l, m_cachedEntry := m_root s\<rparr>))"
    using plainD(1) [OF assms(5)] assms(4) rs s2(1) by (subst findDirEntry.simps) simp
  show ?thesis
  proof (cases ok)
    case True
    let ?s3 = "s2\<lparr>m_cachedLBA := ?l, m_cachedEntry := m_root s\<rparr>"
    have "cached_dir_ok img D ?s3" using assms(1) by (simp add: cached_dir_ok_def wf_disc_def s2(1) join_def)
    then have "at_sector img D ?s3 0" using assms(3) s2(2) True by (intro at_first_sector) (simp_all add: s2(1))
    then have "answers dev img D ?s3 entry (resolve img (m_root s) path) (findDirEntry dev path entry s)"
      using findDirEntry_dir [OF assms(1,2), of ?s3 0 path entry] eq True assms(5) by (simp add: s2(1) none_before_def)
    then show ?thesis by (rule answers_mono) (simp_all add: s2(1))
  next
    case False
    have "cache_ok img D s2" using assms(3,4) by (simp add: cache_ok_def s2(1))
    moreover have "failed_read dev s s2" using s2(3) False by (auto intro: failed_read_mono)
    ultimately show ?thesis using eq False by (simp add: answers_failed s2(1))
  qed
qed

section \<open>From the cached directory\<close>

lemma cached_rest_shorter: "cached_rest c path = Some p \<Longrightarrow> length p < length path"
  by (auto simp: cached_rest_def Let_def split: if_splits)

lemma cached_rest_join:
  assumes "cached_rest c path = Some p" "\<not> special_name (first_name path)" "path \<noteq> []" "c = [] \<or> hd c = slash"
  shows "join c p = path" "p = [] \<or> plain p \<or> \<not> plain path"
proof -
  let ?d = "drop_slash c"
  have a: "take (length ?d) path = ?d" "length ?d < length path" "path ! length ?d = slash" "p = drop (length ?d + 1) path"
    using assms(1) by (auto simp: cached_rest_def Let_def split: if_splits)
  have path: "path = ?d @ slash # p" using a by (metis Suc_eq_plus1 append_take_drop_id Cons_nth_drop_Suc)
  show "join c p = path"
  proof (cases "c = []")
    case True
    then have "path ! 0 = slash" using a(3) by (simp add: drop_slash_def)
    then have "first_name path = []" using assms(3) by (cases path) (auto simp: first_name_def)
    then show ?thesis using assms(2) by (simp add: special_name_def)
  next
    case False
    then show ?thesis using path by (simp add: join_def)
  qed
  have tails: "set (components p) \<subseteq> set (components (d @ slash # p))" for d
  proof (induction d rule: length_induct)
    case (1 d)
    let ?q = "d @ slash # p"
    have c: "components ?q = first_name ?q # components (rest_path ?q)" by (subst components.simps) simp
    show ?case
    proof (cases "slash \<in> set d")
      case True
      then obtain d1 d2 where d: "d = d1 @ slash # d2" "slash \<notin> set d1" by (meson split_list_first)
      then have "rest_path ?q = d2 @ slash # p" using rest_path_append [of d1 "d2 @ slash # p"] by simp
      then show ?thesis using 1 [rule_format, of d2] c d(1) by auto
    next
      case False
      then show ?thesis using c rest_path_append [of d p] by auto
    qed
  qed
  show "p = [] \<or> plain p \<or> \<not> plain path" using tails [of ?d] path by (auto simp: plain_def)
qed

text \<open>From a directory the cache holds: its first sector is read again when another one is in the buffer.\<close>

lemma find_from_cache:
  assumes "wf_disc img (m_root s) D" "reads_disc dev img" "m_initialized s" "cached_dir_ok img D s" "path = [] \<or> plain path"
    "m_cachedLBA s = LBA (m_cachedEntry s) \<Longrightarrow> same_sector (m_buffer s) (img (m_cachedLBA s))"
  shows "answers dev img D s entry (resolve img (m_cachedEntry s) path)
    (if dtype (m_cachedEntry s) = DIRECTORY \<and> m_cachedLBA s \<noteq> LBA (m_cachedEntry s) then
       case read_sector dev (LBA (m_cachedEntry s)) (s\<lparr>m_cachedLBA := 0\<rparr>) of (ok, s) \<Rightarrow>
         if \<not> ok then Some (False, entry, s)
         else findDirEntry dev path entry (s\<lparr>m_cachedLBA := LBA (m_cachedEntry s)\<rparr>)
     else findDirEntry dev path entry s)" (is "answers _ _ _ _ _ ?want ?r")
proof -
  let ?e = "m_cachedEntry s"
  have e: "dtype ?e = DIRECTORY" using dir_okD(1) [OF assms(1)] assms(4) by (simp add: cached_dir_ok_def)
  show ?thesis
  proof (cases "m_cachedLBA s = LBA ?e")
    case True
    then have "at_sector img D s 0" using assms(3,4,6) by (intro at_first_sector)
    then show ?thesis using findDirEntry_dir [OF assms(1,2) refl _ assms(5)] True by (simp add: none_before_def)
  next
    case False
    obtain ok s2 where rs: "read_sector dev (LBA ?e) (s\<lparr>m_cachedLBA := 0\<rparr>) = (ok, s2)" by (cases "read_sector dev (LBA ?e) (s\<lparr>m_cachedLBA := 0\<rparr>)")
    obtain b where s2: "s2 = s\<lparr>m_cachedLBA := 0, reads := reads s + 1, m_buffer := b\<rparr>" "ok \<longrightarrow> same_sector b (img (LBA ?e))"
        "\<not> ok \<longrightarrow> failed_read dev (s\<lparr>m_cachedLBA := 0\<rparr>) s2"
      using read_sector_cases [OF assms(2) rs] by auto
    have eq: "?r = (if \<not> ok then Some (False, entry, s2) else findDirEntry dev path entry (s2\<lparr>m_cachedLBA := LBA ?e\<rparr>))"
      using False e rs s2(1) by simp
    show ?thesis
    proof (cases ok)
      case True
      let ?s3 = "s2\<lparr>m_cachedLBA := LBA ?e\<rparr>"
      have "at_sector img D ?s3 0" using assms(3,4) s2(2) True by (intro at_first_sector) (simp_all add: s2(1) cached_dir_ok_def)
      then have "answers dev img D ?s3 entry ?want (findDirEntry dev path entry ?s3)"
        using findDirEntry_dir [OF assms(1,2), of ?s3 0 path entry] assms(5) by (simp add: s2(1) none_before_def)
      then have "answers dev img D s entry ?want (findDirEntry dev path entry ?s3)"
        by (rule answers_mono) (simp_all add: s2(1))
      then show ?thesis using eq True by simp
    next
      case notok: False
      have "cache_ok img D s2" using assms(1,3,4) by (intro entered_failed) (simp_all add: s2(1) cached_dir_ok_def)
      moreover have "failed_read dev s s2" using s2(3) notok by (auto intro: failed_read_mono)
      ultimately have "answers dev img D s entry ?want (Some (False, entry, s2))" by (simp add: answers_failed s2(1))
      then show ?thesis using eq notok by simp
    qed
  qed
qed

section \<open>Looking up\<close>

lemma lookup_spec:
  assumes "wf_disc img (m_root s) D" "reads_disc dev img" "cache_ok img D s" "plain (drop_slash path)"
  shows "answers dev img D s (entry\<lparr>dtype := INVALID\<rparr>) (resolve img (m_root s) (drop_slash path)) (getDirentry dev path entry s)"
proof -
  let ?p = "drop_slash path" and ?e = "m_cachedEntry s" and ?en = "entry\<lparr>dtype := INVALID\<rparr>"
  have init: "m_initialized s" using assms(3) by (simp add: cache_ok_def)
  have ne: "path \<noteq> []" using plainD(1) [OF assms(4)] by (auto simp: drop_slash_def)
  note p = plainD [OF assms(4)]
  show ?thesis
  proof (cases "cached_rest (m_cachedPath s) ?p")
    case (Some q)
    have valid: "dtype ?e \<noteq> INVALID"
    proof
      assume "dtype ?e = INVALID"
      then have "join [] q = ?p" "m_cachedPath s = []" using cached_rest_join [of "[]" ?p q] Some p(1,2) assms(3) by (auto simp: cache_ok_def)
      then show False using cached_rest_shorter [OF Some] by (simp add: join_def)
    qed
    then have cd: "cached_dir_ok img D s" and b: "m_cachedLBA s = LBA ?e \<Longrightarrow> same_sector (m_buffer s) (img (m_cachedLBA s))"
      using assms(3) by (auto simp: cache_ok_def)
    have h: "m_cachedPath s = [] \<or> hd (m_cachedPath s) = slash" using cd by (simp add: cached_dir_ok_def)
    note j = cached_rest_join [OF Some p(2,1) h]
    have "resolve img (m_root s) ?p = resolve img ?e q" using cd j(1) by (metis cached_dir_ok_def)
    then show ?thesis
      using find_from_cache [OF assms(1,2) init cd _ b, of q ?en] j(2) assms(4) init ne Some by (simp add: getDirentry_def Let_def)
  next
    case None
    show ?thesis
    proof (cases "m_cachedLBA s = LBA (m_root s) \<and> dtype ?e \<noteq> INVALID")
      case True
      then have "?e = m_root s" "cached_dir_ok img D s" "m_cachedLBA s = LBA ?e \<Longrightarrow> same_sector (m_buffer s) (img (m_cachedLBA s))"
        using assms(3) by (auto simp: cache_ok_def)
      then show ?thesis
        using find_from_cache [OF assms(1,2) init, of ?p ?en] assms(4) init ne None True by (simp add: getDirentry_def Let_def)
    next
      case False
      define s1 where "s1 = (if m_cachedLBA s \<noteq> LBA (m_root s) then s\<lparr>m_cachedEntry := ?e\<lparr>dtype := INVALID\<rparr>\<rparr> else s)"
      have s1: "dtype (m_cachedEntry s1) = INVALID" "m_root s1 = m_root s" "m_initialized s1" "reads s1 = reads s"
        using False init by (auto simp: s1_def)
      have "getDirentry dev path entry s = findDirEntry dev ?p ?en s1"
        using init ne None s1(1) by (simp add: getDirentry_def Let_def s1_def split del: if_split)
      moreover have "answers dev img D s1 ?en (resolve img (m_root s) ?p) (findDirEntry dev ?p ?en s1)"
        using find_from_root [of img s1 D dev ?p ?en] assms(1,2,4) s1 by simp
      ultimately show ?thesis using s1 by (metis answers_mono order_refl)
    qed
  qed
qed

end
