(* ===== verification/Iso_Walk.thy ===== *)
theory Iso_Walk
  imports Iso_Paths
begin

text \<open>Starting the parser, walking a directory, and sessions of lookups and walks.\<close>

section \<open>Starting\<close>

lemma parse_same:
  assumes "same_sector b1 b2" "ofs + 288 \<le> 2048"
  shows "parseDirEntry (data_at b1 ofs) = parseDirEntry (data_at b2 ofs)"
proof -
  have b: "data_at b1 ofs i = data_at b2 ofs i" if "i < 288" for i using assms that by (simp add: data_at_def same_sector_def)
  have "unat (data_at b2 ofs 32) < 256" using unsigned_less [where ?'a = nat, of "data_at b2 ofs 32"] by simp
  then have "i < 288" if "i < 33 + unat (data_at b2 ofs 32)" for i using that by linarith
  then have "map (data_at b1 ofs) [33..<33 + unat (data_at b2 ofs 32)] = map (data_at b2 ofs) [33..<33 + unat (data_at b2 ofs 32)]"
    by (intro map_cong) (simp_all add: b)
  then show ?thesis by (simp add: parseDirEntry_def Let_def le32_def b)
qed

definition disc_root :: "disc \<Rightarrow> DirEntry" where
  "disc_root img = parseDirEntry (data_at (img 16) 156)"

lemma init_spec:
  assumes "reads_disc dev img" "wf_disc img (disc_root img) D" "init_parser dev s = (ok, s')"
  shows "m_initialized s' = ok" "ok \<Longrightarrow> cache_ok img D s' \<and> m_root s' = disc_root img"
proof -
  obtain k1 s1 where r1: "read_sector dev 16 s = (k1, s1)" by (cases "read_sector dev 16 s")
  obtain b1 where s1: "s1 = s\<lparr>reads := reads s + 1, m_buffer := b1\<rparr>" "k1 \<longrightarrow> same_sector b1 (img 16)"
    using read_sector_cases [OF assms(1) r1] by blast
  let ?bad = "\<not> k1 \<or> le32 b1 0 \<noteq> 0x30444301 \<or> le32 b1 4 \<noteq> 0x00013130"
  let ?root = "parseDirEntry (data_at b1 156)"
  let ?s2 = "s1\<lparr>m_cachedLBA := 0, m_initialized := False, m_root := ?root, m_cachedEntry := ?root\<rparr>"
  obtain k2 s3 where r2: "read_sector dev (LBA ?root) ?s2 = (k2, s3)" by (cases "read_sector dev (LBA ?root) ?s2")
  obtain b2 where s3: "s3 = ?s2\<lparr>reads := reads s1 + 1, m_buffer := b2\<rparr>" "k2 \<longrightarrow> same_sector b2 (img (LBA ?root))"
    using read_sector_cases [OF assms(1) r2] by auto
  have eq: "(ok, s') = (if ?bad then (False, s1\<lparr>m_cachedLBA := 0, m_initialized := False\<rparr>)
      else (k2, if k2 then s3\<lparr>m_cachedLBA := LBA ?root, m_cachedEntry := ?root, m_cachedPath := [], m_initialized := True\<rparr> else s3))"
    using assms(3) r1 r2 s3(1) by (auto simp: init_parser_def Let_def s1(1))
  show "m_initialized s' = ok" using eq s1(1) s3(1) by (auto split: if_splits)
  assume ok
  then have k: "k1" "k2" "s' = s3\<lparr>m_cachedLBA := LBA ?root, m_cachedEntry := ?root, m_cachedPath := [], m_initialized := True\<rparr>"
    using eq by (auto split: if_splits)
  have root: "?root = disc_root img" unfolding disc_root_def using s1(2) k(1) by (intro parse_same) auto
  have "cached_dir_ok img D s'" using assms(2) by (simp add: k(3) s3(1) cached_dir_ok_def join_def root wf_disc_def)
  moreover have "dtype ?root \<noteq> INVALID" by (simp add: parseDirEntry_def Let_def)
  ultimately show "cache_ok img D s' \<and> m_root s' = disc_root img" using s3(2) k(2) by (simp add: cache_ok_def k(3) s3(1) root)
qed

section \<open>Walking\<close>

text \<open>A visitor over a list of records, ended by its first True.\<close>

fun visit :: "('v \<Rightarrow> bytes \<Rightarrow> DirEntry \<Rightarrow> bool \<times> 'v) \<Rightarrow> (bytes \<times> DirEntry) list \<Rightarrow> 'v \<Rightarrow> bool \<times> 'v" where
  "visit visitor [] v = (False, v)"
| "visit visitor ((n, e) # xs) v = (case visitor v n e of (True, v) \<Rightarrow> (True, v) | (False, v) \<Rightarrow> visit visitor xs v)"

lemma visit_append: "visit visitor (xs @ ys) v = (case visit visitor xs v of (True, v) \<Rightarrow> (True, v) | (False, v) \<Rightarrow> visit visitor ys v)"
  by (induction visitor xs v rule: visit.induct) (auto split: prod.split bool.split)

lemma walk_records_spec:
  "same_sector buf sec \<Longrightarrow> sector_ok sec ofs \<Longrightarrow> walk_records visitor buf ofs v = visit visitor (records sec ofs) v"
proof (induction visitor buf ofs v rule: walk_records.induct)
  case (1 visitor buf ofs v)
  show ?case
  proof (cases "ofs < 2048 \<and> sec ofs \<noteq> 0")
    case True
    note ok = sector_ok_step [OF "1.prems"(2) True [THEN conjunct1] True [THEN conjunct2]]
    have b: "buf ofs = sec ofs" "data_at buf ofs 0 = sec ofs" "data_at buf ofs 32 = sec (ofs + 32)"
      using "1.prems"(1) True ok(1,2) by (auto simp: same_sector_def data_at_def)
    note r = record_same [OF "1.prems"(1) True [THEN conjunct1] ok(1-3)]
    have recs: "records sec ofs = (getEntryName (data_at sec ofs), parseDirEntry (data_at sec ofs)) # records sec (ofs + unat (sec ofs))"
      unfolding records_def using True by (subst offsets.simps) simp
    have nbad: "\<not> (data_at buf ofs 0 < 34 \<or> 2048 < ofs + unat (data_at buf ofs 0) \<or> unat (data_at buf ofs 0) < 33 + unat (data_at buf ofs 32))"
      using ok by (simp add: b word_less_nat_alt)
    have "walk_records visitor buf ofs v = (case visitor v (getEntryName (data_at buf ofs)) (parseDirEntry (data_at buf ofs)) of
        (True, v) \<Rightarrow> (True, v) | (False, v) \<Rightarrow> walk_records visitor buf (ofs + unat (sec ofs)) v)"
      by (subst walk_records.simps) (use True b nbad in \<open>simp add: Let_def split: prod.split bool.split\<close>)
    moreover have "walk_records visitor buf (ofs + unat (sec ofs)) w = visit visitor (records sec (ofs + unat (sec ofs))) w"
      if "visitor v (getEntryName (data_at buf ofs)) (parseDirEntry (data_at buf ofs)) = (False, w)" for w
      using "1.IH" [of "data_at buf ofs" False w] True b nbad that "1.prems"(1) ok(4) by simp
    ultimately show ?thesis by (auto simp: recs r split: prod.split bool.split)
  next
    case False
    then have "walk_records visitor buf ofs v = (False, v)" "records sec ofs = []"
      using "1.prems"(1) by (subst walk_records.simps, auto simp: same_sector_def) (simp_all add: records_def offsets.simps)
    then show ?thesis by simp
  qed
qed

definition entries_from :: "disc \<Rightarrow> u32 \<Rightarrow> nat \<Rightarrow> nat \<Rightarrow> (bytes \<times> DirEntry) list" where
  "entries_from img l i n = concat (map (\<lambda>j. records (img (l + of_nat j)) 0) [i..<n])"

lemma walkSector_spec:
  assumes "reads_disc dev img" "unat l + n < 2 ^ 32" "\<forall>i<n. sector_ok (img (l + of_nat i)) 0" "i \<le> n"
    "walkSector dev visitor (l + of_nat i) (l + of_nat n) v s = (ok, v', s')"
  shows "(if ok then v' = snd (visit visitor (entries_from img l i n) v) else failed_read dev s s') \<and>
    reads s \<le> reads s' \<and> (\<exists>k b. s' = s\<lparr>reads := k, m_buffer := b\<rparr>)"
  using assms(4,5)
proof (induction "n - i" arbitrary: i v s)
  case 0
  then have "i = n" by simp
  then have "ok" "v' = v" "s' = s" using 0 by (auto simp: walkSector.simps)
  moreover have "s = s\<lparr>reads := reads s, m_buffer := m_buffer s\<rparr>" by simp
  moreover have "visit visitor (entries_from img l i n) v = (False, v)" using \<open>i = n\<close> by (simp add: entries_from_def)
  ultimately show ?case by (metis order_refl snd_conv)
next
  case (Suc d)
  then have i: "i < n" by simp
  have u: "unat (l + of_nat k) = unat l + k" if "k \<le> n" for k
    using assms(2) that unat_of_nat_u32 [of k] unat_plus_small [of l "of_nat k"] by simp
  have lt: "\<not> l + of_nat n \<le> l + of_nat i" using u [of n] u [of i] i by (simp add: word_le_nat_alt)
  obtain k s1 where rs: "read_sector dev (l + of_nat i) s = (k, s1)" by (cases "read_sector dev (l + of_nat i) s")
  obtain b where s1: "s1 = s\<lparr>reads := reads s + 1, m_buffer := b\<rparr>" "k \<longrightarrow> same_sector b (img (l + of_nat i))" "\<not> k \<longrightarrow> failed_read dev s s1"
    using read_sector_cases [OF assms(1) rs] by blast
  have step: "l + of_nat i + 1 = l + of_nat (Suc i)" by simp
  obtain stop w where w: "visit visitor (records (img (l + of_nat i)) 0) v = (stop, w)" by force
  have entries: "entries_from img l i n = records (img (l + of_nat i)) 0 @ entries_from img l (Suc i) n"
    using i by (simp add: entries_from_def upt_conv_Cons)
  show ?case
  proof (cases k)
    case False
    then have "ok = False" "s' = s1" using Suc.prems(2) lt rs by (subst (asm) walkSector.simps, simp)+
    then show ?thesis using s1 False by auto
  next
    case True
    have wr: "walk_records visitor (m_buffer s1) 0 v = (stop, w)" 
      using walk_records_spec [of b "img (l + of_nat i)" 0 visitor v] s1 True assms(3) i w by simp
    have eq: "walkSector dev visitor (l + of_nat i) (l + of_nat n) v s
        = (if stop then (True, w, s1) else walkSector dev visitor (l + of_nat (Suc i)) (l + of_nat n) w s1)"
      using lt rs True wr by (subst walkSector.simps) (simp add: step del: of_nat_Suc split: bool.split)
    show ?thesis
    proof (cases stop)
      case True
      then show ?thesis using eq Suc.prems(2) w s1(1) by (auto simp: entries visit_append)
    next
      case False
      have "(if ok then v' = snd (visit visitor (entries_from img l (Suc i) n) w) else failed_read dev s1 s') \<and>
          reads s1 \<le> reads s' \<and> (\<exists>k b. s' = s1\<lparr>reads := k, m_buffer := b\<rparr>)"
        using Suc.hyps(1) [of "Suc i" w s1] Suc.hyps(2) Suc.prems(2) eq False i by simp
      then show ?thesis using w False s1(1) by (auto simp: entries visit_append intro: failed_read_mono)
    qed
  qed
qed

definition dir_sectors :: "DirEntry \<Rightarrow> nat" where
  "dir_sectors dir = unat ((dsize dir + 2047) div 2048)"

definition listing :: "disc \<Rightarrow> DirEntry \<Rightarrow> (bytes \<times> DirEntry) list" where
  "listing img dir = entries_from img (LBA dir) 0 (dir_sectors dir)"

definition walkable :: "disc \<Rightarrow> DirEntry \<Rightarrow> bool" where
  "walkable img dir \<longleftrightarrow> dtype dir \<in> {DIRECTORY, CURRENT_DIR, PARENT_DIR} \<and> unat (LBA dir) + dir_sectors dir < 2 ^ 32 \<and>
     (\<forall>i\<in>set [0..<dir_sectors dir]. sector_ok (img (LBA dir + of_nat i)) 0)"

lemma walk_spec:
  assumes "reads_disc dev img" "walkable img dir" "m_initialized s" "walkDirectory dev dir visitor v s = (ok, v', s')"
  shows "if ok then v' = snd (visit visitor (listing img dir) v) else failed_read dev s s'"
    "cache_ok img D s'" "m_root s' = m_root s"
proof -
  let ?s1 = "s\<lparr>m_cachedEntry := (m_cachedEntry s)\<lparr>dtype := INVALID\<rparr>, m_cachedLBA := 0, m_cachedPath := []\<rparr>"
  have "walkSector dev visitor (LBA dir + of_nat 0) (LBA dir + of_nat (dir_sectors dir)) v ?s1 = (ok, v', s')"
    using assms(2-4) by (auto simp: walkDirectory_def walkable_def dir_sectors_def)
  then have w: "(if ok then v' = snd (visit visitor (listing img dir) v) else failed_read dev ?s1 s') \<and>
      reads ?s1 \<le> reads s' \<and> (\<exists>k b. s' = ?s1\<lparr>reads := k, m_buffer := b\<rparr>)"
    using assms(1,2) unfolding listing_def by (intro walkSector_spec) (auto simp: walkable_def)
  show "if ok then v' = snd (visit visitor (listing img dir) v) else failed_read dev s s'" using w by (auto intro: failed_read_mono)
  show "cache_ok img D s'" "m_root s' = m_root s" using w assms(3) by (auto simp: cache_ok_def)
qed

section \<open>Sessions\<close>

text \<open>What a program does with the parser: lookups, into a fresh entry each, and walks that collect the whole directory.\<close>

datatype iso_op = Lookup bytes | Walk DirEntry
datatype iso_answer = Found bool DirEntry | Walked bool "(bytes \<times> DirEntry) list"

definition blank_entry :: DirEntry where
  "blank_entry = \<lparr>LBA = 0, dsize = 0, dname = [], dtype = INVALID\<rparr>"

definition collect :: "(bytes \<times> DirEntry) list \<Rightarrow> bytes \<Rightarrow> DirEntry \<Rightarrow> bool \<times> (bytes \<times> DirEntry) list" where
  "collect xs n e = (False, xs @ [(n, e)])"

text \<open>Each answer comes with the parser before and after the operation.\<close>

fun session :: "device \<Rightarrow> iso_op list \<Rightarrow> parser \<Rightarrow> ((iso_answer \<times> parser \<times> parser) list \<times> parser) option" where
  "session dev [] s = Some ([], s)"
| "session dev (Lookup path # ops) s =
     (case getDirentry dev path blank_entry s of None \<Rightarrow> None
      | Some (ok, e, s1) \<Rightarrow> (case session dev ops s1 of None \<Rightarrow> None | Some (as, s2) \<Rightarrow> Some ((Found ok e, s, s1) # as, s2)))"
| "session dev (Walk dir # ops) s =
     (case walkDirectory dev dir collect [] s of (ok, xs, s1) \<Rightarrow>
       (case session dev ops s1 of None \<Rightarrow> None | Some (as, s2) \<Rightarrow> Some ((Walked ok xs, s, s1) # as, s2)))"

fun op_ok :: "disc \<Rightarrow> iso_op \<Rightarrow> bool" where
  "op_ok img (Lookup path) \<longleftrightarrow> plain (drop_slash path)"
| "op_ok img (Walk dir) \<longleftrightarrow> walkable img dir"

fun answer_ok :: "device \<Rightarrow> disc \<Rightarrow> iso_op \<Rightarrow> iso_answer \<times> parser \<times> parser \<Rightarrow> bool" where
  "answer_ok dev img (Lookup path) (Found ok e, s, s') \<longleftrightarrow>
     (if ok then e = (case resolve img (disc_root img) (drop_slash path) of Some f \<Rightarrow> f | None \<Rightarrow> blank_entry) else failed_read dev s s')"
| "answer_ok dev img (Walk dir) (Walked ok xs, s, s') \<longleftrightarrow> (if ok then xs = listing img dir else failed_read dev s s')"
| "answer_ok dev img _ _ \<longleftrightarrow> False"

lemma collect_all: "visit collect xs v = (False, v @ xs)"
  by (induction xs arbitrary: v) (auto simp: collect_def split: prod.split)

lemma blank_invalid [simp]: "blank_entry\<lparr>dtype := INVALID\<rparr> = blank_entry"
  by (simp add: blank_entry_def)

lemma session_spec:
  assumes "reads_disc dev img" "wf_disc img (disc_root img) D"
  shows "cache_ok img D s \<Longrightarrow> m_root s = disc_root img \<Longrightarrow> list_all (op_ok img) ops \<Longrightarrow>
    \<exists>as s'. session dev ops s = Some (as, s') \<and> list_all2 (answer_ok dev img) ops as"
proof (induction ops arbitrary: s)
  case Nil
  then show ?case by simp
next
  case (Cons op ops)
  show ?case
  proof (cases op)
    case (Lookup path)
    have "answers dev img D s (blank_entry\<lparr>dtype := INVALID\<rparr>) (resolve img (disc_root img) (drop_slash path)) (getDirentry dev path blank_entry s)"
      using lookup_spec [of img s D dev path blank_entry] assms Cons.prems Lookup by simp
    then obtain ok e s1 where g: "getDirentry dev path blank_entry s = Some (ok, e, s1)" "cache_ok img D s1" "m_root s1 = m_root s"
        "if ok then e = (case resolve img (disc_root img) (drop_slash path) of Some f \<Rightarrow> f | None \<Rightarrow> blank_entry\<lparr>dtype := INVALID\<rparr>) else failed_read dev s s1"
      by (auto simp: answers_def split: option.splits)
    moreover have "answer_ok dev img op (Found ok e, s, s1)" using g(4) [unfolded blank_invalid] Lookup by (auto split: if_splits)
    moreover obtain as s' where "session dev ops s1 = Some (as, s')" "list_all2 (answer_ok dev img) ops as"
      using Cons.IH [OF g(2)] g(3) Cons.prems by auto
    ultimately show ?thesis using Lookup by auto
  next
    case (Walk dir)
    obtain ok xs s1 where w: "walkDirectory dev dir collect [] s = (ok, xs, s1)" by (cases "walkDirectory dev dir collect [] s")
    have "walkable img dir" "m_initialized s" using Cons.prems Walk by (auto simp: cache_ok_def)
    note spec = walk_spec [OF assms(1) this w]
    have "answer_ok dev img op (Walked ok xs, s, s1)" using spec(1) Walk by (auto simp: collect_all split: if_splits)
    moreover obtain as s' where "session dev ops s1 = Some (as, s')" "list_all2 (answer_ok dev img) ops as"
      using Cons.IH [OF spec(2)] spec(3) Cons.prems by auto
    ultimately show ?thesis using Walk w by auto
  qed
qed

end
