(* ===== verification/Iso_Disc.thy ===== *)
theory Iso_Disc
  imports Iso_Walk
begin

text \<open>What the parser promises as a whole, and a small disc on which the promises are tried and where one path breaks the cache.\<close>

section \<open>A disc\<close>

text \<open>Directory records with names of one byte: the root in sector 20 holds a directory A, in sector 21, and a file Y; A holds another Y.\<close>

text \<open>A record as the sector it points to, its flags and its name; a byte of it.\<close>

fun demo_byte :: "u8 \<times> u8 \<times> u8 \<Rightarrow> nat \<Rightarrow> u8" where
  "demo_byte (lba, flags, name) j =
     (if j = 0 then 34 else if j = 2 then lba else if j = 11 then 8 else if j = 25 then flags
      else if j = 32 then 1 else if j = 33 then name else 0)"

definition demo_records :: "u32 \<Rightarrow> (u8 \<times> u8 \<times> u8) list" where
  "demo_records lba =
     (if lba = 20 then [(20, 2, 0), (20, 2, 1), (21, 2, 0x41), (30, 0, 0x59)]
      else if lba = 21 then [(21, 2, 0), (20, 2, 1), (31, 0, 0x59)] else [])"

definition demo_disc :: disc where
  "demo_disc lba i =
     (if lba = 16 then if i < 8 then [0x01, 0x43, 0x44, 0x30, 0x30, 0x31, 0x01, 0x00] ! i
        else if i \<ge> 156 then demo_byte (20, 2, 0) (i - 156) else 0
      else if i div 34 < length (demo_records lba) then demo_byte (demo_records lba ! (i div 34)) (i mod 34) else 0)"

definition demo_dev :: device where
  "demo_dev n lba = (True, demo_disc lba)"

definition demo_parser :: parser where
  "demo_parser = \<lparr>m_buffer = (\<lambda>i. 0), m_root = blank_entry, m_cachedEntry = blank_entry, m_cachedLBA = 0, m_cachedPath = [],
     m_initialized = False, reads = 0\<rparr>"

definition demo_root :: DirEntry where
  "demo_root = \<lparr>LBA = 20, dsize = 2048, dname = [0], dtype = DIRECTORY\<rparr>"

definition demo_dir :: DirEntry where
  "demo_dir = \<lparr>LBA = 21, dsize = 2048, dname = [0x41], dtype = DIRECTORY\<rparr>"

lemma demo_disc_root: "disc_root demo_disc = demo_root"
  by (simp add: disc_root_def demo_disc_def parseDirEntry_def data_at_def le32_def demo_root_def upt_rec)

lemma demo_reads: "reads_disc demo_dev demo_disc"
  by (simp add: reads_disc_def demo_dev_def same_sector_def)

lemma demo_offsets: "offsets (demo_disc 20) 0 = [0, 34, 68, 102]" "offsets (demo_disc 21) 0 = [0, 34, 68]"
  by (simp_all add: offsets.simps demo_disc_def demo_records_def)

definition demo_entry :: "u8 \<times> u8 \<times> u8 \<Rightarrow> bytes \<times> DirEntry" where
  "demo_entry r = (case r of (lba, flags, name) \<Rightarrow>
     (if name = 0 then [0x2e] else if name = 1 then [0x2e, 0x2e] else [name],
      \<lparr>LBA = ucast lba, dsize = 2048, dname = if flags = 2 \<and> name = 1 then [0x2e, 0x2e] else [name],
       dtype = if flags \<noteq> 2 then FILE else if name = 1 then PARENT_DIR else DIRECTORY\<rparr>))"

lemma demo_dirs:
  "dir_records demo_disc demo_root = map demo_entry (demo_records 20)"
  "dir_records demo_disc demo_dir = map demo_entry (demo_records 21)"
  by (simp_all add: dir_records_def nsec_def demo_root_def demo_dir_def records_def demo_offsets getEntryName_def
      parseDirEntry_def data_at_def le32_def demo_disc_def demo_records_def demo_entry_def upt_rec)

lemma demo_wf: "wf_disc demo_disc demo_root [demo_root, demo_dir]"
proof -
  have ok: "sector_ok (demo_disc 20) 0" "sector_ok (demo_disc 21) 0"
    by (simp_all add: sector_ok_def demo_offsets demo_disc_def demo_records_def)
  have n: "nsec demo_root = 1" "nsec demo_dir = 1" by (simp_all add: nsec_def demo_root_def demo_dir_def)
  show ?thesis using ok
    by (simp add: wf_disc_def dir_ok_def n demo_dirs) (simp add: demo_root_def demo_dir_def demo_records_def demo_entry_def special_name_def)
qed

section \<open>What a session answers\<close>

text \<open>C33: after the parser has started on a disc whose directories hold together, every lookup of a path without dot
  names and empty components and every walk, in any order and with any reads failing in between, gives an answer: the entry
  the path means on the disc, or an invalid entry when there is none, the listing of the directory, or a failure, and the
  last only when the last read of that operation failed.\<close>

theorem iso_session_correct:
  assumes "reads_disc dev img" "wf_disc img (disc_root img) D" "fst (init_parser dev s0)" "list_all (op_ok img) ops"
  shows "\<exists>as s. session dev ops (snd (init_parser dev s0)) = Some (as, s) \<and> list_all2 (answer_ok dev img) ops as"
proof -
  obtain s where s: "init_parser dev s0 = (True, s)" using assms(3) by (cases "init_parser dev s0") auto
  show ?thesis using session_spec [OF assms(1,2) _ _ assms(4), of s] init_spec [OF assms(1,2) s] s by simp
qed

definition path_AY :: bytes where "path_AY = [0x41, 0x2f, 0x59]"

lemmas path_defs = components.simps plain_def first_name_def rest_path_def drop_slash_def slash_def special_name_def

lemma demo_init: "fst (init_parser demo_dev demo_parser)"
  by (simp add: init_parser_def read_sector_def demo_dev_def demo_parser_def Let_def le32_def demo_disc_def)

lemma demo_walkable: "walkable demo_disc demo_dir" "walkable demo_disc demo_root"
  by (simp_all add: walkable_def dir_sectors_def demo_dir_def demo_root_def sector_ok_def demo_offsets demo_disc_def demo_records_def)

lemma iso_session_correct_witness:
  "\<exists>as s. session demo_dev [Lookup path_AY, Walk demo_dir, Lookup (slash # path_AY)] (snd (init_parser demo_dev demo_parser)) = Some (as, s) \<and>
     list_all2 (answer_ok demo_dev demo_disc) [Lookup path_AY, Walk demo_dir, Lookup (slash # path_AY)] as"
  by (rule iso_session_correct [OF demo_reads _ demo_init, where D = "[demo_root, demo_dir]"])
    (simp_all add: demo_disc_root demo_wf demo_walkable path_AY_def path_defs)

section \<open>Listings and lookups\<close>

lemma whole_sectors:
  assumes "2048 dvd unat (dsize e)" "dsize e \<noteq> 0"
  shows "dir_sectors e = nsec e" "listing img e = dir_records img e"
proof -
  obtain k where k: "unat (dsize e) = 2048 * k" using assms(1) by blast
  have "0 < unat (dsize e)" using assms(2) by (simp add: unat_gt_0)
  then have k1: "1 \<le> k" using k by (cases k) auto
  have "2048 * k < 4294967296" using unat_u32_less [of "dsize e"] k by simp
  then have "k < 2097152" by simp
  then have "2048 * k + 2047 < 4294967296" by linarith
  then have "unat (dsize e + 2047) = 2048 * k + 2047" using unat_plus_small [of "dsize e" 2047] k by simp
  then have "dir_sectors e = k" by (simp add: dir_sectors_def unat_div)
  moreover have "nsec e = k" using k k1 by (simp add: nsec_def unat_div)
  ultimately show "dir_sectors e = nsec e" by simp
  then show "listing img e = dir_records img e" by (simp add: listing_def entries_from_def dir_records_def)
qed

lemma resolve_name:
  assumes "dtype e = DIRECTORY" "n \<noteq> []" "slash \<notin> set n"
  shows "resolve img e n = map_of (dir_records img e) n"
proof -
  have "first_name n = n" using assms(3) by (auto simp: first_name_def takeWhile_eq_all_conv)
  then show ?thesis using resolve_step [of n e img] assms
    by (auto simp: rest_path_def drop_slash_def split: option.splits)
qed

text \<open>A path to a directory and a name in it.\<close>

lemma plain_tail:
  assumes "plain (p @ slash # n)"
  shows "p \<noteq> []" "slash \<notin> set p \<Longrightarrow> first_name (p @ slash # n) = p \<and> rest_path (p @ slash # n) = n"
    "slash \<in> set p \<Longrightarrow> first_name (p @ slash # n) = first_name p \<and> rest_path (p @ slash # n) = rest_path p @ slash # n \<and>
      plain (rest_path p @ slash # n)"
proof -
  note pl = plainD [OF assms]
  show "p \<noteq> []" using pl(2) by (auto simp: first_name_def special_name_def)
  show "slash \<notin> set p \<Longrightarrow> first_name (p @ slash # n) = p \<and> rest_path (p @ slash # n) = n"
    by (simp add: first_name_append rest_path_append)
  assume "slash \<in> set p"
  then obtain d1 d2 where p: "p = d1 @ slash # d2" "slash \<notin> set d1" by (meson split_list_first)
  then have "first_name (p @ slash # n) = d1" "rest_path (p @ slash # n) = d2 @ slash # n" "first_name p = d1" "rest_path p = d2"
    using first_name_append [of d1] rest_path_append [of d1] by simp_all
  then show "first_name (p @ slash # n) = first_name p \<and> rest_path (p @ slash # n) = rest_path p @ slash # n \<and> plain (rest_path p @ slash # n)"
    using pl(3) by auto
qed

lemma resolve_below:
  assumes "plain (p @ slash # n)" "resolve img r p = Some e" "dtype e = DIRECTORY"
  shows "resolve img r (p @ slash # n) = resolve img e n"
  using assms(1,2)
proof (induction "length p" arbitrary: p r rule: less_induct)
  case less
  note t = plain_tail [OF less.prems(1)]
  have r: "dtype r = DIRECTORY" using less.prems(2) t(1) by (subst (asm) resolve.simps) (simp split: if_splits)
  obtain f where f: "map_of (dir_records img r) (first_name p) = Some f" "(if dtype f = FILE then Some f else resolve img f (rest_path p)) = Some e"
    using less.prems(2) resolve_step [OF t(1) r] by (auto split: option.splits)
  have nf: "dtype f \<noteq> FILE" using f(2) assms(3) by (auto split: if_splits)
  have step: "resolve img r (p @ slash # n) = (case map_of (dir_records img r) (first_name (p @ slash # n)) of
      None \<Rightarrow> None | Some f \<Rightarrow> if dtype f = FILE then Some f else resolve img f (rest_path (p @ slash # n)))"
    using resolve_step [of "p @ slash # n" r img] r by simp
  show ?case
  proof (cases "slash \<in> set p")
    case True
    then have "resolve img f (rest_path p @ slash # n) = resolve img e n"
      using less.hyps [of "rest_path p" f] t(3) f(2) nf rest_path_shorter [OF t(1)] by simp
    then show ?thesis using step t(3) True f(1) nf by simp
  next
    case False
    have "first_name p = p" using False by (auto simp: first_name_def takeWhile_eq_all_conv)
    then have "rest_path p = []" by (simp add: rest_path_def drop_slash_def)
    then have "f = e" using f(2) nf by simp
    then show ?thesis using step t(2) [OF False] \<open>first_name p = p\<close> f(1) nf by simp
  qed
qed

lemma answersD:
  assumes "answers dev img D s entry want r"
  shows "\<exists>ok e s'. r = Some (ok, e, s') \<and> (if ok then e = (case want of Some f \<Rightarrow> f | None \<Rightarrow> entry) else failed_read dev s s')"
proof -
  obtain ok e s' where "r = Some (ok, e, s')" using assms by (cases r) (auto simp: answers_def)
  then show ?thesis using assms by (intro exI [of _ ok] exI [of _ e] exI [of _ s']) (simp add: answers_def)
qed


lemma demo_walk: "walkDirectory demo_dev demo_dir collect [] (demo_parser\<lparr>m_initialized := True, m_root := demo_root\<rparr>) = (True, map demo_entry (demo_records 21),
    snd (snd (walkDirectory demo_dev demo_dir collect [] (demo_parser\<lparr>m_initialized := True, m_root := demo_root\<rparr>))))"
proof -
  let ?s = "demo_parser\<lparr>m_initialized := True, m_root := demo_root\<rparr>"
  obtain ok xs s' where w: "walkDirectory demo_dev demo_dir collect [] ?s = (ok, xs, s')" by (cases "walkDirectory demo_dev demo_dir collect [] ?s")
  note spec = walk_spec(1) [OF demo_reads demo_walkable(1) _ w]
  have "ok" using spec by (auto simp: failed_read_def demo_dev_def split: if_splits)
  moreover have "listing demo_disc demo_dir = map demo_entry (demo_records 21)"
    using whole_sectors(2) [of demo_dir demo_disc] demo_dirs(2) by (simp add: demo_dir_def)
  ultimately show ?thesis using spec w by (simp add: collect_all)
qed

lemma demo_path: "resolve demo_disc demo_root [0x41] = Some demo_dir"
  using resolve_name [of demo_root "[0x41]" demo_disc]
  by (simp add: demo_dirs demo_records_def demo_entry_def slash_def) (simp add: demo_root_def demo_dir_def)


section \<open>A path that misleads\<close>

definition demo_buf :: "u32 \<Rightarrow> buffer" where
  "demo_buf l = (\<lambda>i. if i < 2048 then demo_disc l i else 0)"

definition demo_at :: "u32 \<Rightarrow> DirEntry \<Rightarrow> u32 \<Rightarrow> bytes \<Rightarrow> nat \<Rightarrow> parser" where
  "demo_at b e l path n = \<lparr>m_buffer = demo_buf b, m_root = demo_root, m_cachedEntry = e, m_cachedLBA = l, m_cachedPath = path,
     m_initialized = True, reads = n\<rparr>"

lemma demo_read [simp]: "read_sector demo_dev l (demo_at b e c path n) = (True, demo_at l e c path (n + 1))"
  by (simp add: read_sector_def demo_dev_def demo_at_def demo_buf_def cong: if_cong)

lemma demo_at_simps [simp]:
  "m_buffer (demo_at b e l path n) = demo_buf b" "m_root (demo_at b e l path n) = demo_root" "m_cachedEntry (demo_at b e l path n) = e"
  "m_cachedLBA (demo_at b e l path n) = l" "m_cachedPath (demo_at b e l path n) = path" "m_initialized (demo_at b e l path n)"
  "(demo_at b e l path n)\<lparr>m_cachedEntry := e'\<rparr> = demo_at b e' l path n"
  "(demo_at b e l path n)\<lparr>m_cachedLBA := l'\<rparr> = demo_at b e l' path n"
  "(demo_at b e l path n)\<lparr>m_cachedPath := path'\<rparr> = demo_at b e l path' n"
  by (simp_all add: demo_at_def)

lemma demo_find [simp]:
  "find_record (demo_buf 20) [0x41] 0 = Some (data_at (demo_buf 20) 68)"
  "find_record (demo_buf 20) [0x59] 0 = Some (data_at (demo_buf 20) 102)"
  "find_record (demo_buf 21) [0x59] 0 = Some (data_at (demo_buf 21) 68)"
  by (simp_all add: find_record.simps demo_buf_def demo_disc_def demo_records_def data_at_def getEntryName_def upt_rec)

lemma demo_parse [simp]:
  "parseDirEntry (data_at (demo_buf 20) 68) = demo_dir"
  "parseDirEntry (data_at (demo_buf 20) 102) = \<lparr>LBA = 30, dsize = 2048, dname = [0x59], dtype = FILE\<rparr>"
  "parseDirEntry (data_at (demo_buf 21) 68) = \<lparr>LBA = 31, dsize = 2048, dname = [0x59], dtype = FILE\<rparr>"
  by (simp_all add: parseDirEntry_def demo_buf_def demo_disc_def demo_records_def data_at_def le32_def upt_rec demo_dir_def)

lemma demo_entries [simp]: "LBA demo_root = 20" "dtype demo_root = DIRECTORY" "LBA demo_dir = 21" "dtype demo_dir = DIRECTORY"
  by (simp_all add: demo_root_def demo_dir_def)

lemma demo_flags [simp]:
  "data_at (demo_buf 20) 68 25 = 2" "data_at (demo_buf 20) 102 25 = 0" "data_at (demo_buf 21) 68 25 = 0"
  by (simp_all add: demo_buf_def demo_disc_def demo_records_def data_at_def)

lemma demo_started: "snd (init_parser demo_dev demo_parser) = demo_at 20 demo_root 20 [] 2"
proof -
  have "parseDirEntry (data_at (demo_disc 16) 156) = demo_root" using demo_disc_root by (simp add: disc_root_def)
  moreover have "parseDirEntry (data_at (demo_buf 16) 156) = parseDirEntry (data_at (demo_disc 16) 156)"
    by (rule parse_same) (simp_all add: same_sector_def demo_buf_def)
  ultimately have root: "parseDirEntry (data_at (\<lambda>i. if i < 2048 then demo_disc 16 i else 0) 156) = demo_root" by (simp add: demo_buf_def)
  have le: "le32 (\<lambda>i. if i < 2048 then demo_disc 16 i else 0) 0 = 0x30444301" "le32 (\<lambda>i. if i < 2048 then demo_disc 16 i else 0) 4 = 0x00013130"
    by (simp_all add: le32_def demo_disc_def)
  show ?thesis
    by (simp add: init_parser_def read_sector_def demo_dev_def demo_parser_def Let_def root le demo_at_def demo_buf_def cong: if_cong)
qed

lemma demo_lookup:
  "getDirentry demo_dev path_AY en (demo_at 20 demo_root 20 [] n)
     = Some (True, \<lparr>LBA = 31, dsize = 2048, dname = [0x59], dtype = FILE\<rparr>, demo_at 21 demo_dir 21 [slash, 0x41] (n + 1))"
  by (simp add: getDirentry_def findDirEntry.simps path_AY_def cached_rest_def drop_slash_def slash_def first_name_def rest_path_def Let_def)

text \<open>C35: when the directory \<open>q\<close> is the one in the cache, with another sector than the first of the root, a lookup of "/"
  answers not the root but an invalid entry, and leaves the path of \<open>q\<close> cached over a directory that is no longer there: the
  lookup of a path \<open>y\<close> in \<open>q\<close> that comes next answers what \<open>y\<close> means from the root.\<close>

theorem slash_lookup_misleads:
  assumes "reads_disc dev img" "wf_disc img (m_root s) D" "m_initialized s" "m_cachedPath s = slash # q" "m_cachedLBA s \<noteq> LBA (m_root s)"
    "plain (q @ slash # y)" "y \<noteq> []"
  shows "\<exists>s1 ok e s2. getDirentry dev [slash] entry1 s = Some (True, (m_cachedEntry s)\<lparr>dtype := INVALID\<rparr>, s1) \<and>
    getDirentry dev (q @ slash # y) entry2 s1 = Some (ok, e, s2) \<and>
    (if ok then e = (case resolve img (m_root s) y of Some f \<Rightarrow> f | None \<Rightarrow> entry2\<lparr>dtype := INVALID\<rparr>) else failed_read dev s1 s2)"
proof -
  define s1 where "s1 = s\<lparr>m_cachedEntry := (m_cachedEntry s)\<lparr>dtype := INVALID\<rparr>\<rparr>"
  have s1: "m_root s1 = m_root s" "m_initialized s1" "dtype (m_cachedEntry s1) = INVALID" "m_cachedPath s1 = slash # q"
    using assms(3,4) by (simp_all add: s1_def)
  have q: "q \<noteq> []" "hd q \<noteq> slash"
  proof -
    show "q \<noteq> []" using plain_tail(1) [OF assms(6)] .
    then show "hd q \<noteq> slash" using plainD(2) [OF assms(6)] by (cases q) (auto simp: first_name_def special_name_def)
  qed
  have "cached_rest (slash # q) [] = None" using q(1) by (simp add: cached_rest_def drop_slash_def)
  then have "getDirentry dev [slash] entry1 s = Some (True, (m_cachedEntry s)\<lparr>dtype := INVALID\<rparr>, s1)"
    using assms(3-5) by (simp add: getDirentry_def findDirEntry.simps drop_slash_def s1_def)
  moreover have p: "drop_slash (q @ slash # y) = q @ slash # y" using q by (cases q) (simp_all add: drop_slash_def)
  have rest: "cached_rest (slash # q) (q @ slash # y) = Some y" by (simp add: cached_rest_def drop_slash_def Let_def nth_append)
  then have "plain y" using cached_rest_join(2) [OF rest plainD(2) [OF assms(6)]] assms(6,7) by simp
  have "getDirentry dev (q @ slash # y) entry2 s1 = findDirEntry dev y (entry2\<lparr>dtype := INVALID\<rparr>) s1"
    using s1 rest by (simp add: getDirentry_def p Let_def)
  moreover have "answers dev img D s1 (entry2\<lparr>dtype := INVALID\<rparr>) (resolve img (m_root s1) y) (findDirEntry dev y (entry2\<lparr>dtype := INVALID\<rparr>) s1)"
    using assms(1,2) s1 \<open>plain y\<close> by (intro find_from_root) simp_all
  ultimately show ?thesis using s1(1) answersD by metis
qed

text \<open>On the small disc: A/Y is in sector 31, and after a lookup of "/" the same path gives the file Y of the root, in sector 30.\<close>

theorem slash_lookup_misleads_witness:
  "\<exists>s1 s2 s3 e1 e2 e3. getDirentry demo_dev path_AY blank_entry (snd (init_parser demo_dev demo_parser)) = Some (True, e1, s1) \<and>
     getDirentry demo_dev [slash] blank_entry s1 = Some (True, e2, s2) \<and> getDirentry demo_dev path_AY blank_entry s2 = Some (True, e3, s3) \<and>
     LBA e1 = 31 \<and> dtype e2 = INVALID \<and> LBA e3 = 30"
proof -
  let ?s = "demo_at 21 demo_dir 21 [slash, 0x41] 3"
  have "wf_disc demo_disc (m_root ?s) [demo_root, demo_dir]" using demo_wf by simp
  moreover have "plain ([0x41] @ slash # [0x59])" by (simp add: path_defs)
  moreover have "\<not> failed_read demo_dev s1 s2" for s1 s2 by (simp add: failed_read_def demo_dev_def)
  moreover have "resolve demo_disc demo_root [0x59] = Some \<lparr>LBA = 30, dsize = 2048, dname = [0x59], dtype = FILE\<rparr>"
    using resolve_name [of demo_root "[0x59]" demo_disc]
    by (simp add: demo_dirs demo_records_def demo_entry_def slash_def)
  ultimately obtain s1 e s2 where "getDirentry demo_dev [slash] blank_entry ?s = Some (True, demo_dir\<lparr>dtype := INVALID\<rparr>, s1)"
      "getDirentry demo_dev ([0x41] @ slash # [0x59]) blank_entry s1 = Some (True, e, s2)" "LBA e = 30"
    using slash_lookup_misleads [OF demo_reads, of ?s "[demo_root, demo_dir]" "[0x41]" "[0x59]" blank_entry blank_entry]
    by (auto split: if_splits)
  moreover have "path_AY = [0x41] @ slash # [0x59]" by (simp add: path_AY_def slash_def)
  moreover have "getDirentry demo_dev path_AY blank_entry (snd (init_parser demo_dev demo_parser)) =
      Some (True, \<lparr>LBA = 31, dsize = 2048, dname = [0x59], dtype = FILE\<rparr>, ?s)"
    unfolding demo_started using demo_lookup [of blank_entry 2] by simp
  ultimately show ?thesis by auto
qed

end
