(* ===== verification/Cd_Device.thy ===== *)
theory Cd_Device
  imports Msf "HOL-Library.Monad_Syntax"
begin

text \<open>
  The CD-ROM device of psyqo (\<open>psyqo/src/cdrom-device*.cpp\<close>): the interrupt loop and the actions it drives. A run that
  ends in \<open>Kernel::assert\<close> or \<open>Kernel::abort\<close> is None. The hardware is what the code reads from it, given with each
  interrupt, and the log \<open>out\<close> of what it writes; the callbacks the kernel queues for the main thread are the list
  \<open>queued\<close> (without the bound of 32 places of the kernel's ring), and \<open>calls\<close> the calls of the program's own callbacks, which are numbers here. The stages of an action are
  the numbers the code gives them, because \<open>m_state\<close> is shared by all actions.
\<close>

section \<open>Commands and stages\<close>

definition CD_SETLOC :: u8 where "CD_SETLOC = 2"
definition CD_PLAY :: u8 where "CD_PLAY = 3"
definition CD_READN :: u8 where "CD_READN = 6"
definition CD_STOP :: u8 where "CD_STOP = 8"
definition CD_PAUSE :: u8 where "CD_PAUSE = 9"
definition CD_INIT :: u8 where "CD_INIT = 10"
definition CD_MUTE :: u8 where "CD_MUTE = 11"
definition CD_UNMUTE :: u8 where "CD_UNMUTE = 12"
definition CD_SETMODE :: u8 where "CD_SETMODE = 14"
definition CD_GETLOCP :: u8 where "CD_GETLOCP = 17"
definition CD_GETTN :: u8 where "CD_GETTN = 19"
definition CD_GETTD :: u8 where "CD_GETTD = 20"
definition CD_SEEKP :: u8 where "CD_SEEKP = 22"
definition CD_TEST :: u8 where "CD_TEST = 25"

datatype act = ResetAction | ReadSectorsAction | GetTNAction | ReadTOCAction | MuteAction | UnmuteAction | PlayCDDAAction | TestAction

definition RS_SETLOC :: u8 where "RS_SETLOC = 1"
definition RS_SETMODE :: u8 where "RS_SETMODE = 2"
definition RS_READ :: u8 where "RS_READ = 3"
definition RS_READ_ACK :: u8 where "RS_READ_ACK = 4"
definition RS_PAUSE :: u8 where "RS_PAUSE = 5"
definition RS_PAUSE_ACK :: u8 where "RS_PAUSE_ACK = 6"
definition RESET :: u8 where "RESET = 1"
definition RESET_ACK :: u8 where "RESET_ACK = 2"
definition TOC_GETTN :: u8 where "TOC_GETTN = 1"
definition TOC_GETTD :: u8 where "TOC_GETTD = 2"
definition CDDA_GETTD :: u8 where "CDDA_GETTD = 1"
definition CDDA_SETMODE :: u8 where "CDDA_SETMODE = 2"
definition CDDA_SETLOC :: u8 where "CDDA_SETLOC = 3"
definition CDDA_SEEK :: u8 where "CDDA_SEEK = 4"
definition CDDA_SEEK_ACK :: u8 where "CDDA_SEEK_ACK = 5"
definition CDDA_PLAY :: u8 where "CDDA_PLAY = 6"
definition CDDA_PLAYING :: u8 where "CDDA_PLAYING = 100"
definition CDDA_STOPPING :: u8 where "CDDA_STOPPING = 101"
definition CDDA_STOPPING_ACK :: u8 where "CDDA_STOPPING_ACK = 102"

lemmas stages = RS_SETLOC_def RS_SETMODE_def RS_READ_def RS_READ_ACK_def RS_PAUSE_def RS_PAUSE_ACK_def RESET_def RESET_ACK_def
  TOC_GETTN_def TOC_GETTD_def CDDA_GETTD_def CDDA_SETMODE_def CDDA_SETLOC_def CDDA_SEEK_def CDDA_SEEK_ACK_def CDDA_PLAY_def
  CDDA_PLAYING_def CDDA_STOPPING_def CDDA_STOPPING_ACK_def

section \<open>State\<close>

datatype cd_out =
    CtrlRead | InterruptControlRead | ResponseRead | CauseWrite u8 | CauseMaskWrite u8 | Send u8 bytes | DataRequest u8
  | Dev5Ctrl u32 | ComCtrl u32 | Madr u32 | Bcr u32 | Chcr u32 | Volume bytes | IMaskClear | IMaskSet | IRegClear
  | EnableDma | RegisterHandler bool

text \<open>A callback of the program, or the one of a blocking call, which sets its local variable.\<close>

datatype callback = User nat | SetSuccess

record location =
  relative :: msf
  absolute :: msf
  track :: u8
  index :: u8

datatype locptr = LocationStorage | LocationUser nat

datatype queue_item = ActionComplete | CallCallback bool | CallLocation | CallLocationNull nat
datatype cd_call = Done nat bool | Located nat "locptr option"

record dev =
  m_callback :: "callback option"
  m_locationCallback :: "nat option"
  m_locationPtr :: "locptr option"
  m_action :: "act option"
  m_state :: u8
  m_doubleSpeed :: bool
  m_success :: bool
  m_blocking :: bool
  m_pendingGetLocation :: bool
  rs_count :: u32
  rs_ptr :: u32
  rs_mode :: u8
  tn_size :: u32
  toc_table :: "nat \<Rightarrow> msf"
  toc_size :: u32
  toc_currentTrack :: u8
  toc_lastTrack :: u8
  cdda_start :: msf
  cdda_stopAtEndOfTrack :: bool
  test_buffer :: bytes
  locations :: "locptr \<Rightarrow> location"
  block_success :: bool
  stack_byte :: "nat \<Rightarrow> u8"
  queued :: "queue_item list"
  calls :: "cd_call list"
  out :: "cd_out list"

definition emit :: "cd_out list \<Rightarrow> dev \<Rightarrow> dev" where
  "emit os d = d\<lparr>out := out d @ os\<rparr>"

definition cd_send :: "u8 \<Rightarrow> bytes \<Rightarrow> dev \<Rightarrow> dev" where
  "cd_send cmd args d = emit [Send cmd args] d"

definition enqueue :: "queue_item \<Rightarrow> dev \<Rightarrow> dev" where
  "enqueue q d = d\<lparr>queued := queued d @ [q]\<rparr>"

text \<open>A byte of the response; behind its end there is whatever the stack held.\<close>

definition resp :: "dev \<Rightarrow> bytes \<Rightarrow> nat \<Rightarrow> u8" where
  "resp d response i = (if i < length response then response ! i else stack_byte d i)"

section \<open>Starting an action\<close>

definition isIdle :: "dev \<Rightarrow> bool" where
  "isIdle d \<longleftrightarrow> m_state d = 0"

definition switchAction :: "act \<Rightarrow> dev \<Rightarrow> dev option" where
  "switchAction a d = (if m_action d \<noteq> None then None else Some (d\<lparr>m_action := Some a\<rparr>))"

definition setCallback :: "callback \<Rightarrow> dev \<Rightarrow> dev option" where
  "setCallback cb d = (if m_callback d \<noteq> None \<or> m_state d \<noteq> 0 then None else Some (d\<lparr>m_callback := Some cb\<rparr>))"

definition start_action :: "act \<Rightarrow> u8 \<Rightarrow> callback \<Rightarrow> dev \<Rightarrow> dev option" where
  "start_action a stage cb d =
     (if m_callback d \<noteq> None \<or> \<not> isIdle d then None
      else do { d \<leftarrow> switchAction a d; d \<leftarrow> setCallback cb d; Some (d\<lparr>m_state := stage\<rparr>) })"

definition readSectors :: "u32 \<Rightarrow> u32 \<Rightarrow> u32 \<Rightarrow> callback \<Rightarrow> dev \<Rightarrow> dev option" where
  "readSectors sector count buffer cb d = do {
     d \<leftarrow> start_action ReadSectorsAction RS_SETLOC cb d;
     Some (cd_send CD_SETLOC (toBCD (msf_of_lba (sector + 150)))
       (d\<lparr>rs_count := count, rs_ptr := buffer, rs_mode := if m_doubleSpeed d then 0x80 else 0\<rparr>)) }"

definition cd_reset :: "callback \<Rightarrow> dev \<Rightarrow> dev option" where
  "cd_reset cb d = do {
     d \<leftarrow> start_action ResetAction RESET cb d;
     Some (cd_send CD_INIT [] (emit [CauseWrite 0x1f, CauseMaskWrite 0x1f] d)) }"

definition getTOCSize :: "callback \<Rightarrow> dev \<Rightarrow> dev option" where
  "getTOCSize cb d = do { d \<leftarrow> start_action GetTNAction 1 cb d; Some (cd_send CD_GETTN [] d) }"

definition readTOC :: "u32 \<Rightarrow> callback \<Rightarrow> dev \<Rightarrow> dev option" where
  "readTOC sz cb d = do {
     d \<leftarrow> start_action ReadTOCAction TOC_GETTN cb d;
     Some (cd_send CD_GETTN [] (d\<lparr>toc_size := sz\<rparr>)) }"

definition mute :: "callback \<Rightarrow> dev \<Rightarrow> dev option" where
  "mute cb d = do { d \<leftarrow> start_action MuteAction 1 cb d; Some (cd_send CD_MUTE [] d) }"

definition unmute :: "callback \<Rightarrow> dev \<Rightarrow> dev option" where
  "unmute cb d = do { d \<leftarrow> start_action UnmuteAction 1 cb d; Some (cd_send CD_UNMUTE [] d) }"

definition cd_test :: "bytes \<Rightarrow> callback \<Rightarrow> dev \<Rightarrow> dev option" where
  "cd_test commandBuffer cb d = do { d \<leftarrow> start_action TestAction 1 cb d; Some (cd_send CD_TEST commandBuffer d) }"

definition play_track :: "u32 \<Rightarrow> bool \<Rightarrow> callback \<Rightarrow> dev \<Rightarrow> dev option" where
  "play_track trk stopAtEndOfTrack cb d = do {
     d \<leftarrow> start_action PlayCDDAAction CDDA_GETTD cb d;
     Some (cd_send CD_GETTD [itob (ucast trk)] (d\<lparr>cdda_stopAtEndOfTrack := stopAtEndOfTrack\<rparr>)) }"

definition play_msf :: "msf \<Rightarrow> bool \<Rightarrow> callback \<Rightarrow> dev \<Rightarrow> dev option" where
  "play_msf start stopAtEndOfTrack cb d = do {
     d \<leftarrow> start_action PlayCDDAAction CDDA_SETMODE cb d;
     Some (cd_send CD_SETMODE [if stopAtEndOfTrack then 3 else 1] (d\<lparr>cdda_start := start\<rparr>)) }"

definition resumeCDDA :: "callback \<Rightarrow> dev \<Rightarrow> dev option" where
  "resumeCDDA cb d = do { d \<leftarrow> start_action PlayCDDAAction CDDA_PLAY cb d; Some (cd_send CD_PLAY [] d) }"

definition playCDDATrack :: "u32 + msf \<Rightarrow> callback \<Rightarrow> dev \<Rightarrow> dev option" where
  "playCDDATrack start cb d = (case start of Inl trk \<Rightarrow> play_track trk True cb d | Inr start \<Rightarrow> play_msf start True cb d)"

definition playCDDADisc :: "u32 + msf \<Rightarrow> callback \<Rightarrow> dev \<Rightarrow> dev option" where
  "playCDDADisc start cb d = (case start of Inl trk \<Rightarrow> play_track trk False cb d | Inr start \<Rightarrow> play_msf start False cb d)"

text \<open>Pausing and stopping are not actions of their own: they move the playing one on, and only that.\<close>

definition leave_playing :: "u8 \<Rightarrow> dev \<Rightarrow> dev option" where
  "leave_playing cmd d =
     (let d = emit [IMaskClear] d
      in if m_action d = None then Some (emit [IMaskSet] d)
         else if m_state d \<noteq> 100 then None
         else Some (emit [IMaskSet] (cd_send cmd [] (d\<lparr>m_state := 101\<rparr>))))"

definition pauseCDDA :: "dev \<Rightarrow> dev option" where "pauseCDDA d = leave_playing CD_PAUSE d"
definition stopCDDA :: "dev \<Rightarrow> dev option" where "stopCDDA d = leave_playing CD_STOP d"

definition getPlaybackLocation :: "locptr \<Rightarrow> nat \<Rightarrow> dev \<Rightarrow> dev option" where
  "getPlaybackLocation ptr cb d =
     (let d = emit [IMaskClear] d
      in if m_locationCallback d \<noteq> None then None
         else if m_action d = None then Some (emit [IMaskSet] (enqueue (CallLocationNull cb) d))
         else Some (emit [IMaskSet] (cd_send CD_GETLOCP []
           (d\<lparr>m_locationCallback := Some cb, m_locationPtr := Some ptr, m_pendingGetLocation := True\<rparr>))))"

definition setDoubleSpeed :: "bool \<Rightarrow> dev \<Rightarrow> dev" where
  "setDoubleSpeed b d = d\<lparr>m_doubleSpeed := b\<rparr>"

definition setVolume :: "u8 \<Rightarrow> u8 \<Rightarrow> u8 \<Rightarrow> u8 \<Rightarrow> dev \<Rightarrow> dev" where
  "setVolume leftToLeft rightToLeft leftToRight rightToRight d =
     emit [IMaskClear, Volume [leftToLeft, rightToLeft, leftToRight, rightToRight, 0x20], IMaskSet] d"

section \<open>The interrupts of an action\<close>

definition setSuccess :: "bool \<Rightarrow> dev \<Rightarrow> dev" where
  "setSuccess b d = d\<lparr>m_success := b\<rparr>"

definition queueCallbackFromISR :: "bool \<Rightarrow> dev \<Rightarrow> dev option" where
  "queueCallbackFromISR b d = (if m_callback d = None then None else Some (enqueue (CallCallback b) d))"

definition getPendingLocationPtr :: "dev \<Rightarrow> locptr option" where
  "getPendingLocationPtr d = (if m_pendingGetLocation d then m_locationPtr d else None)"

definition queueGetLocationCallback :: "bool \<Rightarrow> dev \<Rightarrow> dev" where
  "queueGetLocationCallback b d =
     enqueue CallLocation (if b then d\<lparr>m_pendingGetLocation := False\<rparr> else d\<lparr>m_pendingGetLocation := False, m_locationPtr := None\<rparr>)"

text \<open>Each handler answers whether the action is over. A handler an action does not have aborts.\<close>

definition drop_sector :: "cd_out list" where
  "drop_sector = [CtrlRead, DataRequest 0, InterruptControlRead]"

definition rs_dataReady :: "dev \<Rightarrow> (bool \<times> dev) option" where
  "rs_dataReady d =
     (if m_state d = RS_PAUSE \<or> m_state d = RS_PAUSE_ACK then Some (False, emit drop_sector d)
      else if m_state d \<noteq> RS_READ_ACK then None
      else
        let d = emit (drop_sector @ [DataRequest 0x80, Dev5Ctrl 0x20943, ComCtrl 0x132c, Madr (rs_ptr d), Bcr (512 OR 0x10000), Chcr 0x11000000]) d;
            d = d\<lparr>rs_ptr := rs_ptr d + 2048, rs_count := rs_count d - 1\<rparr>
        in Some (False, if rs_count d = 0 then cd_send CD_PAUSE [] (d\<lparr>m_state := RS_PAUSE\<rparr>) else d))"

definition cd_dataReady :: "act \<Rightarrow> dev \<Rightarrow> (bool \<times> dev) option" where
  "cd_dataReady a d = (if a = ReadSectorsAction then rs_dataReady d else None)"

definition cdda_complete :: "dev \<Rightarrow> (bool \<times> dev) option" where
  "cdda_complete d =
     (if m_state d = CDDA_SEEK_ACK then Some (False, cd_send CD_PLAY [] (d\<lparr>m_state := CDDA_PLAY\<rparr>))
      else if m_state d = CDDA_STOPPING_ACK then Some (True, setSuccess True d)
      else None)"

definition cd_complete :: "act \<Rightarrow> dev \<Rightarrow> (bool \<times> dev) option" where
  "cd_complete a d =
     (case a of
        ReadSectorsAction \<Rightarrow> if m_state d = RS_PAUSE_ACK then Some (True, setSuccess True d) else None
      | ResetAction \<Rightarrow> if m_state d = RESET_ACK then Some (True, setSuccess True d) else None
      | PlayCDDAAction \<Rightarrow> cdda_complete d
      | MuteAction \<Rightarrow> Some (True, setSuccess True d)
      | UnmuteAction \<Rightarrow> Some (True, setSuccess True d)
      | TestAction \<Rightarrow> Some (True, setSuccess True d)
      | GetTNAction \<Rightarrow> None
      | ReadTOCAction \<Rightarrow> None)"

definition rs_acknowledge :: "dev \<Rightarrow> (bool \<times> dev) option" where
  "rs_acknowledge d =
     (if m_state d = RS_SETLOC then Some (False, cd_send CD_SETMODE [rs_mode d] (d\<lparr>m_state := RS_SETMODE\<rparr>))
      else if m_state d = RS_SETMODE then Some (False, cd_send CD_READN [] (d\<lparr>m_state := RS_READ\<rparr>))
      else if m_state d = RS_READ then Some (False, d\<lparr>m_state := RS_READ_ACK\<rparr>)
      else if m_state d = RS_PAUSE then Some (False, d\<lparr>m_state := RS_PAUSE_ACK\<rparr>)
      else None)"

definition toc_acknowledge :: "bytes \<Rightarrow> dev \<Rightarrow> (bool \<times> dev) option" where
  "toc_acknowledge response d =
     (if m_state d = TOC_GETTN then
        Some (False, cd_send CD_GETTD [itob 1]
          (d\<lparr>m_state := TOC_GETTD, toc_currentTrack := resp d response 1, toc_lastTrack := resp d response 2\<rparr>))
      else if m_state d = TOC_GETTD then
        let k = unat (toc_currentTrack d);
            d = d\<lparr>toc_table := (toc_table d)(k := \<lparr>msf.m = btoi (resp d response 1), s = btoi (resp d response 2), f = 0\<rparr>),
                  toc_currentTrack := toc_currentTrack d + 1\<rparr>
        in if toc_currentTrack d \<le> toc_lastTrack d \<and> ucast (toc_currentTrack d) < toc_size d
           then Some (False, cd_send CD_GETTD [itob (toc_currentTrack d)] d)
           else Some (True, setSuccess True d)
      else None)"

definition read_location :: "dev \<Rightarrow> bytes \<Rightarrow> location" where
  "read_location d response =
     (let b = (\<lambda>i. btoi (resp d response i))
      in \<lparr>relative = \<lparr>msf.m = b 2, s = b 3, f = b 4\<rparr>, absolute = \<lparr>msf.m = b 5, s = b 6, f = b 7\<rparr>, track = b 0, index = b 1\<rparr>)"

definition cdda_acknowledge :: "bytes \<Rightarrow> dev \<Rightarrow> (bool \<times> dev) option" where
  "cdda_acknowledge response d =
     (if m_state d = CDDA_GETTD then
        Some (False, cd_send CD_SETMODE [if cdda_stopAtEndOfTrack d then 0x02 else 0]
          (d\<lparr>cdda_start := \<lparr>msf.m = btoi (resp d response 1), s = btoi (resp d response 2), f = 0\<rparr>, m_state := CDDA_SETMODE\<rparr>))
      else if m_state d = CDDA_SETMODE then Some (False, cd_send CD_SETLOC (toBCD (cdda_start d)) (d\<lparr>m_state := CDDA_SETLOC\<rparr>))
      else if m_state d = CDDA_SETLOC then Some (False, cd_send CD_SEEKP [] (d\<lparr>m_state := CDDA_SEEK\<rparr>))
      else if m_state d = CDDA_SEEK then Some (False, d\<lparr>m_state := CDDA_SEEK_ACK\<rparr>)
      else if m_state d = CDDA_PLAY then
        do { d \<leftarrow> queueCallbackFromISR True (d\<lparr>m_state := CDDA_PLAYING\<rparr>); Some (False, d) }
      else if m_state d = CDDA_PLAYING then
        (case getPendingLocationPtr d of
           None \<Rightarrow> None
         | Some p \<Rightarrow> if length response \<noteq> 8 then None
             else Some (False, queueGetLocationCallback True (d\<lparr>locations := (locations d)(p := read_location d response)\<rparr>)))
      else if m_state d = CDDA_STOPPING then Some (False, d\<lparr>m_state := CDDA_STOPPING_ACK\<rparr>)
      else None)"

definition cd_acknowledge :: "act \<Rightarrow> bytes \<Rightarrow> dev \<Rightarrow> (bool \<times> dev) option" where
  "cd_acknowledge a response d =
     (case a of
        ReadSectorsAction \<Rightarrow> rs_acknowledge d
      | ResetAction \<Rightarrow> if m_state d = RESET then Some (False, d\<lparr>m_state := RESET_ACK\<rparr>) else None
      | GetTNAction \<Rightarrow> Some (True, setSuccess True (d\<lparr>tn_size := ucast (resp d response 2)\<rparr>))
      | ReadTOCAction \<Rightarrow> toc_acknowledge response d
      | PlayCDDAAction \<Rightarrow> cdda_acknowledge response d
      | TestAction \<Rightarrow> Some (True, setSuccess True d)
      | MuteAction \<Rightarrow> None
      | UnmuteAction \<Rightarrow> None)"

definition end_of_play :: "act \<Rightarrow> dev \<Rightarrow> (bool \<times> dev) option" where
  "end_of_play a d =
     (if a \<noteq> PlayCDDAAction then None
      else if m_state d = CDDA_STOPPING then Some (False, d)
      else
        let d = (if getPendingLocationPtr d \<noteq> None then queueGetLocationCallback False d else d)
        in if m_state d \<noteq> CDDA_PLAYING then None else Some (True, setSuccess True d))"

section \<open>Completion\<close>

text \<open>A call of a callback: the program's is noted, the one of a blocking call sets its variable.\<close>

definition call_callback :: "callback \<Rightarrow> bool \<Rightarrow> dev \<Rightarrow> dev" where
  "call_callback cb b d = (case cb of User n \<Rightarrow> d\<lparr>calls := calls d @ [Done n b]\<rparr> | SetSuccess \<Rightarrow> d\<lparr>block_success := b\<rparr>)"

definition actionComplete :: "dev \<Rightarrow> dev option" where
  "actionComplete d =
     (case m_callback d of
        None \<Rightarrow> None
      | Some cb \<Rightarrow> Some (call_callback cb (m_success d) (d\<lparr>m_callback := None, m_success := False, m_state := 0\<rparr>)))"

text \<open>What the kernel runs in the main thread. An empty function that is called ends the program.\<close>

definition run_item :: "queue_item \<Rightarrow> dev \<Rightarrow> dev option" where
  "run_item q d =
     (case q of
        ActionComplete \<Rightarrow> actionComplete d
      | CallCallback b \<Rightarrow> (case m_callback d of None \<Rightarrow> None | Some cb \<Rightarrow> Some (call_callback cb b d))
      | CallLocation \<Rightarrow> (case m_locationCallback d of None \<Rightarrow> None
          | Some n \<Rightarrow> Some (d\<lparr>m_locationCallback := None, calls := calls d @ [Located n (m_locationPtr d)]\<rparr>))
      | CallLocationNull n \<Rightarrow> Some (d\<lparr>calls := calls d @ [Located n None]\<rparr>))"

definition run_one :: "dev \<Rightarrow> dev option" where
  "run_one d = (case queued d of [] \<Rightarrow> Some d | q # qs \<Rightarrow> run_item q (d\<lparr>queued := qs\<rparr>))"

text \<open>As many as were queued on entry.\<close>

fun run_many :: "nat \<Rightarrow> dev \<Rightarrow> dev option" where
  "run_many 0 d = Some d"
| "run_many (Suc n) d = do { d \<leftarrow> run_one d; run_many n d }"

definition pumpCallbacks :: "dev \<Rightarrow> dev option" where
  "pumpCallbacks d = run_many (length (queued d)) d"

section \<open>The interrupt loop\<close>

text \<open>
  Each reading of the cause register comes with the response bytes there are then. When the readings are used up, the
  register reads zero.
\<close>

definition handle_cause :: "u8 \<Rightarrow> bytes \<Rightarrow> act \<Rightarrow> dev \<Rightarrow> (bool \<times> dev) option" where
  "handle_cause cause response a d =
     (if cause AND 7 = 1 then cd_dataReady a d
      else if cause AND 7 = 2 then cd_complete a d
      else if cause AND 7 = 3 then cd_acknowledge a response d
      else if cause AND 7 = 4 then end_of_play a d
      else if cause AND 7 = 5 then Some (True, setSuccess False d)
      else None)"

definition finish_action :: "dev \<Rightarrow> dev option" where
  "finish_action d =
     (if m_callback d = None then None
      else let d = d\<lparr>m_action := None\<rparr> in if m_blocking d then actionComplete d else Some (enqueue ActionComplete d))"

fun irq_loop :: "bool \<Rightarrow> (u8 \<times> bytes) list \<Rightarrow> dev \<Rightarrow> dev option" where
  "irq_loop ranOnce [] d = Some d"
| "irq_loop ranOnce ((cause, fifo) # rs) d =
     (if ranOnce \<and> cause AND 15 = 0 then Some d
      else if cause AND 7 = 0 then Some (if cause AND 0x18 \<noteq> 0 then emit [CauseWrite 0x18] d else d)
      else case m_action d of
          None \<Rightarrow> None
        | Some a \<Rightarrow>
            let d = emit (CauseWrite 7 # (if cause AND 0x18 \<noteq> 0 then [CauseWrite 0x18] else [])) d
            in do {
              (over, d) \<leftarrow> handle_cause cause (take 16 fifo) a (emit (replicate (length (take 16 fifo)) ResponseRead) d);
              d \<leftarrow> (if over then finish_action d else Some d);
              irq_loop True rs d })"

definition cd_irq :: "(u8 \<times> bytes) list \<Rightarrow> dev \<Rightarrow> dev option" where
  "cd_irq rs d = irq_loop False rs d"

definition irq_handler :: "(u8 \<times> bytes) list \<Rightarrow> dev \<Rightarrow> dev option" where
  "irq_handler rs d = cd_irq rs (emit [IRegClear] d)"

definition cd_prepare :: "u8 \<Rightarrow> bytes \<Rightarrow> bool \<Rightarrow> dev \<Rightarrow> dev" where
  "cd_prepare cause fifo takenOver d =
     setVolume 0x80 0x00 0x00 0x80
       (emit ((if cause AND 7 \<noteq> 0 then [CauseWrite 7] else []) @ (if cause AND 0x18 \<noteq> 0 then [CauseWrite 0x18] else []) @
          replicate (length (take 16 fifo)) ResponseRead @ [IRegClear, IMaskSet, EnableDma, RegisterHandler takenOver]) d)"

section \<open>Blocking calls\<close>

text \<open>
  While a blocking call waits it polls the interrupt flag, handles what there is, and runs the queued callbacks. The polls
  are given; a call that still waits behind the last of them is \<open>Waiting\<close>.
\<close>

datatype cd_outcome = Waiting dev | Returned dev

fun block_wait :: "(u8 \<times> bytes) list option list \<Rightarrow> dev \<Rightarrow> cd_outcome option" where
  "block_wait [] d = Some (if m_state d = 0 then Returned d else Waiting d)"
| "block_wait (p # ps) d =
     (if m_state d = 0 then Some (Returned d)
      else do {
        d \<leftarrow> (case p of None \<Rightarrow> Some d | Some rs \<Rightarrow> cd_irq rs (emit [IRegClear] d));
        d \<leftarrow> pumpCallbacks d;
        block_wait ps d })"

definition blocking :: "(callback \<Rightarrow> dev \<Rightarrow> dev option) \<Rightarrow> (u8 \<times> bytes) list option list \<Rightarrow> dev \<Rightarrow> cd_outcome option" where
  "blocking start ps d =
     do {
       d \<leftarrow> start SetSuccess (emit [IMaskClear] (d\<lparr>block_success := False, m_blocking := True\<rparr>));
       r \<leftarrow> block_wait ps d;
       Some (case r of Waiting d \<Rightarrow> Waiting d | Returned d \<Rightarrow> Returned (emit [IMaskSet] (d\<lparr>m_blocking := False\<rparr>))) }"

definition readSectorsBlocking :: "u32 \<Rightarrow> u32 \<Rightarrow> u32 \<Rightarrow> (u8 \<times> bytes) list option list \<Rightarrow> dev \<Rightarrow> cd_outcome option" where
  "readSectorsBlocking sector count buffer ps d = (if m_callback d \<noteq> None then None else blocking (readSectors sector count buffer) ps d)"

definition resetBlocking :: "(u8 \<times> bytes) list option list \<Rightarrow> dev \<Rightarrow> cd_outcome option" where
  "resetBlocking ps d = (if m_callback d \<noteq> None then None else blocking cd_reset ps d)"

definition getTOCSizeBlocking :: "(u8 \<times> bytes) list option list \<Rightarrow> dev \<Rightarrow> (u32 \<times> cd_outcome) option" where
  "getTOCSizeBlocking ps d =
     (if m_callback d \<noteq> None then None
      else do {
        r \<leftarrow> blocking getTOCSize ps (d\<lparr>tn_size := 0\<rparr>);
        Some (case r of Waiting d \<Rightarrow> (0, r) | Returned d \<Rightarrow> (if block_success d then tn_size d else 0, r)) })"

definition readTOCBlocking :: "u32 \<Rightarrow> (u8 \<times> bytes) list option list \<Rightarrow> dev \<Rightarrow> cd_outcome option" where
  "readTOCBlocking sz ps d = (if m_callback d \<noteq> None then None else blocking (readTOC sz) ps d)"

definition testBlocking :: "bytes \<Rightarrow> (u8 \<times> bytes) list option list \<Rightarrow> dev \<Rightarrow> cd_outcome option" where
  "testBlocking commandBuffer ps d = (if m_callback d \<noteq> None then None else blocking (cd_test commandBuffer) ps d)"

end
