(* ===== verification/Cd_Steps.thy ===== *)
theory Cd_Steps
  imports Cd_Device
begin

text \<open>
  The device as a whole: requests of the program, interrupts and runs of the main thread in any order. Every request that
  was accepted is answered once, a request to play twice when it got to play, and in the order of the requests.
\<close>

section \<open>Steps\<close>

datatype cd_request =
    ReqRead u32 u32 u32 nat | ReqReset nat | ReqTOCSize nat | ReqTOC u32 nat | ReqMute nat | ReqUnmute nat | ReqTest bytes nat
  | ReqPlayTrack "u32 + msf" nat | ReqPlayDisc "u32 + msf" nat | ReqResume nat
  | ReqPause | ReqStop | ReqLocation locptr nat | ReqVolume u8 u8 u8 u8

fun do_request :: "cd_request \<Rightarrow> dev \<Rightarrow> dev option" where
  "do_request (ReqRead sector count buffer n) d = readSectors sector count buffer (User n) d"
| "do_request (ReqReset n) d = cd_reset (User n) d"
| "do_request (ReqTOCSize n) d = getTOCSize (User n) d"
| "do_request (ReqTOC sz n) d = readTOC sz (User n) d"
| "do_request (ReqMute n) d = mute (User n) d"
| "do_request (ReqUnmute n) d = unmute (User n) d"
| "do_request (ReqTest buf n) d = cd_test buf (User n) d"
| "do_request (ReqPlayTrack start n) d = playCDDATrack start (User n) d"
| "do_request (ReqPlayDisc start n) d = playCDDADisc start (User n) d"
| "do_request (ReqResume n) d = resumeCDDA (User n) d"
| "do_request ReqPause d = pauseCDDA d"
| "do_request ReqStop d = stopCDDA d"
| "do_request (ReqLocation ptr n) d = getPlaybackLocation ptr n d"
| "do_request (ReqVolume a b c e) d = Some (setVolume a b c e d)"

text \<open>What a request asks to be answered: its callback, and whether it is one to play.\<close>

fun asks :: "cd_request \<Rightarrow> (nat \<times> bool) list" where
  "asks (ReqRead sector count buffer n) = [(n, False)]"
| "asks (ReqReset n) = [(n, False)]"
| "asks (ReqTOCSize n) = [(n, False)]"
| "asks (ReqTOC sz n) = [(n, False)]"
| "asks (ReqMute n) = [(n, False)]"
| "asks (ReqUnmute n) = [(n, False)]"
| "asks (ReqTest buf n) = [(n, False)]"
| "asks (ReqPlayTrack start n) = [(n, True)]"
| "asks (ReqPlayDisc start n) = [(n, True)]"
| "asks (ReqResume n) = [(n, True)]"
| "asks _ = []"

datatype dev_step = Request cd_request | Interrupt "(u8 \<times> bytes) list" | RunOne

fun do_step :: "dev_step \<Rightarrow> dev \<Rightarrow> dev option" where
  "do_step (Request r) d = do_request r d"
| "do_step (Interrupt rs) d = irq_handler rs d"
| "do_step RunOne d = run_one d"

fun do_steps :: "dev_step list \<Rightarrow> dev \<Rightarrow> dev option" where
  "do_steps [] d = Some d"
| "do_steps (x # xs) d = do { d \<leftarrow> do_step x d; do_steps xs d }"

fun asked :: "dev_step list \<Rightarrow> (nat \<times> bool) list" where
  "asked [] = []"
| "asked (Request r # xs) = asks r @ asked xs"
| "asked (_ # xs) = asked xs"

section \<open>The contract\<close>

text \<open>
  The calls that answer a list of requests: one for each in turn, and for one to play that got to play a first that says so.
  One to play that is answered by one call has failed.
\<close>

inductive served :: "(nat \<times> bool) list \<Rightarrow> cd_call list \<Rightarrow> bool" where
  served_none: "served [] []"
| served_once: "served rs cs \<Longrightarrow> p \<longrightarrow> \<not> b \<Longrightarrow> served (rs @ [(n, p)]) (cs @ [Done n b])"
| served_play: "served rs cs \<Longrightarrow> served (rs @ [(n, True)]) (cs @ [Done n True, Done n b])"

fun is_answer :: "cd_call \<Rightarrow> bool" where
  "is_answer (Done _ _) = True"
| "is_answer (Located _ _) = False"

fun is_completion :: "queue_item \<Rightarrow> bool" where
  "is_completion ActionComplete = True"
| "is_completion (CallCallback _) = True"
| "is_completion _ = False"

abbreviation answers_of :: "dev \<Rightarrow> cd_call list" where
  "answers_of d \<equiv> filter is_answer (calls d)"

abbreviation completions :: "dev \<Rightarrow> queue_item list" where
  "completions d \<equiv> filter is_completion (queued d)"

text \<open>A request that is under way: \<open>told\<close> when its first call was made, \<open>tell\<close> when it is queued.\<close>

definition under_way :: "(nat \<times> bool) list \<Rightarrow> nat \<Rightarrow> bool \<Rightarrow> bool \<Rightarrow> bool \<Rightarrow> dev \<Rightarrow> bool" where
  "under_way rs n p told tell d \<longleftrightarrow>
     (\<exists>rs0 cs0. rs = rs0 @ [(n, p)] \<and> served rs0 cs0 \<and> answers_of d = cs0 @ (if told then [Done n True] else [])) \<and>
     m_callback d = Some (User n) \<and> m_state d \<noteq> 0 \<and> \<not> (told \<and> tell) \<and> (told \<or> tell \<longrightarrow> p) \<and>
     completions d = (if tell then [CallCallback True] else []) @ (if m_action d = None then [ActionComplete] else []) \<and>
     (\<forall>a. m_action d = Some a \<longrightarrow> (a = PlayCDDAAction \<longleftrightarrow> p) \<and> (p \<longrightarrow> (m_state d \<le> CDDA_PLAY \<longleftrightarrow> \<not> told \<and> \<not> tell))) \<and>
     (m_action d = None \<and> p \<and> m_success d \<longrightarrow> told \<or> tell)"

definition nothing_under_way :: "(nat \<times> bool) list \<Rightarrow> dev \<Rightarrow> bool" where
  "nothing_under_way rs d \<longleftrightarrow> served rs (answers_of d) \<and> m_callback d = None \<and> m_action d = None \<and> m_state d = 0 \<and> completions d = []"

definition cd_ok :: "(nat \<times> bool) list \<Rightarrow> dev \<Rightarrow> bool" where
  "cd_ok rs d \<longleftrightarrow> \<not> m_blocking d \<and> (nothing_under_way rs d \<or> (\<exists>n p told tell. under_way rs n p told tell d))"

text \<open>The part of the device this depends on.\<close>

definition cd_same :: "dev \<Rightarrow> dev \<Rightarrow> bool" where
  "cd_same d d' \<longleftrightarrow> m_blocking d' = m_blocking d \<and> m_callback d' = m_callback d \<and> m_action d' = m_action d \<and>
     answers_of d' = answers_of d \<and> completions d' = completions d"

lemma cd_ok_same: "cd_same d d' \<Longrightarrow> m_state d' = m_state d \<Longrightarrow> m_success d' = m_success d \<Longrightarrow> cd_ok rs d' = cd_ok rs d"
  by (simp add: cd_same_def cd_ok_def nothing_under_way_def under_way_def)

text \<open>A stage can change to another one, for one to play on the same side of its start.\<close>

definition same_side :: "dev \<Rightarrow> dev \<Rightarrow> bool" where
  "same_side d d' \<longleftrightarrow> (m_action d = Some PlayCDDAAction \<longrightarrow> (m_state d' \<le> CDDA_PLAY \<longleftrightarrow> m_state d \<le> CDDA_PLAY)) \<and>
     (m_action d = None \<longrightarrow> m_success d' = m_success d)"

lemma under_way_stage:
  assumes "under_way rs n p told tell d" "cd_same d d'" "m_state d' \<noteq> 0" "same_side d d'"
  shows "under_way rs n p told tell d'"
  using assms unfolding under_way_def cd_same_def same_side_def by auto

lemma cd_ok_stage:
  assumes "cd_ok rs d" "cd_same d d'" "m_state d \<noteq> 0" "m_state d' \<noteq> 0" "same_side d d'"
  shows "cd_ok rs d'"
proof -
  obtain n p told tell where "under_way rs n p told tell d" "\<not> m_blocking d"
    using assms(1,3) by (auto simp: cd_ok_def nothing_under_way_def)
  then show ?thesis using under_way_stage [OF _ assms(2,4,5)] assms(2) unfolding cd_ok_def cd_same_def by blast
qed

section \<open>Requests\<close>

lemma emit_simps [simp]:
  "m_callback (emit os d) = m_callback d" "m_action (emit os d) = m_action d" "m_state (emit os d) = m_state d"
  "m_blocking (emit os d) = m_blocking d" "calls (emit os d) = calls d" "queued (emit os d) = queued d"
  "m_locationCallback (emit os d) = m_locationCallback d" "m_success (emit os d) = m_success d"
  "m_pendingGetLocation (emit os d) = m_pendingGetLocation d" "m_locationPtr (emit os d) = m_locationPtr d"
  by (simp_all add: emit_def)

lemma start_ok:
  assumes "start_action a stage (User n) d = Some d1" "cd_ok rs d" "stage \<noteq> 0" "stage \<le> CDDA_PLAY" "p \<longleftrightarrow> a = PlayCDDAAction"
    "cd_same d1 d'" "m_state d' = stage"
  shows "cd_ok (rs @ [(n, p)]) d'"
proof -
  have idle: "m_callback d = None" "m_action d = None" and d1: "d1 = d\<lparr>m_action := Some a, m_callback := Some (User n), m_state := stage\<rparr>"
    using assms(1) by (auto simp: start_action_def switchAction_def setCallback_def Let_def split: if_splits)
  have "nothing_under_way rs d" "\<not> m_blocking d" using assms(2) idle(1) by (auto simp: cd_ok_def under_way_def)
  then have "under_way (rs @ [(n, p)]) n p False False d'"
    using assms(3-7) by (auto simp: under_way_def nothing_under_way_def d1 cd_same_def)
  then show ?thesis using \<open>\<not> m_blocking d\<close> assms(6) by (auto simp: cd_ok_def cd_same_def d1)
qed

lemmas start_defs = readSectors_def cd_reset_def getTOCSize_def readTOC_def mute_def unmute_def cd_test_def play_track_def
  play_msf_def resumeCDDA_def

lemma request_ok:
  assumes "do_request r d = Some d'" "cd_ok rs d"
  shows "cd_ok (rs @ asks r) d'"
proof -
  note s = start_ok [OF _ assms(2)]
  have started: "cd_ok (rs @ [(n, p)]) d'"
    if h: "start_action a stage (User n) d \<bind> (\<lambda>d. Some (g d)) = Some d'" "stage \<noteq> 0" "stage \<le> CDDA_PLAY" "p \<longleftrightarrow> a = PlayCDDAAction"
      "\<And>d1. cd_same d1 (g d1) \<and> m_state (g d1) = m_state d1" for a stage n g p
  proof -
    obtain d1 where d1: "start_action a stage (User n) d = Some d1" "d' = g d1" using h(1) by (cases "start_action a stage (User n) d") auto
    have "m_state d1 = stage" using d1(1) by (auto simp: start_action_def switchAction_def setCallback_def Let_def split: if_splits)
    then show ?thesis using s [OF d1(1) h(2,3,4), of d'] h(5) [of d1] d1(2) by simp
  qed
  have left: "cd_ok rs d'" if "leave_playing c d = Some d'" for c
  proof (cases "m_action d = None")
    case True
    then have "d' = emit [IMaskSet] (emit [IMaskClear] d)" using that by (simp add: leave_playing_def)
    then show ?thesis using cd_ok_same [of d d' rs] assms(2) by (simp add: cd_same_def)
  next
    case False
    then have d': "d' = emit [IMaskSet] (cd_send c [] ((emit [IMaskClear] d)\<lparr>m_state := 101\<rparr>))" and st: "m_state d = 100"
      using that by (auto simp: leave_playing_def Let_def split: if_splits)
    show ?thesis using assms(2) by (rule cd_ok_stage) (simp_all add: d' st cd_send_def cd_same_def same_side_def stages)
  qed
  show ?thesis
  proof (cases r)
    case (ReqRead sector count buffer n)
    then show ?thesis using assms(1)
      by (auto simp: readSectors_def cd_send_def cd_same_def stages intro!: started)
  next
    case (ReqPlayTrack start n)
    then show ?thesis using assms(1)
      by (cases start) (auto simp: playCDDATrack_def play_track_def play_msf_def cd_send_def cd_same_def stages intro!: started)
  next
    case (ReqPlayDisc start n)
    then show ?thesis using assms(1)
      by (cases start) (auto simp: playCDDADisc_def play_track_def play_msf_def cd_send_def cd_same_def stages intro!: started)
  next
    case (ReqLocation ptr n)
    then have "cd_same d d'" "m_state d' = m_state d" "m_success d' = m_success d"
      using assms(1) by (auto simp: getPlaybackLocation_def Let_def cd_same_def cd_send_def enqueue_def split: if_splits)
    then show ?thesis using ReqLocation assms(2) cd_ok_same by simp
  next
    case (ReqVolume a b c e)
    then show ?thesis using assms cd_ok_same [of d d' rs] by (auto simp: setVolume_def cd_same_def)
  next
    case ReqPause
    then show ?thesis using assms(1) left by (simp add: pauseCDDA_def)
  next
    case ReqStop
    then show ?thesis using assms(1) left by (simp add: stopCDDA_def)
  qed (use assms(1) in \<open>auto simp: start_defs cd_send_def cd_same_def stages intro!: started\<close>)
qed

section \<open>Interrupts\<close>

text \<open>A handler leaves what the contract is about alone and moves the stage on, except for the one that says it plays.\<close>

definition moves :: "dev \<Rightarrow> dev \<Rightarrow> bool" where
  "moves d d' \<longleftrightarrow> cd_same d d' \<and> (m_state d \<noteq> 0 \<longrightarrow> m_state d' \<noteq> 0) \<and> same_side d d'"

lemmas moves_simps = moves_def same_side_def cd_same_def cd_send_def setSuccess_def stages enqueue_def queueGetLocationCallback_def

lemma handler_moves:
  assumes "handle_cause cause response a d = Some (over, d')" "cause AND 7 \<noteq> 3 \<or> a \<noteq> PlayCDDAAction \<or> m_state d \<noteq> CDDA_PLAY"
    "m_action d = Some a"
  shows "moves d d'"
proof -
  have c5: "moves d d'" if "cause AND 7 = 5" using assms(1,3) that by (auto simp: handle_cause_def moves_simps)
  have c1: "moves d d'" if "cause AND 7 = 1"
    using assms(1,3) that by (auto simp: handle_cause_def cd_dataReady_def rs_dataReady_def Let_def moves_simps split: if_splits)
  have c2: "moves d d'" if "cause AND 7 = 2"
    using assms(1,3) that by (cases a) (auto simp: handle_cause_def cd_complete_def cdda_complete_def moves_simps split: if_splits)
  have c4: "moves d d'" if "cause AND 7 = 4"
    using assms(1,3) that by (auto simp: handle_cause_def end_of_play_def Let_def moves_simps split: if_splits)
  have c3: "moves d d'" if c: "cause AND 7 = 3"
  proof (cases a)
    case PlayCDDAAction
    then show ?thesis using assms c
      by (auto simp: handle_cause_def cd_acknowledge_def cdda_acknowledge_def moves_simps split: if_splits option.splits)
  next
    case ReadTOCAction
    then show ?thesis using assms(1,3) c
      by (auto simp: handle_cause_def cd_acknowledge_def toc_acknowledge_def Let_def moves_simps split: if_splits)
  next
    case ReadSectorsAction
    then show ?thesis using assms(1,3) c
      by (auto simp: handle_cause_def cd_acknowledge_def rs_acknowledge_def moves_simps split: if_splits)
  qed (use assms(1,3) c in \<open>auto simp: handle_cause_def cd_acknowledge_def moves_simps split: if_splits\<close>)
  show ?thesis using assms(1) c1 c2 c3 c4 c5 by (auto simp: handle_cause_def split: if_splits)
qed

text \<open>A play that ends with success has played.\<close>

lemma play_over:
  assumes "handle_cause cause response PlayCDDAAction d = Some (True, d')" "m_success d'"
  shows "\<not> m_state d' \<le> CDDA_PLAY"
  using assms
  by (auto simp: handle_cause_def cd_dataReady_def cd_complete_def cdda_complete_def cd_acknowledge_def cdda_acknowledge_def end_of_play_def
      setSuccess_def stages Let_def split: if_splits option.splits bind_splits)

lemma play_acknowledged:
  assumes "handle_cause cause response PlayCDDAAction d = Some (over, d')" "cause AND 7 = 3" "m_state d = CDDA_PLAY"
    "m_action d = Some PlayCDDAAction" "under_way rs n p told tell d"
  shows "under_way rs n p False True d'" "\<not> over" "m_action d' = m_action d" "m_blocking d' = m_blocking d"
proof -
  have d': "d' = enqueue (CallCallback True) (d\<lparr>m_state := CDDA_PLAYING\<rparr>)" "\<not> over"
    using assms(1-3) by (auto simp: handle_cause_def cd_acknowledge_def cdda_acknowledge_def queueCallbackFromISR_def stages split: if_splits bind_splits)
  then show "\<not> over" "m_action d' = m_action d" "m_blocking d' = m_blocking d" by (simp_all add: enqueue_def)
  have "p" "\<not> told" "\<not> tell" using assms(3-5) by (auto simp: under_way_def)
  then show "under_way rs n p False True d'" using assms(3-5) d'(1) by (auto simp: under_way_def enqueue_def stages)
qed

lemma finish_ok:
  assumes "finish_action d = Some d'" "under_way rs n p told tell d" "\<not> m_blocking d" "m_action d \<noteq> None"
    "m_action d = Some PlayCDDAAction \<longrightarrow> m_success d \<longrightarrow> \<not> m_state d \<le> CDDA_PLAY"
  shows "under_way rs n p told tell d'" "\<not> m_blocking d'"
proof -
  have d': "d' = enqueue ActionComplete (d\<lparr>m_action := None\<rparr>)"
    using assms(1,3) by (auto simp: finish_action_def Let_def split: if_splits)
  then show "\<not> m_blocking d'" using assms(3) by (simp add: enqueue_def)
  obtain a where a: "m_action d = Some a" using assms(4) by auto
  have side: "a = PlayCDDAAction \<longleftrightarrow> p" "p \<longrightarrow> (m_state d \<le> CDDA_PLAY \<longleftrightarrow> \<not> told \<and> \<not> tell)"
    using assms(2) a unfolding under_way_def by simp_all
  then have "p \<and> m_success d \<longrightarrow> told \<or> tell" using assms(5) a by blast
  then show "under_way rs n p told tell d'" using assms(2) a unfolding under_way_def d' enqueue_def by simp
qed

lemma irq_loop_ok: "irq_loop rO rs d = Some d' \<Longrightarrow> cd_ok qs d \<Longrightarrow> cd_ok qs d'"
proof (induction rO rs d arbitrary: d' rule: irq_loop.induct)
  case (1 rO d)
  then show ?case by simp
next
  case (2 rO cause fifo rs d)
  show ?case
  proof (cases "(rO \<and> cause AND 15 = 0) \<or> cause AND 7 = 0")
    case True
    then have "d' = d \<or> d' = emit [CauseWrite 0x18] d" using "2.prems"(1) by (auto split: if_splits)
    then show ?thesis using "2.prems"(2) cd_ok_same [of d d' qs] by (auto simp: cd_same_def)
  next
    case False
    then obtain a where a: "m_action d = Some a" using "2.prems"(1) by (cases "m_action d") auto
    then obtain n p told tell where u: "under_way qs n p told tell d" and nb: "\<not> m_blocking d"
      using "2.prems"(2) by (auto simp: cd_ok_def nothing_under_way_def)
    let ?d1 = "emit (replicate (length (take 16 fifo)) ResponseRead) (emit (CauseWrite 7 # (if cause AND 0x18 \<noteq> 0 then [CauseWrite 0x18] else [])) d)"
    have u1: "under_way qs n p told tell ?d1" using under_way_stage [OF u, of ?d1] u by (simp add: cd_same_def same_side_def under_way_def)
    obtain over d2 where h: "handle_cause cause (take 16 fifo) a ?d1 = Some (over, d2)"
      using "2.prems"(1) False a by (cases "handle_cause cause (take 16 fifo) a ?d1") auto
    obtain d3 where f: "(if over then finish_action d2 else Some d2) = Some d3" "irq_loop True rs d3 = Some d'"
      using "2.prems"(1) False a h by (cases "if over then finish_action d2 else Some d2") auto
    have "\<exists>told tell. under_way qs n p told tell d3 \<and> \<not> m_blocking d3"
    proof (cases "cause AND 7 = 3 \<and> a = PlayCDDAAction \<and> m_state d = CDDA_PLAY")
      case True
      then have "under_way qs n p False True d2" "\<not> over" "m_blocking d2 = m_blocking d"
        using play_acknowledged [of cause "take 16 fifo" ?d1 over d2 qs n p told tell] h u1 a by auto
      then show ?thesis using f(1) nb by auto
    next
      case False
      then have mv: "moves ?d1 d2" using handler_moves [OF h] a by auto
      then have u2: "under_way qs n p told tell d2"
        using u1 by (intro under_way_stage [OF u1]) (simp_all add: moves_def under_way_def)
      have ab: "\<not> m_blocking d2" "m_action d2 \<noteq> None" using mv nb a by (simp_all add: moves_def cd_same_def)
      show ?thesis
      proof (cases over)
        case True
        then have fin: "finish_action d2 = Some d3" using f(1) by simp
        have "m_action d2 = Some a" using mv a by (simp add: moves_def cd_same_def)
        then have "m_action d2 = Some PlayCDDAAction \<longrightarrow> m_success d2 \<longrightarrow> \<not> m_state d2 \<le> CDDA_PLAY"
          using play_over [of cause "take 16 fifo" ?d1 d2] h True by auto
        then show ?thesis using finish_ok [OF fin u2 ab] by blast
      next
        case False
        then have "d3 = d2" using f(1) by simp
        then show ?thesis using u2 ab(1) by blast
      qed
    qed
    then have "cd_ok qs d3" by (auto simp: cd_ok_def)
    then show ?thesis
      using "2.IH" [of a _ "(over, d2)" over d2 d3] False a h f by auto
  qed
qed

section \<open>The main thread\<close>

lemma run_one_ok:
  assumes "run_one d = Some d'" "cd_ok qs d"
  shows "cd_ok qs d'"
proof (cases "queued d")
  case Nil
  then show ?thesis using assms by (simp add: run_one_def)
next
  case (Cons q rest)
  note run = assms(1) [unfolded run_one_def Cons list.case]
  consider (location) "\<not> is_completion q" | (tell) b where "q = CallCallback b" | (complete) "q = ActionComplete"
    by (cases q) auto
  then show ?thesis
  proof cases
    case location
    then have "cd_same d d'" "m_state d' = m_state d" "m_success d' = m_success d"
      using run Cons by (cases q; auto simp: run_item_def cd_same_def split: option.splits)+
    then show ?thesis using assms(2) cd_ok_same by simp
  next
    case (tell b)
    then have c: "completions d = CallCallback b # filter is_completion rest" using Cons by simp
    then obtain n p told tl where u: "under_way qs n p told tl d" "\<not> m_blocking d"
      using assms(2) by (auto simp: cd_ok_def nothing_under_way_def)
    then have t: "tl" "b" "\<not> told" "p" using c by (auto simp: under_way_def split: if_splits)
    have cb: "m_callback d = Some (User n)" using u by (simp add: under_way_def)
    have d': "d' = d\<lparr>queued := rest, calls := calls d @ [Done n True]\<rparr>"
      using run tell cb t by (simp add: run_item_def call_callback_def)
    have "under_way qs n p True False d'" using u(1) t c by (auto simp: under_way_def d')
    then show ?thesis using u(2) by (auto simp: cd_ok_def d')
  next
    case complete
    then have c: "completions d = ActionComplete # filter is_completion rest" using Cons by simp
    then obtain n p told tl where u: "under_way qs n p told tl d" "\<not> m_blocking d"
      using assms(2) by (auto simp: cd_ok_def nothing_under_way_def)
    then have t: "\<not> tl" "m_action d = None" "filter is_completion rest = []" using c by (auto simp: under_way_def split: if_splits)
    have cb: "m_callback d = Some (User n)" using u by (simp add: under_way_def)
    have d': "d' = d\<lparr>queued := rest, m_callback := None, m_success := False, m_state := 0, calls := calls d @ [Done n (m_success d)]\<rparr>"
      using run complete cb by (simp add: run_item_def actionComplete_def call_callback_def)
    obtain rs0 cs0 where s: "qs = rs0 @ [(n, p)]" "served rs0 cs0" "answers_of d = cs0 @ (if told then [Done n True] else [])" "told \<longrightarrow> p"
        "p \<and> m_success d \<longrightarrow> told"
      using u(1) t(1,2) by (auto simp: under_way_def)
    have "served qs (answers_of d @ [Done n (m_success d)])"
    proof (cases told)
      case True
      then show ?thesis using served_play [OF s(2), of n "m_success d"] s by simp
    next
      case False
      then show ?thesis using served_once [OF s(2), of p "m_success d" n] s by simp
    qed
    then have "nothing_under_way qs d'" using t by (simp add: nothing_under_way_def d')
    then show ?thesis using u(2) by (simp add: cd_ok_def d')
  qed
qed

end
