(* ===== verification/Cd_Reading.thy ===== *)
theory Cd_Reading
  imports Cd_Steps
begin

text \<open>What the device does for a read, whichever way the interrupts are grouped, and what it does with errors.\<close>

section \<open>One interrupt\<close>

definition take_irq :: "u8 \<times> bytes \<Rightarrow> dev \<Rightarrow> dev option" where
  "take_irq r d = (case r of (cause, fifo) \<Rightarrow>
     (case m_action d of
        None \<Rightarrow> None
      | Some a \<Rightarrow>
          let d = emit (CauseWrite 7 # (if cause AND 0x18 \<noteq> 0 then [CauseWrite 0x18] else [])) d
          in do {
            (over, d) \<leftarrow> handle_cause cause (take 16 fifo) a (emit (replicate (length (take 16 fifo)) ResponseRead) d);
            if over then finish_action d else Some d }))"

fun take_irqs :: "(u8 \<times> bytes) list \<Rightarrow> dev \<Rightarrow> dev option" where
  "take_irqs [] d = Some d"
| "take_irqs (r # rs) d = do { d \<leftarrow> take_irq r d; take_irqs rs d }"

lemma take_irqs_append: "take_irqs (rs @ qs) d = take_irqs rs d \<bind> take_irqs qs"
  by (induction rs arbitrary: d) (auto split: bind_splits)

definition real :: "u8 \<times> bytes \<Rightarrow> bool" where
  "real r \<longleftrightarrow> fst r AND 7 \<noteq> 0"

lemma real_cause: "(c :: u8) AND 7 \<noteq> 0 \<Longrightarrow> c AND 15 \<noteq> 0"
proof
  assume "c AND 7 \<noteq> 0" "c AND 15 = 0"
  have "c AND 7 = (c AND 15) AND 7" by (simp add: and.assoc)
  then show False using \<open>c AND 7 \<noteq> 0\<close> \<open>c AND 15 = 0\<close> by simp
qed

lemma irq_loop_takes: "list_all real rs \<Longrightarrow> irq_loop r1 rs d = take_irqs rs d"
proof (induction rs arbitrary: r1 d)
  case Nil
  then show ?case by simp
next
  case (Cons r rs)
  obtain c fifo where r: "r = (c, fifo)" by (cases r)
  have "c AND 7 \<noteq> 0" "c AND 15 \<noteq> 0" using Cons.prems real_cause [of c] by (auto simp: r real_def)
  then show ?case using Cons by (auto simp: r take_irq_def Let_def split: option.split bind_split)
qed

lemma irq_one: "c AND 7 \<noteq> 0 \<Longrightarrow> irq_handler [(c, fifo)] d = take_irq (c, fifo) (emit [IRegClear] d)"
proof -
  assume "c AND 7 \<noteq> 0"
  then have "irq_loop False [(c, fifo)] d' = take_irqs [(c, fifo)] d'" for d' by (intro irq_loop_takes) (simp add: real_def)
  moreover have "take_irqs [(c, fifo)] d' = take_irq (c, fifo) d'" for d' by (cases "take_irq (c, fifo) d'") auto
  ultimately show ?thesis unfolding irq_handler_def cd_irq_def by metis
qed

text \<open>Interrupts in groups, each served by one call of the handler.\<close>

fun deliver_irqs :: "(u8 \<times> bytes) list list \<Rightarrow> dev \<Rightarrow> dev option" where
  "deliver_irqs [] d = Some d"
| "deliver_irqs (rs # batches) d = do { d \<leftarrow> irq_handler rs d; deliver_irqs batches d }"

fun sends :: "cd_out list \<Rightarrow> (u8 \<times> bytes) list" where
  "sends [] = []"
| "sends (Send c args # os) = (c, args) # sends os"
| "sends (_ # os) = sends os"

fun dmas :: "cd_out list \<Rightarrow> u32 list" where
  "dmas [] = []"
| "dmas (Madr a # os) = a # dmas os"
| "dmas (_ # os) = dmas os"

lemma sends_append [simp]: "sends (xs @ ys) = sends xs @ sends ys"
  by (induction xs rule: sends.induct) auto

lemma dmas_append [simp]: "dmas (xs @ ys) = dmas xs @ dmas ys"
  by (induction xs rule: dmas.induct) auto

lemma quiet_out [simp]: "sends (replicate n ResponseRead) = []" "dmas (replicate n ResponseRead) = []"
  by (induction n) auto

section \<open>A read\<close>

text \<open>The read under way at a stage, with what it has still to read, has sent and has read.\<close>

definition read_at :: "dev \<Rightarrow> nat \<Rightarrow> u8 \<Rightarrow> u32 \<Rightarrow> u32 \<Rightarrow> (u8 \<times> bytes) list \<Rightarrow> u32 list \<Rightarrow> dev \<Rightarrow> bool" where
  "read_at d0 n stage c p cmds addrs d \<longleftrightarrow>
     m_action d = Some ReadSectorsAction \<and> m_callback d = Some (User n) \<and> \<not> m_blocking d \<and> m_state d = stage \<and>
     rs_count d = c \<and> rs_ptr d = p \<and> rs_mode d = (if m_doubleSpeed d0 then 0x80 else 0) \<and> queued d = [] \<and> calls d = calls d0 \<and>
     sends (out d) = sends (out d0) @ cmds \<and> dmas (out d) = dmas (out d0) @ addrs"

definition read_done :: "dev \<Rightarrow> nat \<Rightarrow> bool \<Rightarrow> (u8 \<times> bytes) list \<Rightarrow> u32 list \<Rightarrow> dev \<Rightarrow> bool" where
  "read_done d0 n b cmds addrs d \<longleftrightarrow>
     m_action d = None \<and> m_callback d = Some (User n) \<and> \<not> m_blocking d \<and> m_success d = b \<and> queued d = [ActionComplete] \<and> calls d = calls d0 \<and>
     sends (out d) = sends (out d0) @ cmds \<and> dmas (out d) = dmas (out d0) @ addrs"

lemmas read_steps = read_at_def take_irq_def handle_cause_def cd_dataReady_def rs_dataReady_def cd_complete_def cd_acknowledge_def
  rs_acknowledge_def emit_def cd_send_def drop_sector_def Let_def

definition code :: "u8 \<Rightarrow> u8 \<times> bytes \<Rightarrow> bool" where
  "code k r \<longleftrightarrow> fst r AND 7 = k"

lemma read_acks:
  assumes "code 3 r"
  shows "read_at d0 n RS_SETLOC c p cmds addrs d \<Longrightarrow>
      \<exists>d'. take_irq r d = Some d' \<and> read_at d0 n RS_SETMODE c p (cmds @ [(CD_SETMODE, [if m_doubleSpeed d0 then 0x80 else 0])]) addrs d'"
    "read_at d0 n RS_SETMODE c p cmds addrs d \<Longrightarrow> \<exists>d'. take_irq r d = Some d' \<and> read_at d0 n RS_READ c p (cmds @ [(CD_READN, [])]) addrs d'"
    "read_at d0 n RS_READ c p cmds addrs d \<Longrightarrow> \<exists>d'. take_irq r d = Some d' \<and> read_at d0 n RS_READ_ACK c p cmds addrs d'"
    "read_at d0 n RS_PAUSE c p cmds addrs d \<Longrightarrow> \<exists>d'. take_irq r d = Some d' \<and> read_at d0 n RS_PAUSE_ACK c p cmds addrs d'"
  using assms by (auto simp: read_steps stages code_def split: prod.split)

lemma read_data:
  assumes "code 1 r" "read_at d0 n RS_READ_ACK c p cmds addrs d"
  shows "\<exists>d'. take_irq r d = Some d' \<and>
    (if c - 1 = 0 then read_at d0 n RS_PAUSE 0 (p + 2048) (cmds @ [(CD_PAUSE, [])]) (addrs @ [p]) d'
     else read_at d0 n RS_READ_ACK (c - 1) (p + 2048) cmds (addrs @ [p]) d')"
proof -
  obtain cause fifo where r: "r = (cause, fifo)" by (cases r)
  have c: "cause AND 7 = 1" using assms(1) by (simp add: code_def r)
  show ?thesis
  proof (cases "c = 1")
    case True
    then show ?thesis using assms(2) c by (simp add: r read_steps stages)
  next
    case False
    then show ?thesis using assms(2) c by (simp add: r read_steps stages)
  qed
qed

lemma read_late:
  assumes "code 1 r" "read_at d0 n stage c p cmds addrs d" "stage = RS_PAUSE \<or> stage = RS_PAUSE_ACK"
  shows "\<exists>d'. take_irq r d = Some d' \<and> read_at d0 n stage c p cmds addrs d'"
  using assms by (auto simp: read_steps stages code_def split: prod.split)

lemma read_complete:
  assumes "code 2 r" "read_at d0 n RS_PAUSE_ACK c p cmds addrs d"
  shows "\<exists>d'. take_irq r d = Some d' \<and> read_done d0 n True cmds addrs d'"
  using assms by (auto simp: read_steps read_done_def stages code_def setSuccess_def finish_action_def enqueue_def split: prod.split)

lemma read_error:
  assumes "code 5 r" "read_at d0 n stage c p cmds addrs d"
  shows "\<exists>d'. take_irq r d = Some d' \<and> read_done d0 n False cmds addrs d'"
proof -
  obtain cause fifo where r: "r = (cause, fifo)" by (cases r)
  have "cause AND 7 = 5" using assms(1) by (simp add: code_def r)
  then show ?thesis using assms(2) by (simp add: r read_steps read_done_def setSuccess_def finish_action_def enqueue_def)
qed

section \<open>The read as a machine of its own\<close>

text \<open>A read with its stage, the sectors to read and where to, what was sent and what was read; each interrupt is one step.\<close>

datatype rd_state = Rd u8 u32 u32 "(u8 \<times> bytes) list" "u32 list" | RdDone bool "(u8 \<times> bytes) list" "u32 list"

fun rd_step :: "u8 \<Rightarrow> u8 \<Rightarrow> rd_state \<Rightarrow> rd_state option" where
  "rd_step mode k (Rd st c p cmds addrs) =
     (if k = 3 then
        if st = RS_SETLOC then Some (Rd RS_SETMODE c p (cmds @ [(CD_SETMODE, [mode])]) addrs)
        else if st = RS_SETMODE then Some (Rd RS_READ c p (cmds @ [(CD_READN, [])]) addrs)
        else if st = RS_READ then Some (Rd RS_READ_ACK c p cmds addrs)
        else if st = RS_PAUSE then Some (Rd RS_PAUSE_ACK c p cmds addrs)
        else None
      else if k = 1 then
        if st = RS_READ_ACK then
          Some (if c - 1 = 0 then Rd RS_PAUSE 0 (p + 2048) (cmds @ [(CD_PAUSE, [])]) (addrs @ [p])
                else Rd RS_READ_ACK (c - 1) (p + 2048) cmds (addrs @ [p]))
        else if st = RS_PAUSE \<or> st = RS_PAUSE_ACK then Some (Rd st c p cmds addrs)
        else None
      else if k = 2 \<and> st = RS_PAUSE_ACK then Some (RdDone True cmds addrs)
      else if k = 5 then Some (RdDone False cmds addrs)
      else None)"
| "rd_step mode k (RdDone b cmds addrs) = None"

fun rd_steps :: "u8 \<Rightarrow> u8 list \<Rightarrow> rd_state \<Rightarrow> rd_state option" where
  "rd_steps mode [] x = Some x"
| "rd_steps mode (k # ks) x = do { x \<leftarrow> rd_step mode k x; rd_steps mode ks x }"

lemma rd_steps_append: "rd_steps mode (ks @ js) x = rd_steps mode ks x \<bind> rd_steps mode js"
  by (induction ks arbitrary: x) (auto split: bind_splits)

fun rd_rel :: "dev \<Rightarrow> nat \<Rightarrow> rd_state \<Rightarrow> dev \<Rightarrow> bool" where
  "rd_rel d0 n (Rd st c p cmds addrs) d = read_at d0 n st c p cmds addrs d"
| "rd_rel d0 n (RdDone b cmds addrs) d = read_done d0 n b cmds addrs d"

definition rd_mode :: "dev \<Rightarrow> u8" where
  "rd_mode d = (if m_doubleSpeed d then 0x80 else 0)"

lemma rd_clear: "rd_rel d0 n x d \<Longrightarrow> rd_rel d0 n x (emit [IRegClear] d)"
  by (cases x) (simp_all add: read_at_def read_done_def emit_def)

lemma rd_simulates:
  assumes "rd_rel d0 n x d" "rd_step (rd_mode d0) (fst r AND 7) x = Some x'"
  shows "\<exists>d'. take_irq r d = Some d' \<and> rd_rel d0 n x' d'"
proof (cases x)
  case (RdDone b cmds addrs)
  then show ?thesis using assms(2) by simp
next
  case (Rd st c p cmds addrs)
  have a: "read_at d0 n st c p cmds addrs d" using assms(1) Rd by simp
  note step = assms(2) [unfolded Rd rd_mode_def]
  consider "fst r AND 7 = 3" | "fst r AND 7 = 1" | "fst r AND 7 = 2" | "fst r AND 7 = 5" using step by (auto split: if_splits)
  then show ?thesis
  proof cases
    case 1
    then have "code 3 r" by (simp add: code_def)
    note acks = read_acks [OF this]
    have "st = RS_SETLOC \<or> st = RS_SETMODE \<or> st = RS_READ \<or> st = RS_PAUSE" using step 1 by (auto split: if_splits)
    then show ?thesis
    proof (elim disjE)
      assume "st = RS_SETLOC"
      then show ?thesis using step 1 acks(1) [of d0 n c p cmds addrs d] a by auto
    next
      assume "st = RS_SETMODE"
      then show ?thesis using step 1 acks(2) [of d0 n c p cmds addrs d] a by (auto simp: stages)
    next
      assume "st = RS_READ"
      then show ?thesis using step 1 acks(3) [of d0 n c p cmds addrs d] a by (auto simp: stages)
    next
      assume "st = RS_PAUSE"
      then show ?thesis using step 1 acks(4) [of d0 n c p cmds addrs d] a by (auto simp: stages)
    qed
  next
    case 2
    then have k: "code 1 r" by (simp add: code_def)
    show ?thesis
    proof (cases "st = RS_READ_ACK")
      case True
      then show ?thesis using step 2 read_data [OF k, of d0 n c p cmds addrs d] a by (auto split: if_splits)
    next
      case False
      then have "st = RS_PAUSE \<or> st = RS_PAUSE_ACK" "x' = x" using step 2 Rd by (auto split: if_splits)
      then show ?thesis using read_late [OF k a] Rd by auto
    qed
  next
    case 3
    then have "code 2 r" by (simp add: code_def)
    then show ?thesis using step 3 read_complete [of r d0 n c p cmds addrs d] a by (auto split: if_splits)
  next
    case 4
    then have "code 5 r" by (simp add: code_def)
    then show ?thesis using step 4 read_error [of r d0 n st c p cmds addrs d] a by auto
  qed
qed

definition codes :: "(u8 \<times> bytes) list \<Rightarrow> u8 list" where
  "codes rs = map (\<lambda>r. fst r AND 7) rs"

lemma rd_simulates_all:
  assumes "rd_rel d0 n x d" "rd_steps (rd_mode d0) (codes rs) x = Some x'"
  shows "\<exists>d'. take_irqs rs d = Some d' \<and> rd_rel d0 n x' d'"
  using assms
proof (induction rs arbitrary: x d)
  case Nil
  then show ?case by (simp add: codes_def)
next
  case (Cons r rs)
  obtain y where y: "rd_step (rd_mode d0) (fst r AND 7) x = Some y" "rd_steps (rd_mode d0) (codes rs) y = Some x'"
    using Cons.prems(2) by (auto simp: codes_def split: bind_splits)
  obtain d1 where "take_irq r d = Some d1" "rd_rel d0 n y d1" using rd_simulates [OF Cons.prems(1) y(1)] by blast
  then show ?case using Cons.IH [OF _ y(2)] by auto
qed

lemma rd_deliver:
  assumes "rd_rel d0 n x d" "rd_steps (rd_mode d0) (codes (concat batches)) x = Some x'" "list_all (list_all real) batches"
  shows "\<exists>d'. deliver_irqs batches d = Some d' \<and> rd_rel d0 n x' d'"
  using assms
proof (induction batches arbitrary: x d)
  case Nil
  then show ?case by (simp add: codes_def)
next
  case (Cons rs batches)
  obtain y where y: "rd_steps (rd_mode d0) (codes rs) x = Some y" "rd_steps (rd_mode d0) (codes (concat batches)) y = Some x'"
    using Cons.prems(2) by (auto simp: codes_def rd_steps_append split: bind_splits)
  obtain d1 where "take_irqs rs (emit [IRegClear] d) = Some d1" "rd_rel d0 n y d1"
    using rd_simulates_all [OF rd_clear [OF Cons.prems(1)] y(1)] by blast
  then have "irq_handler rs d = Some d1" using irq_loop_takes [of rs False "emit [IRegClear] d"] Cons.prems(3) by (simp add: irq_handler_def cd_irq_def)
  then show ?case using Cons.IH [OF \<open>rd_rel d0 n y d1\<close> y(2)] Cons.prems(3) by simp
qed

text \<open>The interrupts of a read that works: each command is acknowledged, the sectors arrive, and some may still arrive late.\<close>

definition read_codes :: "nat \<Rightarrow> nat \<Rightarrow> nat \<Rightarrow> u8 list" where
  "read_codes k i j = [3, 3, 3] @ replicate k 1 @ replicate i 1 @ [3] @ replicate j 1 @ [2]"

lemma rd_late: "st = RS_PAUSE \<or> st = RS_PAUSE_ACK \<Longrightarrow> rd_steps mode (replicate i 1) (Rd st c p cmds addrs) = Some (Rd st c p cmds addrs)"
  by (induction i) (auto simp: stages)

lemma rd_sectors:
  "0 < k \<Longrightarrow> unat c = k \<Longrightarrow> rd_steps mode (replicate k 1) (Rd RS_READ_ACK c p cmds addrs)
     = Some (Rd RS_PAUSE 0 (p + 2048 * of_nat k) (cmds @ [(CD_PAUSE, [])]) (addrs @ map (\<lambda>i. p + 2048 * of_nat i) [0..<k]))"
proof (induction k arbitrary: c p addrs)
  case 0
  then show ?case by simp
next
  case (Suc k)
  have "c \<noteq> 0" using Suc.prems(2) by auto
  then have u: "unat (c - 1) = k" using Suc.prems(2) unat_minus_one [of c] by simp
  show ?case
  proof (cases k)
    case 0
    then have "c - 1 = 0" using u by (simp add: unat_eq_zero)
    then show ?thesis using 0 by simp
  next
    case (Suc l)
    then have k: "0 < k" "c - 1 \<noteq> 0" using u by auto
    have upt: "[0..<Suc k] = 0 # map Suc [0..<k]" by (simp add: map_Suc_upt upt_conv_Cons)
    have "rd_steps mode (replicate (Suc k) 1) (Rd RS_READ_ACK c p cmds addrs) = rd_steps mode (replicate k 1) (Rd RS_READ_ACK (c - 1) (p + 2048) cmds (addrs @ [p]))"
      using k(2) by simp
    then show ?thesis using Suc.IH [OF k(1) u, of "p + 2048" "addrs @ [p]"] by (simp add: upt algebra_simps comp_def del: upt_Suc replicate_Suc)
  qed
qed

lemma rd_whole:
  assumes "c \<noteq> 0"
  shows "rd_steps mode (read_codes (unat c) i j) (Rd RS_SETLOC c p cmds addrs)
    = Some (RdDone True (cmds @ [(CD_SETMODE, [mode]), (CD_READN, []), (CD_PAUSE, [])]) (addrs @ map (\<lambda>i. p + 2048 * of_nat i) [0..<unat c]))"
proof -
  have k: "0 < unat c" using assms by (simp add: unat_gt_0)
  have "rd_steps mode [3, 3, 3] (Rd RS_SETLOC c p cmds addrs) = Some (Rd RS_READ_ACK c p (cmds @ [(CD_SETMODE, [mode]), (CD_READN, [])]) addrs)"
    by (simp add: stages)
  moreover have "rd_steps mode [3] (Rd RS_PAUSE c p cmds addrs) = Some (Rd RS_PAUSE_ACK c p cmds addrs)" for c p cmds addrs
    by (simp add: stages)
  moreover have "rd_steps mode [2] (Rd RS_PAUSE_ACK c p cmds addrs) = Some (RdDone True cmds addrs)" for c p cmds addrs
    by (simp add: stages)
  ultimately show ?thesis unfolding read_codes_def rd_steps_append
    by (simp only: Option.bind.simps rd_sectors [OF k refl] rd_late simp_thms append_assoc append_Cons append_Nil)
qed

lemma read_start:
  assumes "readSectors sector count buf (User n) d = Some d1" "queued d = []" "\<not> m_blocking d"
  shows "rd_rel d n (Rd RS_SETLOC count buf [(CD_SETLOC, toBCD (msf_of_lba (sector + 150)))] []) d1"
  using assms by (auto simp: readSectors_def start_action_def switchAction_def setCallback_def read_at_def cd_send_def emit_def isIdle_def Let_def
      split: if_splits)

lemma completion_runs:
  assumes "m_callback d = Some (User n)" "queued d = [ActionComplete]"
  shows "run_one d = Some (d\<lparr>queued := [], m_callback := None, m_success := False, m_state := 0, calls := calls d @ [Done n (m_success d)]\<rparr>)"
  using assms by (simp add: run_one_def run_item_def actionComplete_def call_callback_def)

text \<open>A read that is cut short: the sectors so far are in place.\<close>

fun rd_addrs :: "rd_state \<Rightarrow> u32 list" where
  "rd_addrs (Rd st c p cmds addrs) = addrs"
| "rd_addrs (RdDone b cmds addrs) = addrs"

lemma rd_steps_addrs: "rd_steps mode ks x = Some y \<Longrightarrow> \<exists>zs. rd_addrs y = rd_addrs x @ zs"
proof (induction ks arbitrary: x)
  case (Cons k ks)
  obtain z where z: "rd_step mode k x = Some z" "rd_steps mode ks z = Some y" using Cons.prems by (auto split: bind_splits)
  have "\<exists>zs. rd_addrs z = rd_addrs x @ zs" using z(1) by (cases x) (auto split: if_splits)
  then show ?case using Cons.IH [OF z(2)] by auto
qed simp

lemma rd_cut:
  assumes "rd_steps mode ks x = Some (RdDone True cmds addrs)" "t < length ks"
  shows "\<exists>cmds' addrs' zs. rd_steps mode (take t ks @ [5]) x = Some (RdDone False cmds' addrs') \<and> addrs = addrs' @ zs"
proof -
  obtain y where y: "rd_steps mode (take t ks) x = Some y" "rd_steps mode (drop t ks) y = Some (RdDone True cmds addrs)"
    using assms(1) rd_steps_append [of mode "take t ks" "drop t ks" x] by (auto split: bind_splits)
  obtain k ks' where "drop t ks = k # ks'" using assms(2) by (metis Cons_nth_drop_Suc)
  then obtain st c p cmds' addrs' where "y = Rd st c p cmds' addrs'" using y(2) by (cases y) auto
  then show ?thesis using y rd_steps_addrs [OF y(2)] by (auto simp: rd_steps_append)
qed

end
