(* ===== verification/Cd_Toc.thy ===== *)
theory Cd_Toc
  imports Cd_Reading
begin

text \<open>
  The table of contents, against a drive as its documentation has it: the answer to GETTN holds the first and the last track
  in BCD, the one to GETTD takes a track in BCD and is an error behind the last track.
\<close>

definition toc_reply :: "nat \<Rightarrow> (nat \<Rightarrow> u8 \<times> u8) \<Rightarrow> u8 \<times> bytes \<Rightarrow> u8 \<times> bytes" where
  "toc_reply n pos c =
     (case c of (cmd, args) \<Rightarrow>
        if cmd = CD_GETTN then (3, [2, itob 1, itob (of_nat n)])
        else if cmd = CD_GETTD \<and> args \<noteq> [] \<and> unat (btoi (hd args)) \<le> n
        then (3, [2, itob (fst (pos (unat (btoi (hd args))))), itob (snd (pos (unat (btoi (hd args)))))])
        else (5, [3, 0x10]))"

text \<open>The drive answers the last command as long as an action is under way.\<close>

fun toc_serve :: "nat \<Rightarrow> nat \<Rightarrow> (nat \<Rightarrow> u8 \<times> u8) \<Rightarrow> dev \<Rightarrow> dev option" where
  "toc_serve 0 n pos d = Some d"
| "toc_serve (Suc fuel) n pos d =
     (if m_action d = None then Some d
      else do { d \<leftarrow> irq_handler [toc_reply n pos (last (sends (out d)))] d; toc_serve fuel n pos d })"

text \<open>Track \<open>k\<close> has been asked for, those before it are in the table.\<close>

definition toc_at :: "dev \<Rightarrow> nat \<Rightarrow> nat \<Rightarrow> (nat \<Rightarrow> u8 \<times> u8) \<Rightarrow> nat \<Rightarrow> dev \<Rightarrow> bool" where
  "toc_at d0 cb n pos k d \<longleftrightarrow>
     m_action d = Some ReadTOCAction \<and> m_callback d = Some (User cb) \<and> \<not> m_blocking d \<and> m_state d = TOC_GETTD \<and>
     toc_currentTrack d = of_nat k \<and> toc_lastTrack d = itob (of_nat n) \<and> toc_size d = 100 \<and> queued d = [] \<and> calls d = calls d0 \<and>
     sends (out d) \<noteq> [] \<and> last (sends (out d)) = (CD_GETTD, [itob (of_nat k)]) \<and>
     (\<forall>j. 1 \<le> j \<and> j < k \<and> j \<le> n \<longrightarrow> toc_table d j = \<lparr>msf.m = fst (pos j), s = snd (pos j), f = 0\<rparr>)"

definition toc_done :: "dev \<Rightarrow> nat \<Rightarrow> nat \<Rightarrow> (nat \<Rightarrow> u8 \<times> u8) \<Rightarrow> bool \<Rightarrow> dev \<Rightarrow> bool" where
  "toc_done d0 cb n pos b d \<longleftrightarrow>
     m_action d = None \<and> m_callback d = Some (User cb) \<and> m_success d = b \<and> queued d = [ActionComplete] \<and> calls d = calls d0 \<and>
     (\<forall>j. 1 \<le> j \<and> j \<le> n \<longrightarrow> toc_table d j = \<lparr>msf.m = fst (pos j), s = snd (pos j), f = 0\<rparr>)"

definition toc_ok :: "nat \<Rightarrow> (nat \<Rightarrow> u8 \<times> u8) \<Rightarrow> bool" where
  "toc_ok n pos \<longleftrightarrow> 1 \<le> n \<and> n \<le> 98 \<and> (\<forall>k\<in>set [1..<Suc n]. fst (pos k) < 100 \<and> snd (pos k) < 100)"

lemma btoi_itob_nat: "k < 100 \<Longrightarrow> btoi (itob (of_nat k)) = of_nat k"
  by (rule btoi_itob) (simp add: word_less_nat_alt unat_of_nat)

lemma unat_small: "k < 256 \<Longrightarrow> unat (of_nat k :: u8) = k"
  by (simp add: unat_of_nat)

lemma unat_itob_nat: "n < 100 \<Longrightarrow> unat (itob (of_nat n)) = n div 10 * 16 + n mod 10"
proof -
  assume n: "n < 100"
  then have "n div 10 * 16 + n mod 10 < 256" by linarith
  then show ?thesis using n by (simp add: unat_itob unat_small)
qed

text \<open>Whether the code asks for one more track: it compares a number with a BCD number.\<close>

lemma asks_more:
  assumes "n \<le> 98" "1 \<le> k" "k \<le> n"
  shows "(of_nat k + 1 :: u8) \<le> itob (of_nat n) \<and> ucast (of_nat k + 1 :: u8) < (100 :: u32) \<longleftrightarrow> k < n \<or> 10 \<le> n"
proof -
  have k: "(of_nat k + 1 :: u8) = of_nat (Suc k)" by (simp add: add.commute)
  have "ucast (of_nat (Suc k) :: u8) < (100 :: u32) \<longleftrightarrow> Suc k < 100"
    using assms by (simp add: word_less_nat_alt unat_ucast_up unat_small del: of_nat_Suc)
  moreover have "(of_nat (Suc k) :: u8) \<le> itob (of_nat n) \<longleftrightarrow> Suc k \<le> n div 10 * 16 + n mod 10"
    using assms by (simp add: word_le_nat_alt unat_itob_nat unat_small del: of_nat_Suc)
  moreover have "Suc k \<le> n div 10 * 16 + n mod 10 \<longleftrightarrow> k < n \<or> 10 \<le> n"
  proof (cases "10 \<le> n")
    case True
    then have "1 \<le> n div 10" by linarith
    moreover have "n = n div 10 * 10 + n mod 10" by simp
    ultimately show ?thesis using assms True by linarith
  next
    case False
    then have "n div 10 = 0" "n mod 10 = n" by simp_all
    then show ?thesis using False by auto
  qed
  ultimately show ?thesis using assms unfolding k by auto
qed

lemma and_7: "(3 :: u8) AND 7 = 3" "(5 :: u8) AND 7 = 5" "(3 :: u8) AND 24 = 0" "(5 :: u8) AND 24 = 0"
  by simp_all

lemma irq_3_5:
  "irq_handler [(3, fifo)] d = take_irq (3, fifo) (emit [IRegClear] d)"
  "irq_handler [(5, fifo)] d = take_irq (5, fifo) (emit [IRegClear] d)"
proof -
  have "(3 :: u8) \<noteq> 0" "(5 :: u8) \<noteq> 0" by simp_all
  then show "irq_handler [(3, fifo)] d = take_irq (3, fifo) (emit [IRegClear] d)"
    "irq_handler [(5, fifo)] d = take_irq (5, fifo) (emit [IRegClear] d)"
    by (simp_all only: irq_one and_7 not_False_eq_True)
qed

lemmas toc_steps = irq_3_5 take_irq_def handle_cause_def cd_acknowledge_def toc_acknowledge_def emit_def cd_send_def Let_def toc_reply_def resp_def
  finish_action_def enqueue_def setSuccess_def

lemma toc_next:
  assumes "toc_ok n pos" "1 \<le> k" "k \<le> n" "toc_at d0 cb n pos k d"
  shows "\<exists>d'. irq_handler [toc_reply n pos (last (sends (out d)))] d = Some d' \<and>
    (if k < n \<or> 10 \<le> n then toc_at d0 cb n pos (Suc k) d' else toc_done d0 cb n pos True d')"
proof -
  have k: "k < 100" and u: "unat (of_nat k :: u8) = k" using assms(1,3) by (auto simp: toc_ok_def unat_small)
  have kp: "fst (pos k) < 100" "snd (pos k) < 100" using assms(1-3) by (auto simp: toc_ok_def)
  have last: "last (sends (out d)) = (CD_GETTD, [itob (of_nat k)])" using assms(4) by (simp add: toc_at_def)
  have r: "toc_reply n pos (last (sends (out d))) = (3, [2, itob (fst (pos k)), itob (snd (pos k))])"
    using assms(3) k by (simp add: last toc_reply_def CD_GETTD_def CD_GETTN_def btoi_itob_nat u)
  define more where "more \<longleftrightarrow> (of_nat k + 1 :: u8) \<le> itob (of_nat n) \<and> ucast (of_nat k + 1 :: u8) < (100 :: u32)"
  have m: "more \<longleftrightarrow> k < n \<or> 10 \<le> n" using asks_more [of n k] assms(1-3) by (simp add: more_def toc_ok_def)
  show ?thesis
  proof (cases more)
    case True
    then show ?thesis using assms(4) kp u unfolding r m [symmetric]
      by (auto simp: toc_at_def toc_steps more_def stages btoi_itob add.commute less_Suc_eq)
  next
    case False
    then have "k = n" using m assms(3) by auto
    then show ?thesis using assms(4) kp u False unfolding r m [symmetric]
      by (auto simp: toc_at_def toc_done_def toc_steps more_def stages btoi_itob le_less)
  qed
qed

lemma toc_error:
  assumes "toc_ok n pos" "toc_at d0 cb n pos (Suc n) d"
  shows "\<exists>d'. irq_handler [toc_reply n pos (last (sends (out d)))] d = Some d' \<and> toc_done d0 cb n pos False d'"
proof -
  have n: "Suc n < 100" using assms(1) by (simp add: toc_ok_def)
  have "last (sends (out d)) = (CD_GETTD, [itob (of_nat (Suc n))])" using assms(2) by (simp add: toc_at_def)
  moreover have "unat (of_nat (Suc n) :: u8) = Suc n" using n by (simp add: unat_small del: of_nat_Suc)
  ultimately have r: "toc_reply n pos (last (sends (out d))) = (5, [3, 0x10])"
    using btoi_itob_nat [OF n] by (simp add: toc_reply_def CD_GETTD_def CD_GETTN_def del: of_nat_Suc)
  show ?thesis using assms(2) unfolding r by (auto simp: toc_at_def toc_done_def toc_steps)
qed

lemma toc_serve_done: "m_action d = None \<Longrightarrow> toc_serve fuel n pos d = Some d"
  by (cases fuel) auto

lemma toc_run:
  assumes "toc_ok n pos" "1 \<le> k" "k \<le> n" "toc_at d0 cb n pos k d" "Suc (n - k) < fuel"
  shows "\<exists>d'. toc_serve fuel n pos d = Some d' \<and> toc_done d0 cb n pos (n < 10) d'"
  using assms(2-5)
proof (induction "n - k" arbitrary: k d fuel)
  case 0
  then have kn: "k = n" by simp
  obtain fu where fu: "fuel = Suc (Suc fu)" using 0(5) by (metis Suc_lessE lessE)
  obtain d1 where d1: "irq_handler [toc_reply n pos (last (sends (out d)))] d = Some d1"
      "if 10 \<le> n then toc_at d0 cb n pos (Suc n) d1 else toc_done d0 cb n pos True d1"
    using toc_next [OF assms(1) 0(2-4)] kn by auto
  have a: "m_action d = Some ReadTOCAction" using 0(4) by (simp add: toc_at_def)
  show ?case
  proof (cases "10 \<le> n")
    case True
    then obtain d2 where "irq_handler [toc_reply n pos (last (sends (out d1)))] d1 = Some d2" "toc_done d0 cb n pos False d2"
      using toc_error [OF assms(1), of d0 cb d1] d1(2) by auto
    moreover have "m_action d1 = Some ReadTOCAction" "m_action d2 = None" using d1(2) True calculation(2) by (auto simp: toc_at_def toc_done_def)
    ultimately show ?thesis using d1(1) a True by (simp add: fu toc_serve_done)
  next
    case False
    then show ?thesis using d1 a by (simp add: fu toc_done_def)
  qed
next
  case (Suc x)
  then have kn: "k < n" by simp
  obtain fu where fu: "fuel = Suc fu" using Suc.prems(4) by (metis lessE)
  obtain d1 where d1: "irq_handler [toc_reply n pos (last (sends (out d)))] d = Some d1" "toc_at d0 cb n pos (Suc k) d1"
    using toc_next [OF assms(1) Suc.prems(1-3)] kn by auto
  have "m_action d = Some ReadTOCAction" using Suc.prems(3) by (simp add: toc_at_def)
  then show ?case using Suc.hyps(1) [of "Suc k" d1 fu] Suc.hyps(2) d1 kn Suc.prems(4) by (simp add: fu)
qed

end
