(* ===== verification/Cd_Contract.thy ===== *)
theory Cd_Contract
  imports Cd_Toc
begin

text \<open>What the CD-ROM device promises the program.\<close>

section \<open>A device to try it on\<close>

definition cd_new :: dev where
  "cd_new = \<lparr>m_callback = None, m_locationCallback = None, m_locationPtr = None, m_action = None, m_state = 0, m_doubleSpeed = True,
     m_success = False, m_blocking = False, m_pendingGetLocation = False, rs_count = 0, rs_ptr = 0, rs_mode = 0x80, tn_size = 0,
     toc_table = (\<lambda>i. msf_reset), toc_size = 0, toc_currentTrack = 0, toc_lastTrack = 0, cdda_start = msf_reset,
     cdda_stopAtEndOfTrack = False, test_buffer = [], locations = (\<lambda>p. \<lparr>relative = msf_reset, absolute = msf_reset, track = 0, index = 0\<rparr>),
     block_success = False, stack_byte = (\<lambda>i. 0), queued = [], calls = [], out = []\<rparr>"

lemma cd_new_simps [simp]:
  "m_callback cd_new = None" "m_action cd_new = None" "m_state cd_new = 0" "m_blocking cd_new = False" "queued cd_new = []" "calls cd_new = []"
  "m_locationCallback cd_new = None" "out cd_new = []" "m_pendingGetLocation cd_new = False"
  by (simp_all add: cd_new_def)

lemma start_new: "start_action a stage cb cd_new = Some (cd_new\<lparr>m_action := Some a, m_callback := Some cb, m_state := stage\<rparr>)"
  by (simp add: start_action_def switchAction_def setCallback_def isIdle_def)

section \<open>Requests and answers\<close>

text \<open>C30: under every sequence of requests, interrupts and queued callbacks that does not end in an abort, the requests are
  answered in their order and each once, a request to play with a first call more exactly when the drive acknowledged that it plays
  (one that never got there is answered with failure); the device is idle exactly when all of them are answered, and else the
  last one is under way.\<close>

theorem requests_served:
  assumes "do_steps xs cd_new = Some d"
  shows "if m_callback d = None then served (asked xs) (filter is_answer (calls d)) \<and> isIdle d
    else \<exists>rs n p cs told. asked xs = rs @ [(n, p)] \<and> served rs cs \<and> \<not> isIdle d \<and> m_callback d = Some (User n) \<and>
      filter is_answer (calls d) = cs @ (if told then [Done n True] else []) \<and> (told \<longrightarrow> p) \<and>
      (p \<and> m_action d \<noteq> None \<longrightarrow> (CDDA_PLAY < m_state d \<longleftrightarrow> told \<or> CallCallback True \<in> set (queued d)))"
proof -
  have steps: "cd_ok (rs @ asked xs) d'" if "do_steps xs d = Some d'" "cd_ok rs d" for rs xs d d'
    using that
  proof (induction xs arbitrary: d rs)
    case Nil
    then show ?case by simp
  next
    case (Cons x xs)
    obtain d1 where d1: "do_step x d = Some d1" "do_steps xs d1 = Some d'" using Cons.prems(1) by (auto split: bind_splits)
    show ?case
    proof (cases x)
      case (Request r)
      then have "cd_ok (rs @ asks r) d1" using request_ok [of r d d1 rs] d1(1) Cons.prems(2) by simp
      then show ?thesis using Cons.IH [OF d1(2)] Request by fastforce
    next
      case (Interrupt rs')
      then have "cd_ok rs d1" using d1(1) irq_loop_ok [of False rs' "emit [IRegClear] d" d1 rs] Cons.prems(2) cd_ok_same [of d "emit [IRegClear] d" rs]
        by (simp add: irq_handler_def cd_irq_def cd_same_def)
      then show ?thesis using Cons.IH [OF d1(2)] Interrupt by simp
    next
      case RunOne
      then show ?thesis using Cons.IH [OF d1(2)] run_one_ok [of d d1 rs] d1(1) Cons.prems(2) by simp
    qed
  qed
  have "cd_ok [] cd_new" by (simp add: cd_ok_def nothing_under_way_def served_none)
  then have "cd_ok (asked xs) d" using steps [OF assms, of "[]"] by simp
  then consider "nothing_under_way (asked xs) d" | n p told tell where "under_way (asked xs) n p told tell d" by (auto simp: cd_ok_def)
  then show ?thesis
  proof cases
    case 1
    then show ?thesis by (simp add: nothing_under_way_def isIdle_def)
  next
    case 2
    then obtain rs0 cs0 where u: "asked xs = rs0 @ [(n, p)]" "served rs0 cs0" "filter is_answer (calls d) = cs0 @ (if told then [Done n True] else [])"
        "m_callback d = Some (User n)" "m_state d \<noteq> 0" "told \<longrightarrow> p"
      by (auto simp: under_way_def)
    have "CallCallback True \<in> set (queued d) \<longleftrightarrow> CallCallback True \<in> set (completions d)" by simp
    then have "CDDA_PLAY < m_state d \<longleftrightarrow> told \<or> CallCallback True \<in> set (queued d)" if "p" "m_action d \<noteq> None"
      using 2 that unfolding under_way_def by (auto simp: not_le [symmetric])
    then show ?thesis using u by (auto simp: isIdle_def)
  qed
qed

lemma requests_served_witness:
  "\<exists>d. do_steps [Request (ReqTOCSize 7), Interrupt [(3, [2, 1, 5])], RunOne] cd_new = Some d \<and> served [(7, False)] (filter is_answer (calls d))"
proof -
  obtain d where d: "do_steps [Request (ReqTOCSize 7), Interrupt [(3, [2, 1, 5])], RunOne] cd_new = Some d" "m_callback d = None"
    by (simp add: getTOCSize_def start_new toc_steps run_one_def run_item_def actionComplete_def call_callback_def)
  then show ?thesis using requests_served [OF d(1)] by auto
qed

section \<open>Reads\<close>

text \<open>C29: a read of at least one sector, served with the interrupts of a read that works, in any groups and with sectors that
  arrive late, moves each sector to the next place of the buffer, sends SETLOC, SETMODE, READN and PAUSE, and calls back
  once with success; cut short by an error of the drive at any point it calls back once with failure, and the sectors before
  are in place. The device is idle again.\<close>

theorem read_sectors_ends:
  assumes "readSectors sector count buf (User n) d = Some d1" "queued d = []" "\<not> m_blocking d" "count \<noteq> 0"
    "R = read_codes (unat count) i j" "codes (concat batches) = (if ok then R else take t R @ [5])" "t < length R"
  shows "\<exists>d2 d3 k. deliver_irqs batches d1 = Some d2 \<and> run_one d2 = Some d3 \<and> calls d3 = calls d @ [Done n ok] \<and>
    isIdle d3 \<and> m_callback d3 = None \<and> m_action d3 = None \<and>
    k \<le> unat count \<and> dmas (out d3) = dmas (out d) @ map (\<lambda>i. buf + 2048 * of_nat i) [0..<k] \<and>
    (ok \<longrightarrow> k = unat count \<and> sends (out d3) = sends (out d) @
      [(CD_SETLOC, toBCD (msf_of_lba (sector + 150))), (CD_SETMODE, [rd_mode d]), (CD_READN, []), (CD_PAUSE, [])])"
proof -
  let ?x = "Rd RS_SETLOC count buf [(CD_SETLOC, toBCD (msf_of_lba (sector + 150)))] []"
  let ?addrs = "map (\<lambda>i. buf + 2048 * of_nat i) [0..<unat count]"
  note whole = rd_whole [OF assms(4), of "rd_mode d" i j buf "[(CD_SETLOC, toBCD (msf_of_lba (sector + 150)))]" "[]"]
  obtain cmds addrs k where run: "rd_steps (rd_mode d) (codes (concat batches)) ?x = Some (RdDone ok cmds addrs)"
    and k: "k \<le> unat count" "addrs = map (\<lambda>i. buf + 2048 * of_nat i) [0..<k]"
    and full: "ok \<longrightarrow> k = unat count \<and> cmds = [(CD_SETLOC, toBCD (msf_of_lba (sector + 150))), (CD_SETMODE, [rd_mode d]), (CD_READN, []), (CD_PAUSE, [])]"
  proof (cases ok)
    case True
    then show ?thesis using that [of _ _ "unat count"] whole assms(5,6) by simp
  next
    case False
    obtain cmds' addrs' zs where c: "rd_steps (rd_mode d) (take t R @ [5]) ?x = Some (RdDone False cmds' addrs')" "[] @ ?addrs = addrs' @ zs"
      using rd_cut [OF whole] assms(5,7) by blast
    have "length ?addrs = length addrs' + length zs" using c(2) by (metis append_Nil length_append)
    then have l: "length addrs' \<le> unat count" by simp
    have "take (length addrs') ?addrs = addrs'" using c(2) by (metis append_Nil append_eq_conv_conj)
    then have "addrs' = map (\<lambda>i. buf + 2048 * of_nat i) [0..<length addrs']" using l by (simp add: take_map take_upt)
    then show ?thesis using that [of cmds' addrs' "length addrs'"] c(1) False assms(6) l by simp
  qed
  have "set (codes (concat batches)) \<subseteq> {1, 2, 3, 5}"
    using assms(5,6) set_take_subset [of t R] by (cases ok) (auto simp: read_codes_def)
  then have "fst r AND 7 \<in> {1, 2, 3, 5}" if "r \<in> set (concat batches)" for r using that by (auto simp: codes_def)
  then have "real r" if "r \<in> set (concat batches)" for r using that by (fastforce simp: real_def)
  then have "list_all (list_all real) batches" by (auto simp: list_all_iff)
  then obtain d2 where d2: "deliver_irqs batches d1 = Some d2" "read_done d n ok cmds addrs d2"
    using rd_deliver [OF read_start [OF assms(1-3)] run] by auto
  then have "run_one d2 = Some (d2\<lparr>queued := [], m_callback := None, m_success := False, m_state := 0, calls := calls d2 @ [Done n ok]\<rparr>)"
    using completion_runs [of d2 n] by (simp add: read_done_def)
  then show ?thesis using d2 k full by (auto simp: read_done_def isIdle_def)
qed

lemma read_sectors_ends_witness:
  "\<exists>d1 d2 d3. readSectors 16 1 0x80010000 (User 4) cd_new = Some d1 \<and>
     deliver_irqs [[(3, [])], [(3, []), (3, [])], [(1, [])], [(3, []), (2, [])]] d1 = Some d2 \<and> run_one d2 = Some d3 \<and>
     calls d3 = [Done 4 True] \<and> dmas (out d3) = [0x80010000]"
proof -
  obtain d1 where d1: "readSectors 16 1 0x80010000 (User 4) cd_new = Some d1" by (simp add: readSectors_def start_new)
  let ?b = "[[(3, [])], [(3, []), (3, [])], [(1, [])], [(3, []), (2, [])]] :: (u8 \<times> bytes) list list"
  have "codes (concat ?b) = read_codes (unat (1 :: u32)) 0 0" by (simp add: codes_def read_codes_def)
  then show ?thesis
    using read_sectors_ends [OF d1 _ _ _ refl, where batches = ?b and ok = True and t = 0 and i = 0 and j = 0] d1
    by (auto simp: read_codes_def)
qed

section \<open>Playing\<close>

text \<open>C32: a program that asks for the playback location and pauses before the answer is there ends in an abort: the answer to
  the first command is taken for the one to the pause, whose own answer then comes in a stage that expects none.\<close>

theorem location_then_pause_aborts:
  assumes "m_action d = Some PlayCDDAAction" "m_state d = CDDA_PLAYING" "m_locationCallback d = None" "c1 AND 7 = 3" "c2 AND 7 = 3"
  shows "\<exists>d1 d2 d3. getPlaybackLocation ptr n d = Some d1 \<and> pauseCDDA d1 = Some d2 \<and>
    irq_handler [(c1, location)] d2 = Some d3 \<and> irq_handler [(c2, status)] d3 = None"
proof -
  have "c1 AND 7 \<noteq> 0" "c2 AND 7 \<noteq> 0" using assms(4,5) by simp_all
  note one = irq_one [OF this(1)] irq_one [OF this(2)]
  show ?thesis using assms
    by (simp add: getPlaybackLocation_def pauseCDDA_def leave_playing_def one take_irq_def handle_cause_def cd_acknowledge_def
        cdda_acknowledge_def emit_def cd_send_def stages Let_def)
qed

definition cd_playing :: dev where
  "cd_playing = cd_new\<lparr>m_action := Some PlayCDDAAction, m_callback := Some (User 1), m_state := CDDA_PLAYING\<rparr>"

lemma location_then_pause_aborts_witness:
  "\<exists>d1 d2 d3. getPlaybackLocation LocationStorage 2 cd_playing = Some d1 \<and> pauseCDDA d1 = Some d2 \<and>
    irq_handler [(3, [1, 1, 0, 5, 0, 0, 7, 0])] d2 = Some d3 \<and> irq_handler [(3, [2])] d3 = None"
  by (rule location_then_pause_aborts) (simp_all add: cd_playing_def)

section \<open>The table of contents\<close>

text \<open>C31: with a disc of 1 to 98 tracks and a table of 100 entries, reading the table of contents fills in the position of every
  track and ends; it reports success exactly when there are fewer than ten tracks, because the number of the last track is
  taken from the drive as BCD and the code goes on to a track that is not there.\<close>

theorem toc_fails_from_ten:
  assumes "readTOC 100 (User cb) d = Some d1" "queued d = []" "\<not> m_blocking d" "toc_ok n pos"
  shows "\<exists>d2 d3. toc_serve (n + 2) n pos d1 = Some d2 \<and> run_one d2 = Some d3 \<and> isIdle d3 \<and> calls d3 = calls d @ [Done cb (n < 10)] \<and>
    (\<forall>j. 1 \<le> j \<and> j \<le> n \<longrightarrow> toc_table d3 j = \<lparr>msf.m = fst (pos j), s = snd (pos j), f = 0\<rparr>)"
proof -
  have d1: "m_action d1 = Some ReadTOCAction" "m_callback d1 = Some (User cb)" "m_state d1 = TOC_GETTN" "toc_size d1 = 100"
      "calls d1 = calls d" "queued d1 = []" "\<not> m_blocking d1" "last (sends (out d1)) = (CD_GETTN, [])" "sends (out d1) \<noteq> []"
    using assms(1-3) by (auto simp: readTOC_def start_action_def switchAction_def setCallback_def isIdle_def cd_send_def emit_def Let_def split: if_splits)
  have n: "1 \<le> n" "n \<le> 98" using assms(4) by (auto simp: toc_ok_def)
  have r: "toc_reply n pos (last (sends (out d1))) = (3, [2, itob 1, itob (of_nat n)])" by (simp add: d1(8) toc_reply_def)
  have "itob 1 = 1" by (simp add: itob_def)
  then obtain e where e: "irq_handler [toc_reply n pos (last (sends (out d1)))] d1 = Some e" "toc_at d cb n pos 1 e"
    using d1 unfolding r by (auto simp: toc_at_def toc_steps stages)
  obtain d2 where d2: "toc_serve (n + 1) n pos e = Some d2" "toc_done d cb n pos (n < 10) d2"
    using toc_run [OF assms(4) _ n(1) e(2), of "n + 1"] n by auto
  have "run_one d2 = Some (d2\<lparr>queued := [], m_callback := None, m_success := False, m_state := 0, calls := calls d2 @ [Done cb (n < 10)]\<rparr>)"
    using completion_runs [of d2 cb] d2(2) by (simp add: toc_done_def)
  then show ?thesis using d1(1) e(1) d2 by (simp add: toc_done_def isIdle_def)
qed

lemma toc_fails_from_ten_witness:
  "\<exists>d1 d2 d3. readTOC 100 (User 3) cd_new = Some d1 \<and> toc_serve (12 + 2) 12 (\<lambda>k. (of_nat k, 2)) d1 = Some d2 \<and> run_one d2 = Some d3 \<and>
     calls d3 = [Done 3 False]"
proof -
  obtain d1 where d1: "readTOC 100 (User 3) cd_new = Some d1" by (simp add: readTOC_def start_new)
  have "toc_ok 12 (\<lambda>k. (of_nat k, 2))" by (simp add: toc_ok_def upt_rec)
  then show ?thesis using toc_fails_from_ten [OF d1] d1 by fastforce
qed

end
