(* ===== verification/Gpu_Chain.thy ===== *)
theory Gpu_Chain
  imports Prelude "HOL-Library.Monad_Syntax"
begin

text \<open>
  Sending fragments to the GPU by DMA (\<open>psyqo/src/gpu.cpp\<close>, \<open>psyqo/gpu.hh\<close>): building a chain of fragments, sending it,
  and the interrupt that goes on where the DMA engine stops. Memory is words at the physical addresses the engine uses;
  a pointer reaches it through any of the windows of the processor. The engine is its documented behaviour: a block
  transfer sends the words from an address on, a linked one follows the headers until a link with bit 23 and stops there.
  What the GPU is sent is the list \<open>gp0\<close>, and the values written to its control register are \<open>gp1\<close>. An assertion that
  fails is None.
\<close>

section \<open>State\<close>

type_synonym memory = "u32 \<Rightarrow> u32"

definition phys :: "u32 \<Rightarrow> u32" where
  "phys p = p AND 0x7ffffc"

definition c_chainThreshold :: u32 where "c_chainThreshold = 56"
definition c_oversizedGranularity :: u32 where "c_oversizedGranularity = 16"
definition c_oversizedShift :: nat where "c_oversizedShift = 4"
definition c_maxNodeWords :: u32 where "c_maxNodeWords = 255"
definition c_maxOversizedWords :: u32 where "c_maxOversizedWords = 255 * c_oversizedGranularity"

lemmas gpu_consts = c_chainThreshold_def c_oversizedGranularity_def c_oversizedShift_def c_maxNodeWords_def c_maxOversizedWords_def

datatype dma_callback = FROM_ISR | FROM_MAIN_LOOP
datatype job = NoJob | GpuJob | OtcJob

record gpu =
  gmem :: memory
  m_chainHead :: u32
  m_chainTail :: u32
  m_chainTailCount :: u32
  m_chainHeadOversized :: bool
  m_chainNext :: u32
  m_chainNextOversized :: bool
  m_dmaCallback :: "nat option"
  m_fromISR :: bool
  m_flushCacheAfterDMA :: bool
  m_OTCs :: "bool \<Rightarrow> (u32 \<times> u32) list"
  m_parity :: bool
  running :: job
  madr :: u32
  bcr :: u32
  chcr :: u32
  gp0 :: "u32 list"
  gp1 :: "u32 list"
  cb_queue :: "nat list"
  cb_calls :: "nat list"

definition load :: "gpu \<Rightarrow> u32 \<Rightarrow> u32" where
  "load g p = gmem g (phys p)"

definition store :: "u32 \<Rightarrow> u32 \<Rightarrow> gpu \<Rightarrow> gpu" where
  "store p v g = g\<lparr>gmem := (gmem g)(phys p := v)\<rparr>"

definition control :: "u32 \<Rightarrow> gpu \<Rightarrow> gpu" where
  "control v g = g\<lparr>gp1 := gp1 g @ [v]\<rparr>"

section \<open>Building a chain\<close>

definition chain :: "u32 \<Rightarrow> u32 \<Rightarrow> u32 \<Rightarrow> gpu \<Rightarrow> gpu option" where
  "chain first lst count g =
     (if count > c_maxNodeWords \<and> (count AND (c_oversizedGranularity - 1) \<noteq> 0 \<or> count > c_maxOversizedWords) then None
      else
        let oversized = count > c_maxNodeWords;
            count = (if oversized then drop_bit c_oversizedShift count else count);
            g = (if m_chainHead g = 0 then g\<lparr>m_chainHead := first, m_chainHeadOversized := oversized\<rparr>
                 else
                   let tailValue = m_chainTailCount g OR (first AND 0xffffff);
                       tailValue = (if oversized \<or> count > c_chainThreshold div 4
                         then tailValue OR 0x00800000 OR (if oversized then 1 else 0) else tailValue)
                   in store (m_chainTail g) tailValue g)
        in Some (g\<lparr>m_chainTail := lst, m_chainTailCount := push_bit 24 count\<rparr>))"

text \<open>A fragment, and an ordering table, which is cleared when it has been sent.\<close>

definition chain_fragment :: "u32 \<Rightarrow> u32 \<Rightarrow> gpu \<Rightarrow> gpu option" where
  "chain_fragment head count g = chain head head count g"

definition scheduleOTC :: "u32 \<Rightarrow> u32 \<Rightarrow> gpu \<Rightarrow> gpu" where
  "scheduleOTC start count g = g\<lparr>m_OTCs := (m_OTCs g)(m_parity g := m_OTCs g (m_parity g) @ [(start, count)])\<rparr>"

definition chain_table :: "u32 \<Rightarrow> u32 \<Rightarrow> gpu \<Rightarrow> gpu option" where
  "chain_table m_table n g = do {
     g \<leftarrow> chain (m_table + 4 * n) m_table 0 g;
     Some (scheduleOTC (m_table + 4 * n) (n + 1) g) }"

section \<open>Starting the DMA\<close>

definition busy :: "gpu \<Rightarrow> bool" where
  "busy g \<longleftrightarrow> running g = GpuJob"

definition scheduleNormalDMA :: "u32 \<Rightarrow> u32 \<Rightarrow> gpu \<Rightarrow> gpu option" where
  "scheduleNormalDMA data count g =
     (if busy g \<or> count \<ge> 65536 then None
      else Some ((control 0x04000001 g)\<lparr>madr := data, bcr := push_bit 16 count OR 1, chcr := 0x01000201, running := GpuJob\<rparr>))"

definition scheduleChainedDMA :: "u32 \<Rightarrow> gpu \<Rightarrow> gpu option" where
  "scheduleChainedDMA head g =
     (if busy g then None else Some ((control 0x04000002 g)\<lparr>madr := head, chcr := 0x01000401, running := GpuJob\<rparr>))"

text \<open>The link of a header, taken apart.\<close>

definition next_node :: "u32 \<Rightarrow> gpu \<Rightarrow> gpu" where
  "next_node head g =
     (let head = head AND 0xffffff
      in if head = 0xffffff then g\<lparr>m_chainNext := 0, m_chainNextOversized := False\<rparr>
         else g\<lparr>m_chainNext := head AND 0x7ffffc, m_chainNextOversized := (head AND 1 \<noteq> 0)\<rparr>)"

definition node_words :: "bool \<Rightarrow> u32 \<Rightarrow> u32" where
  "node_words oversized head = (let count = drop_bit 24 head in if oversized then push_bit c_oversizedShift count else count)"

definition sendChain :: "nat \<Rightarrow> dma_callback \<Rightarrow> gpu \<Rightarrow> gpu option" where
  "sendChain callback dmaCallback g =
     (let chainHead = m_chainHead g; g = store (m_chainTail g) (m_chainTailCount g OR 0xffffff) g
      in if m_dmaCallback g \<noteq> None \<or> chainHead AND 3 \<noteq> 0 then None
         else
           let g = g\<lparr>m_chainHead := 0, m_chainTail := 0, m_fromISR := (dmaCallback = FROM_ISR), m_dmaCallback := Some callback\<rparr>;
               head = load g chainHead; oversized = m_chainHeadOversized g; count = node_words oversized head
           in if oversized \<or> count > c_chainThreshold div 4
              then scheduleNormalDMA (chainHead + 4) count (next_node head g)
              else scheduleChainedDMA chainHead g)"

definition sendFragment :: "u32 \<Rightarrow> u32 \<Rightarrow> nat \<Rightarrow> dma_callback \<Rightarrow> gpu \<Rightarrow> gpu option" where
  "sendFragment data count callback dmaCallback g =
     (if count = 0 then (if dmaCallback = FROM_MAIN_LOOP then Some (g\<lparr>cb_queue := cb_queue g @ [callback]\<rparr>) else None)
      else if m_dmaCallback g \<noteq> None \<or> data AND 3 \<noteq> 0 then None
      else scheduleNormalDMA data count (g\<lparr>m_fromISR := (dmaCallback = FROM_ISR), m_dmaCallback := Some callback\<rparr>))"

section \<open>Uploads\<close>

text \<open>The size of the blocks of an upload and their number: as many words to a block as divide the total, up to eight.\<close>

fun blocks :: "nat \<Rightarrow> u32 \<Rightarrow> u32 \<Rightarrow> u32 \<times> u32" where
  "blocks 0 n bs = (n, bs)"
| "blocks (Suc k) n bs = (if n AND 1 = 0 \<and> bs < 8 then blocks k (drop_bit 1 n) (push_bit 1 bs) else (n, bs))"

definition uploadToVRAM :: "u32 \<Rightarrow> u32 list \<Rightarrow> u32 \<Rightarrow> u32 \<Rightarrow> nat \<Rightarrow> dma_callback \<Rightarrow> gpu \<Rightarrow> gpu option" where
  "uploadToVRAM ptr upload w h callback dmaCallback g =
     (if w = 0 \<or> h = 0 then (if dmaCallback = FROM_MAIN_LOOP then Some (g\<lparr>cb_queue := cb_queue g @ [callback]\<rparr>) else None)
      else if m_dmaCallback g \<noteq> None \<or> ptr AND 3 \<noteq> 0 \<or> (w * h) AND 1 \<noteq> 0 then None
      else case blocks 3 (drop_bit 1 (w * h)) 1 of (n, bs) \<Rightarrow>
        if n \<ge> 65536 then None
        else
          let g = g\<lparr>m_fromISR := (dmaCallback = FROM_ISR), m_flushCacheAfterDMA := True, m_dmaCallback := Some callback, gp0 := gp0 g @ upload\<rparr>
          in Some ((control 0x04000002 g)\<lparr>madr := ptr, bcr := push_bit 16 n OR bs, chcr := 0x01000201, running := GpuJob\<rparr>))"

section \<open>Completion\<close>

definition checkOTCAndTriggerCallback :: "gpu \<Rightarrow> gpu option" where
  "checkOTCAndTriggerCallback g =
     (case m_OTCs g (\<not> m_parity g) of
        (start, count) # rest \<Rightarrow> Some (g\<lparr>m_OTCs := (m_OTCs g)(\<not> m_parity g := rest), madr := start, bcr := count, running := OtcJob\<rparr>)
      | [] \<Rightarrow> (case m_dmaCallback g of
          None \<Rightarrow> None
        | Some cb \<Rightarrow>
            if m_fromISR g then Some (g\<lparr>m_dmaCallback := None, cb_calls := cb_calls g @ [cb]\<rparr>)
            else Some (g\<lparr>m_dmaCallback := None, cb_queue := cb_queue g @ [cb]\<rparr>)))"

definition dma_finished :: "gpu \<Rightarrow> gpu option" where
  "dma_finished g =
     (let g = control 0x04000001 g;
          g = (if m_flushCacheAfterDMA g then g\<lparr>gp0 := gp0 g @ [0x01000000], m_flushCacheAfterDMA := False\<rparr> else g)
      in checkOTCAndTriggerCallback g)"

definition gpu_dma_event :: "gpu \<Rightarrow> gpu option" where
  "gpu_dma_event g =
     (let mode = drop_bit 9 (chcr g AND 0x00000600)
      in if mode = 1 then
           if m_chainNext g = 0 then dma_finished g
           else
             let chainNext = m_chainNext g; head = load g chainNext; oversized = m_chainNextOversized g; count = node_words oversized head
             in if oversized \<or> count > c_chainThreshold div 4
                then scheduleNormalDMA (chainNext + 4) count (next_node head g)
                else scheduleChainedDMA chainNext (g\<lparr>m_chainNext := 0, m_chainNextOversized := False\<rparr>)
         else if mode = 2 \<and> madr g \<noteq> 0xffffff then
           let oversized = (madr g AND 1 \<noteq> 0); a = madr g AND 0x7ffffc; head = load g (a OR 0x80000000)
           in scheduleNormalDMA (a + 4) (node_words oversized head) (next_node head g)
         else dma_finished g)"

section \<open>The engine\<close>

definition payload :: "memory \<Rightarrow> u32 \<Rightarrow> nat \<Rightarrow> u32 list" where
  "payload mem a n = map (\<lambda>i. mem (phys (a + 4 * of_nat i))) [0..<n]"

text \<open>Following the headers: the words sent and the link it stops at. The number bounds the headers followed.\<close>

fun linked :: "nat \<Rightarrow> memory \<Rightarrow> u32 \<Rightarrow> (u32 list \<times> u32) option" where
  "linked 0 mem a = None"
| "linked (Suc fuel) mem a =
     (let head = mem (phys a); words = payload mem (a + 4) (unat (drop_bit 24 head)); nxt = head AND 0xffffff
      in if nxt AND 0x800000 \<noteq> 0 then Some (words, nxt)
         else do { (rest, stop) \<leftarrow> linked fuel mem nxt; Some (words @ rest, stop) })"

text \<open>The clearing of an ordering table, from its last entry down: each entry points at the one before.\<close>

fun clear_entries :: "nat \<Rightarrow> u32 \<Rightarrow> memory \<Rightarrow> memory" where
  "clear_entries 0 a mem = mem"
| "clear_entries (Suc n) a mem = clear_entries n (a - 4) (mem(phys a := (if n = 0 then 0xffffff else (a - 4) AND 0xffffff)))"

definition engine :: "nat \<Rightarrow> gpu \<Rightarrow> gpu option" where
  "engine fuel g =
     (case running g of
        NoJob \<Rightarrow> Some g
      | OtcJob \<Rightarrow> Some (g\<lparr>gmem := clear_entries (unat (bcr g)) (madr g) (gmem g), running := NoJob\<rparr>)
      | GpuJob \<Rightarrow>
          if chcr g = 0x01000201 then
            let n = unat (drop_bit 16 (bcr g)) * unat (bcr g AND 0xffff)
            in Some (g\<lparr>gp0 := gp0 g @ payload (gmem g) (madr g) n, madr := madr g + 4 * of_nat n, running := NoJob\<rparr>)
          else do {
            (words, stop) \<leftarrow> linked fuel (gmem g) (madr g);
            Some (g\<lparr>gp0 := gp0 g @ words, madr := stop, running := NoJob\<rparr>) })"

text \<open>A transfer and its interrupt, and all of them until nothing is running.\<close>

definition transfer :: "nat \<Rightarrow> gpu \<Rightarrow> gpu option" where
  "transfer fuel g =
     (case running g of
        NoJob \<Rightarrow> Some g
      | GpuJob \<Rightarrow> engine fuel g \<bind> gpu_dma_event
      | OtcJob \<Rightarrow> engine fuel g \<bind> checkOTCAndTriggerCallback)"

fun transfers :: "nat \<Rightarrow> gpu \<Rightarrow> gpu option" where
  "transfers 0 g = Some g"
| "transfers (Suc fuel) g = (if running g = NoJob then Some g else do { g \<leftarrow> transfer fuel g; transfers fuel g })"

end
