(* ===== verification/Gpu_Sent.thy ===== *)
theory Gpu_Sent
  imports Gpu_Chain
begin

text \<open>What a chain of fragments sends: all their words, in order, whatever their sizes make of the links.\<close>

section \<open>Fragments and links\<close>

type_synonym frag = "u32 \<times> u32"

definition big :: "u32 \<Rightarrow> bool" where "big n \<longleftrightarrow> n > 14"
definition over :: "u32 \<Rightarrow> bool" where "over n \<longleftrightarrow> n > 255"
definition cnt :: "u32 \<Rightarrow> u32" where "cnt n = (if over n then drop_bit 4 n else n)"

text \<open>A fragment at an address in the memory of 8 MB and with a size that can be chained.\<close>

definition frag_ok :: "frag \<Rightarrow> bool" where
  "frag_ok f \<longleftrightarrow> fst f AND 3 = 0 \<and> fst f AND 0x800000 = 0 \<and> phys (fst f) \<noteq> 0 \<and>
     (snd f \<le> 255 \<or> snd f AND 15 = 0 \<and> snd f \<le> 4080)"

definition link :: "frag \<Rightarrow> u32" where
  "link f = (fst f AND 0xffffff) OR (if big (snd f) then 0x800000 OR (if over (snd f) then 1 else 0) else 0)"

fun lnk :: "frag list \<Rightarrow> u32" where
  "lnk [] = 0xffffff"
| "lnk (f # fs) = link f"

definition hdr :: "u32 \<Rightarrow> u32 \<Rightarrow> u32" where
  "hdr n l = push_bit 24 (cnt n) OR l"

lemma over_big: "over n \<Longrightarrow> big n"
  by (auto simp: over_def big_def word_less_nat_alt)

lemma cnt_less: "frag_ok (a, n) \<Longrightarrow> unat (cnt n) < 256"
proof -
  assume f: "frag_ok (a, n)"
  show ?thesis
  proof (cases "over n")
    case True
    then have "unat n \<le> 4080" using f by (auto simp: frag_ok_def over_def word_le_nat_alt word_less_nat_alt)
    then have "unat n div 16 < 256" by linarith
    then show ?thesis using True by (simp add: cnt_def drop_bit_eq_div unat_div)
  next
    case False
    then show ?thesis by (simp add: cnt_def over_def word_less_nat_alt)
  qed
qed

lemma hdr_parts:
  assumes "unat c < 256" "(l :: u32) AND 0xffffff = l"
  shows "drop_bit 24 (push_bit 24 c OR l) = (c :: u32)" "(push_bit 24 c OR l) AND 0xffffff = l"
proof -
  have m: "(0xffffff :: u32) = mask 24" by (simp add: mask_eq_exp_minus_1)
  have l: "take_bit 24 l = l" using assms(2) by (simp add: m take_bit_eq_mask)
  have "c < 256" using assms(1) by (simp add: word_less_nat_alt)
  then have "take_bit 8 c = c" by (simp add: take_bit_word_eq_self word_less_nat_alt take_bit_eq_mod word_unat_eq_iff unat_mod)
  show "drop_bit 24 (push_bit 24 c OR l) = c"
  proof (rule bit_word_eqI)
    fix k assume "k < LENGTH(32)"
    have "bit l (k + 24) = False" using l by (metis bit_take_bit_iff not_add_less2)
    moreover have "bit c k \<longrightarrow> k < 8" using \<open>take_bit 8 c = c\<close> by (metis bit_take_bit_iff)
    ultimately show "bit (drop_bit 24 (push_bit 24 c OR l)) k = bit c k"
      by (auto simp: bit_drop_bit_eq bit_or_iff bit_push_bit_iff add.commute)
  qed
  show "(push_bit 24 c OR l) AND 0xffffff = l"
    unfolding m take_bit_eq_mask [symmetric] using l by (simp add: take_bit_push_bit)
qed

lemma and_bit:
  "(w :: u32) AND 1 \<noteq> 0 \<longleftrightarrow> bit w 0" "w AND 0x800000 \<noteq> 0 \<longleftrightarrow> bit w 23" "w AND 0x800000 = 0 \<longleftrightarrow> \<not> bit w 23"
  using and_exp_eq_0_iff_not_bit [of w 0] and_exp_eq_0_iff_not_bit [of w 23] by simp_all

lemma and_3_bits: "(w :: u32) AND 3 = 0 \<Longrightarrow> \<not> bit w 0 \<and> \<not> bit w 1"
proof -
  assume "w AND 3 = 0"
  then have "\<not> bit (w AND 3) k" for k by simp
  then have "\<not> (bit w k \<and> bit (3 :: u32) k)" for k by (simp add: bit_and_iff)
  moreover have "bit (3 :: u32) 0" "bit (3 :: u32) 1" by simp_all
  ultimately show ?thesis by blast
qed

lemma bit_ffffff: "bit (0xffffff :: u32) k \<longleftrightarrow> k < 24"
proof -
  have "(0xffffff :: u32) = mask 24" by (simp add: mask_eq_exp_minus_1)
  then show ?thesis by (simp only: bit_mask_iff) auto
qed

lemma bit_7ffffc: "bit (0x7ffffc :: u32) k \<longleftrightarrow> 2 \<le> k \<and> k < 23"
proof -
  have "(0x7ffffc :: u32) = mask 23 AND NOT (mask 2)" by (simp add: mask_eq_exp_minus_1)
  then show ?thesis by (simp only: bit_and_iff bit_not_iff bit_mask_iff) (auto simp: possible_bit_def)
qed

lemma bit_phys: "bit (phys p) k \<longleftrightarrow> bit p k \<and> 2 \<le> k \<and> k < 23"
  unfolding phys_def bit_and_iff bit_7ffffc by auto

lemma bit_800000: "bit (0x800000 :: u32) k \<longleftrightarrow> k = 23"
  using bit_exp_iff [of 23 k, where 'a = "32 word"] by (auto simp: possible_bit_def)

lemma bit_link: "bit (link f) k \<longleftrightarrow> bit (fst f) k \<and> k < 24 \<or> big (snd f) \<and> (k = 23 \<or> over (snd f) \<and> k = 0)"
  unfolding link_def by (auto simp: bit_or_iff bit_and_iff bit_ffffff bit_800000 bit_1_iff simp del: bit_numeral_word_iff)

lemma link_parts:
  assumes "frag_ok f"
  shows "link f AND 0xffffff = link f" "link f AND 0x800000 \<noteq> 0 \<longleftrightarrow> big (snd f)" "link f AND 1 \<noteq> 0 \<longleftrightarrow> over (snd f)"
    "link f AND 0x7ffffc = phys (fst f)" "link f \<noteq> 0xffffff" "phys (link f) = phys (fst f)"
proof -
  have a: "\<not> bit (fst f) 0" "\<not> bit (fst f) 1" "\<not> bit (fst f) 23"
    using assms and_3_bits [of "fst f"] by (auto simp: frag_ok_def and_bit)
  show "link f AND 0xffffff = link f" by (rule bit_word_eqI) (auto simp: bit_and_iff bit_ffffff bit_link simp del: bit_numeral_word_iff)
  show "link f AND 0x800000 \<noteq> 0 \<longleftrightarrow> big (snd f)" "link f AND 1 \<noteq> 0 \<longleftrightarrow> over (snd f)"
    using a over_big by (auto simp: and_bit bit_link)
  show "link f AND 0x7ffffc = phys (fst f)" "phys (link f) = phys (fst f)"
    by (rule bit_word_eqI; auto simp: bit_and_iff bit_7ffffc bit_link bit_phys simp del: bit_numeral_word_iff)+
  have "\<not> bit (link f) 1" using a by (simp add: bit_link)
  then show "link f \<noteq> 0xffffff" using bit_ffffff [of 1] by auto
qed

lemma phys_idem [simp]: "phys (phys a) = phys a"
  by (rule bit_word_eqI) (auto simp: bit_phys)

lemma phys_window [simp]: "phys (phys a OR 0x80000000) = phys a" "phys (a AND 0xffffff) = phys a"
proof -
  have "bit (0x80000000 :: u32) k \<longleftrightarrow> k = 31" if "k < 32" for k
    using bit_exp_iff [of 31 k, where 'a = "32 word"] that by (auto simp: possible_bit_def)
  then show "phys (phys a OR 0x80000000) = phys a" by (intro bit_word_eqI) (auto simp: bit_phys bit_or_iff simp del: bit_numeral_word_iff)
  show "phys (a AND 0xffffff) = phys a" by (rule bit_word_eqI) (auto simp: bit_phys bit_and_iff bit_ffffff simp del: bit_numeral_word_iff)
qed

text \<open>The window a pointer goes through does not matter for what is behind it either.\<close>

lemma phys_take: "phys p = take_bit 23 p AND NOT (mask 2)"
  by (rule bit_word_eqI) (auto simp: bit_phys bit_and_iff bit_take_bit_iff bit_not_iff bit_mask_iff possible_bit_def)

lemma take_bit_shift: "take_bit 23 a = take_bit 23 b \<Longrightarrow> take_bit 23 (a + x) = take_bit 23 (b + x)" for a b x :: u32
proof -
  assume a: "take_bit 23 a = take_bit 23 b"
  have u: "unat (take_bit 23 w) = unat w mod 2 ^ 23" for w :: u32 by (simp add: take_bit_eq_mod unat_mod)
  have s: "unat (take_bit 23 (w + x)) = (unat w mod 2 ^ 23 + unat x) mod 2 ^ 23" for w
    unfolding u by (simp add: unat_word_ariths mod_mod_cancel mod_simps)
  show ?thesis using s [of a] s [of b] a u [of a] u [of b] by (simp add: word_unat_eq_iff)
qed

lemma phys_add: "take_bit 23 a = take_bit 23 b \<Longrightarrow> phys (a + x) = phys (b + x)"
  using take_bit_shift [of a b x] by (simp add: phys_take)

lemma payload_window: "take_bit 23 a = take_bit 23 b \<Longrightarrow> payload mem (a + x) n = payload mem (b + x) n"
  using phys_add [of a b] by (simp add: payload_def add.assoc)

lemma window:
  assumes "frag_ok f"
  shows "take_bit 23 (phys (fst f)) = take_bit 23 (fst f)" "\<not> big (snd f) \<Longrightarrow> take_bit 23 (link f) = take_bit 23 (fst f)"
proof -
  have a: "\<not> bit (fst f) 0" "\<not> bit (fst f) 1" "\<not> bit (fst f) 23"
    using assms and_3_bits [of "fst f"] by (auto simp: frag_ok_def and_bit)
  have k: "k < 23 \<Longrightarrow> \<not> 2 \<le> k \<Longrightarrow> \<not> bit (fst f) k" for k using a by (cases "k = 0"; cases "k = 1") auto
  show "take_bit 23 (phys (fst f)) = take_bit 23 (fst f)"
    by (rule bit_word_eqI) (use k in \<open>auto simp: bit_take_bit_iff bit_phys\<close>)
  show "take_bit 23 (link f) = take_bit 23 (fst f)" if "\<not> big (snd f)"
    by (rule bit_word_eqI) (use that in \<open>auto simp: bit_take_bit_iff bit_link\<close>)
qed

lemma node_words_hdr:
  assumes "frag_ok (a, n)" "(l :: u32) AND 0xffffff = l"
  shows "node_words (over n) (hdr n l) = n" "hdr n l AND 0xffffff = l" "\<not> over n \<Longrightarrow> drop_bit 24 (hdr n l) = n"
proof -
  note h = hdr_parts [OF cnt_less [OF assms(1)] assms(2)]
  show "hdr n l AND 0xffffff = l" "\<not> over n \<Longrightarrow> drop_bit 24 (hdr n l) = n" using h by (simp_all add: hdr_def cnt_def)
  show "node_words (over n) (hdr n l) = n"
  proof (cases "over n")
    case True
    then have "n AND 15 = 0" using assms(1) by (auto simp: frag_ok_def over_def)
    moreover have "(15 :: u32) = mask 4" by (simp add: mask_eq_exp_minus_1)
    ultimately have "take_bit 4 n = 0" by (simp add: take_bit_eq_mask)
    then have "push_bit 4 (drop_bit 4 n) = n" using bits_ident [of 4 n] by simp
    then show ?thesis using h True by (simp add: hdr_def node_words_def cnt_def c_oversizedShift_def)
  next
    case False
    then show ?thesis using h by (simp add: hdr_def node_words_def cnt_def)
  qed
qed

section \<open>A chain in memory\<close>

fun chained :: "memory \<Rightarrow> frag list \<Rightarrow> bool" where
  "chained mem [] = True"
| "chained mem (f # fs) = (mem (phys (fst f)) = hdr (snd f) (lnk fs) \<and> chained mem fs)"

definition words_of :: "memory \<Rightarrow> frag \<Rightarrow> u32 list" where
  "words_of mem f = payload mem (fst f + 4) (unat (snd f))"

lemma lnk_mask: "list_all frag_ok fs \<Longrightarrow> lnk fs AND 0xffffff = lnk fs"
  using link_parts(1) by (cases fs) auto

lemma lnk_stop: "list_all frag_ok fs \<Longrightarrow> lnk fs AND 0x800000 \<noteq> 0 \<longleftrightarrow> fs = [] \<or> big (snd (hd fs))"
  using link_parts(2) by (cases fs) auto

text \<open>The engine, from a small fragment on: it sends it and the small ones behind it, and stops at the end or before a big one.\<close>

lemma linked_run:
  assumes "list_all frag_ok (f # fs)" "chained mem (f # fs)" "\<not> big (snd f)" "length fs < fuel"
    "take_bit 23 a = take_bit 23 (fst f)"
  shows "\<exists>run rest. fs = run @ rest \<and> linked fuel mem a = Some (concat (map (words_of mem) (f # run)), lnk rest) \<and> (rest = [] \<or> big (snd (hd rest)))"
  using assms
proof (induction fs arbitrary: f fuel a)
  case Nil
  obtain fu where fu: "fuel = Suc fu" using Nil.prems(4) by (cases fuel) auto
  have "phys a = phys (fst f)" using phys_add [OF Nil.prems(5), of 0] by simp
  moreover have "\<not> over (snd f)" using Nil.prems(3) over_big by blast
  ultimately show ?case
    using Nil.prems node_words_hdr(2,3) [of "fst f" "snd f" "0xffffff"] payload_window [OF Nil.prems(5), of mem 4]
    by (simp add: fu words_of_def Let_def)
next
  case (Cons h fs)
  obtain fu where fu: "fuel = Suc fu" using Cons.prems(4) by (cases fuel) auto
  have pa: "phys a = phys (fst f)" using phys_add [OF Cons.prems(5), of 0] by simp
  have no: "\<not> over (snd f)" using Cons.prems(3) over_big by blast
  have hok: "frag_ok h" using Cons.prems(1) by simp
  have head: "mem (phys a) = hdr (snd f) (link h)" using Cons.prems(2) by (simp add: pa)
  note parts = node_words_hdr(2,3) [of "fst f" "snd f" "link h"] link_parts [OF hok]
  have w: "payload mem (a + 4) (unat (drop_bit 24 (mem (phys a)))) = words_of mem f"
    using parts no Cons.prems(1) payload_window [OF Cons.prems(5), of mem 4] by (simp add: head words_of_def)
  have n: "mem (phys a) AND 0xffffff = link h" using parts Cons.prems(1) by (simp add: head)
  show ?case
  proof (cases "big (snd h)")
    case True
    then have "linked fuel mem a = Some (words_of mem f, link h)" using w n parts(4) by (simp add: fu Let_def)
    then show ?thesis using True by (intro exI [of _ "[]"] exI [of _ "h # fs"]) simp
  next
    case False
    obtain run rest where r: "fs = run @ rest" "linked fu mem (link h) = Some (concat (map (words_of mem) (h # run)), lnk rest)" "rest = [] \<or> big (snd (hd rest))"
      using Cons.IH [of h fu "link h"] Cons.prems False window(2) [OF hok False] by (auto simp: fu)
    have "linked fuel mem a = Some (concat (map (words_of mem) (f # h # run)), lnk rest)"
      using w n parts(4) False r(2) by (simp add: fu Let_def)
    then show ?thesis using r(1,3) by (intro exI [of _ "h # run"] exI [of _ rest]) simp
  qed
qed

lemma chained_suffix: "chained mem (xs @ ys) \<Longrightarrow> chained mem ys"
  by (induction xs) auto

section \<open>Transfers and interrupts\<close>

text \<open>The first of the fragments is being sent, or the engine has it as the start of a run.\<close>

definition sending :: "gpu \<Rightarrow> memory \<Rightarrow> frag list \<Rightarrow> gpu \<Rightarrow> bool" where
  "sending g0 mem fs g \<longleftrightarrow> running g = GpuJob \<and> gmem g = mem \<and> m_dmaCallback g = m_dmaCallback g0 \<and> m_fromISR g = m_fromISR g0 \<and>
     m_OTCs g = m_OTCs g0 \<and> m_parity g = m_parity g0 \<and> cb_calls g = cb_calls g0 \<and> cb_queue g = cb_queue g0 \<and> \<not> m_flushCacheAfterDMA g \<and>
     (case fs of [] \<Rightarrow> False
      | f # rest \<Rightarrow>
          if big (snd f) then chcr g = 0x01000201 \<and> take_bit 23 (madr g) = take_bit 23 (fst f + 4) \<and> bcr g = push_bit 16 (snd f) OR 1 \<and>
            m_chainNext g = (if rest = [] then 0 else phys (fst (hd rest))) \<and> (m_chainNextOversized g \<longleftrightarrow> rest \<noteq> [] \<and> over (snd (hd rest)))
          else chcr g = 0x01000401 \<and> take_bit 23 (madr g) = take_bit 23 (fst f))"

text \<open>Nothing is left but the end of the transfer.\<close>

definition sent :: "gpu \<Rightarrow> memory \<Rightarrow> gpu \<Rightarrow> bool" where
  "sent g0 mem g \<longleftrightarrow> running g = NoJob \<and> gmem g = mem \<and> m_dmaCallback g = m_dmaCallback g0 \<and> m_fromISR g = m_fromISR g0 \<and>
     m_OTCs g = m_OTCs g0 \<and> m_parity g = m_parity g0 \<and> cb_calls g = cb_calls g0 \<and> cb_queue g = cb_queue g0"

lemma bcr_words:
  assumes "unat n < 65536"
  shows "drop_bit 16 (push_bit 16 n OR 1) = (n :: u32)" "(push_bit 16 n OR 1) AND 0xffff = (1 :: u32)"
proof -
  have "n < 2 ^ 16" using assms by (simp add: word_less_nat_alt)
  then have t: "take_bit 16 n = n" by (simp add: take_bit_eq_mod word_unat_eq_iff unat_mod word_less_nat_alt)
  show "drop_bit 16 (push_bit 16 n OR 1) = n"
  proof (rule bit_word_eqI)
    fix k assume "k < LENGTH(32)"
    have "bit n k \<longrightarrow> k < 16" using t by (metis bit_take_bit_iff)
    then show "bit (drop_bit 16 (push_bit 16 n OR 1)) k = bit n k"
      by (auto simp: bit_drop_bit_eq bit_or_iff bit_push_bit_iff bit_1_iff add.commute)
  qed
  have m: "(0xffff :: u32) = mask 16" by (simp add: mask_eq_exp_minus_1)
  show "(push_bit 16 n OR 1) AND 0xffff = 1"
    unfolding m take_bit_eq_mask [symmetric] by (simp add: take_bit_push_bit take_bit_or)
qed

lemma frag_words: "frag_ok f \<Longrightarrow> unat (snd f) < 65536"
  using le_less_trans [of "unat (snd f)" 4080 65536] by (auto simp: frag_ok_def word_le_nat_alt)

lemma next_node_link:
  assumes "list_all frag_ok fs" "h AND 0xffffff = lnk fs"
  shows "m_chainNext (next_node h g) = (if fs = [] then 0 else phys (fst (hd fs)))"
    "m_chainNextOversized (next_node h g) \<longleftrightarrow> fs \<noteq> [] \<and> over (snd (hd fs))"
    "\<exists>c v. next_node h g = g\<lparr>m_chainNext := c, m_chainNextOversized := v\<rparr>"
proof -
  show "\<exists>c v. next_node h g = g\<lparr>m_chainNext := c, m_chainNextOversized := v\<rparr>"
    unfolding next_node_def Let_def by (cases "h AND 0xffffff = 0xffffff") auto
  show "m_chainNext (next_node h g) = (if fs = [] then 0 else phys (fst (hd fs)))"
    "m_chainNextOversized (next_node h g) \<longleftrightarrow> fs \<noteq> [] \<and> over (snd (hd fs))"
    using assms link_parts [of "hd fs"] by (cases fs; simp add: next_node_def)+
qed

text \<open>Starting a big fragment and starting a run, from the state in which nothing runs.\<close>

lemma start_big:
  assumes "list_all frag_ok (f # rest)" "big (snd f)" "sent g0 mem g" "\<not> m_flushCacheAfterDMA g"
    "take_bit 23 p = take_bit 23 (fst f + 4)" "h AND 0xffffff = lnk rest"
  shows "\<exists>g'. scheduleNormalDMA p (snd f) (next_node h g) = Some g' \<and> sending g0 mem (f # rest) g' \<and> gp0 g' = gp0 g"
proof -
  have rest: "list_all frag_ok rest" using assms(1) by simp
  obtain c v where n: "next_node h g = g\<lparr>m_chainNext := c, m_chainNextOversized := v\<rparr>" using next_node_link(3) [OF rest assms(6)] by blast
  then have "c = (if rest = [] then 0 else phys (fst (hd rest)))" "v \<longleftrightarrow> rest \<noteq> [] \<and> over (snd (hd rest))"
    using next_node_link(1,2) [OF rest assms(6), of g] by simp_all
  moreover have "\<not> 65536 \<le> snd f" using frag_words [of f] assms(1) by (simp add: word_le_nat_alt)
  ultimately show ?thesis using assms(2-5)
    by (simp add: scheduleNormalDMA_def n busy_def sent_def sending_def control_def)
qed

lemma start_run:
  assumes "\<not> big (snd f)" "sent g0 mem g" "\<not> m_flushCacheAfterDMA g" "take_bit 23 p = take_bit 23 (fst f)"
  shows "\<exists>g'. scheduleChainedDMA p g = Some g' \<and> sending g0 mem (f # rest) g' \<and> gp0 g' = gp0 g"
  using assms by (simp add: scheduleChainedDMA_def busy_def sent_def sending_def control_def)

text \<open>One transfer and its interrupt: either the next fragments are started, or only the end of the transfer is left.\<close>

lemma sending_step:
  assumes "list_all frag_ok fs" "chained mem fs" "sending g0 mem fs g" "length fs \<le> fuel"
  shows "\<exists>pre rest g1. fs = pre @ rest \<and> pre \<noteq> [] \<and> gp0 g1 = gp0 g @ concat (map (words_of mem) pre) \<and> \<not> m_flushCacheAfterDMA g1 \<and>
    (if rest = [] then sent g0 mem g1 \<and> transfer fuel g = dma_finished g1 else sending g0 mem rest g1 \<and> transfer fuel g = Some g1)"
proof -
  obtain f rest where fs: "fs = f # rest" using assms(3) by (cases fs) (auto simp: sending_def)
  have ok: "frag_ok f" "list_all frag_ok rest" "chained mem rest" and head: "mem (phys (fst f)) = hdr (snd f) (lnk rest)"
    using assms(1,2) by (auto simp: fs)
  show ?thesis
  proof (cases "big (snd f)")
    case True
    note s = assms(3) [unfolded sending_def fs list.case if_P [OF True]]
    define g1 where "g1 = g\<lparr>gp0 := gp0 g @ words_of mem f, madr := madr g + 4 * of_nat (unat (snd f)), running := NoJob\<rparr>"
    have pw: "payload mem (madr g + 0) (unat (snd f)) = payload mem (fst f + 4 + 0) (unat (snd f))" using payload_window s by blast
    have e: "engine fuel g = Some g1"
      using s bcr_words [OF frag_words [OF ok(1)]] pw by (simp add: engine_def g1_def words_of_def Let_def)
    have st: "sent g0 mem g1" "\<not> m_flushCacheAfterDMA g1" "gp0 g1 = gp0 g @ words_of mem f" using s by (simp_all add: sent_def g1_def)
    have mode: "drop_bit 9 (chcr g1 AND 0x00000600) = 1" using s by (simp add: g1_def drop_bit_eq_div)
    have tr: "transfer fuel g = gpu_dma_event g1" using s e by (simp add: transfer_def)
    show ?thesis
    proof (cases rest)
      case Nil
      then have "m_chainNext g1 = 0" using s by (simp add: g1_def)
      then have "gpu_dma_event g1 = dma_finished g1" using mode by (simp add: gpu_dma_event_def Let_def)
      then show ?thesis using st tr Nil by (intro exI [of _ "[f]"] exI [of _ "[]"] exI [of _ g1]) (simp add: fs)
    next
      case (Cons h rest')
      have hok: "frag_ok h" "list_all frag_ok rest'" using ok(2) Cons by auto
      have n: "m_chainNext g1 = phys (fst h)" "m_chainNextOversized g1 \<longleftrightarrow> over (snd h)" using s Cons by (simp_all add: g1_def)
      have nz: "phys (fst h) \<noteq> 0" using hok(1) by (simp add: frag_ok_def)
      have ld: "load g1 (phys (fst h)) = hdr (snd h) (lnk rest')" using ok(3) Cons st(1) by (simp add: load_def sent_def)
      have nw: "node_words (over (snd h)) (hdr (snd h) (lnk rest')) = snd h" "hdr (snd h) (lnk rest') AND 0xffffff = lnk rest'"
        using node_words_hdr(1,2) [of "fst h" "snd h" "lnk rest'"] hok lnk_mask [OF hok(2)] by auto
      have bigc: "(over (snd h) \<or> snd h > c_chainThreshold div 4) \<longleftrightarrow> big (snd h)" using over_big [of "snd h"] by (auto simp: big_def gpu_consts)
      have tb: "take_bit 23 (phys (fst h) + 4) = take_bit 23 (fst h + 4)" "take_bit 23 (phys (fst h)) = take_bit 23 (fst h)"
        using window(1) [OF hok(1)] take_bit_shift [of "phys (fst h)" "fst h" 4] by simp_all
      have "\<exists>g2. gpu_dma_event g1 = Some g2 \<and> sending g0 mem rest g2 \<and> gp0 g2 = gp0 g1"
      proof (cases "big (snd h)")
        case True
        then show ?thesis
          using start_big [of h rest' g0 mem g1 "phys (fst h) + 4" "hdr (snd h) (lnk rest')"] hok st(1,2) tb(1) nw(2) mode n nz ld nw(1) bigc Cons
          by (simp add: gpu_dma_event_def Let_def)
      next
        case False
        have "sent g0 mem (g1\<lparr>m_chainNext := 0, m_chainNextOversized := False\<rparr>)" using st(1) by (simp add: sent_def)
        then show ?thesis
          using start_run [of h g0 mem "g1\<lparr>m_chainNext := 0, m_chainNextOversized := False\<rparr>" "phys (fst h)" rest'] False st(2) tb(2) mode n nz ld nw(1) bigc Cons
          by (simp add: gpu_dma_event_def Let_def)
      qed
      then obtain g2 where g2: "gpu_dma_event g1 = Some g2" "sending g0 mem rest g2" "gp0 g2 = gp0 g1" by blast
      then have "\<not> m_flushCacheAfterDMA g2" by (simp add: sending_def)
      then show ?thesis using g2 st(3) tr Cons by (intro exI [of _ "[f]"] exI [of _ rest] exI [of _ g2]) (simp add: fs)
    qed
  next
    case False
    note s = assms(3) [unfolded sending_def fs list.case if_not_P [OF False]]
    obtain run more where r: "rest = run @ more" "linked fuel mem (madr g) = Some (concat (map (words_of mem) (f # run)), lnk more)"
        "more = [] \<or> big (snd (hd more))"
      using linked_run [of f rest mem fuel "madr g"] assms(1,2,4) False s by (auto simp: fs)
    define g1 where "g1 = g\<lparr>gp0 := gp0 g @ concat (map (words_of mem) (f # run)), madr := lnk more, running := NoJob\<rparr>"
    have e: "engine fuel g = Some g1" using s r(2) by (simp add: engine_def g1_def)
    have st: "sent g0 mem g1" "\<not> m_flushCacheAfterDMA g1" "gp0 g1 = gp0 g @ concat (map (words_of mem) (f # run))" using s by (simp_all add: sent_def g1_def)
    have mode: "drop_bit 9 (chcr g1 AND 0x00000600) = 2" using s by (simp add: g1_def drop_bit_eq_div)
    have tr: "transfer fuel g = gpu_dma_event g1" using s e by (simp add: transfer_def)
    show ?thesis
    proof (cases more)
      case Nil
      then have "gpu_dma_event g1 = dma_finished g1" using mode by (simp add: gpu_dma_event_def Let_def g1_def)
      then show ?thesis using st tr Nil r(1) by (intro exI [of _ "f # run"] exI [of _ "[]"] exI [of _ g1]) (simp add: fs)
    next
      case (Cons h more')
      have hok: "frag_ok h" "list_all frag_ok more'" and hb: "big (snd h)" using ok(2) r(1,3) Cons by auto
      note l = link_parts [OF hok(1)]
      have ch: "chained mem more" using ok(3) chained_suffix r(1) by blast
      have ld: "load g1 (phys (fst h) OR 0x80000000) = hdr (snd h) (lnk more')" using ch Cons st(1) by (simp add: load_def sent_def)
      have nw: "node_words (over (snd h)) (hdr (snd h) (lnk more')) = snd h" "hdr (snd h) (lnk more') AND 0xffffff = lnk more'"
        using node_words_hdr(1,2) [of "fst h" "snd h" "lnk more'"] hok lnk_mask [OF hok(2)] by auto
      have tb: "take_bit 23 (phys (fst h) + 4) = take_bit 23 (fst h + 4)"
        using window(1) [OF hok(1)] take_bit_shift [of "phys (fst h)" "fst h" 4] by simp
      obtain g2 where g2: "scheduleNormalDMA (phys (fst h) + 4) (snd h) (next_node (hdr (snd h) (lnk more')) g1) = Some g2"
          "sending g0 mem (h # more') g2" "gp0 g2 = gp0 g1"
        using start_big [of h more' g0 mem g1 "phys (fst h) + 4" "hdr (snd h) (lnk more')"] hok hb st(1,2) tb nw(2) by auto
      have "madr g1 = link h" by (simp add: g1_def Cons)
      then have "gpu_dma_event g1 = Some g2" using mode l(3-5) ld nw(1) g2(1) by (simp add: gpu_dma_event_def Let_def)
      moreover have "\<not> m_flushCacheAfterDMA g2" using g2(2) by (simp add: sending_def)
      ultimately show ?thesis using g2 st(3) tr r(1) Cons by (intro exI [of _ "f # run"] exI [of _ more] exI [of _ g2]) (simp add: fs)
    qed
  qed
qed

end
