(* ===== verification/Gpu_Done.thy ===== *)
theory Gpu_Done
  imports Gpu_Sent
begin

text \<open>The end of a transfer, the building of a chain, and what sending it does as a whole.\<close>

section \<open>The end of a transfer\<close>

definition cleared :: "memory \<Rightarrow> (u32 \<times> u32) list \<Rightarrow> memory" where
  "cleared mem otcs = foldl (\<lambda>mem (start, count). clear_entries (unat count) start mem) mem otcs"

text \<open>The transfer of \<open>g0\<close> is over: its callback was called or queued, once, and the ordering tables are cleared.\<close>

definition all_done :: "gpu \<Rightarrow> nat \<Rightarrow> memory \<Rightarrow> u32 list \<Rightarrow> gpu \<Rightarrow> bool" where
  "all_done g0 cb mem words g \<longleftrightarrow> running g = NoJob \<and> m_dmaCallback g = None \<and> gmem g = mem \<and> gp0 g = words \<and>
     m_OTCs g (\<not> m_parity g0) = [] \<and>
     (if m_fromISR g0 then cb_calls g = cb_calls g0 @ [cb] \<and> cb_queue g = cb_queue g0
      else cb_calls g = cb_calls g0 \<and> cb_queue g = cb_queue g0 @ [cb])"

lemma otc_loop:
  assumes "m_dmaCallback g = Some cb" "running g = NoJob" "m_OTCs g (\<not> m_parity g) = otcs" "length otcs \<le> fuel"
  shows "\<exists>g1 g2. checkOTCAndTriggerCallback g = Some g1 \<and> transfers fuel g1 = Some g2 \<and> all_done g cb (cleared (gmem g) otcs) (gp0 g) g2"
  using assms
proof (induction otcs arbitrary: g fuel)
  case Nil
  then have "\<exists>g1. checkOTCAndTriggerCallback g = Some g1 \<and> running g1 = NoJob \<and> all_done g cb (cleared (gmem g) []) (gp0 g) g1"
    by (simp add: checkOTCAndTriggerCallback_def all_done_def cleared_def)
  then obtain g1 where "checkOTCAndTriggerCallback g = Some g1" "running g1 = NoJob" "all_done g cb (cleared (gmem g) []) (gp0 g) g1" by blast
  moreover from this have "transfers fuel g1 = Some g1" by (cases fuel) auto
  ultimately show ?case by blast
next
  case (Cons x otcs)
  obtain start count where x: "x = (start, count)" by (cases x)
  obtain fu where fu: "fuel = Suc fu" using Cons.prems(4) by (cases fuel) auto
  define g1 where "g1 = g\<lparr>m_OTCs := (m_OTCs g)(\<not> m_parity g := otcs), madr := start, bcr := count, running := OtcJob\<rparr>"
  define g2 where "g2 = g1\<lparr>gmem := clear_entries (unat count) start (gmem g), running := NoJob\<rparr>"
  have c: "checkOTCAndTriggerCallback g = Some g1" using Cons.prems(3) by (simp add: checkOTCAndTriggerCallback_def g1_def x)
  have t: "transfer fu g1 = checkOTCAndTriggerCallback g2" by (simp add: transfer_def engine_def g1_def g2_def)
  have p: "m_dmaCallback g2 = Some cb" "running g2 = NoJob" "m_OTCs g2 (\<not> m_parity g2) = otcs" "length otcs \<le> fu"
    using Cons.prems fu by (simp_all add: g1_def g2_def)
  obtain g3 g4 where g: "checkOTCAndTriggerCallback g2 = Some g3" "transfers fu g3 = Some g4" "all_done g2 cb (cleared (gmem g2) otcs) (gp0 g2) g4"
    using Cons.IH [OF p] by blast
  have "transfers fuel g1 = Some g4" using t g(1,2) by (simp add: fu g1_def)
  moreover have "all_done g cb (cleared (gmem g) (x # otcs)) (gp0 g) g4" using g(3) by (simp add: all_done_def g1_def g2_def cleared_def x)
  ultimately show ?case using c by blast
qed

lemma sending_all:
  assumes "list_all frag_ok fs" "chained mem fs" "sending g0 mem fs g" "m_dmaCallback g0 = Some cb" "m_OTCs g0 (\<not> m_parity g0) = otcs"
    "length fs + length otcs < fuel"
  shows "\<exists>g'. transfers fuel g = Some g' \<and> all_done g0 cb (cleared mem otcs) (gp0 g @ concat (map (words_of mem) fs)) g'"
  using assms(1-3,6)
proof (induction "length fs" arbitrary: fs g fuel rule: less_induct)
  case less
  obtain fu where fu: "fuel = Suc fu" using less.prems(4) by (cases fuel) auto
  have run: "running g \<noteq> NoJob" using less.prems(3) by (simp add: sending_def)
  have lf: "length fs \<le> fu" using less.prems(4) fu by simp
  obtain pre rest g1 where s: "fs = pre @ rest" "pre \<noteq> []" "gp0 g1 = gp0 g @ concat (map (words_of mem) pre)" "\<not> m_flushCacheAfterDMA g1"
      "if rest = [] then sent g0 mem g1 \<and> transfer fu g = dma_finished g1 else sending g0 mem rest g1 \<and> transfer fu g = Some g1"
    using sending_step [OF less.prems(1-3) lf] by blast
  show ?case
  proof (cases "rest = []")
    case True
    define g2 where "g2 = control 0x04000001 g1"
    have st: "sent g0 mem g2" "gp0 g2 = gp0 g1" using s(5) True by (simp_all add: g2_def control_def sent_def)
    have "dma_finished g1 = checkOTCAndTriggerCallback g2" using s(4) by (simp add: dma_finished_def g2_def control_def)
    moreover obtain g3 g4 where g: "checkOTCAndTriggerCallback g2 = Some g3" "transfers fu g3 = Some g4" "all_done g2 cb (cleared (gmem g2) otcs) (gp0 g2) g4"
      using otc_loop [of g2 cb otcs fu] st(1) assms(4,5) less.prems(4) fu by (auto simp: sent_def)
    moreover have "all_done g0 cb (cleared mem otcs) (gp0 g @ concat (map (words_of mem) fs)) g4"
      using g(3) st s(1,3) True by (simp add: all_done_def sent_def)
    ultimately show ?thesis using s(5) True run by (auto simp: fu)
  next
    case False
    have pre: "length rest < length fs" "length rest + length otcs < fu" using s(1,2) less.prems(4) fu by (cases pre; simp)+
    have ch: "chained mem rest" using less.prems(2) chained_suffix s(1) by blast
    obtain g' where "transfers fu g1 = Some g'" "all_done g0 cb (cleared mem otcs) (gp0 g1 @ concat (map (words_of mem) rest)) g'"
      using less.hyps [OF pre(1) _ ch _ pre(2), of g1] s(1,5) less.prems(1) False by auto
    then show ?thesis using s(1,3,5) False run by (auto simp: fu)
  qed
qed

section \<open>Building a chain\<close>

fun chain_all :: "frag list \<Rightarrow> gpu \<Rightarrow> gpu option" where
  "chain_all [] g = Some g"
| "chain_all (f # fs) g = do { g \<leftarrow> chain_fragment (fst f) (snd f) g; chain_all fs g }"

lemma chain_all_snoc: "chain_all (fs @ [f]) g = do { g \<leftarrow> chain_all fs g; chain_fragment (fst f) (snd f) g }"
  by (induction fs arbitrary: g) (auto split: bind_splits)

text \<open>Where the fragments are: the headers are words of their own, outside the words that are sent.\<close>

definition layout :: "frag list \<Rightarrow> bool" where
  "layout fs \<longleftrightarrow> distinct (map (\<lambda>f. phys (fst f)) fs) \<and>
     (\<forall>f\<in>set fs. \<forall>h\<in>set fs. list_all (\<lambda>i. phys (fst f) \<noteq> phys (fst h + 4 + 4 * of_nat i)) [0..<unat (snd h)])"

text \<open>Nothing but headers changes, and all headers but the last are written.\<close>

definition built :: "gpu \<Rightarrow> frag list \<Rightarrow> gpu \<Rightarrow> bool" where
  "built g0 fs g \<longleftrightarrow> fs \<noteq> [] \<and> m_chainHead g = fst (hd fs) \<and> (m_chainHeadOversized g \<longleftrightarrow> over (snd (hd fs))) \<and>
     m_chainTail g = fst (last fs) \<and> m_chainTailCount g = push_bit 24 (cnt (snd (last fs))) \<and>
     chained ((gmem g)(phys (fst (last fs)) := hdr (snd (last fs)) 0xffffff)) fs \<and>
     (\<forall>a. a \<notin> phys ` fst ` set fs \<longrightarrow> gmem g a = gmem g0 a) \<and>
     (\<exists>h ov t c mem. g = g0\<lparr>gmem := mem, m_chainHead := h, m_chainTail := t, m_chainTailCount := c, m_chainHeadOversized := ov\<rparr>)"

lemma chained_other: "a \<notin> phys ` fst ` set ys \<Longrightarrow> chained (mem(a := v)) ys = chained mem ys"
  by (induction ys) auto

lemma chained_upd:
  "phys (fst f) \<notin> phys ` fst ` set fs \<Longrightarrow> lnk ys = l \<Longrightarrow> chained (mem(phys (fst f) := hdr (snd f) 0xffffff)) (fs @ [f]) \<Longrightarrow> chained mem ys \<Longrightarrow>
    phys (fst f) \<notin> phys ` fst ` set ys \<Longrightarrow> chained (mem(phys (fst f) := hdr (snd f) l)) (fs @ f # ys)"
proof (induction fs)
  case Nil
  have "chained (mem(phys (fst f) := hdr (snd f) l)) ys" using chained_other [OF Nil(5)] Nil(4) by blast
  then show ?case using Nil(2) by (simp only: append_Nil chained.simps fun_upd_same)
next
  case (Cons x fs)
  moreover have "lnk (fs @ f # ys) = lnk (fs @ [f])" by (cases fs) auto
  ultimately show ?case by auto
qed

lemma chain_count:
  assumes "frag_ok f"
  shows "\<not> (snd f > c_maxNodeWords \<and> (snd f AND (c_oversizedGranularity - 1) \<noteq> 0 \<or> snd f > c_maxOversizedWords))"
    "(over (snd f) \<or> cnt (snd f) > c_chainThreshold div 4) \<longleftrightarrow> big (snd f)"
  using assms over_big [of "snd f"] by (auto simp: gpu_consts frag_ok_def cnt_def over_def big_def not_less)

lemma chain_step:
  assumes "frag_ok f"
  shows "chain_fragment (fst f) (snd f) g =
    (let g = (if m_chainHead g = 0 then g\<lparr>m_chainHead := fst f, m_chainHeadOversized := over (snd f)\<rparr>
              else store (m_chainTail g) (m_chainTailCount g OR link f) g)
     in Some (g\<lparr>m_chainTail := fst f, m_chainTailCount := push_bit 24 (cnt (snd f))\<rparr>))"
proof -
  note c = chain_count [OF assms]
  have o: "snd f > c_maxNodeWords \<longleftrightarrow> over (snd f)" by (simp add: over_def c_maxNodeWords_def)
  have n: "(if over (snd f) then drop_bit c_oversizedShift (snd f) else snd f) = cnt (snd f)" by (simp add: cnt_def c_oversizedShift_def)
  have l: "(if over (snd f) \<or> cnt (snd f) > c_chainThreshold div 4
      then (t OR (fst f AND 0xffffff)) OR 0x00800000 OR (if over (snd f) then 1 else 0) else t OR (fst f AND 0xffffff)) = t OR link f" for t
    unfolding c(2) by (simp add: link_def or.assoc)
  show ?thesis using c(1) unfolding chain_fragment_def chain_def Let_def o n l by simp
qed

lemma built_step:
  assumes "built g0 (fs @ [f]) g" "frag_ok h" "distinct (map (\<lambda>f. phys (fst f)) (fs @ [f, h]))" "list_all frag_ok (fs @ [f])"
  shows "\<exists>g'. chain_fragment (fst h) (snd h) g = Some g' \<and> built g0 (fs @ [f, h]) g'"
proof -
  note b = assms(1) [unfolded built_def]
  have hd: "m_chainHead g \<noteq> 0"
  proof -
    have "frag_ok (hd (fs @ [f]))" using assms(4) by (cases fs) auto
    then have "phys (fst (hd (fs @ [f]))) \<noteq> 0" by (simp add: frag_ok_def)
    then show ?thesis using b by (auto simp: phys_def)
  qed
  have t: "m_chainTail g = fst f" "m_chainTailCount g = push_bit 24 (cnt (snd f))" using b by simp_all
  have d: "phys (fst h) \<notin> phys ` fst ` set (fs @ [f])" "phys (fst f) \<notin> phys ` fst ` set fs" "phys (fst f) \<noteq> phys (fst h)"
    using assms(3) by (auto simp: image_image)
  define g' where "g' = (store (fst f) (hdr (snd f) (link h)) g)\<lparr>m_chainTail := fst h, m_chainTailCount := push_bit 24 (cnt (snd h))\<rparr>"
  have "chain_fragment (fst h) (snd h) g = Some g'" using chain_step [OF assms(2)] hd t by (simp add: g'_def hdr_def Let_def)
  moreover have "built g0 (fs @ [f, h]) g'"
  proof -
    have mem: "gmem g' = (gmem g)(phys (fst f) := hdr (snd f) (link h))" by (simp add: g'_def store_def)
    have "chained ((gmem g)(phys (fst f) := hdr (snd f) 0xffffff)) (fs @ [f])" using b by simp
    then have "chained (((gmem g)(phys (fst h) := hdr (snd h) 0xffffff))(phys (fst f) := hdr (snd f) 0xffffff)) (fs @ [f])"
      using chained_other [OF d(1), of "(gmem g)(phys (fst f) := hdr (snd f) 0xffffff)" "hdr (snd h) 0xffffff"] d(3) by (simp add: fun_upd_twist)
    then have "chained (((gmem g)(phys (fst h) := hdr (snd h) 0xffffff))(phys (fst f) := hdr (snd f) (link h))) (fs @ f # [h])"
      using chained_upd [of f fs "[h]" "link h" "(gmem g)(phys (fst h) := hdr (snd h) 0xffffff)", OF d(2)] d(3) by simp
    then have "chained ((gmem g')(phys (fst h) := hdr (snd h) 0xffffff)) (fs @ [f, h])"
      unfolding mem using fun_upd_twist [OF d(3), of "gmem g" "hdr (snd f) (link h)" "hdr (snd h) 0xffffff"] by simp
    moreover have "hd (fs @ [f, h]) = hd (fs @ [f])" by (cases fs) auto
    moreover have "gmem g' a = gmem g0 a" if a: "a \<notin> phys ` fst ` set (fs @ [f, h])" for a
    proof -
      have "a \<notin> phys ` fst ` set (fs @ [f])" "a \<noteq> phys (fst f)" using a by auto
      moreover have "\<forall>a. a \<notin> phys ` fst ` set (fs @ [f]) \<longrightarrow> gmem g a = gmem g0 a" using b by blast
      ultimately show ?thesis unfolding mem by (metis fun_upd_apply)
    qed
    moreover have "\<exists>h' ov t c mem. g' = g0\<lparr>gmem := mem, m_chainHead := h', m_chainTail := t, m_chainTailCount := c, m_chainHeadOversized := ov\<rparr>"
    proof -
      obtain h0 ov t0 c mem0 where "g = g0\<lparr>gmem := mem0, m_chainHead := h0, m_chainTail := t0, m_chainTailCount := c, m_chainHeadOversized := ov\<rparr>"
        using b by blast
      then have "g' = g0\<lparr>gmem := gmem g', m_chainHead := h0, m_chainTail := fst h, m_chainTailCount := push_bit 24 (cnt (snd h)), m_chainHeadOversized := ov\<rparr>"
        by (simp add: g'_def store_def)
      then show ?thesis by blast
    qed
    ultimately show ?thesis using b by (simp add: built_def g'_def store_def)
  qed
  ultimately show ?thesis by blast
qed

lemma built_all:
  assumes "fs \<noteq> []" "list_all frag_ok fs" "distinct (map (\<lambda>f. phys (fst f)) fs)" "m_chainHead g0 = 0"
  shows "\<exists>g. chain_all fs g0 = Some g \<and> built g0 fs g"
  using assms(1-3)
proof (induction fs rule: rev_induct)
  case Nil
  then show ?case by simp
next
  case (snoc h fs)
  have h: "frag_ok h" using snoc.prems(2) by simp
  show ?case
  proof (cases fs rule: rev_cases)
    case Nil
    define g where "g = g0\<lparr>m_chainHead := fst h, m_chainHeadOversized := over (snd h), m_chainTail := fst h, m_chainTailCount := push_bit 24 (cnt (snd h))\<rparr>"
    have "chain_all (fs @ [h]) g0 = Some g" using chain_step [OF h] assms(4) Nil by (simp add: g_def Let_def)
    moreover have "\<exists>h' ov t c mem. g = g0\<lparr>gmem := mem, m_chainHead := h', m_chainTail := t, m_chainTailCount := c, m_chainHeadOversized := ov\<rparr>"
      unfolding g_def by (rule exI [of _ "fst h"], rule exI [of _ "over (snd h)"], rule exI [of _ "fst h"], rule exI [of _ "push_bit 24 (cnt (snd h))"], rule exI [of _ "gmem g0"]) simp
    ultimately show ?thesis using Nil by (simp add: built_def g_def)
  next
    case (snoc fs' f)
    obtain g where g: "chain_all fs g0 = Some g" "built g0 fs g" using snoc.IH snoc.prems snoc by auto
    have "distinct (map (\<lambda>f. phys (fst f)) (fs' @ [f, h]))" "list_all frag_ok (fs' @ [f])" using snoc.prems \<open>fs = fs' @ [f]\<close> by simp_all
    then obtain g' where "chain_fragment (fst h) (snd h) g = Some g'" "built g0 (fs' @ [f, h]) g'"
      using built_step [of g0 fs' f g h] h g(2) \<open>fs = fs' @ [f]\<close> by blast
    then show ?thesis using g(1) \<open>fs = fs' @ [f]\<close> chain_all_snoc [of "fs' @ [f]" h g0] by simp
  qed
qed

end
