(* ===== verification/Gpu_Contract.thy ===== *)
theory Gpu_Contract
  imports Gpu_Done
begin

text \<open>What a chain sends, with the ordering tables it leaves cleared.\<close>

section \<open>Chains\<close>

lemma words_kept:
  assumes "layout fs" "f \<in> set fs" "\<forall>a. a \<notin> phys ` fst ` set fs \<longrightarrow> mem a = mem0 a"
  shows "words_of mem f = words_of mem0 f"
proof -
  have "mem (phys (fst f + 4 + 4 * of_nat i)) = mem0 (phys (fst f + 4 + 4 * of_nat i))" if "i < unat (snd f)" for i
  proof -
    have ne: "phys (fst h) \<noteq> phys (fst f + 4 + 4 * of_nat i)" if "h \<in> set fs" for h
    proof -
      have l: "\<forall>h\<in>set fs. \<forall>f\<in>set fs. list_all (\<lambda>i. phys (fst h) \<noteq> phys (fst f + 4 + 4 * of_nat i)) [0..<unat (snd f)]"
        using assms(1) unfolding layout_def by (rule conjunct2)
      have "list_all (\<lambda>i. phys (fst h) \<noteq> phys (fst f + 4 + 4 * of_nat i)) [0..<unat (snd f)]"
        by (rule bspec [OF bspec [OF l that] assms(2)])
      then show ?thesis using \<open>i < unat (snd f)\<close> by (simp add: list_all_iff)
    qed
    have "phys (fst f + 4 + 4 * of_nat i) \<notin> phys ` fst ` set fs"
    proof
      assume "phys (fst f + 4 + 4 * of_nat i) \<in> phys ` fst ` set fs"
      then obtain h where "h \<in> set fs" "phys (fst f + 4 + 4 * of_nat i) = phys (fst h)" by (elim imageE) simp
      then show False using ne [of h] by metis
    qed
    then show ?thesis using assms(3) by blast
  qed
  then show ?thesis by (simp add: words_of_def payload_def)
qed

lemma send_built:
  assumes "built g0 fs g" "list_all frag_ok fs" "running g0 = NoJob" "m_dmaCallback g0 = None" "\<not> m_flushCacheAfterDMA g0"
  shows "\<exists>g1 g2 mem. sendChain cb kind g = Some g2 \<and> sending g1 mem fs g2 \<and> chained mem fs \<and> gp0 g2 = gp0 g0 \<and>
    m_dmaCallback g1 = Some cb \<and> m_OTCs g1 = m_OTCs g0 \<and> m_parity g1 = m_parity g0 \<and> (m_fromISR g1 \<longleftrightarrow> kind = FROM_ISR) \<and>
    cb_calls g1 = cb_calls g0 \<and> cb_queue g1 = cb_queue g0 \<and> (\<forall>a. a \<notin> phys ` fst ` set fs \<longrightarrow> mem a = gmem g0 a)"
proof -
  note b = assms(1) [unfolded built_def]
  obtain f rest where fs: "fs = f # rest" using b by (cases fs) auto
  have ok: "frag_ok f" "list_all frag_ok rest" using assms(2) fs by auto
  obtain h0 ov t0 c mem0 where g: "g = g0\<lparr>gmem := mem0, m_chainHead := h0, m_chainTail := t0, m_chainTailCount := c, m_chainHeadOversized := ov\<rparr>"
    using b by blast
  define mem where "mem = (gmem g)(phys (fst (last fs)) := hdr (snd (last fs)) 0xffffff)"
  have ch: "chained mem fs" using b by (simp add: mem_def)
  have other: "\<forall>a. a \<notin> phys ` fst ` set fs \<longrightarrow> mem a = gmem g0 a" using b by (auto simp: mem_def)
  define g1 where "g1 = (store (m_chainTail g) (m_chainTailCount g OR 0xffffff) g)
    \<lparr>m_chainHead := 0, m_chainTail := 0, m_fromISR := (kind = FROM_ISR), m_dmaCallback := Some cb\<rparr>"
  have m1: "gmem g1 = mem" using b by (simp add: g1_def store_def mem_def hdr_def)
  have st: "sent g1 mem g1" "\<not> m_flushCacheAfterDMA g1" "gp0 g1 = gp0 g0" using assms(3,5) by (simp_all add: sent_def m1) (simp_all add: g1_def store_def g)
  have hd: "m_chainHead g = fst f" "m_chainHeadOversized g1 \<longleftrightarrow> over (snd f)" "fst f AND 3 = 0"
    using b ok(1) by (simp_all add: fs g1_def store_def frag_ok_def)
  have ld: "load g1 (fst f) = hdr (snd f) (lnk rest)" using ch by (simp add: load_def m1 fs)
  have nw: "node_words (over (snd f)) (hdr (snd f) (lnk rest)) = snd f" "hdr (snd f) (lnk rest) AND 0xffffff = lnk rest"
    using node_words_hdr(1,2) [of "fst f" "snd f" "lnk rest"] ok lnk_mask [OF ok(2)] by auto
  have bigc: "(over (snd f) \<or> snd f > c_chainThreshold div 4) \<longleftrightarrow> big (snd f)" using over_big [of "snd f"] by (auto simp: big_def gpu_consts)
  have none: "m_dmaCallback (store (m_chainTail g) (m_chainTailCount g OR 0xffffff) g) = None" using assms(4) by (simp add: store_def g)
  have eq: "sendChain cb kind g = (if big (snd f) then scheduleNormalDMA (fst f + 4) (snd f) (next_node (hdr (snd f) (lnk rest)) g1)
      else scheduleChainedDMA (fst f) g1)"
    unfolding bigc [symmetric] using hd none ld nw(1) by (simp add: sendChain_def Let_def g1_def [symmetric])
  have "\<exists>g2. sendChain cb kind g = Some g2 \<and> sending g1 mem fs g2 \<and> gp0 g2 = gp0 g1"
  proof (cases "big (snd f)")
    case True
    then show ?thesis using start_big [of f rest g1 mem g1 "fst f + 4" "hdr (snd f) (lnk rest)"] assms(2) st nw(2) eq fs by simp
  next
    case False
    then show ?thesis using start_run [of f g1 mem g1 "fst f" rest] st eq fs by simp
  qed
  moreover have "m_dmaCallback g1 = Some cb" "m_OTCs g1 = m_OTCs g0" "m_parity g1 = m_parity g0" "m_fromISR g1 \<longleftrightarrow> kind = FROM_ISR"
    "cb_calls g1 = cb_calls g0" "cb_queue g1 = cb_queue g0"
    by (simp_all add: g1_def store_def g)
  ultimately show ?thesis using ch other st(3) by metis
qed

text \<open>C36: a chain of fragments of any sizes that can be chained, at separate places of the memory, is sent to the GPU as all
  their words in order, however the sizes split it between linked and block transfers; then the ordering tables that wait
  are cleared, the callback is called once (or queued once), and nothing runs.\<close>

theorem chain_sends_all:
  assumes "fs \<noteq> []" "list_all frag_ok fs" "layout fs" "m_chainHead g = 0" "running g = NoJob" "m_dmaCallback g = None"
    "\<not> m_flushCacheAfterDMA g" "otcs = m_OTCs g (\<not> m_parity g)"
  shows "\<exists>g1 g2 g3. chain_all fs g = Some g1 \<and> sendChain cb kind g1 = Some g2 \<and> transfers (length fs + length otcs + 1) g2 = Some g3 \<and>
    gp0 g3 = gp0 g @ concat (map (words_of (gmem g)) fs) \<and> running g3 = NoJob \<and> m_dmaCallback g3 = None \<and> m_OTCs g3 (\<not> m_parity g) = [] \<and>
    (\<exists>mem. gmem g3 = cleared mem otcs \<and> (\<forall>a. a \<notin> phys ` fst ` set fs \<longrightarrow> mem a = gmem g a)) \<and>
    (if kind = FROM_ISR then cb_calls g3 = cb_calls g @ [cb] \<and> cb_queue g3 = cb_queue g
     else cb_calls g3 = cb_calls g \<and> cb_queue g3 = cb_queue g @ [cb])"
proof -
  obtain g1 where g1: "chain_all fs g = Some g1" "built g fs g1" using built_all [OF assms(1,2) _ assms(4)] assms(3) by (auto simp: layout_def)
  obtain e g2 mem where g2: "sendChain cb kind g1 = Some g2" "sending e mem fs g2" "chained mem fs" "gp0 g2 = gp0 g" "m_dmaCallback e = Some cb"
      "m_OTCs e = m_OTCs g" "m_parity e = m_parity g" "m_fromISR e \<longleftrightarrow> kind = FROM_ISR" "cb_calls e = cb_calls g" "cb_queue e = cb_queue g"
      "\<forall>a. a \<notin> phys ` fst ` set fs \<longrightarrow> mem a = gmem g a"
    using send_built [OF g1(2) assms(2,5-7)] by blast
  have words: "map (words_of mem) fs = map (words_of (gmem g)) fs" using words_kept [OF assms(3) _ g2(11)] by simp
  have "m_OTCs e (\<not> m_parity e) = otcs" using g2(6,7) assms(8) by simp
  then obtain g3 where t: "transfers (length fs + length otcs + 1) g2 = Some g3"
      and "all_done e cb (cleared mem otcs) (gp0 g2 @ concat (map (words_of mem) fs)) g3"
    using sending_all [OF assms(2) g2(3,2,5), of otcs "length fs + length otcs + 1"] by auto
  then have "all_done e cb (cleared mem otcs) (gp0 g @ concat (map (words_of (gmem g)) fs)) g3" unfolding words g2(4) by blast
  then show ?thesis using g1(1) g2(1,6-11) t by (auto simp: all_done_def)
qed

definition gpu_new :: gpu where
  "gpu_new = \<lparr>gmem = (\<lambda>a. a), m_chainHead = 0, m_chainTail = 0, m_chainTailCount = 0, m_chainHeadOversized = False, m_chainNext = 0,
     m_chainNextOversized = False, m_dmaCallback = None, m_fromISR = False, m_flushCacheAfterDMA = False, m_OTCs = (\<lambda>p. []), m_parity = False,
     running = NoJob, madr = 0, bcr = 0, chcr = 0, gp0 = [], gp1 = [], cb_queue = [], cb_calls = []\<rparr>"

text \<open>A small fragment, one the engine must not follow, and a small one again.\<close>

definition three_fragments :: "frag list" where
  "three_fragments = [(0x80001000, 2), (0x80002000, 20), (0x80003000, 1)]"

lemma chain_sends_all_witness:
  "\<exists>g1 g2 g3. chain_all three_fragments gpu_new = Some g1 \<and> sendChain 7 FROM_ISR g1 = Some g2 \<and> transfers (length three_fragments + 1) g2 = Some g3 \<and>
     gp0 g3 = concat (map (words_of (gmem gpu_new)) three_fragments) \<and> cb_calls g3 = [7]"
proof -
  have ph: "phys 0x80001000 = 0x1000" "phys 0x80002000 = 0x2000" "phys 0x80003000 = 0x3000" by (simp_all add: phys_def)
  have "list_all frag_ok three_fragments" by (simp add: three_fragments_def frag_ok_def ph)
  moreover have "layout three_fragments"
    by (simp add: three_fragments_def layout_def ph) (simp add: phys_def upt_rec)
  moreover have "three_fragments \<noteq> []" by (simp add: three_fragments_def)
  moreover have "m_chainHead gpu_new = 0" "running gpu_new = NoJob" "m_dmaCallback gpu_new = None" "\<not> m_flushCacheAfterDMA gpu_new"
      "[] = m_OTCs gpu_new (\<not> m_parity gpu_new)" "gp0 gpu_new = []" "cb_calls gpu_new = []"
    by (simp_all add: gpu_new_def)
  ultimately show ?thesis using chain_sends_all [of three_fragments gpu_new "[]" 7 FROM_ISR] by (auto simp del: transfers.simps)
qed

end
