(* ===== verification/Ordering_Table.thy ===== *)
theory Ordering_Table
  imports Gpu_Contract
begin

text \<open>
  Ordering tables (\<open>psyqo/ordering-table.hh\<close>, \<open>psyqo/src/ordering-table.cpp\<close>, the chain entries of
  \<open>psyqo/fragments.hh\<close>): one entry for each depth and one end, each a header without words. Entry \<open>i\<close> of a table is
  \<open>entry t i\<close>. Inserting a fragment puts it right behind the entry of its depth.
\<close>

section \<open>Operations\<close>

definition entry :: "u32 \<Rightarrow> nat \<Rightarrow> u32" where
  "entry t i = t + 4 * of_nat i"

text \<open>The header of a chain entry gets the link of the other entry, not its address.\<close>

definition entry_set :: "u32 \<Rightarrow> u32 \<Rightarrow> u32 \<Rightarrow> memory \<Rightarrow> memory" where
  "entry_set p nxt sz mem = mem(phys p := push_bit 24 sz OR (mem (phys nxt) AND 0xffffff))"

definition setEndMarker :: "u32 \<Rightarrow> memory \<Rightarrow> memory" where
  "setEndMarker p mem = mem(phys p := 0xffffff)"

fun clear_from :: "u32 \<Rightarrow> nat \<Rightarrow> nat \<Rightarrow> memory \<Rightarrow> memory" where
  "clear_from t i 0 mem = mem"
| "clear_from t i (Suc k) mem = clear_from t (Suc i) k (entry_set (entry t i) (entry t (i - 1)) 0 mem)"

definition table_clear :: "u32 \<Rightarrow> nat \<Rightarrow> memory \<Rightarrow> memory" where
  "table_clear t n mem = clear_from t 1 n (setEndMarker (entry t 0) mem)"

definition clamp :: "int \<Rightarrow> int \<Rightarrow> int \<Rightarrow> int" where
  "clamp z lo hi = (if z < lo then lo else if hi < z then hi else z)"

definition depth :: "nat \<Rightarrow> bool \<Rightarrow> u32 \<Rightarrow> int" where
  "depth n safe z = (if safe then clamp (sint z) 0 (int n - 1) else sint z)"

definition table_insert :: "u32 \<Rightarrow> nat \<Rightarrow> bool \<Rightarrow> frag \<Rightarrow> u32 \<Rightarrow> memory \<Rightarrow> memory" where
  "table_insert t n safe f z mem =
     (let e = t + 4 + 4 * word_of_int (depth n safe z);
          mem = entry_set (fst f) e (snd f) mem
      in mem(phys e := fst f AND 0xffffff))"

section \<open>What a table holds\<close>

text \<open>Headers one after another, each with the size of its fragment and the plain address of the next.\<close>

fun plink :: "frag list \<Rightarrow> u32" where
  "plink [] = 0xffffff"
| "plink (f # fs) = fst f AND 0xffffff"

fun listed :: "memory \<Rightarrow> frag list \<Rightarrow> bool" where
  "listed mem [] = True"
| "listed mem (f # fs) = (mem (phys (fst f)) = push_bit 24 (snd f) OR plink fs \<and> listed mem fs)"

text \<open>The order of a table: from the farthest depth down, each entry before the fragments of its depth.\<close>

definition bucket_nodes :: "u32 \<Rightarrow> (nat \<Rightarrow> frag list) \<Rightarrow> nat \<Rightarrow> frag list" where
  "bucket_nodes t B z = (entry t (Suc z), 0) # B z"

definition order :: "u32 \<Rightarrow> nat \<Rightarrow> (nat \<Rightarrow> frag list) \<Rightarrow> frag list" where
  "order t n B = concat (map (bucket_nodes t B) (rev [0..<n])) @ [(entry t 0, 0)]"

definition node_ok :: "frag \<Rightarrow> bool" where
  "node_ok f \<longleftrightarrow> fst f AND 0x800000 = 0 \<and> fst f AND 3 = 0 \<and> snd f \<le> 255"

lemma bucket_nodes_upd: "z \<notin> set xs \<Longrightarrow> map (bucket_nodes t (B(z := fs))) xs = map (bucket_nodes t B) xs"
  by (rule map_cong) (auto simp: bucket_nodes_def)

lemma order_split:
  assumes "z < n"
  obtains pre post where "order t n B = pre @ (entry t (Suc z), 0) # B z @ post"
    "\<And>fs. order t n (B(z := fs)) = pre @ (entry t (Suc z), 0) # fs @ post"
proof -
  have upt: "rev [0..<n] = rev [Suc z..<n] @ z # rev [0..<z]"
  proof -
    have "[0..<n] = [0..<z] @ z # [Suc z..<n]" using assms upt_add_eq_append [of 0 z "n - z"] by (simp add: upt_conv_Cons)
    then show ?thesis by simp
  qed
  define pre where "pre = concat (map (bucket_nodes t B) (rev [Suc z..<n]))"
  define post where "post = concat (map (bucket_nodes t B) (rev [0..<z])) @ [(entry t 0, 0)]"
  have split: "order t n B' = pre @ bucket_nodes t B' z @ post"
    if "map (bucket_nodes t B') (rev [Suc z..<n]) = map (bucket_nodes t B) (rev [Suc z..<n])"
      "map (bucket_nodes t B') (rev [0..<z]) = map (bucket_nodes t B) (rev [0..<z])" for B'
    unfolding order_def upt map_append list.map concat_append concat.simps that pre_def post_def by (simp only: append_assoc)
  show ?thesis
  proof (rule that)
    show "order t n B = pre @ (entry t (Suc z), 0) # B z @ post" using split [of B] by (simp add: bucket_nodes_def)
    show "order t n (B(z := fs)) = pre @ (entry t (Suc z), 0) # fs @ post" for fs
    proof -
      have "order t n (B(z := fs)) = pre @ bucket_nodes t (B(z := fs)) z @ post"
        by (rule split; rule bucket_nodes_upd) simp_all
      then show ?thesis by (simp add: bucket_nodes_def)
    qed
  qed
qed

lemma listed_other: "a \<notin> phys ` fst ` set fs \<Longrightarrow> listed (mem(a := v)) fs = listed mem fs"
  by (induction fs) auto

lemma plink_mask: "plink fs AND 0xffffff = plink fs"
  by (cases fs) (auto simp: and.assoc)

text \<open>Putting a fragment behind an entry.\<close>

lemma listed_insert:
  assumes "listed mem (pre @ (e, 0) # post)" "distinct (map (\<lambda>f. phys (fst f)) (pre @ (e, 0) # f # post))"
  shows "listed ((entry_set (fst f) e (snd f) mem)(phys e := fst f AND 0xffffff)) (pre @ (e, 0) # f # post)"
  using assms
proof (induction pre)
  case Nil
  let ?mem = "(entry_set (fst f) e (snd f) mem)(phys e := fst f AND 0xffffff)"
  have d: "phys e \<noteq> phys (fst f)" "phys e \<notin> phys ` fst ` set post" "phys (fst f) \<notin> phys ` fst ` set post"
    using Nil(2) by (auto simp: image_image)
  have old: "mem (phys e) = plink post" "listed mem post" using Nil(1) by simp_all
  have "listed ?mem post" unfolding entry_set_def listed_other [OF d(2)] listed_other [OF d(3)] by (rule old(2))
  moreover have "?mem (phys e) = plink (f # post)" by simp
  moreover have "?mem (phys (fst f)) = push_bit 24 (snd f) OR plink post" using d(1) plink_mask [of post] old(1) by (simp add: entry_set_def)
  ultimately show ?case unfolding append_Nil listed.simps fst_conv snd_conv by (simp only: push_bit_of_0 or.left_neutral simp_thms)
next
  case (Cons x pre)
  let ?mem = "(entry_set (fst f) e (snd f) mem)(phys e := fst f AND 0xffffff)"
  have "listed ?mem (pre @ (e, 0) # f # post)" using Cons.prems by (intro Cons.IH) simp_all
  moreover have "?mem (phys (fst x)) = mem (phys (fst x))" using Cons.prems(2) by (auto simp: entry_set_def)
  moreover have "plink (pre @ (e, 0) # f # post) = plink (pre @ (e, 0) # post)" by (cases pre) auto
  ultimately show ?case using Cons.prems(1) unfolding append_Cons listed.simps by simp
qed

lemma listed_sends:
  assumes "listed mem (f # fs)" "list_all node_ok (f # fs)" "length fs < fuel" "phys a = phys (fst f)" "take_bit 23 a = take_bit 23 (fst f)"
  shows "linked fuel mem a = Some (concat (map (words_of mem) (f # fs)), 0xffffff)"
  using assms
proof (induction fs arbitrary: f a fuel)
  case Nil
  obtain fu where fu: "fuel = Suc fu" using Nil(3) by (cases fuel) auto
  have "unat (snd f) < 256" using Nil(2) by (simp add: node_ok_def word_le_nat_alt)
  then show ?case using Nil hdr_parts [of "snd f" "0xffffff"] payload_window [OF Nil(5), of mem 4] by (simp add: fu words_of_def Let_def)
next
  case (Cons h fs)
  obtain fu where fu: "fuel = Suc fu" using Cons.prems(3) by (cases fuel) auto
  have c: "unat (snd f) < 256" using Cons.prems(2) by (simp add: node_ok_def word_le_nat_alt)
  let ?l = "fst h AND 0xffffff"
  have m: "?l AND 0xffffff = ?l" by (simp add: and.assoc)
  note parts = hdr_parts [OF c m]
  have head: "mem (phys a) = push_bit 24 (snd f) OR ?l" using Cons.prems(1,4) by simp
  have "\<not> bit (fst h) 23" using Cons.prems(2) by (simp add: node_ok_def and_bit)
  then have stop: "?l AND 0x800000 = 0" unfolding and_bit(3) by (simp add: bit_and_iff del: bit_numeral_word_iff)
  have w: "payload mem (a + 4) (unat (snd f)) = words_of mem f" using payload_window [OF Cons.prems(5), of mem 4] by (simp add: words_of_def)
  have "take_bit 23 ?l = take_bit 23 (fst h)"
    by (rule bit_word_eqI) (unfold bit_take_bit_iff bit_and_iff bit_ffffff, auto)
  then have "linked fu mem ?l = Some (concat (map (words_of mem) (h # fs)), 0xffffff)"
    using Cons.IH [of h fu ?l] Cons.prems fu by simp
  then show ?case using head parts stop w by (simp add: fu Let_def)
qed

section \<open>A cleared table\<close>

lemma order_empty: "order t n (\<lambda>z. []) = map (\<lambda>i. (entry t i, 0)) (rev [0..<Suc n])"
proof -
  have "order t n (\<lambda>z. []) = map (\<lambda>z. (entry t (Suc z), 0)) (rev [0..<n]) @ [(entry t 0, 0)]"
    using concat_map_singleton [of "\<lambda>z. (entry t (Suc z), 0)" "rev [0..<n]"] unfolding order_def bucket_nodes_def by simp
  also have "\<dots> = map (\<lambda>i. (entry t i, 0)) (rev (0 # map Suc [0..<n]))" by (simp add: rev_map)
  also have "0 # map Suc [0..<n] = [0..<Suc n]" by (simp only: map_Suc_upt upt_conv_Cons [OF zero_less_Suc])
  finally show ?thesis .
qed

lemma clear_entries_listed:
  assumes "distinct (map (\<lambda>i. phys (entry t i)) [0..<Suc k])"
  shows "listed (clear_entries (Suc k) (entry t k) mem) (map (\<lambda>i. (entry t i, 0)) (rev [0..<Suc k])) \<and>
    (\<forall>a. a \<notin> (\<lambda>i. phys (entry t i)) ` {0..<Suc k} \<longrightarrow> clear_entries (Suc k) (entry t k) mem a = mem a)"
  using assms
proof (induction k arbitrary: mem)
  case 0
  then show ?case by simp
next
  case (Suc k)
  define mem1 where "mem1 = mem(phys (entry t (Suc k)) := entry t k AND 0xffffff)"
  have prev: "entry t (Suc k) - 4 = entry t k" by (simp add: entry_def algebra_simps)
  have step: "clear_entries (Suc (Suc k)) (entry t (Suc k)) mem = clear_entries (Suc k) (entry t k) mem1"
    unfolding clear_entries.simps(2) [of "Suc k"] prev mem1_def by simp
  have new: "phys (entry t (Suc k)) \<notin> (\<lambda>i. phys (entry t i)) ` {0..<Suc k}" using Suc.prems by (auto simp: less_Suc_eq)
  have d: "distinct (map (\<lambda>i. phys (entry t i)) [0..<Suc k])" using Suc.prems by simp
  note IH = conjunct1 [OF Suc.IH [OF d, of mem1]] conjunct2 [OF Suc.IH [OF d, of mem1]]
  have "clear_entries (Suc k) (entry t k) mem1 (phys (entry t (Suc k))) = entry t k AND 0xffffff" unfolding mp [OF spec [OF IH(2)] new] unfolding mem1_def by (rule fun_upd_same)
  moreover have "rev [0..<Suc (Suc k)] = Suc k # k # rev [0..<k]" "rev [0..<Suc k] = k # rev [0..<k]" by simp_all
  ultimately have "listed (clear_entries (Suc k) (entry t k) mem1) (map (\<lambda>i. (entry t i, 0)) (rev [0..<Suc (Suc k)]))"
    using IH(1) by (simp del: clear_entries.simps)
  moreover have "clear_entries (Suc k) (entry t k) mem1 a = mem a" if "a \<notin> (\<lambda>i. phys (entry t i)) ` {0..<Suc (Suc k)}" for a
  proof -
    have "a \<notin> (\<lambda>i. phys (entry t i)) ` {0..<Suc k}" "a \<noteq> phys (entry t (Suc k))" using that by (auto simp: less_Suc_eq)
    moreover have "mem1 a = mem a" using calculation(2) by (simp add: mem1_def)
    ultimately show ?thesis using IH(2) by metis
  qed
  ultimately show ?case unfolding step by blast
qed

section \<open>Filling a table\<close>

fun insert_all :: "u32 \<Rightarrow> nat \<Rightarrow> bool \<Rightarrow> (frag \<times> u32) list \<Rightarrow> memory \<Rightarrow> memory" where
  "insert_all t n safe [] mem = mem"
| "insert_all t n safe ((f, z) # ins) mem = insert_all t n safe ins (table_insert t n safe f z mem)"

lemma depth_entry:
  assumes "0 \<le> depth n safe z" "depth n safe z < int n"
  shows "t + 4 + 4 * word_of_int (depth n safe z) = entry t (Suc (nat (depth n safe z)))"
  using assms(1) by (simp add: entry_def of_nat_nat algebra_simps)

lemma table_insert_listed:
  assumes "listed mem (order t n B)" "distinct (map (\<lambda>f. phys (fst f)) (order t n B))" "phys (fst f) \<notin> phys ` fst ` set (order t n B)"
    "0 \<le> depth n safe z" "depth n safe z < int n" "B' = B(nat (depth n safe z) := f # B (nat (depth n safe z)))"
  shows "listed (table_insert t n safe f z mem) (order t n B')" "distinct (map (\<lambda>f. phys (fst f)) (order t n B'))"
    "set (order t n B') = insert f (set (order t n B))" "length (order t n B') = Suc (length (order t n B))"
proof -
  define d where "d = nat (depth n safe z)"
  obtain pre post where o: "order t n B = pre @ (entry t (Suc d), 0) # B d @ post"
      "\<And>fs. order t n (B(d := fs)) = pre @ (entry t (Suc d), 0) # fs @ post"
    using order_split [of d n t B] assms(4,5) by (auto simp: d_def nat_less_iff)
  have o': "order t n B' = pre @ (entry t (Suc d), 0) # f # (B d @ post)" unfolding assms(6) d_def [symmetric] o(2) by simp
  show "distinct (map (\<lambda>f. phys (fst f)) (order t n B'))" using assms(2,3) unfolding o(1) o' by (auto simp: image_image)
  then have "distinct (map (\<lambda>f. phys (fst f)) (pre @ (entry t (Suc d), 0) # f # (B d @ post)))" unfolding o' .
  then show "listed (table_insert t n safe f z mem) (order t n B')"
    using listed_insert [of mem pre "entry t (Suc d)" "B d @ post" f] assms(1)
    unfolding table_insert_def Let_def depth_entry [OF assms(4,5)] d_def [symmetric] o(1) o' by blast
  show "set (order t n B') = insert f (set (order t n B))" "length (order t n B') = Suc (length (order t n B))" unfolding o(1) o' by auto
qed

text \<open>The fragments of a depth, the newest first.\<close>

definition bucket :: "nat \<Rightarrow> bool \<Rightarrow> (frag \<times> u32) list \<Rightarrow> nat \<Rightarrow> frag list" where
  "bucket n safe ins d = rev (map fst (filter (\<lambda>(f, z). nat (depth n safe z) = d) ins))"

lemma bucket_snoc: "bucket n safe (ins @ [(f, z)]) = (bucket n safe ins)(nat (depth n safe z) := f # bucket n safe ins (nat (depth n safe z)))"
  by (rule ext) (simp add: bucket_def)

lemma insert_all_snoc: "insert_all t n safe (ins @ [(f, z)]) mem = table_insert t n safe f z (insert_all t n safe ins mem)"
  by (induction ins arbitrary: mem) auto

text \<open>The entries of the table and the fragments, all at separate places.\<close>

definition nodes :: "u32 \<Rightarrow> nat \<Rightarrow> (frag \<times> u32) list \<Rightarrow> frag list" where
  "nodes t n ins = map (\<lambda>i. (entry t i, 0)) [0..<Suc n] @ map fst ins"

lemma table_insert_other:
  assumes "0 \<le> depth n safe z" "depth n safe z < int n" "a \<noteq> phys (fst f)" "a \<notin> (\<lambda>i. phys (entry t i)) ` {0..<Suc n}"
  shows "table_insert t n safe f z mem a = mem a"
proof -
  have "a \<noteq> phys (entry t (Suc (nat (depth n safe z))))" using assms(1,2,4) by (auto simp: nat_less_iff image_iff)
  then show ?thesis using assms(3) by (simp add: table_insert_def entry_set_def depth_entry [OF assms(1,2)] Let_def)
qed

lemma insert_all_listed:
  assumes "distinct (map (\<lambda>f. phys (fst f)) (nodes t n ins))" "list_all (\<lambda>(f, z). 0 \<le> depth n safe z \<and> depth n safe z < int n) ins"
    "mem = insert_all t n safe ins (clear_entries (Suc n) (entry t n) mem0)"
  shows "listed mem (order t n (bucket n safe ins)) \<and> distinct (map (\<lambda>f. phys (fst f)) (order t n (bucket n safe ins))) \<and>
    set (order t n (bucket n safe ins)) = set (nodes t n ins) \<and> length (order t n (bucket n safe ins)) = Suc n + length ins \<and>
    (\<forall>a. a \<notin> phys ` fst ` set (nodes t n ins) \<longrightarrow> mem a = mem0 a)"
  using assms
proof (induction ins arbitrary: mem rule: rev_induct)
  case Nil
  have b: "bucket n safe [] = (\<lambda>z. [])" by (rule ext) (simp add: bucket_def)
  have d: "distinct (map (\<lambda>i. phys (entry t i)) [0..<Suc n])" using Nil(1) by (simp add: nodes_def comp_def)
  have im: "phys ` fst ` set (nodes t n []) = (\<lambda>i. phys (entry t i)) ` {0..<Suc n}" by (simp add: nodes_def image_image del: upt_Suc)
  have dd: "distinct (map (\<lambda>f. phys (fst f)) (map (\<lambda>i. (entry t i, 0)) (rev [0..<Suc n])))"
    using d by (simp only: map_map comp_def fst_conv rev_map [symmetric] distinct_rev)
  have mem: "mem = clear_entries (Suc n) (entry t n) mem0" using Nil(3) by simp
  show ?case unfolding b order_empty im mem using clear_entries_listed [OF d, of mem0] dd by (simp add: nodes_def del: upt_Suc clear_entries.simps)
next
  case (snoc x ins)
  obtain f z where x: "x = (f, z)" by (cases x) blast
  let ?m = "insert_all t n safe ins (clear_entries (Suc n) (entry t n) mem0)"
  have dz: "0 \<le> depth n safe z" "depth n safe z < int n" using snoc.prems(2) by (simp_all add: x)
  have split: "nodes t n (ins @ [x]) = nodes t n ins @ [f]" by (simp add: nodes_def x del: upt_Suc)
  have dn: "distinct (map (\<lambda>f. phys (fst f)) (nodes t n ins))" "phys (fst f) \<notin> phys ` fst ` set (nodes t n ins)"
    using snoc.prems(1) unfolding split by (simp_all add: image_image)
  note IH = snoc.IH [OF dn(1) _ refl]
  have l: "list_all (\<lambda>(f, z). 0 \<le> depth n safe z \<and> depth n safe z < int n) ins" using snoc.prems(2) by simp
  have new: "phys (fst f) \<notin> phys ` fst ` set (order t n (bucket n safe ins))" using IH [OF l] dn(2) by simp
  have mem: "mem = table_insert t n safe f z ?m" using snoc.prems(3) unfolding x insert_all_snoc .
  note ins = table_insert_listed [OF _ _ new dz bucket_snoc [of n safe ins f z], of ?m, folded x mem]
  have "mem a = mem0 a" if "a \<notin> phys ` fst ` set (nodes t n (ins @ [x]))" for a
  proof -
    have "a \<noteq> phys (fst f)" "a \<notin> (\<lambda>i. phys (entry t i)) ` {0..<Suc n}" "a \<notin> phys ` fst ` set (nodes t n ins)"
      using that unfolding split by (auto simp: nodes_def image_Un image_image simp del: upt_Suc)
    then show ?thesis using table_insert_other [OF dz, of a f t ?m] IH [OF l] unfolding mem by simp
  qed
  moreover have "set (nodes t n (ins @ [x])) = insert f (set (nodes t n ins))" by (auto simp: nodes_def x)
  ultimately show ?case using ins IH [OF l] by simp
qed

section \<open>Sending a table\<close>

lemma entry_words [simp]: "words_of mem (a, 0) = []"
  by (simp add: words_of_def payload_def)

lemma order_words: "concat (map (words_of mem) (order t n B)) = concat (map (words_of mem) (concat (map B (rev [0..<n]))))"
proof -
  have "concat (map (words_of mem) (concat (map (bucket_nodes t B) xs))) = concat (map (words_of mem) (concat (map B xs)))" for xs
    by (induction xs) (simp_all add: bucket_nodes_def)
  then show ?thesis by (simp only: order_def map_append concat_append) simp
qed

lemma listed_last: "listed mem (fs @ [f]) \<Longrightarrow> mem (phys (fst f)) = push_bit 24 (snd f) OR 0xffffff"
  by (induction fs) auto

text \<open>C37: an ordering table that the hardware cleared, filled with fragments and sent, sends the words of all the fragments from
  the largest depth down to zero, those of one depth from the newest to the oldest, and the table is what is cleared next.\<close>

theorem table_sends_sorted:
  assumes "gmem g = insert_all t n safe ins (clear_entries (Suc n) (entry t n) mem)" "layout (nodes t n ins)" "list_all node_ok (nodes t n ins)"
    "list_all (\<lambda>(f, z). 0 \<le> depth n safe z \<and> depth n safe z < int n) ins" "0 < n" "phys (entry t n) \<noteq> 0"
    "m_chainHead g = 0" "running g = NoJob" "m_dmaCallback g = None"
  shows "\<exists>g1 g2 g3. chain_table t (of_nat n) g = Some g1 \<and> sendChain cb kind g1 = Some g2 \<and> engine (n + length ins + 1) g2 = Some g3 \<and>
    gp0 g3 = gp0 g @ concat (map (words_of mem) (concat (map (bucket n safe ins) (rev [0..<n])))) \<and> madr g3 = 0xffffff \<and>
    m_OTCs g3 (m_parity g) = m_OTCs g (m_parity g) @ [(entry t n, of_nat n + 1)]"
proof -
  let ?fs = "order t n (bucket n safe ins)"
  have d: "distinct (map (\<lambda>f. phys (fst f)) (nodes t n ins))" using assms(2) by (simp add: layout_def)
  note l = insert_all_listed [OF d assms(4,1)]
  have set: "set ?fs = set (nodes t n ins)" and len: "length ?fs = Suc n + length ins"
    and other: "\<forall>a. a \<notin> phys ` fst ` set (nodes t n ins) \<longrightarrow> gmem g a = mem a" and ls: "listed (gmem g) ?fs" using l by simp_all
  have ok: "list_all node_ok ?fs" using assms(3) set by (simp add: list_all_iff)
  obtain m where n: "n = Suc m" using assms(5) by (cases n) auto
  define rest where "rest = bucket n safe ins m @ concat (map (bucket_nodes t (bucket n safe ins)) (rev [0..<m])) @ [(entry t 0, 0)]"
  have fs: "?fs = (entry t n, 0) # rest" by (simp add: order_def n bucket_nodes_def rest_def)
  have tl: "(gmem g)(phys t := 0xffffff) = gmem g"
  proof -
    have "gmem g (phys (entry t 0)) = 0xffffff" using listed_last [OF ls [unfolded order_def]] by simp
    then show ?thesis by (auto simp: entry_def)
  qed
  define g1 where "g1 = scheduleOTC (entry t n) (of_nat n + 1) (g\<lparr>m_chainHead := entry t n, m_chainHeadOversized := False, m_chainTail := t, m_chainTailCount := 0\<rparr>)"
  have en: "t + 4 * of_nat n = entry t n" by (simp add: entry_def)
  have c1: "chain_table t (of_nat n) g = Some g1" unfolding chain_table_def en
    using assms(7) by (simp add: chain_def g1_def gpu_consts)
  have al: "entry t n AND 3 = 0" using ok by (simp add: fs node_ok_def)
  have hd: "gmem g (phys (entry t n)) = push_bit 24 0 OR plink rest" using ls by (simp add: fs)
  define g2 where "g2 = (control 0x04000002 (g1\<lparr>gmem := gmem g, m_chainHead := 0, m_chainTail := 0, m_fromISR := (kind = FROM_ISR), m_dmaCallback := Some cb\<rparr>))
    \<lparr>madr := entry t n, chcr := 0x01000401, running := GpuJob\<rparr>"
  have "drop_bit 24 (plink rest) = 0"
    using hdr_parts(1) [of 0 "plink rest"] plink_mask [of rest] by simp
  then have c2: "sendChain cb kind g1 = Some g2"
    using hd al tl assms(8,9) by (simp add: sendChain_def g1_def scheduleOTC_def store_def load_def node_words_def gpu_consts Let_def
        scheduleChainedDMA_def busy_def control_def g2_def)
  have "linked (n + length ins + 1) (gmem g) (entry t n) = Some (concat (map (words_of (gmem g)) ?fs), 0xffffff)"
    unfolding fs by (rule listed_sends [OF ls [unfolded fs] ok [unfolded fs]]) (use len in \<open>simp_all add: fs\<close>)
  then have c3: "engine (n + length ins + 1) g2 = Some (g2\<lparr>gp0 := gp0 g @ concat (map (words_of (gmem g)) ?fs), madr := 0xffffff, running := NoJob\<rparr>)"
    by (simp add: engine_def g2_def control_def g1_def scheduleOTC_def)
  have "words_of (gmem g) f = words_of mem f" if "f \<in> set (concat (map (bucket n safe ins) (rev [0..<n])))" for f
  proof -
    have "f \<in> set ?fs" using that by (auto simp: order_def bucket_nodes_def)
    then show ?thesis using words_kept [OF assms(2) _ other] set by simp
  qed
  then have w: "map (words_of (gmem g)) (concat (map (bucket n safe ins) (rev [0..<n]))) = map (words_of mem) (concat (map (bucket n safe ins) (rev [0..<n])))"
    by (intro map_cong) simp_all
  define g3 where "g3 = g2\<lparr>gp0 := gp0 g @ concat (map (words_of (gmem g)) ?fs), madr := 0xffffff, running := NoJob\<rparr>"
  have "gp0 g3 = gp0 g @ concat (map (words_of mem) (concat (map (bucket n safe ins) (rev [0..<n]))))" unfolding g3_def order_words w by simp
  moreover have "madr g3 = 0xffffff" "m_OTCs g3 (m_parity g) = m_OTCs g (m_parity g) @ [(entry t n, of_nat n + 1)]"
    by (simp_all add: g3_def g2_def g1_def control_def scheduleOTC_def)
  ultimately show ?thesis using c1 c2 c3 [folded g3_def] by blast
qed

text \<open>Two depths, three fragments: the second of depth 0 is sent before the first, after the one of depth 1.\<close>

definition two_depths :: "(frag \<times> u32) list" where
  "two_depths = [((0x80001000, 1), 0), ((0x80002000, 2), 1), ((0x80003000, 1), -5)]"

lemma two_depths_depth: "depth 2 True 0 = 0" "depth 2 True 1 = 1" "depth 2 True (- 5) = 0"
  by (simp_all add: depth_def clamp_def)

lemma two_depths_buckets: "concat (map (bucket 2 True two_depths) (rev [0..<2])) = [(0x80002000, 2), (0x80003000, 1), (0x80001000, 1)]"
  by (simp add: bucket_def two_depths_def two_depths_depth upt_rec)

lemma table_sends_sorted_witness:
  "\<exists>g1 g2 g3. chain_table 0x80000100 2 (gpu_new\<lparr>gmem := insert_all 0x80000100 2 True two_depths (clear_entries 3 0x80000108 (\<lambda>a. a))\<rparr>) = Some g1 \<and>
    sendChain 7 FROM_ISR g1 = Some g2 \<and> engine 6 g2 = Some g3 \<and> gp0 g3 = [0x2004, 0x2008, 0x3004, 0x1004]"
proof -
  let ?g = "gpu_new\<lparr>gmem := insert_all 0x80000100 2 True two_depths (clear_entries 3 0x80000108 (\<lambda>a. a))\<rparr>"
  have n: "nodes 0x80000100 2 two_depths = [(0x80000100, 0), (0x80000104, 0), (0x80000108, 0), (0x80001000, 1), (0x80002000, 2), (0x80003000, 1)]"
    by (simp add: nodes_def entry_def two_depths_def upt_rec)
  have w: "words_of (\<lambda>a. a) (0x80002000, 2) = [0x2004, 0x2008]" "words_of (\<lambda>a. a) (0x80003000, 1) = [0x3004]" "words_of (\<lambda>a. a) (0x80001000, 1) = [0x1004]"
    by (simp_all add: words_of_def payload_def phys_def upt_rec)
  have e: "entry 0x80000100 2 = 0x80000108" by (simp add: entry_def)
  have "layout (nodes 0x80000100 2 two_depths)" unfolding n by (simp add: layout_def phys_def upt_rec)
  moreover have "list_all node_ok (nodes 0x80000100 2 two_depths)" unfolding n by (simp add: node_ok_def)
  moreover have "list_all (\<lambda>(f, z). 0 \<le> depth 2 True z \<and> depth 2 True z < int 2) two_depths" by (simp add: two_depths_def two_depths_depth)
  moreover have "gmem ?g = insert_all 0x80000100 2 True two_depths (clear_entries (Suc 2) (entry 0x80000100 2) (\<lambda>a. a))"
    by (simp add: e del: clear_entries.simps insert_all.simps)
  moreover have "phys (entry 0x80000100 2) \<noteq> 0" by (simp add: e phys_def)
  moreover have "m_chainHead ?g = 0" "running ?g = NoJob" "m_dmaCallback ?g = None" "gp0 ?g = []" by (simp_all add: gpu_new_def)
  moreover have "2 + length two_depths + 1 = 6" by (simp add: two_depths_def)
  ultimately show ?thesis
    using table_sends_sorted [of ?g "0x80000100" 2 True two_depths "\<lambda>a. a" 7 FROM_ISR] by (simp only: two_depths_buckets list.map w concat.simps append.simps of_nat_numeral simp_thms) auto
qed

text \<open>Clearing by the processor.\<close>

lemma clear_from_ends:
  "(\<And>j. j \<le> i \<Longrightarrow> mem (phys (entry t j)) = 0xffffff) \<Longrightarrow> j \<le> i + k \<Longrightarrow> clear_from t (Suc i) k mem (phys (entry t j)) = 0xffffff"
proof (induction k arbitrary: i mem)
  case 0
  then show ?case by simp
next
  case (Suc k)
  let ?mem = "entry_set (entry t (Suc i)) (entry t i) 0 mem"
  have "?mem (phys (entry t j)) = 0xffffff" if "j \<le> Suc i" for j
    using that Suc.prems(1) [of j] Suc.prems(1) [of i] by (cases "j = Suc i") (auto simp: entry_set_def)
  then have "clear_from t (Suc (Suc i)) k ?mem (phys (entry t j)) = 0xffffff" using Suc.IH [of "Suc i" ?mem] Suc.prems(2) by simp
  then show ?case by simp
qed

lemma table_clear_ends: "j \<le> n \<Longrightarrow> table_clear t n mem (phys (entry t j)) = 0xffffff"
  using clear_from_ends [of 0 "setEndMarker (entry t 0) mem" t j n] by (simp add: table_clear_def setEndMarker_def)

text \<open>C38: a table that the processor cleared sends none of the fragments that are inserted below its largest depth, which is
  not what the table is for: every entry of it is an end marker, as the header of an entry gets the link of the one before
  and not its address.\<close>

theorem cleared_table_sends_nothing:
  assumes "mem1 = insert_all t n safe ins (table_clear t n mem)" "layout (nodes t n ins)"
    "list_all (\<lambda>(f, z). 0 \<le> depth n safe z \<and> depth n safe z + 1 < int n) ins"
  shows "linked (Suc fuel) mem1 (entry t n) = Some ([], 0xffffff)"
proof -
  have "insert_all t n safe ins m (phys (entry t n)) = 0xffffff"
    if "m (phys (entry t n)) = 0xffffff" "layout (nodes t n ins)" "list_all (\<lambda>(f, z). 0 \<le> depth n safe z \<and> depth n safe z + 1 < int n) ins" for m
    using that
  proof (induction ins arbitrary: m)
    case Nil
    then show ?case by simp
  next
    case (Cons x ins)
    obtain f z where x: "x = (f, z)" by (cases x) blast
    have d: "0 \<le> depth n safe z" "depth n safe z + 1 < int n" using Cons.prems(3) by (simp_all add: x)
    have "distinct (map (\<lambda>f. phys (fst f)) (map (\<lambda>i. (entry t i, 0)) [0..<Suc n] @ f # map fst ins))"
      using Cons.prems(2) by (simp add: layout_def nodes_def x del: upt_Suc)
    then have "\<forall>i\<in>{0..<n}. phys (entry t n) \<noteq> phys (entry t i)" and ne: "phys (fst f) \<noteq> phys (entry t n)" by (auto simp: image_iff)
    then have ne2: "phys (entry t i) \<noteq> phys (entry t n)" if "i < n" for i using that by (metis atLeastLessThan_iff zero_le)
    have "nat (depth n safe z) + 1 < n" using d by linarith
    then have "table_insert t n safe f z m (phys (entry t n)) = m (phys (entry t n))"
      using ne ne2 [of "Suc (nat (depth n safe z))"] d
      by (simp add: table_insert_def entry_set_def depth_entry Let_def)
    moreover have "layout (nodes t n ins)" using Cons.prems(2) by (auto simp: layout_def nodes_def x simp del: upt_Suc)
    ultimately show ?case using Cons.IH [of "table_insert t n safe f z m"] Cons.prems(1,3) by (simp add: x)
  qed
  then have "mem1 (phys (entry t n)) = 0xffffff" using table_clear_ends [of n n t mem] assms by simp
  then show ?thesis by (simp add: payload_def)
qed

lemma cleared_table_sends_nothing_witness:
  "linked 9 (insert_all 0x80000100 2 True [((0x80001000, 1), 0)] (table_clear 0x80000100 2 (\<lambda>a. a))) (entry 0x80000100 2) = Some ([], 0xffffff)"
proof -
  have "nodes 0x80000100 2 [((0x80001000, 1), 0)] = [(0x80000100, 0), (0x80000104, 0), (0x80000108, 0), (0x80001000, 1)]"
    by (simp add: nodes_def entry_def upt_rec)
  then have "layout (nodes 0x80000100 2 [((0x80001000, 1), 0)])" by (simp add: layout_def phys_def upt_rec)
  moreover have "list_all (\<lambda>(f, z). 0 \<le> depth 2 True z \<and> depth 2 True z + 1 < int 2) [((0x80001000 :: u32, 1 :: u32), 0 :: u32)]"
    by (simp add: two_depths_depth)
  ultimately show ?thesis using cleared_table_sends_nothing [OF refl, of "0x80000100" 2 "[((0x80001000, 1), 0)]" True 8 "\<lambda>a. a"] by simp
qed

end
