(* ===== verification/Gpu_Timers.thy ===== *)
theory Gpu_Timers
  imports Prelude "HOL-Library.Monad_Syntax"
begin

text \<open>
  The timers of the GPU and the pump that serves them (\<open>psyqo/src/gpu.cpp\<close>, \<open>psyqo/gpu.hh\<close>) with the queue of callbacks of the
  kernel (\<open>psyqo/src/kernel.cpp\<close>). The list of timers keeps its nodes in place, so a timer is known by the address of its
  node, and \<open>alloc\<close> is where the list puts a new one. What a callback does is a program of the calls it can make of the
  same component, the pump included, and every call of one is logged with the timer it is of and the time it is given. Using a node that
  was erased is None. The frame counter and bit 31 of the status of the GPU are what they are when the pump reads them.
\<close>

section \<open>State\<close>

record timer =
  t_id :: nat
  t_callback :: nat
  t_deadline :: u32
  t_period :: u32
  t_remaining :: u32
  t_periodic :: bool
  t_paused :: bool

record clock =
  m_timers :: "timer list"
  m_currentTime :: u32
  m_lastHSyncCounter :: "16 word"
  k_callbacks :: "nat list"
  k_flag :: bool
  m_interlaced :: bool
  m_lastLongFieldFrame :: u32
  psyqoFrameCounter :: u32
  gpustat_31 :: bool
  calls :: "(nat option \<times> nat \<times> u32 option) list"

text \<open>What a callback can call. The readings of the counter are those the pump gets.\<close>

datatype tact = Arm u32 nat | ArmPeriodic u32 nat | ChangePeriod nat u32 bool | PauseTimer nat | ResumeTimer nat | CancelTimer nat
  | QueueCallback nat | Pump "16 word list"

definition US_PER_HBLANK :: u32 where "US_PER_HBLANK = 64"

section \<open>Operations\<close>

definition ids :: "timer list \<Rightarrow> nat list" where
  "ids ts = map t_id ts"

definition armTimer :: "(nat list \<Rightarrow> nat) \<Rightarrow> u32 \<Rightarrow> nat \<Rightarrow> clock \<Rightarrow> nat \<times> clock" where
  "armTimer alloc deadline cb s =
     (let i = alloc (ids (m_timers s))
      in (i, s\<lparr>m_timers := m_timers s @ [\<lparr>t_id = i, t_callback = cb, t_deadline = deadline, t_period = 0, t_remaining = 0,
             t_periodic = False, t_paused = False\<rparr>]\<rparr>))"

definition armPeriodicTimer :: "(nat list \<Rightarrow> nat) \<Rightarrow> u32 \<Rightarrow> nat \<Rightarrow> clock \<Rightarrow> nat \<times> clock" where
  "armPeriodicTimer alloc interval cb s =
     (let i = alloc (ids (m_timers s))
      in (i, s\<lparr>m_timers := m_timers s @ [\<lparr>t_id = i, t_callback = cb, t_deadline = m_currentTime s + interval, t_period = interval,
             t_remaining = 0, t_periodic = True, t_paused = False\<rparr>]\<rparr>))"

text \<open>The first timer the loops do not pass over.\<close>

fun on_first :: "(timer \<Rightarrow> bool) \<Rightarrow> (timer \<Rightarrow> timer) \<Rightarrow> timer list \<Rightarrow> timer list" where
  "on_first p f [] = []"
| "on_first p f (t # ts) = (if p t then f t # ts else t # on_first p f ts)"

definition changeTimerPeriod :: "nat \<Rightarrow> u32 \<Rightarrow> bool \<Rightarrow> clock \<Rightarrow> clock" where
  "changeTimerPeriod i period reset s =
     s\<lparr>m_timers := on_first (\<lambda>t. t_id t = i \<and> t_period t \<noteq> period \<and> t_periodic t)
        (\<lambda>t. t\<lparr>t_deadline := (if reset then m_currentTime s + period else t_deadline t + (period - t_period t)), t_period := period\<rparr>) (m_timers s)\<rparr>"

definition pauseTimer :: "nat \<Rightarrow> clock \<Rightarrow> clock" where
  "pauseTimer i s =
     s\<lparr>m_timers := on_first (\<lambda>t. t_id t = i)
        (\<lambda>t. if t_paused t then t else t\<lparr>t_paused := True, t_remaining := t_deadline t - m_currentTime s\<rparr>) (m_timers s)\<rparr>"

definition resumeTimer :: "nat \<Rightarrow> clock \<Rightarrow> clock" where
  "resumeTimer i s =
     s\<lparr>m_timers := on_first (\<lambda>t. t_id t = i)
        (\<lambda>t. if \<not> t_paused t then t else t\<lparr>t_paused := False, t_deadline := m_currentTime s + t_remaining t\<rparr>) (m_timers s)\<rparr>"

fun erase :: "nat \<Rightarrow> timer list \<Rightarrow> timer list" where
  "erase i [] = []"
| "erase i (t # ts) = (if t_id t = i then ts else t # erase i ts)"

definition cancelTimer :: "nat \<Rightarrow> clock \<Rightarrow> clock" where
  "cancelTimer i s = s\<lparr>m_timers := erase i (m_timers s)\<rparr>"

text \<open>The queue is a ring of 32 places; one more callback takes the place of the oldest.\<close>

definition ring_push :: "nat \<Rightarrow> nat list \<Rightarrow> nat list" where
  "ring_push cb cbs = (if length cbs < 32 then cbs else tl cbs) @ [cb]"

definition queueCallback :: "nat \<Rightarrow> clock \<Rightarrow> clock" where
  "queueCallback cb s = s\<lparr>k_callbacks := ring_push cb (k_callbacks s), k_flag := True\<rparr>"

section \<open>The pump\<close>

text \<open>Two readings in a row that agree.\<close>

fun stable_read :: "16 word list \<Rightarrow> 16 word option" where
  "stable_read (a # b # rs) = (if a = b then Some a else stable_read rs)"
| "stable_read rs = None"

definition tick :: "16 word \<Rightarrow> clock \<Rightarrow> clock" where
  "tick count s =
     (let lastHSyncCounter = ucast (m_lastHSyncCounter s) :: u32;
          hsyncCounter = ucast count;
          hsyncCounter = (if hsyncCounter < lastHSyncCounter then hsyncCounter + 0x10000 else hsyncCounter)
      in s\<lparr>m_currentTime := m_currentTime s + (hsyncCounter - lastHSyncCounter) * US_PER_HBLANK\<rparr>)"

definition due :: "u32 \<Rightarrow> timer \<Rightarrow> bool" where
  "due now t \<longleftrightarrow> \<not> t_paused t \<and> sint (t_deadline t - now) \<le> 0"

text \<open>The node the loop looks at, from the node it came from on.\<close>

fun after :: "nat option \<Rightarrow> timer list \<Rightarrow> timer list" where
  "after None ts = ts"
| "after (Some i) ts = tl (dropWhile (\<lambda>t. t_id t \<noteq> i) ts)"

definition expire :: "timer \<Rightarrow> clock \<Rightarrow> clock" where
  "expire t s = (if t_periodic t then s\<lparr>m_timers := on_first (\<lambda>u. t_id u = t_id t) (\<lambda>u. u\<lparr>t_deadline := t_deadline u + t_period u\<rparr>) (m_timers s)\<rparr> else s)"

definition log_call :: "nat option \<Rightarrow> nat \<Rightarrow> u32 option \<Rightarrow> clock \<Rightarrow> clock" where
  "log_call i cb t s = s\<lparr>calls := calls s @ [(i, cb, t)]\<rparr>"

text \<open>The calls a callback makes; \<open>pump\<close> is what a pump inside it does.\<close>

type_synonym pumping = "16 word list \<Rightarrow> clock \<Rightarrow> clock option"

definition run_act :: "(nat list \<Rightarrow> nat) \<Rightarrow> pumping \<Rightarrow> tact \<Rightarrow> clock \<Rightarrow> clock option" where
  "run_act alloc pump a s =
     (case a of
        Arm deadline cb \<Rightarrow> Some (snd (armTimer alloc deadline cb s))
      | ArmPeriodic interval cb \<Rightarrow> Some (snd (armPeriodicTimer alloc interval cb s))
      | ChangePeriod i period reset \<Rightarrow> Some (changeTimerPeriod i period reset s)
      | PauseTimer i \<Rightarrow> Some (pauseTimer i s)
      | ResumeTimer i \<Rightarrow> Some (resumeTimer i s)
      | CancelTimer i \<Rightarrow> Some (cancelTimer i s)
      | QueueCallback cb \<Rightarrow> Some (queueCallback cb s)
      | Pump reads \<Rightarrow> pump reads s)"

fun run_acts :: "(nat list \<Rightarrow> nat) \<Rightarrow> pumping \<Rightarrow> tact list \<Rightarrow> clock \<Rightarrow> clock option" where
  "run_acts alloc pump [] s = Some s"
| "run_acts alloc pump (a # as) s = do { s \<leftarrow> run_act alloc pump a s; run_acts alloc pump as s }"

text \<open>The loop over the timers, which starts again behind a timer that has ended. The number bounds its steps.\<close>

fun run_timers :: "nat \<Rightarrow> (nat list \<Rightarrow> nat) \<Rightarrow> (nat \<Rightarrow> tact list) \<Rightarrow> pumping \<Rightarrow> u32 \<Rightarrow> nat option \<Rightarrow> clock \<Rightarrow> clock option" where
  "run_timers 0 alloc prog pump now at s = None"
| "run_timers (Suc fuel) alloc prog pump now at s =
     (case after at (m_timers s) of
        [] \<Rightarrow> Some s
      | t # rest \<Rightarrow>
          if \<not> due now t then run_timers fuel alloc prog pump now (Some (t_id t)) s
          else do {
            s \<leftarrow> run_acts alloc pump (prog (t_callback t)) (log_call (Some (t_id t)) (t_callback t) (Some now) (expire t s));
            if t_id t \<notin> set (ids (m_timers s)) then None
            else if t_periodic t then run_timers fuel alloc prog pump now (Some (t_id t)) s
            else run_timers fuel alloc prog pump now None (s\<lparr>m_timers := erase (t_id t) (m_timers s)\<rparr>) })"

text \<open>At most as many callbacks of the queue as there are on entry.\<close>

fun run_queue :: "nat \<Rightarrow> (nat list \<Rightarrow> nat) \<Rightarrow> (nat \<Rightarrow> tact list) \<Rightarrow> pumping \<Rightarrow> clock \<Rightarrow> clock option" where
  "run_queue 0 alloc prog pump s = Some s"
| "run_queue (Suc n) alloc prog pump s =
     (case k_callbacks s of
        [] \<Rightarrow> Some s
      | cb # cbs \<Rightarrow> do {
          s \<leftarrow> run_acts alloc pump (prog cb) (log_call None cb None (s\<lparr>k_callbacks := cbs\<rparr>));
          run_queue n alloc prog pump s })"

definition kernel_pump :: "(nat list \<Rightarrow> nat) \<Rightarrow> (nat \<Rightarrow> tact list) \<Rightarrow> pumping \<Rightarrow> clock \<Rightarrow> clock option" where
  "kernel_pump alloc prog pump s =
     (if \<not> k_flag s then Some s else run_queue (length (k_callbacks s)) alloc prog pump (s\<lparr>k_flag := False\<rparr>))"

text \<open>The field that is shown, for interlaced modes.\<close>

definition note_field :: "clock \<Rightarrow> clock" where
  "note_field s = (if m_interlaced s \<and> gpustat_31 s then s\<lparr>m_lastLongFieldFrame := psyqoFrameCounter s\<rparr> else s)"

text \<open>The number bounds the depth of pumps inside pumps and the steps of each.\<close>

primrec gpu_pump :: "nat \<Rightarrow> (nat list \<Rightarrow> nat) \<Rightarrow> (nat \<Rightarrow> tact list) \<Rightarrow> pumping" where
  "gpu_pump 0 alloc prog = (\<lambda>reads s. None)"
| "gpu_pump (Suc fuel) alloc prog = (\<lambda>reads s. do {
     count \<leftarrow> stable_read reads;
     let s = tick count s;
     s \<leftarrow> run_timers fuel alloc prog (gpu_pump fuel alloc prog) (m_currentTime s) None s;
     s \<leftarrow> kernel_pump alloc prog (gpu_pump fuel alloc prog) s;
     Some (note_field (s\<lparr>m_lastHSyncCounter := count\<rparr>)) })"

end
