(* ===== verification/Gpu_Clock.thy ===== *)
theory Gpu_Clock
  imports Gpu_Timers
begin

text \<open>What the pump does with the timers: which it fires and how often, what time it keeps, and what a pump inside it breaks.\<close>

section \<open>Callbacks that leave the timers alone\<close>

text \<open>They may queue callbacks.\<close>

fun queues :: "tact \<Rightarrow> bool" where
  "queues (QueueCallback cb) = True"
| "queues a = False"

definition quiet :: "(nat \<Rightarrow> tact list) \<Rightarrow> bool" where
  "quiet prog \<longleftrightarrow> (\<forall>cb. list_all queues (prog cb))"

text \<open>The timers are \<open>ts\<close>, \<open>L\<close> was logged, and the clock did not move.\<close>

definition left :: "clock \<Rightarrow> timer list \<Rightarrow> (nat option \<times> nat \<times> u32 option) list \<Rightarrow> clock \<Rightarrow> bool" where
  "left s ts L s' \<longleftrightarrow> m_timers s' = ts \<and> m_currentTime s' = m_currentTime s \<and> m_lastHSyncCounter s' = m_lastHSyncCounter s \<and> calls s' = calls s @ L"

lemma quiet_acts: "list_all queues as \<Longrightarrow> \<exists>s'. run_acts alloc pump as s = Some s' \<and> left s (m_timers s) [] s'"
proof (induction "as" arbitrary: s)
  case Nil
  then show ?case by (simp add: left_def)
next
  case (Cons a "as")
  obtain cb where a: "a = QueueCallback cb" using Cons.prems by (cases a) auto
  have "left s (m_timers s) [] s' \<longleftrightarrow> left (queueCallback cb s) (m_timers (queueCallback cb s)) [] s'" for s'
    by (simp add: left_def queueCallback_def)
  then show ?case using Cons.IH [of "queueCallback cb s"] Cons.prems by (simp add: a run_act_def)
qed

definition fires :: "(nat option \<times> nat \<times> u32 option) list \<Rightarrow> nat \<Rightarrow> nat" where
  "fires L i = length (filter (\<lambda>c. fst c = Some i) L)"

lemma fires_append [simp]: "fires (xs @ ys) i = fires xs i + fires ys i"
  and fires_Cons [simp]: "fires (x # xs) i = (if fst x = Some i then 1 else 0) + fires xs i"
  and fires_Nil [simp]: "fires [] i = 0"
  by (simp_all add: fires_def)

lemma quiet_queue:
  "quiet prog \<Longrightarrow> \<exists>s' L. run_queue n alloc prog pump s = Some s' \<and> left s (m_timers s) L s' \<and> (\<forall>c\<in>set L. fst c = None)"
proof (induction n arbitrary: s)
  case 0
  have "left s (m_timers s) [] s" by (simp add: left_def)
  then show ?case by (intro exI [of _ s] exI [of _ "[]"]) simp
next
  case (Suc n)
  show ?case
  proof (cases "k_callbacks s")
    case Nil
    then have "run_queue (Suc n) alloc prog pump s = Some s" "left s (m_timers s) [] s" by (simp_all add: left_def)
    then show ?thesis by (intro exI [of _ s] exI [of _ "[]"]) simp
  next
    case (Cons cb cbs)
    define s1 where "s1 = log_call None cb None (s\<lparr>k_callbacks := cbs\<rparr>)"
    obtain s2 where a: "run_acts alloc pump (prog cb) s1 = Some s2" "left s1 (m_timers s1) [] s2"
      using quiet_acts [of "prog cb" alloc pump s1] Suc.prems by (auto simp: quiet_def)
    obtain s3 L where b: "run_queue n alloc prog pump s2 = Some s3" "left s2 (m_timers s2) L s3" "\<forall>c\<in>set L. fst c = None"
      using Suc.IH [OF Suc.prems] by blast
    have "run_queue (Suc n) alloc prog pump s = Some s3" using a(1) b(1) by (simp add: Cons s1_def)
    moreover have "left s (m_timers s) ((None, cb, None) # L) s3" using a(2) b(2) by (simp add: left_def s1_def log_call_def)
    moreover have "\<forall>c\<in>set ((None, cb, None) # L). fst c = None" using b(3) by simp
    ultimately show ?thesis by blast
  qed
qed

lemma quiet_kernel:
  assumes "quiet prog"
  shows "\<exists>s' L. kernel_pump alloc prog pump s = Some s' \<and> left s (m_timers s) L s' \<and> (\<forall>c\<in>set L. fst c = None)"
proof (cases "k_flag s")
  case True
  have "left s (m_timers s) L s' \<longleftrightarrow> left (s\<lparr>k_flag := False\<rparr>) (m_timers (s\<lparr>k_flag := False\<rparr>)) L s'" for L s' by (simp add: left_def)
  then show ?thesis using quiet_queue [OF assms, of "length (k_callbacks s)" alloc pump "s\<lparr>k_flag := False\<rparr>"] True by (simp add: kernel_pump_def)
next
  case False
  then have "kernel_pump alloc prog pump s = Some s" "left s (m_timers s) [] s" by (simp_all add: kernel_pump_def left_def)
  then show ?thesis by (intro exI [of _ s] exI [of _ "[]"]) simp
qed

section \<open>The loop over the timers\<close>

definition once :: "u32 \<Rightarrow> timer \<Rightarrow> bool" where
  "once now t \<longleftrightarrow> due now t \<and> \<not> t_periodic t"

definition ends_of :: "u32 \<Rightarrow> timer list \<Rightarrow> nat" where
  "ends_of now ts = length (filter (once now) ts)"

definition visit :: "u32 \<Rightarrow> timer \<Rightarrow> timer" where
  "visit now t = (if due now t then t\<lparr>t_deadline := t_deadline t + t_period t\<rparr> else t)"

fun hits :: "nat \<Rightarrow> u32 \<Rightarrow> timer \<Rightarrow> nat" where
  "hits 0 now t = 0"
| "hits (Suc k) now t = (if due now t then 1 else 0) + hits k now (visit now t)"

fun catch_up :: "nat \<Rightarrow> u32 \<Rightarrow> timer \<Rightarrow> timer" where
  "catch_up 0 now t = t"
| "catch_up (Suc k) now t = catch_up k now (visit now t)"

text \<open>What is left behind the loop, and how often a timer fires: a periodic one at most once for each start of the loop.\<close>

fun expected :: "u32 \<Rightarrow> timer list \<Rightarrow> timer list" where
  "expected now [] = []"
| "expected now (t # ts) = (if once now t then expected now ts else catch_up (Suc (ends_of now ts)) now t # expected now ts)"

fun expected_fires :: "u32 \<Rightarrow> timer list \<Rightarrow> nat \<Rightarrow> nat" where
  "expected_fires now [] i = 0"
| "expected_fires now (t # ts) i =
     (if t_id t = i then (if once now t then 1 else hits (Suc (ends_of now ts)) now t) else 0) + expected_fires now ts i"

fun pre_fires :: "nat \<Rightarrow> u32 \<Rightarrow> timer list \<Rightarrow> nat \<Rightarrow> nat" where
  "pre_fires k now [] i = 0"
| "pre_fires k now (t # ts) i = (if t_id t = i then hits k now t else 0) + pre_fires k now ts i"

lemma pre_fires_append: "pre_fires k now (xs @ ys) i = pre_fires k now xs i + pre_fires k now ys i"
  by (induction xs) simp_all

lemma pre_fires_0: "pre_fires 0 now ts i = 0"
  by (induction ts) simp_all

lemma visit_id [simp]: "t_id (visit now t) = t_id t" "t_periodic (visit now t) = t_periodic t" "t_callback (visit now t) = t_callback t"
  by (simp_all add: visit_def)

lemma ends_of_simps [simp]: "ends_of now [] = 0" "ends_of now (t # ts) = (if once now t then 1 else 0) + ends_of now ts"
    "ends_of now (xs @ ys) = ends_of now xs + ends_of now ys"
  by (simp_all add: ends_of_def)

lemma ends_of_none: "list_all (\<lambda>t. \<not> once now t) ts \<Longrightarrow> ends_of now ts = 0"
  by (induction ts) auto

lemma expected_prefix:
  "list_all (\<lambda>t. \<not> once now t) xs \<Longrightarrow> expected now (xs @ ys) = map (catch_up (Suc (ends_of now ys)) now) xs @ expected now ys"
  by (induction xs) (auto simp: ends_of_none)

lemma expected_fires_prefix:
  "list_all (\<lambda>t. \<not> once now t) xs \<Longrightarrow> expected_fires now (xs @ ys) i = pre_fires (Suc (ends_of now ys)) now xs i + expected_fires now ys i"
  by (induction xs) (auto simp: ends_of_none)

lemma on_first_at: "t_id t \<notin> set (ids pre) \<Longrightarrow> on_first (\<lambda>u. t_id u = t_id t) f (pre @ t # post) = pre @ f t # post"
  by (induction pre) (auto simp: ids_def)

lemma erase_at: "t_id t \<notin> set (ids pre) \<Longrightarrow> erase (t_id t) (pre @ t # post) = pre @ post"
  by (induction pre) (auto simp: ids_def)

lemma after_at: "t_id t \<notin> set (ids pre) \<Longrightarrow> after (Some (t_id t)) (pre @ t # post) = post"
  by (induction pre) (auto simp: ids_def)

lemma ids_simps [simp]: "ids [] = []" "ids (t # ts) = t_id t # ids ts" "ids (xs @ ys) = ids xs @ ids ys"
  by (simp_all add: ids_def)

lemma once_visit: "\<not> once now t \<Longrightarrow> \<not> once now (visit now t)"
  by (auto simp: once_def visit_def)

lemma fuel_step:
  "length (t # rest) + ends_of now (t # rest) * (length pre + length (t # rest)) < Suc fuel \<Longrightarrow>
    (\<not> once now t \<longrightarrow> length rest + ends_of now rest * (length (pre @ [t]) + length rest) < fuel) \<and>
    (once now t \<longrightarrow> length (pre @ rest) + ends_of now rest * (length (pre @ rest)) < fuel)"
proof -
  assume a: "length (t # rest) + ends_of now (t # rest) * (length pre + length (t # rest)) < Suc fuel"
  define e where "e = ends_of now rest"
  define n where "n = length pre + length rest"
  show ?thesis
  proof (cases "once now t")
    case True
    then have "length rest + (Suc e) * Suc n < fuel" using a by (simp add: e_def n_def)
    moreover have "n + e * n \<le> Suc e * Suc n" by simp
    ultimately show ?thesis using True by (simp add: e_def n_def)
  next
    case False
    then show ?thesis using a by simp
  qed
qed

lemma run_timers_quiet:
  assumes "quiet prog" "m_timers s = pre @ post" "distinct (ids (pre @ post))" "after at (pre @ post) = post" "list_all (\<lambda>t. \<not> once now t) pre"
    "length post + ends_of now post * (length pre + length post) < fuel"
  shows "\<exists>s' L. run_timers fuel alloc prog pump now at s = Some s' \<and>
    left s (map (catch_up (ends_of now post) now) pre @ expected now post) L s' \<and>
    (\<forall>i. fires L i = pre_fires (ends_of now post) now pre i + expected_fires now post i) \<and> (\<forall>c\<in>set L. snd (snd c) = Some now)"
  using assms(2-6)
proof (induction fuel arbitrary: s pre post at)
  case 0
  show ?case using 0(5) by (rule notE [OF not_less_zero])
next
  case (Suc fuel)
  show ?case
  proof (cases post)
    case Nil
    have "map (catch_up 0 now) pre = pre" by (rule map_idI) simp
    moreover have "run_timers (Suc fuel) alloc prog pump now at s = Some s" using Suc.prems(1,3) by (simp add: Nil)
    ultimately show ?thesis using Suc.prems(1) by (intro exI [of _ s] exI [of _ "[]"]) (simp add: Nil left_def pre_fires_0)
  next
    case (Cons t rest)
    have new: "t_id t \<notin> set (ids pre)" "t_id t \<notin> set (ids rest)" using Suc.prems(2) by (auto simp: Cons)
    have ts: "m_timers s = pre @ t # rest" using Suc.prems(1) by (simp add: Cons)
    have aft: "after at (m_timers s) = t # rest" using Suc.prems(1,3) by (simp add: Cons)
    note fuel = fuel_step [OF Suc.prems(5) [unfolded Cons]]
    show ?thesis
    proof (cases "due now t")
      case False
      then have on: "\<not> once now t" "visit now t = t" by (simp_all add: once_def visit_def)
      have run: "run_timers (Suc fuel) alloc prog pump now at s = run_timers fuel alloc prog pump now (Some (t_id t)) s"
        using aft False by simp
      have "after (Some (t_id t)) ((pre @ [t]) @ rest) = rest" using after_at [OF new(1), of rest] by simp
      then obtain s' L where "run_timers fuel alloc prog pump now (Some (t_id t)) s = Some s'"
          "left s (map (catch_up (ends_of now rest) now) (pre @ [t]) @ expected now rest) L s'"
          "\<forall>i. fires L i = pre_fires (ends_of now rest) now (pre @ [t]) i + expected_fires now rest i" "\<forall>c\<in>set L. snd (snd c) = Some now"
        using Suc.IH [of s "pre @ [t]" rest "Some (t_id t)"] Suc.prems(2,4) ts on(1) fuel by (auto simp: Cons)
      then show ?thesis using on False unfolding run Cons by (intro exI [of _ s'] exI [of _ L]) (simp add: pre_fires_append)
    next
      case True
      define s1 where "s1 = log_call (Some (t_id t)) (t_callback t) (Some now) (expire t s)"
      obtain s2 where a: "run_acts alloc pump (prog (t_callback t)) s1 = Some s2" "left s1 (m_timers s1) [] s2"
        using quiet_acts [of "prog (t_callback t)" alloc pump s1] assms(1) by (auto simp: quiet_def)
      show ?thesis
      proof (cases "t_periodic t")
        case True
        have on: "\<not> once now t" using True by (simp add: once_def)
        have m2: "m_timers s2 = pre @ visit now t # rest"
          using a(2) on_first_at [OF new(1), of "\<lambda>u. u\<lparr>t_deadline := t_deadline u + t_period u\<rparr>" rest] True \<open>due now t\<close>
          by (simp add: left_def s1_def log_call_def expire_def ts visit_def)
        have run: "run_timers (Suc fuel) alloc prog pump now at s = run_timers fuel alloc prog pump now (Some (t_id t)) s2"
          using aft \<open>due now t\<close> a(1) True m2 by (simp add: s1_def)
        have "after (Some (t_id t)) ((pre @ [visit now t]) @ rest) = rest" using after_at [of "visit now t" pre rest] new(1) by simp
        then obtain s' L where r: "run_timers fuel alloc prog pump now (Some (t_id t)) s2 = Some s'"
            "left s2 (map (catch_up (ends_of now rest) now) (pre @ [visit now t]) @ expected now rest) L s'"
            "\<forall>i. fires L i = pre_fires (ends_of now rest) now (pre @ [visit now t]) i + expected_fires now rest i" "\<forall>c\<in>set L. snd (snd c) = Some now"
          using Suc.IH [of s2 "pre @ [visit now t]" rest "Some (t_id t)"] Suc.prems(2,4) m2 on fuel once_visit [OF on] by (auto simp: Cons)
        have "left s (map (catch_up (ends_of now post) now) pre @ expected now post) ((Some (t_id t), t_callback t, Some now) # L) s'"
          using a(2) r(2) on by (simp add: left_def s1_def log_call_def expire_def Cons True)
        moreover have "fires ((Some (t_id t), t_callback t, Some now) # L) i = pre_fires (ends_of now post) now pre i + expected_fires now post i" for i
          using r(3) on \<open>due now t\<close> by (simp add: Cons pre_fires_append)
        moreover have "\<forall>c\<in>set ((Some (t_id t), t_callback t, Some now) # L). snd (snd c) = Some now" using r(4) by simp
        ultimately show ?thesis using r(1) unfolding run by blast
      next
        case False
        have on: "once now t" using False \<open>due now t\<close> by (simp add: once_def)
        define s3 where "s3 = s2\<lparr>m_timers := pre @ rest\<rparr>"
        have m2: "m_timers s2 = pre @ t # rest" using a(2) False by (simp add: left_def s1_def log_call_def expire_def ts)
        have run: "run_timers (Suc fuel) alloc prog pump now at s = run_timers fuel alloc prog pump now None s3"
          using aft \<open>due now t\<close> a(1) False m2 erase_at [OF new(1), of rest] by (simp add: s1_def s3_def)
        obtain s' L where r: "run_timers fuel alloc prog pump now None s3 = Some s'"
            "left s3 (map (catch_up (ends_of now (pre @ rest)) now) [] @ expected now (pre @ rest)) L s'"
            "\<forall>i. fires L i = pre_fires (ends_of now (pre @ rest)) now [] i + expected_fires now (pre @ rest) i"
            "\<forall>c\<in>set L. snd (snd c) = Some now"
          using Suc.IH [of s3 "[]" "pre @ rest" None] Suc.prems(2) fuel on ends_of_none [OF Suc.prems(4)] by (auto simp: Cons s3_def)
        have "left s (map (catch_up (ends_of now post) now) pre @ expected now post) ((Some (t_id t), t_callback t, Some now) # L) s'"
          using a(2) r(2) on expected_prefix [OF Suc.prems(4), of rest]
          by (simp add: left_def s1_def s3_def log_call_def expire_def Cons False)
        moreover have "fires ((Some (t_id t), t_callback t, Some now) # L) i = pre_fires (ends_of now post) now pre i + expected_fires now post i" for i
          using r(3) on expected_fires_prefix [OF Suc.prems(4), of rest i] by (simp add: Cons pre_fires_append)
        moreover have "\<forall>c\<in>set ((Some (t_id t), t_callback t, Some now) # L). snd (snd c) = Some now" using r(4) by simp
        ultimately show ?thesis using r(1) unfolding run by blast
      qed
    qed
  qed
qed

section \<open>A pump\<close>

lemma catch_up_hits: "catch_up k now t = t\<lparr>t_deadline := t_deadline t + of_nat (hits k now t) * t_period t\<rparr>"
proof (induction k arbitrary: t)
  case 0
  then show ?case by simp
next
  case (Suc k)
  then show ?case by (simp add: visit_def algebra_simps)
qed

lemma hits_bounds: "hits k now t \<le> k" "due now t \<Longrightarrow> 1 \<le> hits (Suc k) now t" "\<not> due now t \<Longrightarrow> hits k now t = 0"
proof -
  show "hits k now t \<le> k"
  proof (induction k arbitrary: t)
    case (Suc k)
    show ?case using Suc [of "visit now t"] by simp
  qed simp
  show "1 \<le> hits (Suc k) now t" if "due now t" using that by simp
  show "hits k now t = 0" if "\<not> due now t" using that by (induction k) (simp_all add: visit_def)
qed

lemma expected_fires_other: "i \<notin> set (ids ts) \<Longrightarrow> expected_fires now ts i = 0"
  by (induction ts) auto

lemma expected_map:
  "distinct (ids ts) \<Longrightarrow> expected now ts =
    map (\<lambda>t. t\<lparr>t_deadline := t_deadline t + of_nat (expected_fires now ts (t_id t)) * t_period t\<rparr>) (filter (\<lambda>t. \<not> once now t) ts)"
proof (induction ts)
  case Nil
  then show ?case by simp
next
  case (Cons t ts)
  have other: "expected_fires now (t # ts) (t_id u) = expected_fires now ts (t_id u)" if "u \<in> set ts" for u
    using Cons.prems that by (auto simp: ids_def)
  have "expected_fires now ts (t_id t) = 0" using Cons.prems by (simp add: expected_fires_other)
  then show ?case using Cons.IH Cons.prems other by (simp add: catch_up_hits)
qed

lemma expected_fires_once:
  "distinct (ids ts) \<Longrightarrow> t \<in> set ts \<Longrightarrow> expected_fires now ts (t_id t) = (if once now t then 1 else expected_fires now ts (t_id t)) \<and>
    (\<not> due now t \<longrightarrow> expected_fires now ts (t_id t) = 0) \<and>
    (due now t \<longrightarrow> 1 \<le> expected_fires now ts (t_id t) \<and> expected_fires now ts (t_id t) \<le> Suc (ends_of now ts))"
proof (induction ts)
  case Nil
  then show ?case by simp
next
  case (Cons u ts)
  show ?case
  proof (cases "t = u")
    case True
    then have z: "expected_fires now ts (t_id t) = 0" using Cons.prems(1) by (simp add: expected_fires_other)
    show ?thesis
    proof (cases "once now t")
      case True
      then show ?thesis using z \<open>t = u\<close> by (simp add: once_def)
    next
      case False
      then have "expected_fires now (u # ts) (t_id t) = hits (Suc (ends_of now ts)) now t" using z \<open>t = u\<close> by simp
      then show ?thesis using hits_bounds(1,3) [where k = "Suc (ends_of now ts)" and now = now and t = t] hits_bounds(2) [where k = "ends_of now ts" and now = now and t = t] False \<open>t = u\<close>
        by (simp del: hits.simps expected_fires.simps)
    qed
  next
    case False
    then have m: "t \<in> set ts" using Cons.prems(2) by simp
    then have "t_id t \<in> set (ids ts)" by (simp add: ids_def)
    then have "t_id t \<noteq> t_id u" "t \<in> set ts" using m Cons.prems(1) by auto
    then show ?thesis using Cons by auto
  qed
qed

lemma pump_timers:
  assumes "quiet prog" "distinct (ids (m_timers s))" "stable_read reads = Some count" "now = m_currentTime (tick count s)"
    "length (m_timers s) * Suc (length (m_timers s)) < fuel"
  shows "\<exists>s' L. gpu_pump (Suc fuel) alloc prog reads s = Some s' \<and> m_currentTime s' = now \<and> m_lastHSyncCounter s' = count \<and> calls s' = calls s @ L \<and>
    m_timers s' = map (\<lambda>t. t\<lparr>t_deadline := t_deadline t + of_nat (fires L (t_id t)) * t_period t\<rparr>)
      (filter (\<lambda>t. \<not> (due now t \<and> \<not> t_periodic t)) (m_timers s)) \<and>
    (\<forall>t\<in>set (m_timers s). if \<not> due now t then fires L (t_id t) = 0 else if \<not> t_periodic t then fires L (t_id t) = 1
       else 1 \<le> fires L (t_id t) \<and> fires L (t_id t) \<le> Suc (length (filter (\<lambda>t. due now t \<and> \<not> t_periodic t) (m_timers s)))) \<and>
    (\<forall>(i, cb, time)\<in>set L. i \<noteq> None \<longrightarrow> time = Some now)"
proof -
  let ?ts = "m_timers s"
  have ts: "m_timers (tick count s) = ?ts" "calls (tick count s) = calls s" by (simp_all add: tick_def Let_def)
  have "ends_of now ?ts \<le> length ?ts" by (simp add: ends_of_def)
  then have "ends_of now ?ts * length ?ts \<le> length ?ts * length ?ts" by (rule mult_le_mono1)
  moreover have "length ?ts + length ?ts * length ?ts < fuel" using assms(5) by simp
  ultimately have "length ?ts + ends_of now ?ts * (length ([] :: timer list) + length ?ts) < fuel"
    unfolding list.size(3) add_0 by (rule order.strict_trans1 [OF add_left_mono])
  then obtain s1 L1 where r: "run_timers fuel alloc prog (gpu_pump fuel alloc prog) now None (tick count s) = Some s1"
      "left (tick count s) (expected now ?ts) L1 s1" "\<forall>i. fires L1 i = expected_fires now ?ts i"
      "\<forall>c\<in>set L1. snd (snd c) = Some now"
    using run_timers_quiet [OF assms(1), of "tick count s" "[]" ?ts None now fuel alloc "gpu_pump fuel alloc prog"] assms(2) ts by auto
  obtain s2 L2 where k: "kernel_pump alloc prog (gpu_pump fuel alloc prog) s1 = Some s2" "left s1 (m_timers s1) L2 s2" "\<forall>c\<in>set L2. fst c = None"
    using quiet_kernel [OF assms(1)] by blast
  have none: "fires L2 i = 0" for i using k(3) by (auto simp: fires_def filter_empty_conv)
  define s3 where "s3 = note_field (s2\<lparr>m_lastHSyncCounter := count\<rparr>)"
  have run: "gpu_pump (Suc fuel) alloc prog reads s = Some s3" using assms(3) r(1) k(1) unfolding assms(4) by (simp add: Let_def s3_def)
  have f: "fires (L1 @ L2) i = expected_fires now ?ts i" for i using r(3) none by simp
  have once: "(\<lambda>t. \<not> (due now t \<and> \<not> t_periodic t)) = (\<lambda>t. \<not> once now t)" by (simp add: once_def)
  have "m_timers s3 = map (\<lambda>t. t\<lparr>t_deadline := t_deadline t + of_nat (fires (L1 @ L2) (t_id t)) * t_period t\<rparr>) (filter (\<lambda>t. \<not> (due now t \<and> \<not> t_periodic t)) ?ts)"
    unfolding once f expected_map [OF assms(2), symmetric] using r(2) k(2) by (simp add: s3_def left_def note_field_def)
  moreover have "\<forall>(i, cb, time)\<in>set (L1 @ L2). i \<noteq> None \<longrightarrow> time = Some now" using r(4) k(3) by auto
  moreover have "m_currentTime s3 = now" "m_lastHSyncCounter s3 = count" "calls s3 = calls s @ (L1 @ L2)"
    using r(2) k(2) ts(2) assms(4) by (simp_all add: s3_def left_def note_field_def)
  moreover have "\<forall>t\<in>set ?ts. if \<not> due now t then fires (L1 @ L2) (t_id t) = 0 else if \<not> t_periodic t then fires (L1 @ L2) (t_id t) = 1
      else 1 \<le> fires (L1 @ L2) (t_id t) \<and> fires (L1 @ L2) (t_id t) \<le> Suc (length (filter (\<lambda>t. due now t \<and> \<not> t_periodic t) ?ts))"
  proof
    fix t
    assume t: "t \<in> set ?ts"
    have ends: "length (filter (\<lambda>t. due now t \<and> \<not> t_periodic t) ?ts) = ends_of now ?ts" by (simp add: ends_of_def once_def [abs_def])
    note e = expected_fires_once [OF assms(2) t, of now]
    show "if \<not> due now t then fires (L1 @ L2) (t_id t) = 0 else if \<not> t_periodic t then fires (L1 @ L2) (t_id t) = 1
        else 1 \<le> fires (L1 @ L2) (t_id t) \<and> fires (L1 @ L2) (t_id t) \<le> Suc (length (filter (\<lambda>t. due now t \<and> \<not> t_periodic t) ?ts))"
      unfolding f ends using e by (cases "due now t"; cases "t_periodic t"; simp add: once_def)
  qed
  ultimately show ?thesis using run by blast
qed

text \<open>C39: a pump whose callbacks neither touch the timers nor pump (they may queue callbacks) returns, and every timer of the list that is due then is served: a one-shot one
  fires once and is gone, a periodic one fires at least once and at most once more for each one-shot one, its deadline
  moved on by a period each time, and no other timer fires or changes; the time is that of the reading.\<close>

theorem pump_serves_timers:
  assumes "quiet prog" "distinct (ids (m_timers s))" "stable_read reads = Some count" "now = m_currentTime (tick count s)"
    "length (m_timers s) * Suc (length (m_timers s)) < fuel"
  shows "\<exists>s' L. gpu_pump (Suc fuel) alloc prog reads s = Some s' \<and> m_currentTime s' = now \<and> m_lastHSyncCounter s' = count \<and> calls s' = calls s @ L \<and>
    m_timers s' = map (\<lambda>t. t\<lparr>t_deadline := t_deadline t + of_nat (fires L (t_id t)) * t_period t\<rparr>)
      (filter (\<lambda>t. \<not> (due now t \<and> \<not> t_periodic t)) (m_timers s)) \<and>
    (\<forall>t\<in>set (m_timers s). if \<not> due now t then fires L (t_id t) = 0 else if \<not> t_periodic t then fires L (t_id t) = 1
       else 1 \<le> fires L (t_id t) \<and> fires L (t_id t) \<le> Suc (length (filter (\<lambda>t. due now t \<and> \<not> t_periodic t) (m_timers s)))) \<and>
    (\<forall>(i, cb, time)\<in>set L. i \<noteq> None \<longrightarrow> time = Some now)"
  using assms by (rule pump_timers)

text \<open>What the time needs of it.\<close>

lemma pump_clock:
  assumes "quiet prog" "distinct (ids (m_timers s))" "length (m_timers s) * Suc (length (m_timers s)) < fuel" "stable_read reads = Some count"
  shows "\<exists>s'. gpu_pump (Suc fuel) alloc prog reads s = Some s' \<and> m_currentTime s' = m_currentTime (tick count s) \<and> m_lastHSyncCounter s' = count \<and>
    (\<exists>p g. m_timers s' = map g (filter p (m_timers s)) \<and> (\<forall>t. t_id (g t) = t_id t))"
proof -
  obtain s' L where p: "gpu_pump (Suc fuel) alloc prog reads s = Some s'" "m_currentTime s' = m_currentTime (tick count s)" "m_lastHSyncCounter s' = count"
      "m_timers s' = map (\<lambda>t. t\<lparr>t_deadline := t_deadline t + of_nat (fires L (t_id t)) * t_period t\<rparr>)
        (filter (\<lambda>t. \<not> (due (m_currentTime (tick count s)) t \<and> \<not> t_periodic t)) (m_timers s))"
    using pump_timers [OF assms(1,2,4) refl assms(3)] by blast
  have "\<forall>t. t_id (t\<lparr>t_deadline := t_deadline t + of_nat (fires L (t_id t)) * t_period t\<rparr>) = t_id t" by simp
  then show ?thesis using p by blast
qed

section \<open>The time\<close>

text \<open>Pumps, each with what it reads.\<close>

fun pumps :: "nat \<Rightarrow> (nat list \<Rightarrow> nat) \<Rightarrow> (nat \<Rightarrow> tact list) \<Rightarrow> 16 word list list \<Rightarrow> clock \<Rightarrow> clock option" where
  "pumps fuel alloc prog [] s = Some s"
| "pumps fuel alloc prog (r # rs) s = do { s \<leftarrow> gpu_pump fuel alloc prog r s; pumps fuel alloc prog rs s }"

lemma wrap_diff:
  assumes "n0 \<le> n1" "n1 < n0 + (65536 :: nat)"
  shows "n1 - n0 = (if n1 mod 65536 < n0 mod 65536 then n1 mod 65536 + 65536 else n1 mod 65536) - n0 mod 65536 \<and>
    n0 mod 65536 \<le> (if n1 mod 65536 < n0 mod 65536 then n1 mod 65536 + 65536 else n1 mod 65536)"
proof -
  define q0 a q1 b where d: "q0 = n0 div 65536" "a = n0 mod 65536" "q1 = n1 div 65536" "b = n1 mod 65536"
  have e: "n0 = 65536 * q0 + a" "n1 = 65536 * q1 + b" "a < 65536" "b < 65536" by (simp_all add: d)
  have "q1 = q0 \<or> q1 = Suc q0" using e assms by linarith
  then show ?thesis unfolding d(2,4) [symmetric] using e assms by (elim disjE) auto
qed

lemma tick_time:
  assumes "m_lastHSyncCounter s = of_nat n0" "n0 \<le> n1" "n1 < n0 + 65536"
  shows "m_currentTime (tick (of_nat n1) s) = m_currentTime s + 64 * of_nat (n1 - n0)"
proof -
  let ?a = "n0 mod 65536" and ?b = "n1 mod 65536"
  have u: "ucast (of_nat n :: 16 word) = (of_nat (n mod 65536) :: u32)" for n
    by (rule word_eq_iff_unsigned [THEN iffD2]) (simp add: unsigned_ucast_eq unsigned_of_nat take_bit_nat_eq_self take_bit_eq_mod)
  have less: "(of_nat ?b :: u32) < of_nat ?a \<longleftrightarrow> ?b < ?a"
    by (simp add: word_less_nat_alt unsigned_of_nat take_bit_nat_def)
  have "n1 - n0 = (if ?b < ?a then ?b + 65536 else ?b) - ?a \<and> ?a \<le> (if ?b < ?a then ?b + 65536 else ?b)"
    using wrap_diff [OF assms(2,3)] by simp
  then have d: "of_nat (n1 - n0) = (of_nat (if ?b < ?a then ?b + 65536 else ?b) - of_nat ?a :: u32)" by (simp only: of_nat_diff)
  show ?thesis unfolding d by (simp add: tick_def Let_def assms(1) u less US_PER_HBLANK_def)
qed

lemma last_mono: "list_all2 (\<lambda>n n'. n \<le> n' \<and> n' < n + (65536 :: nat)) (butlast (n0 # ns)) ns \<Longrightarrow> n0 \<le> last (n0 # ns)"
proof (induction ns arbitrary: n0)
  case Nil
  then show ?case by simp
next
  case (Cons n1 ns)
  have "n0 \<le> n1" "n1 \<le> last (n1 # ns)" using Cons.prems Cons.IH [of n1] by simp_all
  then show ?case by simp
qed

lemma quiet_pumps:
  assumes "quiet prog" "distinct (ids (m_timers s))" "length (m_timers s) * Suc (length (m_timers s)) < fuel" "m_lastHSyncCounter s = of_nat n0"
    "list_all2 (\<lambda>n n'. n \<le> n' \<and> n' < n + 65536) (butlast (n0 # ns)) ns"
  shows "\<exists>s'. pumps (Suc fuel) alloc prog (map (\<lambda>n. [of_nat n, of_nat n]) ns) s = Some s' \<and>
    m_currentTime s' = m_currentTime s + 64 * of_nat (last (n0 # ns) - n0) \<and> m_lastHSyncCounter s' = of_nat (last (n0 # ns))"
  using assms(2-5)
proof (induction ns arbitrary: s n0)
  case Nil
  then show ?case by simp
next
  case (Cons n1 ns)
  have n1: "n0 \<le> n1" "n1 < n0 + 65536" and rest: "list_all2 (\<lambda>n n'. n \<le> n' \<and> n' < n + 65536) (butlast (n1 # ns)) ns"
    using Cons.prems(4) by simp_all
  obtain s1 where s1: "gpu_pump (Suc fuel) alloc prog [of_nat n1, of_nat n1] s = Some s1" "m_currentTime s1 = m_currentTime (tick (of_nat n1) s)"
      "m_lastHSyncCounter s1 = of_nat n1" "\<exists>p g. m_timers s1 = map g (filter p (m_timers s)) \<and> (\<forall>t. t_id (g t) = t_id t)"
    using pump_clock [OF assms(1) Cons.prems(1,2), of "[of_nat n1, of_nat n1]" "of_nat n1" alloc] by auto
  obtain p g where t: "m_timers s1 = map g (filter p (m_timers s))" "\<forall>t. t_id (g t) = t_id t" using s1(4) by blast
  have "ids (m_timers s1) = ids (filter p (m_timers s))" using t by (simp add: ids_def)
  then have "distinct (ids (m_timers s1))" using Cons.prems(1) by (simp add: ids_def distinct_map_filter)
  moreover have le: "length (m_timers s1) \<le> length (m_timers s)" using t by simp
  moreover have "length (m_timers s1) * Suc (length (m_timers s1)) < fuel" using mult_le_mono [OF le, of "Suc (length (m_timers s1))" "Suc (length (m_timers s))"] le Cons.prems(2) by linarith
  ultimately obtain s' where s': "pumps (Suc fuel) alloc prog (map (\<lambda>n. [of_nat n, of_nat n]) ns) s1 = Some s'"
      "m_currentTime s' = m_currentTime s1 + 64 * of_nat (last (n1 # ns) - n1)" "m_lastHSyncCounter s' = of_nat (last (n1 # ns))"
    using Cons.IH [of s1 n1] s1(3) rest by auto
  have mono: "n1 \<le> last (n1 # ns)" using rest by (rule last_mono)
  have "m_currentTime s' = m_currentTime s + 64 * of_nat (last (n0 # n1 # ns) - n0)"
  proof -
    have "last (n0 # n1 # ns) - n0 = (n1 - n0) + (last (n1 # ns) - n1)" using mono n1(1) by simp
    then show ?thesis unfolding s'(2) s1(2) tick_time [OF Cons.prems(3) n1] by (simp add: algebra_simps)
  qed
  then show ?case using s1(1) s'(1,3) by (simp del: gpu_pump.simps)
qed

text \<open>Callbacks that may do anything with the timers and the queue, but do not pump.\<close>

definition no_pump :: "(nat \<Rightarrow> tact list) \<Rightarrow> bool" where
  "no_pump prog \<longleftrightarrow> (\<forall>cb. list_all (\<lambda>a. \<forall>reads. a \<noteq> Pump reads) (prog cb))"

definition same_time :: "clock \<Rightarrow> clock \<Rightarrow> bool" where
  "same_time s s' \<longleftrightarrow> m_currentTime s' = m_currentTime s \<and> m_lastHSyncCounter s' = m_lastHSyncCounter s"

lemma same_time_trans: "same_time s s1 \<Longrightarrow> same_time s1 s2 \<Longrightarrow> same_time s s2"
  by (simp add: same_time_def)

lemma acts_time: "list_all (\<lambda>a. \<forall>reads. a \<noteq> Pump reads) as \<Longrightarrow> run_acts alloc pump as s = Some s' \<Longrightarrow> same_time s s'"
proof (induction "as" arbitrary: s)
  case Nil
  then show ?case by (simp add: same_time_def)
next
  case (Cons a "as")
  obtain s1 where s1: "run_act alloc pump a s = Some s1" "run_acts alloc pump as s1 = Some s'"
    using Cons.prems(2) by (auto simp: bind_eq_Some_conv)
  have "same_time s s1" using s1(1) Cons.prems(1)
    by (cases a) (auto simp: run_act_def same_time_def armTimer_def armPeriodicTimer_def changeTimerPeriod_def pauseTimer_def
        resumeTimer_def cancelTimer_def queueCallback_def Let_def)
  then show ?case using Cons.IH [OF _ s1(2)] Cons.prems(1) by (auto simp: same_time_def)
qed

lemma timers_time: "no_pump prog \<Longrightarrow> run_timers fuel alloc prog pump now at s = Some s' \<Longrightarrow> same_time s s'"
proof (induction fuel arbitrary: at s)
  case 0
  then show ?case by simp
next
  case (Suc fuel)
  show ?case
  proof (cases "after at (m_timers s)")
    case Nil
    then show ?thesis using Suc.prems(2) by (simp add: same_time_def)
  next
    case (Cons t rest)
    show ?thesis
    proof (cases "due now t")
      case False
      then show ?thesis using Suc Cons by simp
    next
      case True
      define s1 where "s1 = log_call (Some (t_id t)) (t_callback t) (Some now) (expire t s)"
      have t1: "same_time s s1" by (simp add: s1_def same_time_def log_call_def expire_def)
      obtain s2 where s2: "run_acts alloc pump (prog (t_callback t)) s1 = Some s2" "t_id t \<in> set (ids (m_timers s2))"
          "run_timers fuel alloc prog pump now (if t_periodic t then Some (t_id t) else None)
             (if t_periodic t then s2 else s2\<lparr>m_timers := erase (t_id t) (m_timers s2)\<rparr>) = Some s'"
        using Suc.prems(2) Cons True by (auto simp: s1_def bind_eq_Some_conv split: if_splits)
      have "same_time s1 s2" using acts_time [OF _ s2(1)] Suc.prems(1) by (simp add: no_pump_def)
      moreover have "same_time s2 s'" using Suc.IH [OF Suc.prems(1) s2(3)] by (simp add: same_time_def split: if_splits)
      ultimately show ?thesis using t1 same_time_trans by blast
    qed
  qed
qed

lemma queue_time: "no_pump prog \<Longrightarrow> run_queue n alloc prog pump s = Some s' \<Longrightarrow> same_time s s'"
proof (induction n arbitrary: s)
  case 0
  then show ?case by (simp add: same_time_def)
next
  case (Suc n)
  show ?case
  proof (cases "k_callbacks s")
    case Nil
    then show ?thesis using Suc.prems(2) by (simp add: same_time_def)
  next
    case (Cons cb cbs)
    define s1 where "s1 = log_call None cb None (s\<lparr>k_callbacks := cbs\<rparr>)"
    obtain s2 where s2: "run_acts alloc pump (prog cb) s1 = Some s2" "run_queue n alloc prog pump s2 = Some s'"
      using Suc.prems(2) Cons by (auto simp: s1_def bind_eq_Some_conv)
    have "same_time s s1" by (simp add: s1_def same_time_def log_call_def)
    moreover have "same_time s1 s2" using acts_time [OF _ s2(1)] Suc.prems(1) by (simp add: no_pump_def)
    ultimately show ?thesis using Suc.IH [OF Suc.prems(1) s2(2)] same_time_trans by blast
  qed
qed

lemma pump_time:
  assumes "no_pump prog" "gpu_pump fuel alloc prog reads s = Some s'" "stable_read reads = Some count"
  shows "m_currentTime s' = m_currentTime (tick count s)" "m_lastHSyncCounter s' = count"
proof -
  obtain f where f: "fuel = Suc f" using assms(2) by (cases fuel) auto
  obtain s1 s2 where s: "run_timers f alloc prog (gpu_pump f alloc prog) (m_currentTime (tick count s)) None (tick count s) = Some s1"
      "kernel_pump alloc prog (gpu_pump f alloc prog) s1 = Some s2" "s' = note_field (s2\<lparr>m_lastHSyncCounter := count\<rparr>)"
    using assms(2,3) unfolding f by (auto simp: bind_eq_Some_conv Let_def)
  have "same_time s1 s2"
  proof (cases "k_flag s1")
    case True
    then show ?thesis using queue_time [OF assms(1), of _ alloc _ "s1\<lparr>k_flag := False\<rparr>"] s(2) by (auto simp: kernel_pump_def same_time_def)
  next
    case False
    then show ?thesis using s(2) by (simp add: kernel_pump_def same_time_def)
  qed
  then have "same_time (tick count s) s2" using timers_time [OF assms(1) s(1)] same_time_trans by blast
  then show "m_currentTime s' = m_currentTime (tick count s)" "m_lastHSyncCounter s' = count"
    by (simp_all add: s(3) note_field_def same_time_def)
qed

lemma pumps_time:
  assumes "no_pump prog"
  shows "m_lastHSyncCounter s = of_nat n0 \<Longrightarrow> list_all2 (\<lambda>n n'. n \<le> n' \<and> n' < n + 65536) (butlast (n0 # ns)) ns \<Longrightarrow>
    pumps fuel alloc prog (map (\<lambda>n. [of_nat n, of_nat n]) ns) s = Some s' \<Longrightarrow>
    m_currentTime s' = m_currentTime s + 64 * of_nat (last (n0 # ns) - n0)"
proof (induction ns arbitrary: s n0)
  case Nil
  then show ?case by simp
next
  case (Cons n1 ns)
  have n1: "n0 \<le> n1" "n1 < n0 + 65536" and rest: "list_all2 (\<lambda>n n'. n \<le> n' \<and> n' < n + 65536) (butlast (n1 # ns)) ns"
    using Cons.prems(2) by simp_all
  obtain s1 where s1: "gpu_pump fuel alloc prog [of_nat n1, of_nat n1] s = Some s1"
      "pumps fuel alloc prog (map (\<lambda>n. [of_nat n, of_nat n]) ns) s1 = Some s'"
    using Cons.prems(3) by (auto simp: bind_eq_Some_conv simp del: gpu_pump.simps)
  have "stable_read [of_nat n1, of_nat n1] = Some (of_nat n1)" by simp
  note p = pump_time [OF assms s1(1) this]
  have "n1 \<le> last (n1 # ns)" using rest by (rule last_mono)
  then have "last (n0 # n1 # ns) - n0 = (n1 - n0) + (last (n1 # ns) - n1)" using n1(1) by simp
  then show ?case
    unfolding Cons.IH [OF p(2) rest s1(2)] p(1) tick_time [OF Cons.prems(1) n1] by (simp add: algebra_simps)
qed

text \<open>C40: over pumps at any instants that are less than 65536 lines apart, with callbacks that do not pump themselves and may do anything
  else with the timers and the queue, the time that is kept is that of the line counter before its wrap to sixteen bits, 64
  microseconds for a line, whenever the pumps return; with callbacks that only queue callbacks they do return.\<close>

theorem clock_keeps_time:
  assumes "no_pump prog" "m_lastHSyncCounter s = of_nat n0" "list_all2 (\<lambda>n n'. n \<le> n' \<and> n' < n + 65536) (butlast (n0 # ns)) ns"
  shows "(\<forall>s'. pumps fuel alloc prog (map (\<lambda>n. [of_nat n, of_nat n]) ns) s = Some s' \<longrightarrow>
      m_currentTime s' = m_currentTime s + 64 * of_nat (last (n0 # ns) - n0)) \<and>
    (quiet prog \<and> distinct (ids (m_timers s)) \<and> Suc (length (m_timers s) * Suc (length (m_timers s))) < fuel \<longrightarrow>
      (\<exists>s'. pumps fuel alloc prog (map (\<lambda>n. [of_nat n, of_nat n]) ns) s = Some s'))"
proof (intro conjI allI impI)
  show "m_currentTime s' = m_currentTime s + 64 * of_nat (last (n0 # ns) - n0)"
    if "pumps fuel alloc prog (map (\<lambda>n. [of_nat n, of_nat n]) ns) s = Some s'" for s'
    using assms that by (rule pumps_time)
  assume q: "quiet prog \<and> distinct (ids (m_timers s)) \<and> Suc (length (m_timers s) * Suc (length (m_timers s))) < fuel"
  then obtain f where f: "fuel = Suc f" by (cases fuel) auto
  show "\<exists>s'. pumps fuel alloc prog (map (\<lambda>n. [of_nat n, of_nat n]) ns) s = Some s'"
    using quiet_pumps [of prog s f n0 ns alloc] q assms(2,3) unfolding f by auto
qed

section \<open>Pumps inside the pump\<close>

text \<open>a one-shot timer at the front of the list whose callback pumps, as any blocking call does, runs itself again: it stays in the list
  until its callback has returned, so the pump inside it finds it due and calls it once more, and the pump never returns.\<close>

theorem pumping_timer_recurses:
  assumes "m_timers s = t # rest" "due (m_currentTime s) t" "\<not> t_periodic t" "prog (t_callback t) = Pump [count, count] # acts"
    "m_lastHSyncCounter s = count"
  shows "gpu_pump fuel alloc prog [count, count] s = None"
  using assms(1,2,5)
proof (induction fuel arbitrary: s)
  case 0
  then show ?case by simp
next
  case (Suc fuel)
  have tick: "tick count s = s" using Suc.prems(3) by (simp add: tick_def Let_def)
  define s1 where "s1 = log_call (Some (t_id t)) (t_callback t) (Some (m_currentTime s)) s"
  have "gpu_pump fuel alloc prog [count, count] s1 = None"
    using Suc.IH [of s1] Suc.prems by (simp add: s1_def log_call_def)
  then have "run_acts alloc (gpu_pump fuel alloc prog) (prog (t_callback t)) s1 = None" by (simp add: assms(4) run_act_def)
  then have "run_timers fuel alloc prog (gpu_pump fuel alloc prog) (m_currentTime s) None s = None"
    using Suc.prems(1,2) assms(3) by (cases fuel) (simp_all add: expire_def s1_def)
  then show ?case by (simp add: tick Let_def)
qed

lemma tick_same: "m_lastHSyncCounter s' = m_lastHSyncCounter s \<Longrightarrow>
    m_currentTime (tick count s') = m_currentTime s' + (m_currentTime (tick count s) - m_currentTime s)"
  by (simp add: tick_def Let_def)

lemma fuel_four: "4 \<le> n \<Longrightarrow> \<exists>f. n = Suc (Suc (Suc (Suc f)))"
  by (rule exI [of _ "n - 4"]) simp

text \<open>what has gone by on the line counter is counted once more by each pump inside a callback, as the pump takes note of the reading
  only when all its callbacks have returned: behind one such pump the time kept is ahead by all of it.\<close>

theorem nested_pump_counts_twice:
  assumes "m_timers s = [t]" "t_periodic t" "due (m_currentTime (tick count s)) t" "prog (t_callback t) = [Pump [count, count]]" "\<not> k_flag s"
    "passed = m_currentTime (tick count s) - m_currentTime s"
    "\<not> due (m_currentTime s + 2 * passed) (t\<lparr>t_deadline := t_deadline t + t_period t\<rparr>)" "4 \<le> fuel"
  shows "\<exists>s'. gpu_pump fuel alloc prog [count, count] s = Some s' \<and> m_currentTime s' = m_currentTime s + 2 * passed \<and> m_lastHSyncCounter s' = count"
proof -
  obtain f where f: "fuel = Suc (Suc (Suc (Suc f)))" using fuel_four [OF assms(8)] by blast
  define t1 where "t1 = t\<lparr>t_deadline := t_deadline t + t_period t\<rparr>"
  have t1: "t_id t1 = t_id t" by (simp add: t1_def)
  define s1 where "s1 = log_call (Some (t_id t)) (t_callback t) (Some (m_currentTime (tick count s))) (expire t (tick count s))"
  have s1: "m_timers s1 = [t1]" "m_currentTime s1 = m_currentTime s + passed" "m_lastHSyncCounter s1 = m_lastHSyncCounter s" "\<not> k_flag s1"
    using assms(1,2,5,6) by (simp_all add: s1_def log_call_def expire_def tick_def Let_def t1_def)
  define s2 where "s2 = note_field ((tick count s1)\<lparr>m_lastHSyncCounter := count\<rparr>)"
  have now: "m_currentTime (tick count s1) = m_currentTime s + 2 * passed"
    unfolding tick_same [OF s1(3), of count, folded assms(6)] s1(2) by (simp only: mult_2 add.assoc)
  have ts: "m_timers (tick count s1) = [t1]" "\<not> k_flag (tick count s1)" using s1 by (simp_all add: tick_def Let_def)
  have nd: "\<not> due (m_currentTime (tick count s1)) t1" unfolding now t1_def by (rule assms(7))
  have inner: "gpu_pump (Suc (Suc (Suc f))) alloc prog [count, count] s1 = Some s2"
    using ts nd by (simp add: Let_def kernel_pump_def s2_def)
  have s2: "m_timers s2 = [t1]" "m_currentTime s2 = m_currentTime s + 2 * passed" "\<not> k_flag s2" using ts now by (simp_all add: s2_def note_field_def)
  have t0: "m_timers (tick count s) = [t]" using assms(1) by (simp add: tick_def Let_def)
  have "run_timers (Suc (Suc (Suc f))) alloc prog (gpu_pump (Suc (Suc (Suc f))) alloc prog) (m_currentTime (tick count s)) None (tick count s) = Some s2"
    using t0 assms(2-4) inner s2(1) t1 by (simp add: s1_def [symmetric] run_act_def del: gpu_pump.simps)
  then have "gpu_pump fuel alloc prog [count, count] s = Some (note_field (s2\<lparr>m_lastHSyncCounter := count\<rparr>))"
    using s2(3) unfolding f gpu_pump.simps(2) [of "Suc (Suc (Suc f))"] by (simp add: Let_def kernel_pump_def del: gpu_pump.simps run_timers.simps)
  then show ?thesis using s2(2) by (simp add: note_field_def)
qed

section \<open>Witnesses\<close>

definition new_timer :: "nat \<Rightarrow> u32 \<Rightarrow> u32 \<Rightarrow> bool \<Rightarrow> timer" where
  "new_timer i deadline period periodic = \<lparr>t_id = i, t_callback = i, t_deadline = deadline, t_period = period, t_remaining = 0,
     t_periodic = periodic, t_paused = False\<rparr>"

definition clock_of :: "timer list \<Rightarrow> clock" where
  "clock_of ts = \<lparr>m_timers = ts, m_currentTime = 1000, m_lastHSyncCounter = 65530, k_callbacks = [], k_flag = False, m_interlaced = False,
     m_lastLongFieldFrame = 0x80000000, psyqoFrameCounter = 0, gpustat_31 = False, calls = []\<rparr>"

text \<open>Two one-shot timers, one of them due, and a periodic one that is late by more than a period; the counter wraps.\<close>

definition three_timers :: "timer list" where
  "three_timers = [new_timer 0 1100 500 True, new_timer 1 5000 0 False, new_timer 2 1500 0 False]"

lemma clock_of_simps [simp]: "m_timers (clock_of ts) = ts" "m_currentTime (clock_of ts) = 1000" "m_lastHSyncCounter (clock_of ts) = 65530"
    "\<not> k_flag (clock_of ts)" "calls (clock_of ts) = []"
  by (simp_all add: clock_of_def)

lemma tick_clock_of: "m_currentTime (tick 4 (clock_of ts)) = 1640" "m_currentTime (tick 65530 (clock_of ts)) = 1000"
  by (simp_all add: tick_def Let_def US_PER_HBLANK_def)

lemma pump_serves_timers_witness:
  "\<exists>s' L. gpu_pump 21 (\<lambda>is. 9) (\<lambda>cb. []) [3, 4, 4, 4] (clock_of three_timers) = Some s' \<and> m_currentTime s' = 1640 \<and>
    fires L 1 = 0 \<and> fires L 2 = 1 \<and> 1 \<le> fires L 0 \<and> calls s' = L"
proof -
  have "distinct (ids three_timers)" by (simp add: three_timers_def new_timer_def)
  moreover have "stable_read [3, 4, 4, 4] = Some 4" by simp
  moreover have "quiet (\<lambda>cb. [])" by (simp add: quiet_def)
  moreover have "length three_timers * Suc (length three_timers) < 20" by (simp add: three_timers_def)
  moreover have "\<forall>t\<in>set three_timers. t_id t = 0 \<and> due 1640 t \<and> t_periodic t \<or> t_id t = 1 \<and> \<not> due 1640 t \<or> t_id t = 2 \<and> due 1640 t \<and> \<not> t_periodic t"
    by (simp add: three_timers_def new_timer_def due_def)
  ultimately obtain s' L where p: "gpu_pump (Suc 20) (\<lambda>is. 9) (\<lambda>cb. []) [3, 4, 4, 4] (clock_of three_timers) = Some s'" "m_currentTime s' = 1640"
      "calls s' = [] @ L" "\<forall>t\<in>set three_timers. if \<not> due 1640 t then fires L (t_id t) = 0 else if \<not> t_periodic t then fires L (t_id t) = 1
       else 1 \<le> fires L (t_id t) \<and> fires L (t_id t) \<le> Suc (length (filter (\<lambda>t. due 1640 t \<and> \<not> t_periodic t) three_timers))"
    using pump_serves_timers [of "\<lambda>cb. []" "clock_of three_timers" "[3, 4, 4, 4]" 4 1640 20 "\<lambda>is. 9"]
    unfolding clock_of_simps tick_clock_of by blast
  then have "fires L 1 = 0" "fires L 2 = 1" "1 \<le> fires L 0"
    by (simp_all add: three_timers_def new_timer_def due_def del: gpu_pump.simps)
  then show ?thesis using p(1-3) by (intro exI [of _ s'] exI [of _ L]) (simp del: gpu_pump.simps)
qed

lemma clock_keeps_time_witness:
  "\<exists>s'. pumps 22 (\<lambda>is. 9) (\<lambda>cb. []) (map (\<lambda>n. [of_nat n, of_nat n]) [65540, 65600, 131100]) (clock_of three_timers) = Some s' \<and>
    m_currentTime s' = 1000 + 64 * of_nat (131100 - 65530)"
proof -
  have q: "quiet (\<lambda>cb. [])" "distinct (ids three_timers)" "Suc (length three_timers * Suc (length three_timers)) < 22" "no_pump (\<lambda>cb. [])"
    by (simp_all add: three_timers_def new_timer_def quiet_def no_pump_def)
  have "list_all2 (\<lambda>n n'. n \<le> n' \<and> n' < n + (65536 :: nat)) (butlast [65530, 65540, 65600, 131100]) [65540, 65600, 131100]" by simp
  from clock_keeps_time [of "\<lambda>cb. []" "clock_of three_timers", OF q(4) _ this, of 22 "\<lambda>is. 9"] q show ?thesis
    by (simp del: gpu_pump.simps pumps.simps list.map) blast
qed

lemma pumping_timer_recurses_witness:
  "gpu_pump 50 (\<lambda>is. 9) (\<lambda>cb. [Pump [65530, 65530]]) [65530, 65530] (clock_of [new_timer 2 900 0 False]) = None"
  by (rule pumping_timer_recurses [of _ "new_timer 2 900 0 False" "[]"]) (simp_all add: new_timer_def due_def del: gpu_pump.simps)

lemma nested_pump_counts_twice_witness:
  "\<exists>s'. gpu_pump 9 (\<lambda>is. 9) (\<lambda>cb. [Pump [4, 4]]) [4, 4] (clock_of [new_timer 2 1500 10000 True]) = Some s' \<and> m_currentTime s' = 1000 + 2 * 640"
  using nested_pump_counts_twice [of "clock_of [new_timer 2 1500 10000 True]" "new_timer 2 1500 10000 True" 4 "\<lambda>cb. [Pump [4, 4]]" 640 9 "\<lambda>is. 9"]
  by (simp add: tick_clock_of new_timer_def due_def del: gpu_pump.simps) blast

end
