(* ===== verification/Spec2Isabelle.thy ===== *)
theory Spec2Isabelle
  imports Adler32 Msf Card_Async Card_Polled Card_Engine Mips_Codec Events Threads
    Cdrom_Protocol Heap_Ops Monitor_Load Monitor_Stops Iso_Disc Cd_Contract
    Ordering_Table Gpu_Clock
begin

text \<open>
  A verification library of nugget, the collection of PlayStation 1 software around PCSX-Redux: the C++ library
  psyqo, the replacement BIOS OpenBIOS, the debug monitor, and helpers they share. Modelled are the parts that
  carry logic of their own, from drivers that talk to a device byte by byte to a filesystem, an allocator and
  an assembler. All paths are under \<open>src/\<close>.

  \<^bold>\<open>Conventions.\<close>
  Machine integers are words of their width (\<open>u8\<close> to \<open>u64\<close> of \<open>Prelude\<close>) wherever the code computes with them;
  loop counters and lengths the code bounds are natural numbers. A class or struct is a record, an \<open>enum\<close> a
  datatype or a constant, one operation one definition with the name it has in the code; the functions of the
  assembler carry the prefix \<open>enc_\<close>, because many of their names are taken. State is passed explicitly. The
  device, the player's console, the host on a serial line and the caller's callbacks are arguments: the sequence
  of bytes or interrupts they produce. What the code writes to a device is a log in the state. A read outside a
  table, a wait without an end and a walk that never comes back are the value \<open>None\<close>; where a theorem says that
  an operation returns, it says that the value is not \<open>None\<close>.

  \<^bold>\<open>The parts, and where they are.\<close>

  \<^item> Shared: \<open>Prelude\<close> (integer types, lemmas on words and lists, loops with a bound, and the locale
    \<open>codec\<close>, the contract of an encoder and a decoder, which the assembler, BCD and disc addresses interpret).

  \<^item> Memory card driver, \<open>psyqo/src/memory-card.cpp\<close>, \<open>psyqo/memory-card.hh\<close>, \<open>psyqo/hardware/sio.hh\<close>.
    \<open>Card_Types\<close> holds errors, ports, geometry and the contract of a retried operation (\<open>single_attempt\<close>,
    \<open>decided_attempt\<close>). \<open>Card_Driver\<close> holds the driver's state and every operation of the interrupt-driven
    transport, and the contract of a byte machine (\<open>byte_machine\<close>). \<open>Card_Transfer\<close> interprets the contracts on
    the read and the write machine: what a transfer accepts, what it sends, what it leaves in the buffer and on
    the port, with its three attempts. \<open>Card_Async\<close> shows that the asynchronous path refines a request with
    retries and delivers once. \<open>Card_Polled\<close> models the polled transport and compares the two.

  \<^item> Memory card filesystem, \<open>psyqo/src/memory-card-filesystem.cpp\<close> and \<open>psyqo/hardware/sio0-bus.hh\<close>.
    \<open>Card_Directory\<close> holds the directory of fifteen frames and its walks, each equal to following the links.
    \<open>Card_Filesystem\<close> holds the transaction engine: the operation that is under way asks for one sector transfer
    at a time, and is told its outcome. \<open>Card_Engine\<close> holds its invariant, the end of every operation, the places
    an operation may write, and the allocator of blocks. An operation makes at most 1020 transfers: 15 blocks of
    64 sectors, the directory and its copies.

  \<^item> Adler-32, \<open>psyqo/src/adler32.cpp\<close>: \<open>Adler32\<close>, the unrolled and deferred sums against the definition.

  \<^item> Disc addresses, \<open>psyqo/msf.hh\<close>, \<open>psyqo/src/msf.cpp\<close>: \<open>Msf\<close>.

  \<^item> MIPS I assembler and decoder, \<open>common/util/encoder.hh\<close>, \<open>decoder.hh\<close>, \<open>mips.hh\<close>: \<open>Mips_Encoder\<close>,
    \<open>Mips_Decoder\<close>, and \<open>Mips_Codec\<close> with the round trip, the targets and the masks of unaligned accesses.

  \<^item> OpenBIOS events and threads, \<open>openbios/kernel/events.c\<close>, \<open>threads.c\<close>: \<open>Events\<close>, \<open>Threads\<close>.

  \<^item> OpenBIOS heap, \<open>openbios/kernel/alloc.c\<close>: \<open>Kernel_Heap\<close> holds the allocator on 32-bit pointers into a
    memory of words. \<open>Heap_Lists\<close> holds the abstract heap, a list of free blocks, and relates the links to it.
    \<open>Heap_Ops\<close> shows that allocation and release refine the operations on lists. The walk for the smallest
    block that fits ends because it stops at a link that goes backwards; the one of a reallocation has no such
    guard and is a partial function.

  \<^item> OpenBIOS CD-ROM state machine, \<open>openbios/cdrom/statemachine.c\<close>, \<open>events.c\<close>: \<open>Cdrom_Machine\<close> holds every
    function of it; \<open>Cdrom_Protocol\<close> the states it reaches, a whole read, the completion of its transfers, and
    the reporting of errors. The wait for the controller polls 500000 times, as in the code.

  \<^item> Monitor frame layer, \<open>monitor/transport.c\<close>, \<open>monitor/link*.h\<close>: \<open>Monitor_Transport\<close> holds sending,
    receiving, resynchronisation on each link, the test for a stop and the negotiation of a rate (20000 and
    3000000 polls, as in the code); \<open>Frame_Layer\<close> the round trip of a frame and the refusal of a damaged one.

  \<^item> LZ4, \<open>lz4/lz4.c\<close> and \<open>monitor/lz4stream.c\<close>: \<open>Lz4\<close> holds both decoders and the meaning of a block;
    \<open>Lz4_Decode\<close> shows that both compute that meaning and nothing else.

  \<^item> Monitor, \<open>monitor/monitor.c\<close>, \<open>monitor.h\<close>, \<open>cop0dbg.h\<close>: \<open>Monitor\<close> holds the state, every command, the
    command loop, the exception entry and the start. \<open>Monitor_Replies\<close> and \<open>Monitor_Receive\<close> hold what is sent and
    what is read off the line, \<open>Monitor_Commands\<close> what each command does, \<open>Monitor_Protocol\<close> that each frame of the
    host is consumed and gets exactly the frames that are due to it, and that memory written is memory read,
    \<open>Monitor_Load\<close> the load of an LZ4 stream in slices, \<open>Monitor_State\<close> the break points and the
    invariant over exceptions and frames, \<open>Monitor_Stops\<close> a stop, what the host reads and writes then, and what continues after it. A command loop is
    given one step for each frame of the host, so it ends with them.

  \<^item> ISO 9660 parser, \<open>psyqo/src/iso9660-parser.cpp\<close>, \<open>psyqo/iso9660-parser.hh\<close>: \<open>Iso_Parser\<close> holds every operation
    over a device that is a function from the number of a read and a sector to a sector or a failure. \<open>Iso_Lookup\<close>
    says what a path means on a disc and when a disc holds together, \<open>Iso_Find\<close> treats the search of a directory,
    \<open>Iso_Paths\<close> the lookup with its cache of the last directory, \<open>Iso_Walk\<close> the start, the walks and sessions of
    both. \<open>Iso_Disc\<close> holds the properties, a small disc they are tried on, and the lookup of "/" that misleads.

  \<^item> psyqo CD-ROM device, \<open>psyqo/src/cdrom-device*.cpp\<close>, \<open>psyqo/cdrom-device.hh\<close>, \<open>psyqo/hardware/cdrom.hh\<close>:
    \<open>Cd_Device\<close> holds the loop of the interrupt handler, every action as the state machine it is, the queue of
    callbacks and the controls of playback. \<open>Cd_Steps\<close> shows that requests are answered in order and once each,
    \<open>Cd_Reading\<close> follows a read, \<open>Cd_Toc\<close> the reading of the table of contents, \<open>Cd_Contract\<close> holds the properties.

  \<^item> psyqo GPU transfers and timers, \<open>psyqo/src/gpu.cpp\<close>, \<open>psyqo/gpu.hh\<close>, \<open>psyqo/src/ordering-table.cpp\<close>,
    \<open>psyqo/ordering-table.hh\<close>, \<open>psyqo/fragments.hh\<close>: \<open>Gpu_Chain\<close> holds chains of fragments, the transfers and the
    interrupt that goes on behind each, and the DMA engine as documented (it stops at a link with bit 23 set; a run of
    it follows as many headers as there are fragments). \<open>Gpu_Sent\<close> treats the sending of a chain, \<open>Gpu_Done\<close> its end
    and its construction, \<open>Gpu_Contract\<close> both together. \<open>Ordering_Table\<close> holds the tables, the order in which a
    filled one is sent, and the clearing by the processor that does not work. \<open>Gpu_Timers\<close> holds the timers and the
    pump that serves them, with the queue of callbacks of the kernel, a ring of 32 places; \<open>Gpu_Clock\<close> which timers
    fire when callbacks leave them alone, the time that is kept when no callback pumps, and what goes wrong when one does. A pump over \<open>n\<close> timers takes less than \<open>n * (n + 1) + 1\<close>
    steps, as it starts again only behind a timer that has gone.

  \<^bold>\<open>How they interact.\<close>
  The filesystem asks the driver for sectors and is called back with their outcome (\<open>run\<close> of \<open>Card_Filesystem\<close>
  closes the loop with a card that fails at will; \<open>async_refines_request\<close> is the driver's side of that contract).
  The CD-ROM state machine delivers and undelivers events by calls to the kernel, which are logged in the order
  they are made; what a delivery does to the table of events is in \<open>Events\<close>. The monitor receives and sends through the frame
  layer and feeds the stream decoder with the words of a frame. The ISO 9660 parser reads through the CD-ROM device:
  a read of its model is one call with one answer, which is what the device gives for each request. The device and the
  GPU hand their callbacks to the queue of the kernel, which the pump of the GPU empties.

  \<^bold>\<open>Not modelled.\<close>
  Code whose effect is what a device draws or plays (the primitives of the GPU, SPU, GTE, pads, the audio players),
  assembly (the vectors and the context switch of OpenBIOS, the slot entry of the monitor), bindings (psyqo-lua),
  tables of glyphs, examples and test programs. Inside the modelled parts: coroutine and task wrappers, which only
  forward; the conversion of a title to Shift-JIS, a parameter; the watchdog of the monitor, whose effect is a board that
  does not reset, and the installation of its vectors; names that do not fit the fifteen places of the entries the ISO 9660
  parser hands out; the memory a transfer of the CD-ROM drive fills; the bound of 32 places of the kernel's queue where the CD-ROM
  device uses it (\<open>Cd_Device\<close> has a list; the ring is in \<open>Gpu_Timers\<close>); the video mode of the GPU, the swap of its
  buffers and the blocking forms of its transfers; static variables that are written and never read. The rest of psyqo and OpenBIOS is listed with its reason in
  the manifest.
\<close>

end
